(* ===== verification/Prelude.thy ===== *)
theory Prelude
  imports Main "HOL-Library.Word"
begin

unbundle bit_operations_syntax

section \<open>Prelude: machine types, faults, heaps\<close>

text \<open>
  Shared vocabulary of the development.

  \<^item> Machine types: bytes, \<open>uint32_t\<close> and \<open>size_t\<close> are words of their width, so
    that arithmetic on the byte counters wraps as it does in the code. A C++ \<open>int\<close> that
    counts bytes inside one block is an \<open>int\<close>; the invariants bound it by the block size.
  \<^item> Faults: dereferencing a null pointer, touching a deleted object, writing outside an
    object and using an uninitialised pointer are undefined behaviour in C++. The model returns them as values (\<open>Inl\<close>), so that
    a theorem that an operation returns \<open>Inr\<close> is a memory-safety theorem.
  \<^item> Heaps: an allocator that never reuses an address, so that every access after a
    \<open>delete\<close> is visible as \<open>UseAfterFree\<close>.
\<close>

named_theorems res_simps \<open>evaluation of the fault monad\<close>
named_theorems heap_simps \<open>evaluation of loads, stores and allocations\<close>

type_synonym byte = "8 word"
type_synonym u32 = "32 word"
type_synonym size_t = "64 word"
type_synonym addr = nat
type_synonym ptr = "addr option"

datatype fault = NullDeref | UseAfterFree | OutOfBounds | Uninitialised

type_synonym 'a res = "fault + 'a"

definition INT32_MAX :: int where
  "INT32_MAX = 2147483647"

subsection \<open>The fault monad\<close>

definition res_bind :: "'a res \<Rightarrow> ('a \<Rightarrow> 'b res) \<Rightarrow> 'b res" where
  "res_bind m f = (case m of Inl e \<Rightarrow> Inl e | Inr x \<Rightarrow> f x)"

lemma res_bind_Inl [simp, res_simps]: "res_bind (Inl e) f = Inl e"
  by (simp add: res_bind_def)

lemma res_bind_Inr [simp, res_simps]: "res_bind (Inr x) f = f x"
  by (simp add: res_bind_def)

lemma res_bind_eq_Inr: "res_bind m f = Inr y \<longleftrightarrow> (\<exists>x. m = Inr x \<and> f x = Inr y)"
  by (cases m) auto

lemma res_bind_assoc: "res_bind (res_bind m f) g = res_bind m (\<lambda>x. res_bind (f x) g)"
  by (cases m) auto

text \<open>The same for code that may also fail to return (\<open>None\<close>).\<close>

definition ro_bind :: "'a res option \<Rightarrow> ('a \<Rightarrow> 'b res option) \<Rightarrow> 'b res option" where
  "ro_bind m f = (case m of None \<Rightarrow> None | Some (Inl e) \<Rightarrow> Some (Inl e) | Some (Inr x) \<Rightarrow> f x)"

lemma ro_bind_simps [simp, res_simps]:
  "ro_bind None f = None"
  "ro_bind (Some (Inl e)) f = Some (Inl e)"
  "ro_bind (Some (Inr x)) f = f x"
  by (simp_all add: ro_bind_def)

subsection \<open>A heap of objects of one type\<close>

record 'b heap =
  cells :: "addr \<Rightarrow> 'b option"
  brk :: addr

definition load :: "('b, 'z) heap_scheme \<Rightarrow> ptr \<Rightarrow> 'b res" where
  "load h p = (case p of None \<Rightarrow> Inl NullDeref
     | Some a \<Rightarrow> (case cells h a of None \<Rightarrow> Inl UseAfterFree | Some b \<Rightarrow> Inr b))"

definition upd :: "('b, 'z) heap_scheme \<Rightarrow> addr \<Rightarrow> 'b \<Rightarrow> ('b, 'z) heap_scheme" where
  "upd h a b = h\<lparr>cells := (cells h)(a := Some b)\<rparr>"

text \<open>A member assignment \<open>p->m = e\<close>: load the object, store it with one field changed.\<close>

definition modify :: "('b, 'z) heap_scheme \<Rightarrow> ptr \<Rightarrow> ('b \<Rightarrow> 'b) \<Rightarrow> ('b, 'z) heap_scheme res" where
  "modify h p f = res_bind (load h p) (\<lambda>b. Inr (upd h (the p) (f b)))"

text \<open>\<open>delete p\<close>: deleting a null pointer does nothing, deleting twice is a fault.\<close>

definition free :: "('b, 'z) heap_scheme \<Rightarrow> ptr \<Rightarrow> ('b, 'z) heap_scheme res" where
  "free h p = (case p of None \<Rightarrow> Inr h
     | Some a \<Rightarrow> (case cells h a of None \<Rightarrow> Inl UseAfterFree
         | Some b \<Rightarrow> Inr (h\<lparr>cells := (cells h)(a := None)\<rparr>)))"

lemma load_Some [simp, heap_simps]: "cells h a = Some b \<Longrightarrow> load h (Some a) = Inr b"
  by (simp add: load_def)

lemma load_None [simp, heap_simps]: "load h None = Inl NullDeref"
  by (simp add: load_def)

lemma load_freed [heap_simps]: "cells h a = None \<Longrightarrow> load h (Some a) = Inl UseAfterFree"
  by (simp add: load_def)

lemma cells_upd [simp, heap_simps]: "cells (upd h a b) c = (if c = a then Some b else cells h c)"
  by (simp add: upd_def)

lemma brk_upd [simp, heap_simps]: "brk (upd h a b) = brk h"
  by (simp add: upd_def)

lemma upd_upd [simp, heap_simps]: "upd (upd h a b) a c = upd h a c"
  by (simp add: upd_def)

lemma more_upd [simp, heap_simps]: "heap.more (upd h a b) = heap.more h"
  by (simp add: upd_def)

lemma modify_Some [simp, heap_simps]:
  "cells h a = Some b \<Longrightarrow> modify h (Some a) f = Inr (upd h a (f b))"
  by (simp add: modify_def)

lemma free_Some [simp, heap_simps]:
  "cells h a = Some b \<Longrightarrow> free h (Some a) = Inr (h\<lparr>cells := (cells h)(a := None)\<rparr>)"
  by (simp add: free_def)

subsection \<open>Lists\<close>

lemma drop_take_append: "m \<le> n \<Longrightarrow> drop m (take n xs) @ drop n xs = drop m xs"
  by (metis append_take_drop_id drop_drop drop_take le_add_diff_inverse2)

lemma hd_append_two [simp]: "hd (xs @ [x, y]) = hd (xs @ [x])"
  by (cases xs) simp_all

subsection \<open>Words as counters\<close>

lemma unat_less_LENGTH: "unat (w :: 'a::len word) < 2 ^ LENGTH('a)"
  by (rule unsigned_less)

lemma unat_add_of_int:
  fixes w :: "'a::len word"
  assumes "0 \<le> n" and "unat w + nat n < 2 ^ LENGTH('a)"
  shows "unat (w + of_int n) = unat w + nat n"
proof -
  have "(of_int n :: 'a word) = of_nat (nat n)"
    using assms(1) by simp
  moreover have "unat (w + of_nat (nat n)) = unat w + nat n"
    using assms(2) by (simp add: unat_word_ariths unat_of_nat take_bit_eq_mod mod_simps)
  ultimately show ?thesis by simp
qed

lemma unat_sub_of_int:
  fixes w :: "'a::len word"
  assumes "0 \<le> n" and "nat n \<le> unat w"
  shows "unat (w - of_int n) = unat w - nat n"
proof -
  have lt: "nat n < 2 ^ LENGTH('a)"
    using assms(2) unat_less_LENGTH [of w] by linarith
  have n: "(of_int n :: 'a word) = of_nat (nat n)"
    using assms(1) by simp
  have u: "unat (of_nat (nat n) :: 'a word) = nat n"
    using lt by (simp add: unat_of_nat take_bit_eq_mod)
  have "(of_nat (nat n) :: 'a word) \<le> w"
    using assms(2) u by (simp add: word_le_nat_alt)
  then show ?thesis
    by (simp only: n unat_sub u)
qed

subsection \<open>The bytes of a \<open>uint32_t\<close>\<close>

text \<open>
  The code copies lengths with \<open>memcpy\<close> in host byte order; the hosts it is built for are
  little-endian.
\<close>

definition u32_bytes :: "u32 \<Rightarrow> byte list" where
  "u32_bytes w = [ucast w, ucast (drop_bit 8 w), ucast (drop_bit 16 w), ucast (drop_bit 24 w)]"

fun bytes_u32 :: "byte list \<Rightarrow> u32" where
  "bytes_u32 [] = 0"
| "bytes_u32 (b # bs) = ucast b OR push_bit 8 (bytes_u32 bs)"

lemma length_u32_bytes [simp]: "length (u32_bytes w) = 4"
  by (simp add: u32_bytes_def)

lemma bytes_u32_bytes [simp]: "bytes_u32 (u32_bytes w) = w"
proof (rule bit_word_eqI)
  fix n assume "n < LENGTH(32)"
  then consider "n < 8" | "8 \<le> n" "n < 16" | "16 \<le> n" "n < 24" | "24 \<le> n" "n < 32"
    by fastforce
  then show "bit (bytes_u32 (u32_bytes w)) n = bit w n"
    by cases (auto simp: u32_bytes_def bit_simps)
qed

end
