(* ===== verification/Socket.thy ===== *)
theory Socket
  imports Prelude
begin

section \<open>Sockets (src/net/socket.h, src/net/socket.cc) and the kernel below them\<close>

text \<open>
  The kernel is not part of the repository. A connection sees it through \<open>read\<close> and
  \<open>writev\<close> on a non-blocking stream socket, and the model gives it a script: \<open>rx\<close> is what
  the next reads will find (data that arrived, the end of the stream, an error), \<open>tx\<close> how
  much the next writes will accept. An empty script is a socket that is not ready
  (\<open>EAGAIN\<close>). Data longer than the buffer of a \<open>read\<close> is delivered in pieces; the end of the
  stream stays. \<open>wire\<close> collects the bytes the kernel accepted. Theorems quantify over the
  scripts, so over everything a peer and a kernel may do.
\<close>

datatype errno = EAGAIN | EWOULDBLOCK | EINTR | EOTHER

datatype rx_event = RxData "byte list" | RxFin | RxErrno errno

datatype tx_event = TxTake nat | TxErrno errno

record os_socket =
  rx :: "rx_event list"
  tx :: "tx_event list"
  wire :: "byte list"
  shut_wr :: bool

text \<open>\<open>read(fd, buffer, max)\<close>: the bytes read (none at the end of the stream), or \<open>errno\<close>.\<close>

fun rx_read :: "rx_event list \<Rightarrow> nat \<Rightarrow> (errno + byte list) \<times> rx_event list" where
  "rx_read [] m = (Inl EAGAIN, [])"
| "rx_read (RxData [] # es) m = rx_read es m"
| "rx_read (RxData (b # bs) # es) m =
     (Inr (take m (b # bs)), if length (b # bs) \<le> m then es else RxData (drop m (b # bs)) # es)"
| "rx_read (RxFin # es) m = (Inr [], RxFin # es)"
| "rx_read (RxErrno e # es) m = (Inl e, es)"

definition os_read :: "os_socket \<Rightarrow> nat \<Rightarrow> (errno + byte list) \<times> os_socket" where
  "os_read k m = (let (r, es) = rx_read (rx k) m in (r, k\<lparr>rx := es\<rparr>))"

text \<open>
  \<open>writev\<close> of the bytes \<open>bs\<close>: how many were accepted, or \<open>errno\<close>. Writing after
  \<open>shutdown(SHUT_WR)\<close> is an error (\<open>EPIPE\<close>).
\<close>

definition os_writev :: "os_socket \<Rightarrow> byte list \<Rightarrow> (errno + nat) \<times> os_socket" where
  "os_writev k bs = (if shut_wr k then (Inl EOTHER, k)
     else case tx k of [] \<Rightarrow> (Inl EAGAIN, k)
       | TxErrno e # es \<Rightarrow> (Inl e, k\<lparr>tx := es\<rparr>)
       | TxTake n # es \<Rightarrow> (let m = min n (length bs) in
           (Inr m, k\<lparr>tx := es, wire := wire k @ take m bs\<rparr>)))"

subsection \<open>The class\<close>

record socket =
  sockfd :: int
  local_addr :: string
  local_port :: int
  peer_addr :: string
  peer_port :: int
  sock_closed :: bool
  os :: os_socket

text \<open>
  The constructor reads both addresses. \<open>getsockname\<close>, \<open>getpeername\<close> (the address and the
  port in network byte order) and \<open>inet_ntoa\<close> are parameters; \<open>ntohs\<close> swaps the two bytes
  on a little-endian host.
\<close>

definition ntohs :: "16 word \<Rightarrow> 16 word" where
  "ntohs w = push_bit 8 w OR drop_bit 8 w"

definition Socket :: "(int \<Rightarrow> u32 \<times> 16 word) \<Rightarrow> (int \<Rightarrow> u32 \<times> 16 word) \<Rightarrow> (u32 \<Rightarrow> string) \<Rightarrow>
    os_socket \<Rightarrow> int \<Rightarrow> socket" where
  "Socket getsockname getpeername inet_ntoa k fd =
     (let addr = getsockname fd; peer = getpeername fd in
      \<lparr>sockfd = fd, local_addr = inet_ntoa (fst addr), local_port = uint (ntohs (snd addr)),
       peer_addr = inet_ntoa (fst peer), peer_port = uint (ntohs (snd peer)),
       sock_closed = False, os = k\<rparr>)"

text \<open>\<open>close()\<close>: once, shut the writing side down; the descriptor stays open.\<close>

definition socket_close :: "socket \<Rightarrow> socket" where
  "socket_close s = (if sock_closed s then s
     else s\<lparr>os := (os s)\<lparr>shut_wr := True\<rparr>, sock_closed := True\<rparr>)"

subsection \<open>Lemmas\<close>

text \<open>The bytes that will arrive, and scripts without an end or a hard error.\<close>

fun rx_stream :: "rx_event list \<Rightarrow> byte list" where
  "rx_stream [] = []"
| "rx_stream (RxData bs # es) = bs @ rx_stream es"
| "rx_stream (RxFin # es) = rx_stream es"
| "rx_stream (RxErrno e # es) = rx_stream es"

fun rx_live :: "rx_event list \<Rightarrow> bool" where
  "rx_live [] \<longleftrightarrow> True"
| "rx_live (RxData bs # es) \<longleftrightarrow> rx_live es"
| "rx_live (RxFin # es) \<longleftrightarrow> False"
| "rx_live (RxErrno e # es) \<longleftrightarrow> e \<noteq> EOTHER \<and> rx_live es"

fun rx_weight :: "rx_event list \<Rightarrow> nat" where
  "rx_weight [] = 0"
| "rx_weight (RxData bs # es) = Suc (length bs + rx_weight es)"
| "rx_weight (RxFin # es) = Suc (rx_weight es)"
| "rx_weight (RxErrno e # es) = Suc (rx_weight es)"

text \<open>How often a reader of the script finds nothing there for the moment.\<close>

fun rx_pauses :: "rx_event list \<Rightarrow> nat" where
  "rx_pauses [] = 0"
| "rx_pauses (RxErrno e # es) = (if e = EAGAIN \<or> e = EWOULDBLOCK then Suc (rx_pauses es) else rx_pauses es)"
| "rx_pauses (_ # es) = rx_pauses es"

text \<open>
  Scripts of a kernel that makes a short write only when its buffer is full, so that the next
  write finds it still full.
\<close>

fun tx_steady :: "tx_event list \<Rightarrow> bool" where
  "tx_steady [] \<longleftrightarrow> True"
| "tx_steady (TxErrno e # es) \<longleftrightarrow> tx_steady es"
| "tx_steady (TxTake n # es) \<longleftrightarrow> tx_steady es \<and>
     (2 ^ 31 \<le> n \<or> es = [] \<or> hd es \<in> {TxErrno EAGAIN, TxErrno EWOULDBLOCK, TxErrno EOTHER})"

text \<open>The bytes a reader finds before it would have to wait, and what one call of the writer finds.\<close>

fun rx_now :: "rx_event list \<Rightarrow> byte list" where
  "rx_now [] = []"
| "rx_now (RxData bs # es) = bs @ rx_now es"
| "rx_now (RxFin # es) = []"
| "rx_now (RxErrno e # es) = (if e = EINTR then rx_now es else [])"

text \<open>
  How many bytes the kernel takes now, from a writer that goes on until it is refused, and the
  script afterwards, for a queue of \<open>q\<close> bytes.
\<close>

fun tx_room :: "tx_event list \<Rightarrow> nat" where
  "tx_room [] = 0"
| "tx_room (TxErrno e # es) = (if e = EINTR then tx_room es else 0)"
| "tx_room (TxTake n # es) = n"

fun tx_rest :: "nat \<Rightarrow> tx_event list \<Rightarrow> tx_event list" where
  "tx_rest q [] = []"
| "tx_rest q (TxErrno e # es) = (if e = EINTR then tx_rest q es else es)"
| "tx_rest q (TxTake n # es) = (if q \<le> n then es else tl es)"

text \<open>A kernel that takes whatever it is given, for at least \<open>n\<close> calls.\<close>

definition tx_open :: "nat \<Rightarrow> tx_event list \<Rightarrow> bool" where
  "tx_open n ts \<longleftrightarrow> n \<le> length ts \<and>
     list_all (\<lambda>ev. case ev of TxTake m \<Rightarrow> 2 ^ 31 \<le> m | TxErrno _ \<Rightarrow> False) ts"

lemma tx_open_less: "tx_open n ts \<Longrightarrow> m \<le> n \<Longrightarrow> tx_open m ts"
  by (simp add: tx_open_def)

lemma tx_open_first:
  assumes "tx_open (Suc n) ts" and "q < 2 ^ 31"
  shows "q \<le> tx_room ts" and "tx_open n (tx_rest q ts)"
  using assms by (cases ts; cases "hd ts"; simp add: tx_open_def)+

lemma rx_read_now:
  assumes "rx_read es m = (r, es')" and "rx_live es" and "0 < m"
  shows "r = Inr bs \<Longrightarrow> rx_now es = bs @ rx_now es'"
    and "r = Inl e \<Longrightarrow> e \<noteq> EINTR \<Longrightarrow> rx_now es = []" and "r = Inl EINTR \<Longrightarrow> rx_now es = rx_now es'"
  using assms by (induction es m rule: rx_read.induct) (auto split: if_splits)

lemma rx_read_data:
  assumes "rx_read es m = (Inr bs, es')" and "bs \<noteq> []"
  shows "rx_stream es = bs @ rx_stream es'" and "length bs \<le> m"
    and "rx_weight es' < rx_weight es" and "rx_live es \<Longrightarrow> rx_live es'"
    and "rx_pauses es' = rx_pauses es"
  using assms by (induction es m rule: rx_read.induct) (auto simp: min_def split: if_splits)

lemma rx_read_errno:
  assumes "rx_read es m = (Inl e, es')"
  shows "rx_stream es = rx_stream es'" and "rx_weight es' \<le> rx_weight es"
    and "e \<noteq> EAGAIN \<Longrightarrow> rx_weight es' < rx_weight es" and "rx_live es \<Longrightarrow> rx_live es' \<and> e \<noteq> EOTHER"
    and "e = EINTR \<Longrightarrow> rx_pauses es' = rx_pauses es"
    and "e = EAGAIN \<or> e = EWOULDBLOCK \<Longrightarrow> es' = [] \<or> rx_pauses es' < rx_pauses es"
  using assms by (induction es m rule: rx_read.induct) auto

lemma rx_read_live_nonempty:
  "rx_read es m = (Inr bs, es') \<Longrightarrow> rx_live es \<Longrightarrow> 0 < m \<Longrightarrow> bs \<noteq> []"
  by (induction es m rule: rx_read.induct) auto

lemma os_read_fields:
  assumes "os_read k m = (r, k')"
  shows "rx_read (rx k) m = (r, rx k')" and "k' = k\<lparr>rx := rx k'\<rparr>"
  using assms by (auto simp: os_read_def split: prod.splits)

lemma os_read_less:
  "os_read k m = (Inr bs, k') \<Longrightarrow> bs \<noteq> [] \<Longrightarrow> rx_weight (rx k') < rx_weight (rx k)"
  "os_read k m = (Inl EINTR, k') \<Longrightarrow> rx_weight (rx k') < rx_weight (rx k)"
  by (auto dest!: os_read_fields(1) dest: rx_read_data(3) rx_read_errno(3))

lemma os_writev_less:
  "os_writev k bs = (Inr n, k') \<Longrightarrow> length (tx k') < length (tx k)"
  "os_writev k bs = (Inl EINTR, k') \<Longrightarrow> length (tx k') < length (tx k)"
  by (auto simp: os_writev_def Let_def split: if_splits list.splits tx_event.splits)

lemma socket_close_simps [simp]:
  "sock_closed (socket_close s)" "rx (os (socket_close s)) = rx (os s)"
  "wire (os (socket_close s)) = wire (os s)"
  "socket_close (socket_close s) = socket_close s"
  by (simp_all add: socket_close_def)

lemma ntohs_ntohs: "ntohs (ntohs w) = w"
proof (rule bit_word_eqI)
  fix n assume "n < LENGTH(16)"
  then show "bit (ntohs (ntohs w)) n = bit w n"
    by (auto simp: ntohs_def bit_simps)
qed

end
