(* ===== verification/BufferBlock.thy ===== *)
theory BufferBlock
  imports Prelude
begin

section \<open>Buffer blocks (src/util/buffer_block.h) and chains of them\<close>

text \<open>
  Both stream buffers keep their bytes in a singly linked list of 8192-byte blocks. The model
  keeps the pointers: a buffer owns a heap of blocks, a block holds the address of its
  successor, and every \<open>->\<close> of the code is a load that can fault. A fresh block's data
  array is not initialised by the code, so the heap carries the arbitrary bytes
  (\<open>junk\<close>) found in fresh memory, and every theorem holds for all of them.

  The lemmas relate a chain of blocks in the heap to a list of addresses (\<open>chain\<close>),
  and say how the updates the buffers make (a field of a block that keeps its successor, a new
  block linked after the last one, the deletion of the first block) act on that list.
\<close>

definition kBlockSize :: int where
  "kBlockSize = 8192"

record buffer_block =
  blk_begin :: int
  blk_end :: int
  blk_data :: "nat \<Rightarrow> byte"
  blk_next :: ptr

record block_heap = "buffer_block heap" +
  junk :: "addr \<Rightarrow> nat \<Rightarrow> byte"

text \<open>\<open>new BufferBlock\<close>: the member initialisers of the struct, uninitialised data.\<close>

definition new_block :: "block_heap \<Rightarrow> ptr \<times> block_heap" where
  "new_block h = (Some (brk h),
     (upd h (brk h) \<lparr>blk_begin = 0, blk_end = 0, blk_data = junk h (brk h), blk_next = None\<rparr>)
       \<lparr>brk := Suc (brk h)\<rparr>)"

definition empty_heap :: "(addr \<Rightarrow> nat \<Rightarrow> byte) \<Rightarrow> block_heap" where
  "empty_heap j = \<lparr>cells = (\<lambda>_. None), brk = 0, junk = j\<rparr>"

subsection \<open>Bytes of a block\<close>

definition slice :: "(nat \<Rightarrow> byte) \<Rightarrow> nat \<Rightarrow> nat \<Rightarrow> byte list" where
  "slice d b e = map d [b..<e]"

definition copy_into :: "(nat \<Rightarrow> byte) \<Rightarrow> nat \<Rightarrow> byte list \<Rightarrow> nat \<Rightarrow> byte" where
  "copy_into d off bs = (\<lambda>i. if off \<le> i \<and> i < off + length bs then bs ! (i - off) else d i)"

text \<open>
  \<open>memcpy\<close> out of and into the data array of a block; a range that leaves the array is
  a fault.
\<close>

definition block_get :: "buffer_block \<Rightarrow> int \<Rightarrow> nat \<Rightarrow> byte list res" where
  "block_get b off n = (if 0 \<le> off \<and> off + int n \<le> kBlockSize
     then Inr (slice (blk_data b) (nat off) (nat off + n)) else Inl OutOfBounds)"

definition block_put :: "buffer_block \<Rightarrow> int \<Rightarrow> byte list \<Rightarrow> buffer_block res" where
  "block_put b off bs = (if 0 \<le> off \<and> off + int (length bs) \<le> kBlockSize
     then Inr (b\<lparr>blk_data := copy_into (blk_data b) (nat off) bs\<rparr>) else Inl OutOfBounds)"

text \<open>The readable bytes of a block: \<open>data[begin .. end)\<close>.\<close>

definition blk_bytes :: "buffer_block \<Rightarrow> byte list" where
  "blk_bytes b = slice (blk_data b) (nat (blk_begin b)) (nat (blk_end b))"

definition blk_wf :: "buffer_block \<Rightarrow> bool" where
  "blk_wf b \<longleftrightarrow> 0 \<le> blk_begin b \<and> blk_begin b \<le> blk_end b \<and> blk_end b \<le> kBlockSize"

subsection \<open>The list of blocks behind a pointer\<close>

primrec chain :: "block_heap \<Rightarrow> ptr \<Rightarrow> addr list \<Rightarrow> ptr \<Rightarrow> bool" where
  "chain h p [] q \<longleftrightarrow> p = q"
| "chain h p (a # as) q \<longleftrightarrow> p = Some a \<and> (\<exists>b. cells h a = Some b \<and> chain h (blk_next b) as q)"

text \<open>
  The executable reading of a chain: follow \<open>next\<close> for at most \<open>n\<close> blocks. The
  addresses of a chain are distinct and below the allocation mark, so \<open>brk h\<close> steps
  reach its end (\<open>blocks_from_chain\<close>).
\<close>

fun walk :: "block_heap \<Rightarrow> nat \<Rightarrow> ptr \<Rightarrow> addr list" where
  "walk h 0 p = []"
| "walk h (Suc n) None = []"
| "walk h (Suc n) (Some a) =
     (case cells h a of None \<Rightarrow> [] | Some b \<Rightarrow> a # walk h n (blk_next b))"

definition blocks_from :: "block_heap \<Rightarrow> ptr \<Rightarrow> addr list" where
  "blocks_from h p = walk h (brk h) p"

definition blocks :: "block_heap \<Rightarrow> addr list \<Rightarrow> buffer_block list" where
  "blocks h as = map (\<lambda>a. the (cells h a)) as"

definition block_bytes :: "buffer_block list \<Rightarrow> byte list" where
  "block_bytes bl = concat (map blk_bytes bl)"

text \<open>The heap consists of exactly the blocks of the chain behind \<open>p\<close>.\<close>

definition owns :: "block_heap \<Rightarrow> ptr \<Rightarrow> addr list \<Rightarrow> bool" where
  "owns h p as \<longleftrightarrow> chain h p as None \<and> distinct as \<and> dom (cells h) = set as \<and>
     (\<forall>a \<in> set as. a < brk h)"

text \<open>
  How both buffers use a chain as a byte queue: every block but the last is filled to its end,
  and only the first block may have been read from.
\<close>

fun filled :: "buffer_block list \<Rightarrow> bool" where
  "filled [] \<longleftrightarrow> False"
| "filled [b] \<longleftrightarrow> blk_wf b"
| "filled (b # c # bs) \<longleftrightarrow> blk_wf b \<and> blk_end b = kBlockSize \<and> blk_begin c = 0 \<and> filled (c # bs)"

subsection \<open>Lemmas on slices\<close>

lemma length_slice [simp]: "length (slice d b e) = e - b"
  by (simp add: slice_def)

lemma slice_empty [simp]: "e \<le> b \<Longrightarrow> slice d b e = []"
  by (simp add: slice_def)

lemma slice_append: "b \<le> m \<Longrightarrow> m \<le> e \<Longrightarrow> slice d b e = slice d b m @ slice d m e"
  unfolding slice_def map_append [symmetric] by (metis le_Suc_ex upt_add_eq_append)

lemma take_slice: "take n (slice d b e) = slice d b (min e (b + n))"
  unfolding slice_def take_map by (cases "b + n \<le> e") (simp_all add: min_def)

lemma drop_slice: "drop n (slice d b e) = slice d (b + n) e"
  by (simp add: slice_def drop_map)

lemma slice_copy_into_same: "slice (copy_into d off bs) off (off + length bs) = bs"
  by (rule nth_equalityI) (simp_all add: slice_def copy_into_def)

lemma slice_copy_into_before: "e \<le> off \<Longrightarrow> slice (copy_into d off bs) b e = slice d b e"
  by (simp add: slice_def copy_into_def)

lemma slice_copy_into:
  "b \<le> off \<Longrightarrow> slice (copy_into d off bs) b (off + length bs) = slice d b off @ bs"
  using slice_append [of b off "off + length bs" "copy_into d off bs"]
  by (simp add: slice_copy_into_same slice_copy_into_before)

lemma length_blk_bytes: "blk_wf b \<Longrightarrow> int (length (blk_bytes b)) = blk_end b - blk_begin b"
  by (auto simp: blk_bytes_def blk_wf_def of_nat_diff)

lemma blk_bytes_advance:
  assumes "blk_wf b" and "0 \<le> n" and "n \<le> blk_end b - blk_begin b"
  shows "blk_bytes (b\<lparr>blk_begin := blk_begin b + n\<rparr>) = drop (nat n) (blk_bytes b)"
  using assms by (simp add: blk_bytes_def blk_wf_def drop_slice nat_add_distrib)

lemma block_get_prefix:
  assumes "blk_wf b" and "int n \<le> blk_end b - blk_begin b"
  shows "block_get b (blk_begin b) n = Inr (take n (blk_bytes b))"
proof -
  have "nat (blk_begin b) + n \<le> nat (blk_end b)"
    using assms by (auto simp: blk_wf_def)
  then show ?thesis
    using assms by (simp add: block_get_def blk_bytes_def take_slice blk_wf_def min_def)
qed

lemma block_get_begin [simp]: "block_get (b\<lparr>blk_begin := x\<rparr>) off n = block_get b off n"
  by (simp add: block_get_def)

lemma blk_bytes_put:
  assumes "blk_wf b" and "blk_end b + int (length bs) \<le> kBlockSize"
  shows "block_put b (blk_end b) bs
      = Inr (b\<lparr>blk_data := copy_into (blk_data b) (nat (blk_end b)) bs\<rparr>)"
    and "blk_bytes (b\<lparr>blk_data := copy_into (blk_data b) (nat (blk_end b)) bs,
           blk_end := blk_end b + int (length bs)\<rparr>) = blk_bytes b @ bs"
proof -
  have *: "nat (blk_end b + int (length bs)) = nat (blk_end b) + length bs"
    and "nat (blk_begin b) \<le> nat (blk_end b)"
    using assms by (auto simp: blk_wf_def)
  then show "blk_bytes (b\<lparr>blk_data := copy_into (blk_data b) (nat (blk_end b)) bs,
           blk_end := blk_end b + int (length bs)\<rparr>) = blk_bytes b @ bs"
    by (simp add: blk_bytes_def slice_copy_into)
  show "block_put b (blk_end b) bs
      = Inr (b\<lparr>blk_data := copy_into (blk_data b) (nat (blk_end b)) bs\<rparr>)"
    using assms by (simp add: block_put_def blk_wf_def)
qed

subsection \<open>Lemmas on chains\<close>

lemma chain_append:
  "chain h p (as @ bs) q \<longleftrightarrow> (\<exists>r. chain h p as r \<and> chain h r bs q)"
  by (induction as arbitrary: p) auto

lemma chain_head: "chain h p as q \<Longrightarrow> as \<noteq> [] \<Longrightarrow> p = Some (hd as)"
  by (cases as) auto

lemma chain_cells: "chain h p as q \<Longrightarrow> a \<in> set as \<Longrightarrow> \<exists>b. cells h a = Some b"
  by (induction as arbitrary: p) auto

lemma chain_cong:
  "(\<And>a. a \<in> set as \<Longrightarrow> map_option blk_next (cells h' a) = map_option blk_next (cells h a))
   \<Longrightarrow> chain h' p as q = chain h p as q"
proof (induction as arbitrary: p)
  case (Cons a as)
  have "map_option blk_next (cells h' a) = map_option blk_next (cells h a)"
    using Cons.prems by simp
  moreover have "\<And>r. chain h' r as q = chain h r as q"
    using Cons.prems by (intro Cons.IH) simp
  ultimately show ?case
    by (cases "cells h a"; cases "cells h' a") auto
qed simp

lemma chain_upd_next:
  assumes "cells h a = Some b" and "blk_next b' = blk_next b"
  shows "chain (upd h a b') p as q = chain h p as q"
  by (rule chain_cong) (simp add: assms)

lemma chain_upd_notin: "a \<notin> set as \<Longrightarrow> chain (upd h a b') p as q = chain h p as q"
  by (rule chain_cong) auto

lemma chain_snoc:
  "chain h p (as @ [l]) q \<longleftrightarrow>
     chain h p as (Some l) \<and> (\<exists>b. cells h l = Some b \<and> blk_next b = q)"
  by (auto simp: chain_append)

lemma walk_chain: "chain h p as None \<Longrightarrow> length as \<le> n \<Longrightarrow> walk h n p = as"
proof (induction as arbitrary: p n)
  case Nil
  then show ?case by (cases n) auto
next
  case (Cons a as)
  then show ?case by (cases n) auto
qed

lemma length_below_brk: "distinct as \<Longrightarrow> \<forall>a \<in> set as. a < n \<Longrightarrow> length as \<le> n"
proof -
  assume "distinct as" and "\<forall>a \<in> set as. a < n"
  then have "card (set as) \<le> card {..<n}"
    by (intro card_mono) auto
  then show ?thesis
    using \<open>distinct as\<close> by (simp add: distinct_card)
qed

lemma blocks_from_chain:
  assumes "chain h p as None" and "distinct as" and "\<forall>a \<in> set as. a < brk h"
  shows "blocks_from h p = as"
  unfolding blocks_from_def using assms by (intro walk_chain length_below_brk) auto

lemma block_bytes_simps [simp]:
  "block_bytes [] = []"
  "block_bytes (b # bl) = blk_bytes b @ block_bytes bl"
  "block_bytes (bl @ bl') = block_bytes bl @ block_bytes bl'"
  by (simp_all add: block_bytes_def)

lemma blocks_simps [simp]:
  "blocks h [] = []"
  "blocks h (a # as) = the (cells h a) # blocks h as"
  "blocks h (as @ bs) = blocks h as @ blocks h bs"
  "length (blocks h as) = length as"
  "blocks h as = [] \<longleftrightarrow> as = []"
  by (simp_all add: blocks_def)

lemma blocks_cong:
  "(\<And>a. a \<in> set as \<Longrightarrow> cells h' a = cells h a) \<Longrightarrow> blocks h' as = blocks h as"
  by (simp add: blocks_def)

lemma blocks_upd_notin [simp]: "a \<notin> set as \<Longrightarrow> blocks (upd h a b) as = blocks h as"
  by (rule blocks_cong) auto

lemma filled_Cons:
  "filled (b # bl) \<longleftrightarrow> blk_wf b \<and>
     (bl \<noteq> [] \<longrightarrow> blk_end b = kBlockSize \<and> blk_begin (hd bl) = 0 \<and> filled bl)"
  by (cases bl) auto

lemma filled_snoc:
  "filled (bl @ [b]) \<longleftrightarrow> blk_wf b \<and>
     (bl \<noteq> [] \<longrightarrow> blk_begin b = 0 \<and> blk_end (last bl) = kBlockSize \<and> filled bl)"
proof (induction bl)
  case (Cons c bl)
  then show ?case by (cases bl) auto
qed simp

lemma filled_wf: "filled bl \<Longrightarrow> b \<in> set bl \<Longrightarrow> blk_wf b"
  by (induction bl rule: filled.induct) auto

lemma new_block_fields [simp]:
  "fst (new_block h) = Some (brk h)"
  "brk (snd (new_block h)) = Suc (brk h)"
  "junk (snd (new_block h)) = junk h"
  "cells (snd (new_block h)) a = (if a = brk h
     then Some \<lparr>blk_begin = 0, blk_end = 0, blk_data = junk h (brk h), blk_next = None\<rparr>
     else cells h a)"
  by (simp_all add: new_block_def upd_def)

subsection \<open>The three ways a buffer changes its chain\<close>

lemma owns_cell:
  assumes "owns h p as" and "a \<in> set as"
  obtains b where "cells h a = Some b"
  using assms chain_cells by (metis owns_def)

lemma owns_upd:
  assumes "owns h p as" and "cells h a = Some b" and "blk_next b' = blk_next b"
  shows "owns (upd h a b') p as"
  using assms by (auto simp: owns_def chain_upd_next dom_def split: if_splits)

lemma owns_split:
  assumes "owns h p (as @ bs)" and "bs \<noteq> []"
  shows "chain h (Some (hd bs)) bs None"
proof -
  from assms(1) obtain r where "chain h r bs None"
    by (auto simp: owns_def chain_append)
  then show ?thesis
    using chain_head [of h r bs None] assms(2) by simp
qed

lemma owns_blocks_from:
  assumes "owns h p (as @ bs)" and "bs \<noteq> []"
  shows "blocks_from h (Some (hd bs)) = bs"
  using owns_split [OF assms] assms(1) by (intro blocks_from_chain) (auto simp: owns_def)

lemma owns_last:
  assumes "owns h p (as @ [l])"
  obtains b where "cells h l = Some b" and "blk_next b = None" and "l \<notin> set as"
  using assms by (auto simp: owns_def chain_snoc)

text \<open>\<open>last->next = new BufferBlock\<close>.\<close>

lemma owns_link:
  assumes own: "owns h p (as @ [l])" and b: "cells h l = Some b"
  shows "owns (upd (snd (new_block h)) l (b\<lparr>blk_next := Some (brk h)\<rparr>)) p (as @ [l, brk h])"
    and "blocks (upd (snd (new_block h)) l (b\<lparr>blk_next := Some (brk h)\<rparr>)) (as @ [l, brk h])
      = blocks h as @ [b\<lparr>blk_next := Some (brk h)\<rparr>,
          \<lparr>blk_begin = 0, blk_end = 0, blk_data = junk h (brk h), blk_next = None\<rparr>]"
proof -
  let ?h = "upd (snd (new_block h)) l (b\<lparr>blk_next := Some (brk h)\<rparr>)"
  from own have fresh: "brk h \<notin> set as" "l \<noteq> brk h" "l \<notin> set as"
    by (auto simp: owns_def)
  then have same: "cells ?h a = cells h a" if "a \<in> set as" for a
    using that by auto
  have "chain ?h p as (Some l) = chain h p as (Some l)"
    by (rule chain_cong) (simp only: same)
  then have "chain ?h p (as @ [l, brk h]) None"
    using own fresh by (auto simp: owns_def chain_append)
  moreover have "dom (cells ?h) = set (as @ [l, brk h])"
    using own by (auto simp: owns_def dom_def split: if_splits)
  ultimately show "owns ?h p (as @ [l, brk h])"
    using own fresh by (auto simp: owns_def)
  show "blocks ?h (as @ [l, brk h]) = blocks h as @ [b\<lparr>blk_next := Some (brk h)\<rparr>,
          \<lparr>blk_begin = 0, blk_end = 0, blk_data = junk h (brk h), blk_next = None\<rparr>]"
    using fresh same blocks_cong [of as ?h h] by simp
qed

text \<open>\<open>delete\<close> of the first block.\<close>

lemma owns_free:
  assumes own: "owns h p (a # as)" and b: "cells h a = Some b"
  shows "owns (h\<lparr>cells := (cells h)(a := None)\<rparr>) (blk_next b) as"
    and "blocks (h\<lparr>cells := (cells h)(a := None)\<rparr>) as = blocks h as"
proof -
  let ?h = "h\<lparr>cells := (cells h)(a := None)\<rparr>"
  have same: "cells ?h c = cells h c" if "c \<in> set as" for c
    using own that by (auto simp: owns_def)
  have "chain ?h (blk_next b) as None = chain h (blk_next b) as None"
    by (rule chain_cong) (simp only: same)
  then show "owns ?h (blk_next b) as"
    using own b by (auto simp: owns_def)
  show "blocks ?h as = blocks h as"
    using same by (rule blocks_cong)
qed

lemma owns_new:
  "owns (snd (new_block (empty_heap j))) (Some 0) [0]"
  by (auto simp: owns_def empty_heap_def dom_def)

text \<open>
  Appending bytes to the last block of a queue, and linking an empty block behind a full one.
\<close>

lemma queue_grow:
  assumes own: "owns h p (ds @ as @ [l])" and fl: "filled (blocks h (as @ [l]))"
    and b: "cells h l = Some b" and bs: "blk_end b + int (length bs) \<le> kBlockSize"
    and b1: "b1 = b\<lparr>blk_data := copy_into (blk_data b) (nat (blk_end b)) bs,
        blk_end := blk_end b + int (length bs)\<rparr>"
  shows "owns (upd h l b1) p (ds @ as @ [l])" and "filled (blocks (upd h l b1) (as @ [l]))"
    and "blk_begin (hd (blocks (upd h l b1) (as @ [l]))) = blk_begin (hd (blocks h (as @ [l])))"
    and "block_bytes (blocks (upd h l b1) (as @ [l])) = block_bytes (blocks h (as @ [l])) @ bs"
proof -
  from own fl b have wf: "blk_wf b" and l: "l \<notin> set as"
    by (auto simp: filled_snoc owns_def)
  have wf1: "blk_wf b1" using wf bs by (simp add: blk_wf_def b1)
  show "owns (upd h l b1) p (ds @ as @ [l])"
    using own b by (rule owns_upd) (simp add: b1)
  show "filled (blocks (upd h l b1) (as @ [l]))"
    using fl b l wf1 by (auto simp: filled_snoc b1)
  show "blk_begin (hd (blocks (upd h l b1) (as @ [l]))) = blk_begin (hd (blocks h (as @ [l])))"
    using l b by (cases as) (auto simp: b1)
  show "block_bytes (blocks (upd h l b1) (as @ [l])) = block_bytes (blocks h (as @ [l])) @ bs"
    using blk_bytes_put(2) [of b bs] wf bs l b by (simp add: b1)
qed

lemma queue_link:
  assumes own: "owns h p (ds @ as @ [l])" and fl: "filled (blocks h (as @ [l]))"
    and b: "cells h l = Some b" and full: "blk_end b = kBlockSize"
    and h2: "h2 = upd (snd (new_block h)) l (b\<lparr>blk_next := Some (brk h)\<rparr>)"
  shows "owns h2 p (ds @ as @ [l, brk h])" and "filled (blocks h2 (as @ [l, brk h]))"
    and "blk_begin (hd (blocks h2 (as @ [l, brk h]))) = blk_begin (hd (blocks h (as @ [l])))"
    and "block_bytes (blocks h2 (as @ [l, brk h])) = block_bytes (blocks h (as @ [l]))"
    and "blocks h2 [brk h]
      = [\<lparr>blk_begin = 0, blk_end = 0, blk_data = junk h (brk h), blk_next = None\<rparr>]"
proof -
  have l: "l \<notin> set as" "brk h \<notin> set as" "l \<noteq> brk h" using own by (auto simp: owns_def)
  show "owns h2 p (ds @ as @ [l, brk h])"
    using owns_link(1) [of h p "ds @ as" l b] own b by (simp add: h2)
  show new: "blocks h2 [brk h]
      = [\<lparr>blk_begin = 0, blk_end = 0, blk_data = junk h (brk h), blk_next = None\<rparr>]"
    using l by (simp add: h2)
  have "blocks h2 as = blocks h as"
    using l by (intro blocks_cong) (auto simp: h2)
  then have bl: "blocks h2 (as @ [l, brk h]) = (blocks h as @ [b\<lparr>blk_next := Some (brk h)\<rparr>]) @
      [\<lparr>blk_begin = 0, blk_end = 0, blk_data = junk h (brk h), blk_next = None\<rparr>]"
    using l new by (simp add: h2)
  show "filled (blocks h2 (as @ [l, brk h]))"
    using fl full b unfolding bl filled_snoc by (simp add: filled_snoc blk_wf_def kBlockSize_def)
  show "blk_begin (hd (blocks h2 (as @ [l, brk h]))) = blk_begin (hd (blocks h (as @ [l])))"
    using b unfolding bl by (cases as) simp_all
  show "block_bytes (blocks h2 (as @ [l, brk h])) = block_bytes (blocks h (as @ [l]))"
    unfolding bl using b by (simp add: blk_bytes_def)
qed

end
