(* ===== verification/ZeroCopyStream.thy ===== *)
theory ZeroCopyStream
  imports Prelude
begin

section \<open>The zero-copy stream interface of protobuf\<close>

text \<open>
  The contract between the buffers and the protobuf runtime, which is not part of the
  repository. \<open>ZeroCopyInputStream\<close> hands out the input in chunks of the stream's choice:
  \<open>Next\<close> returns a non-empty chunk, or \<open>false\<close> at the end of the input.
  \<open>ZeroCopyOutputStream\<close> hands out room: \<open>Next\<close> returns a non-empty region, the
  serializer fills it and returns the unused tail with \<open>BackUp\<close>.

  \<open>read_all\<close> and \<open>write_all\<close> are the two loops every protobuf entry point that
  takes such a stream runs (parse until the end of the input; serialize a given string of
  bytes). The locales state the laws a stream has to keep, and prove once that the loops end
  and move exactly the bytes they should.
\<close>

partial_function (option) read_all ::
  "('s \<Rightarrow> (byte list option \<times> 's) res) \<Rightarrow> 's \<Rightarrow> byte list \<Rightarrow> (byte list \<times> 's) res option" where
  "read_all nxt s acc = (case nxt s of Inl e \<Rightarrow> Some (Inl e)
     | Inr (None, s') \<Rightarrow> Some (Inr (acc, s'))
     | Inr (Some bs, s') \<Rightarrow> read_all nxt s' (acc @ bs))"

text \<open>
  \<open>region s\<close> is \<open>Next\<close> (the size of the region and the stream), \<open>fill s bs\<close> stores
  \<open>bs\<close> at the start of the region handed out last, \<open>giveback s n\<close> is \<open>BackUp\<close>.
\<close>

partial_function (option) write_all ::
  "('s \<Rightarrow> (nat \<times> 's) res) \<Rightarrow> (nat \<Rightarrow> byte list \<Rightarrow> 's \<Rightarrow> 's res) \<Rightarrow> (nat \<Rightarrow> 's \<Rightarrow> 's res) \<Rightarrow>
   's \<Rightarrow> byte list \<Rightarrow> 's res option" where
  "write_all region fill giveback s bs = (if bs = [] then Some (Inr s)
     else case region s of Inl e \<Rightarrow> Some (Inl e)
       | Inr (n, s1) \<Rightarrow>
         (case fill n (take n bs) s1 of Inl e \<Rightarrow> Some (Inl e)
          | Inr s2 \<Rightarrow>
            (if n \<le> length bs then write_all region fill giveback s2 (drop n bs)
             else Some (giveback (n - length bs) s2))))"

locale zero_copy_input =
  fixes inv :: "'s \<Rightarrow> bool"
    and nxt :: "'s \<Rightarrow> (byte list option \<times> 's) res"
    and avail :: "'s \<Rightarrow> byte list"
    and rest :: "'s \<Rightarrow> byte list"
  assumes next_end: "inv s \<Longrightarrow> avail s = [] \<Longrightarrow> nxt s = Inr (None, s)"
    and next_chunk: "inv s \<Longrightarrow> avail s \<noteq> [] \<Longrightarrow>
      \<exists>bs s'. nxt s = Inr (Some bs, s') \<and> bs \<noteq> [] \<and> inv s' \<and>
        avail s = bs @ avail s' \<and> rest s = bs @ rest s'"
begin

lemma read_all_reads:
  assumes "inv s"
  shows "\<exists>s'. read_all nxt s acc = Some (Inr (acc @ avail s, s')) \<and> inv s' \<and>
    avail s' = [] \<and> rest s = avail s @ rest s'"
  using assms
proof (induction "length (avail s)" arbitrary: s acc rule: less_induct)
  case less
  show ?case
  proof (cases "avail s = []")
    case True
    with less.prems show ?thesis
      by (simp add: read_all.simps next_end)
  next
    case False
    with less.prems obtain bs s1 where s1: "nxt s = Inr (Some bs, s1)" "bs \<noteq> []" "inv s1"
      "avail s = bs @ avail s1" "rest s = bs @ rest s1"
      using next_chunk by blast
    then have "length (avail s1) < length (avail s)" by simp
    from less.hyps [OF this \<open>inv s1\<close>, of "acc @ bs"] obtain s' where
      "read_all nxt s1 (acc @ bs) = Some (Inr ((acc @ bs) @ avail s1, s'))" "inv s'"
      "avail s' = []" "rest s1 = avail s1 @ rest s'"
      by blast
    with s1 show ?thesis
      by (simp add: read_all.simps [of nxt s])
  qed
qed

end

locale zero_copy_output =
  fixes inv :: "'s \<Rightarrow> bool"
    and region :: "'s \<Rightarrow> (nat \<times> 's) res"
    and fill :: "nat \<Rightarrow> byte list \<Rightarrow> 's \<Rightarrow> 's res"
    and giveback :: "nat \<Rightarrow> 's \<Rightarrow> 's res"
    and content :: "'s \<Rightarrow> byte list"
    and room :: "'s \<Rightarrow> nat \<Rightarrow> bool"
  assumes region_ok: "inv s \<Longrightarrow> room s 8192 \<Longrightarrow>
      \<exists>n s1. region s = Inr (n, s1) \<and> 0 < n \<and>
        (\<forall>bs. length bs \<le> n \<longrightarrow> (\<exists>s2 s3. fill n bs s1 = Inr s2 \<and>
           giveback (n - length bs) s2 = Inr s3 \<and> inv s3 \<and> content s3 = content s @ bs \<and>
           (length bs = n \<longrightarrow> s3 = s2) \<and>
           (\<forall>k. room s (length bs + k) \<longrightarrow> room s3 k)))"
    and room_mono: "room s n \<Longrightarrow> m \<le> n \<Longrightarrow> room s m"
begin

lemma write_all_writes:
  assumes "inv s" and "room s (length bs + 8192)"
  shows "\<exists>s'. write_all region fill giveback s bs = Some (Inr s') \<and> inv s' \<and>
    content s' = content s @ bs \<and> (\<forall>k. room s (length bs + k) \<longrightarrow> room s' k)"
  using assms
proof (induction "length bs" arbitrary: s bs rule: less_induct)
  case less
  show ?case
  proof (cases "bs = []")
    case True
    with less.prems show ?thesis by (simp add: write_all.simps)
  next
    case False
    have "room s 8192" using less.prems(2) by (rule room_mono) simp
    with less.prems(1) obtain n s1 where s1: "region s = Inr (n, s1)" and n: "0 < n"
      and ok: "\<And>xs. length xs \<le> n \<Longrightarrow> \<exists>s2 s3. fill n xs s1 = Inr s2 \<and>
           giveback (n - length xs) s2 = Inr s3 \<and> inv s3 \<and> content s3 = content s @ xs \<and>
           (length xs = n \<longrightarrow> s3 = s2) \<and> (\<forall>k. room s (length xs + k) \<longrightarrow> room s3 k)"
      using region_ok by blast
    from ok [of "take n bs"] obtain s2 s3 where s2: "fill n (take n bs) s1 = Inr s2"
      and s3: "giveback (n - length (take n bs)) s2 = Inr s3" "inv s3"
        "content s3 = content s @ take n bs" "length (take n bs) = n \<longrightarrow> s3 = s2"
        "\<And>k. room s (length (take n bs) + k) \<longrightarrow> room s3 k"
      by auto
    show ?thesis
    proof (cases "n \<le> length bs")
      case True
      then have eq: "s3 = s2" and len: "length (take n bs) = n" using s3(4) by simp_all
      have "room s2 (length (drop n bs) + 8192)"
        using s3(5) [of "length (drop n bs) + 8192"] less.prems(2) True
        by (simp add: len eq algebra_simps)
      from less.hyps [OF _ s3(2) [unfolded eq] this] n True False obtain s' where
        s': "write_all region fill giveback s2 (drop n bs) = Some (Inr s')" "inv s'"
        "content s' = content s2 @ drop n bs"
        "\<And>k. room s2 (length (drop n bs) + k) \<longrightarrow> room s' k"
        by auto
      have "room s (length bs + k) \<longrightarrow> room s' k" for k
        using s3(5) [of "length (drop n bs) + k"] s'(4) [of k] True by (simp add: len eq)
      with s' s3(3) True False show ?thesis
        by (simp add: write_all.simps [of _ _ _ s] s1 s2 eq)
    next
      case False
      with s3 s1 s2 \<open>bs \<noteq> []\<close> show ?thesis
        by (simp add: write_all.simps [of _ _ _ s])
    qed
  qed
qed

end

end
