(* ===== verification/InputStream.thy ===== *)
theory InputStream
  imports BufferBlock ZeroCopyStream
begin

section \<open>The input buffer (src/util/input_stream.h, src/util/input_stream.cc)\<close>

text \<open>
  \<open>InputBuffer\<close> is a byte queue over a chain of blocks: the kernel writes behind
  \<open>last_block\<close>, the protobuf parser reads through \<open>next\<close> from
  \<open>cur_block\<close>, and blocks before \<open>cur_block\<close> wait for \<open>back_up\<close> to
  delete them. The record holds the members of the class and the heap of blocks the buffer
  owns. Operations return \<open>Inl\<close> on undefined behaviour; a loop that may not end is a
  \<^theory_text>\<open>partial_function (option)\<close>, whose value \<open>None\<close> means that it does not return.

  The abstraction is \<open>ib_unread\<close>, the bytes received and not yet consumed, and the
  invariant \<open>ib_inv\<close> says how the three pointers and the counters represent it.
\<close>

record input_buffer =
  in_heap :: block_heap
  read_bytes :: size_t
  consumed_bytes :: size_t
  in_limit :: int
  first_block :: ptr
  cur_block :: ptr
  last_block :: ptr

subsection \<open>Operations\<close>

text \<open>The constructor, for any contents of fresh memory.\<close>

definition InputBuffer :: "(addr \<Rightarrow> nat \<Rightarrow> byte) \<Rightarrow> input_buffer" where
  "InputBuffer j = (let (p, h) = new_block (empty_heap j) in
     \<lparr>in_heap = h, read_bytes = 0, consumed_bytes = 0, in_limit = INT32_MAX,
      first_block = p, cur_block = p, last_block = p\<rparr>)"

text \<open>The loop of the destructor: delete the blocks from \<open>first_block\<close> on.\<close>

partial_function (option) delete_blocks :: "block_heap \<Rightarrow> ptr \<Rightarrow> block_heap res option" where
  "delete_blocks h p = (case p of None \<Rightarrow> Some (Inr h)
     | Some a \<Rightarrow> (case load h p of Inl e \<Rightarrow> Some (Inl e)
         | Inr b \<Rightarrow> (case free h p of Inl e \<Rightarrow> Some (Inl e)
             | Inr h' \<Rightarrow> delete_blocks h' (blk_next b))))"

definition InputBuffer_destructor :: "input_buffer \<Rightarrow> block_heap res option" where
  "InputBuffer_destructor ib = delete_blocks (in_heap ib) (first_block ib)"

text \<open>The region the kernel may write: a pointer into the last block and its room.\<close>

definition get_buffer :: "input_buffer \<Rightarrow> ((ptr \<times> int) \<times> int) res" where
  "get_buffer ib = res_bind (load (in_heap ib) (last_block ib)) (\<lambda>b.
     Inr ((last_block ib, blk_end b), kBlockSize - blk_end b))"

definition recv_add :: "input_buffer \<Rightarrow> int \<Rightarrow> input_buffer res" where
  "recv_add ib nread =
     (if nread > 0 then
        res_bind (modify (in_heap ib) (last_block ib) (\<lambda>b. b\<lparr>blk_end := blk_end b + nread\<rparr>)) (\<lambda>h.
        let ib1 = ib\<lparr>in_heap := h, read_bytes := read_bytes ib + of_int nread\<rparr> in
        res_bind (load h (last_block ib)) (\<lambda>b.
          if blk_end b = kBlockSize then
            let (p, h1) = new_block h in
            res_bind (modify h1 (last_block ib) (\<lambda>b. b\<lparr>blk_next := p\<rparr>)) (\<lambda>h2.
            res_bind (load h2 (last_block ib)) (\<lambda>b'.
              Inr (ib1\<lparr>in_heap := h2, last_block := blk_next b'\<rparr>)))
          else Inr ib1))
      else Inr ib)"

text \<open>
  The step three operations end with: leave a block that is completely consumed, if it has a
  successor.
\<close>

definition next_if_full :: "input_buffer \<Rightarrow> input_buffer res" where
  "next_if_full ib = res_bind (load (in_heap ib) (cur_block ib)) (\<lambda>b.
     if blk_begin b = kBlockSize \<and> blk_next b \<noteq> None
     then Inr (ib\<lparr>cur_block := blk_next b\<rparr>) else Inr ib)"

text \<open>
  \<open>memcpy\<close> into a caller's object given by its bytes; a write past the object's end
  is a fault.
\<close>

definition put_out :: "byte list \<Rightarrow> nat \<Rightarrow> byte list \<Rightarrow> byte list res" where
  "put_out obj off bs = (if off + length bs \<le> length obj
     then Inr (take off obj @ bs @ drop (off + length bs) obj) else Inl OutOfBounds)"

text \<open>
  \<open>fetch_uint32(uint32_t* value)\<close>; \<open>value\<close> is the four-byte object. In the second
  \<open>memcpy\<close> the destination is \<open>value + copy_len\<close>, which on a \<open>uint32_t*\<close> is
  \<open>4 * copy_len\<close> bytes further.
\<close>

definition fetch_uint32 :: "input_buffer \<Rightarrow> byte list \<Rightarrow> (bool \<times> byte list \<times> input_buffer) res" where
  "fetch_uint32 ib val =
     (if 4 > read_bytes ib then Inr (False, val, ib)
      else res_bind (load (in_heap ib) (cur_block ib)) (\<lambda>b.
        let copy_len = (of_int (min (blk_end b - blk_begin b) 4) :: size_t) in
        res_bind (block_get b (blk_begin b) (unat copy_len)) (\<lambda>bs.
        res_bind (put_out val 0 bs) (\<lambda>val1.
        let ib1 = ib\<lparr>in_heap := upd (in_heap ib) (the (cur_block ib))
                        (b\<lparr>blk_begin := blk_begin b + uint copy_len\<rparr>)\<rparr> in
        res_bind
          (if copy_len < 4 then
             let ib2 = ib1\<lparr>cur_block := blk_next b\<rparr> in
             res_bind (load (in_heap ib2) (cur_block ib2)) (\<lambda>b2.
             res_bind (block_get b2 (blk_begin b2) (4 - unat copy_len)) (\<lambda>bs2.
             res_bind (put_out val1 (4 * unat copy_len) bs2) (\<lambda>val2.
               Inr (val2, ib2\<lparr>in_heap := upd (in_heap ib2) (the (cur_block ib2))
                      (b2\<lparr>blk_begin := blk_begin b2 + 4 - uint copy_len\<rparr>)\<rparr>))))
           else Inr (val1, ib1)) (\<lambda>(val3, ib3).
        res_bind (next_if_full ib3) (\<lambda>ib4.
          Inr (True, val3, ib4\<lparr>consumed_bytes := consumed_bytes ib4 + 4,
                               read_bytes := read_bytes ib4 - 4\<rparr>)))))))"

text \<open>\<open>next\<close>: \<open>None\<close> for \<open>false\<close>, else the data pointer and the size.\<close>

definition ib_next :: "input_buffer \<Rightarrow> (((ptr \<times> int) \<times> int) option \<times> input_buffer) res" where
  "ib_next ib = res_bind (load (in_heap ib) (cur_block ib)) (\<lambda>b.
     if blk_begin b = blk_end b \<or> in_limit ib = 0 then Inr (None, ib)
     else
       let data = (cur_block ib, blk_begin b);
           size = min (blk_end b - blk_begin b) (in_limit ib);
           ib1 = ib\<lparr>in_limit := in_limit ib - (if in_limit ib = INT32_MAX then 0 else size),
                    in_heap := upd (in_heap ib) (the (cur_block ib))
                       (b\<lparr>blk_begin := blk_begin b + size\<rparr>),
                    consumed_bytes := consumed_bytes ib + of_int size\<rparr> in
       res_bind (next_if_full ib1) (\<lambda>ib2.
         Inr (Some (data, size), ib2\<lparr>read_bytes := read_bytes ib2 - of_int size\<rparr>)))"

text \<open>The deallocation loop of \<open>back_up\<close>.\<close>

partial_function (option) dealloc_consumed ::
  "block_heap \<Rightarrow> ptr \<Rightarrow> ptr \<Rightarrow> (block_heap \<times> ptr) res option" where
  "dealloc_consumed h first cur = (if first \<noteq> cur
     then (case load h first of Inl e \<Rightarrow> Some (Inl e)
       | Inr b \<Rightarrow> (case free h first of Inl e \<Rightarrow> Some (Inl e)
           | Inr h' \<Rightarrow> dealloc_consumed h' (blk_next b) cur))
     else Some (Inr (h, first)))"

definition ib_back_up :: "input_buffer \<Rightarrow> int \<Rightarrow> input_buffer res option" where
  "ib_back_up ib n = (case load (in_heap ib) (cur_block ib) of Inl e \<Rightarrow> Some (Inl e)
     | Inr b \<Rightarrow>
       (let backup_bytes = min n (blk_begin b);
            ib1 = ib\<lparr>in_heap := upd (in_heap ib) (the (cur_block ib))
                       (b\<lparr>blk_begin := blk_begin b - backup_bytes\<rparr>),
                     read_bytes := read_bytes ib + of_int backup_bytes,
                     in_limit := in_limit ib + (if in_limit ib = INT32_MAX then 0 else backup_bytes),
                     consumed_bytes := consumed_bytes ib - of_int backup_bytes\<rparr>
        in case dealloc_consumed (in_heap ib1) (first_block ib1) (cur_block ib1) of
             None \<Rightarrow> None
           | Some (Inl e) \<Rightarrow> Some (Inl e)
           | Some (Inr (h, first)) \<Rightarrow> Some (Inr (ib1\<lparr>in_heap := h, first_block := first\<rparr>))))"

definition byte_count :: "input_buffer \<Rightarrow> int" where
  "byte_count ib = sint (consumed_bytes ib)"

text \<open>The body of the loop of \<open>skip\<close> and the loop.\<close>

definition skip_body :: "input_buffer \<Rightarrow> int \<Rightarrow> (input_buffer \<times> int) res" where
  "skip_body ib n = res_bind (load (in_heap ib) (cur_block ib)) (\<lambda>b.
     let to_skip = min n (blk_end b - blk_begin b);
         ib1 = ib\<lparr>in_heap := upd (in_heap ib) (the (cur_block ib))
                    (b\<lparr>blk_begin := blk_begin b + to_skip\<rparr>),
                  consumed_bytes := consumed_bytes ib + of_int to_skip,
                  read_bytes := read_bytes ib - of_int to_skip\<rparr>
     in res_bind (next_if_full ib1) (\<lambda>ib2. Inr (ib2, n - to_skip)))"

partial_function (option) skip_loop :: "input_buffer \<Rightarrow> int \<Rightarrow> input_buffer res option" where
  "skip_loop ib n = (if n > 0
     then (case skip_body ib n of Inl e \<Rightarrow> Some (Inl e)
       | Inr (ib', n') \<Rightarrow> skip_loop ib' n')
     else Some (Inr ib))"

definition ib_skip :: "input_buffer \<Rightarrow> int \<Rightarrow> (bool \<times> input_buffer) res option" where
  "ib_skip ib n = (if n > byte_count ib then Some (Inr (False, ib))
     else map_option (\<lambda>r. res_bind r (\<lambda>ib'. Inr (True, ib'))) (skip_loop ib n))"

definition push_limit :: "input_buffer \<Rightarrow> int \<Rightarrow> input_buffer" where
  "push_limit ib limit = ib\<lparr>in_limit := limit\<rparr>"

definition pop_limit :: "input_buffer \<Rightarrow> input_buffer" where
  "pop_limit ib = ib\<lparr>in_limit := INT32_MAX\<rparr>"

definition ib_bytes :: "input_buffer \<Rightarrow> size_t" where
  "ib_bytes ib = read_bytes ib"

subsection \<open>Abstraction and invariant\<close>

definition ib_unread :: "input_buffer \<Rightarrow> byte list" where
  "ib_unread ib = block_bytes (blocks (in_heap ib) (blocks_from (in_heap ib) (cur_block ib)))"

text \<open>
  The blocks \<open>ds\<close> before \<open>cur_block\<close> and \<open>cs\<close> from it on are all blocks of
  the heap, linked in this order. The last block always has room for the kernel, and the
  current block is never read to its end while it has a successor.
\<close>

definition ib_rep :: "input_buffer \<Rightarrow> addr list \<Rightarrow> addr list \<Rightarrow> bool" where
  "ib_rep ib ds cs \<longleftrightarrow>
     owns (in_heap ib) (first_block ib) (ds @ cs) \<and> cs \<noteq> [] \<and>
     cur_block ib = Some (hd cs) \<and> last_block ib = Some (last cs) \<and>
     filled (blocks (in_heap ib) cs) \<and> blk_end (last (blocks (in_heap ib) cs)) < kBlockSize \<and>
     blk_begin (hd (blocks (in_heap ib) cs)) < kBlockSize"

definition ib_inv :: "input_buffer \<Rightarrow> bool" where
  "ib_inv ib \<longleftrightarrow> (\<exists>ds cs. ib_rep ib ds cs) \<and>
     unat (read_bytes ib) = length (ib_unread ib) \<and> 0 \<le> in_limit ib \<and> in_limit ib \<le> INT32_MAX"

text \<open>The bytes \<open>next\<close> may still deliver under the current limit.\<close>

definition ib_avail :: "input_buffer \<Rightarrow> byte list" where
  "ib_avail ib = (if in_limit ib = INT32_MAX then ib_unread ib
     else take (nat (in_limit ib)) (ib_unread ib))"

text \<open>What \<open>read(2)\<close> or a completed ring entry does: bytes stored behind a raw pointer.\<close>

definition poke :: "input_buffer \<Rightarrow> ptr \<times> int \<Rightarrow> byte list \<Rightarrow> input_buffer res" where
  "poke ib d bs = res_bind (load (in_heap ib) (fst d)) (\<lambda>b.
     res_bind (block_put b (snd d) bs) (\<lambda>b'.
       Inr (ib\<lparr>in_heap := upd (in_heap ib) (the (fst d)) b'\<rparr>)))"

text \<open>The bytes a reader finds behind a data pointer, and the room left in the current block.\<close>

definition peek :: "input_buffer \<Rightarrow> ptr \<times> int \<Rightarrow> nat \<Rightarrow> byte list res" where
  "peek ib d n = res_bind (load (in_heap ib) (fst d)) (\<lambda>b. block_get b (snd d) n)"

definition cur_len :: "input_buffer \<Rightarrow> int" where
  "cur_len ib = (case load (in_heap ib) (cur_block ib) of Inl _ \<Rightarrow> 0
     | Inr b \<Rightarrow> blk_end b - blk_begin b)"

text \<open>
  Where the next unread byte lies in its block. Blocks are filled one after the other, so the
  sum of this position and the number of unread bytes is, modulo the block size, the number of
  bytes received since the buffer was made (\<open>ib_fill\<close>).
\<close>

definition ib_pos :: "input_buffer \<Rightarrow> int" where
  "ib_pos ib = (case load (in_heap ib) (cur_block ib) of Inl _ \<Rightarrow> 0 | Inr b \<Rightarrow> blk_begin b)"

definition ib_fill :: "input_buffer \<Rightarrow> int" where
  "ib_fill ib = (ib_pos ib + int (length (ib_unread ib))) mod kBlockSize"

text \<open>
  \<open>NetInputStream::Next\<close> as its caller uses it: the chunk the returned pointer and size
  describe.
\<close>

definition stream_next :: "input_buffer \<Rightarrow> (byte list option \<times> input_buffer) res" where
  "stream_next ib = res_bind (ib_next ib) (\<lambda>(r, ib').
     case r of None \<Rightarrow> Inr (None, ib')
     | Some (d, n) \<Rightarrow> res_bind (peek ib' d (nat n)) (\<lambda>bs. Inr (Some bs, ib')))"

subsection \<open>Lemmas on the representation\<close>

lemma ib_invI:
  "ib_rep ib ds cs \<Longrightarrow> unat (read_bytes ib) = length (ib_unread ib) \<Longrightarrow> 0 \<le> in_limit ib \<Longrightarrow>
   in_limit ib \<le> INT32_MAX \<Longrightarrow> ib_inv ib"
  by (auto simp: ib_inv_def)

lemma ib_unread_rep:
  assumes "ib_rep ib ds cs"
  shows "ib_unread ib = block_bytes (blocks (in_heap ib) cs)"
proof -
  have "blocks_from (in_heap ib) (Some (hd cs)) = cs"
    using assms by (intro owns_blocks_from [of _ "first_block ib" ds]) (simp_all add: ib_rep_def)
  then show ?thesis
    using assms by (simp add: ib_unread_def ib_rep_def)
qed

lemma ib_rep_cur:
  assumes "ib_rep ib ds (c # cs)"
  obtains b where "cells (in_heap ib) c = Some b" and "blk_wf b"
    and "blk_next b = (if cs = [] then None else Some (hd cs))"
    and "cs = [] \<longrightarrow> blk_end b < kBlockSize"
    and "cs \<noteq> [] \<longrightarrow> blk_end b = kBlockSize \<and> blk_begin b < kBlockSize"
    and "ib_unread ib = blk_bytes b @ block_bytes (blocks (in_heap ib) cs)"
    and "c \<notin> set cs" and "cur_block ib = Some c"
proof -
  from assms obtain b where b: "cells (in_heap ib) c = Some b"
    and ch: "chain (in_heap ib) (blk_next b) cs None"
    by (auto simp: ib_rep_def owns_def chain_append)
  have "blk_next b = (if cs = [] then None else Some (hd cs))"
    using ch chain_head [OF ch] by auto
  moreover have "ib_unread ib = blk_bytes b @ block_bytes (blocks (in_heap ib) cs)"
    using b by (simp add: ib_unread_rep [OF assms])
  ultimately show thesis
    using assms b by (intro that [of b]) (auto simp: ib_rep_def filled_Cons owns_def)
qed

text \<open>
  Consuming \<open>n\<close> bytes of the current block and leaving it if it is used up: the
  representation is kept and the first \<open>n\<close> unread bytes are gone.
\<close>

lemma ib_consume:
  assumes rep: "ib_rep ib ds (c # cs)" and b: "cells (in_heap ib) c = Some b"
    and n: "0 \<le> n" "n \<le> blk_end b - blk_begin b"
    and ib1: "in_heap ib1 = upd (in_heap ib) c (b\<lparr>blk_begin := blk_begin b + n\<rparr>)"
      "first_block ib1 = first_block ib" "cur_block ib1 = cur_block ib"
      "last_block ib1 = last_block ib"
  shows "\<exists>ib2 ds' cs'. next_if_full ib1 = Inr ib2 \<and> ib_rep ib2 ds' cs' \<and>
    ib_unread ib2 = drop (nat n) (ib_unread ib) \<and> ib2 = ib1\<lparr>cur_block := cur_block ib2\<rparr> \<and>
    (cur_block ib2 \<noteq> cur_block ib \<longrightarrow>
      (\<exists>b2. load (in_heap ib1) (cur_block ib2) = Inr b2 \<and> blk_begin b2 = 0)) \<and>
    ib_fill ib2 = ib_fill ib"
proof -
  let ?b = "b\<lparr>blk_begin := blk_begin b + n\<rparr>"
  from rep b obtain wf: "blk_wf b"
    and nx: "blk_next b = (if cs = [] then None else Some (hd cs))"
    and e0: "cs = [] \<longrightarrow> blk_end b < kBlockSize"
    and e1: "cs \<noteq> [] \<longrightarrow> blk_end b = kBlockSize \<and> blk_begin b < kBlockSize"
    and un: "ib_unread ib = blk_bytes b @ block_bytes (blocks (in_heap ib) cs)"
    and dist: "c \<notin> set cs" and cur: "cur_block ib1 = Some c"
    unfolding ib1 by (elim ib_rep_cur) auto
  have wf': "blk_wf ?b" using wf n by (auto simp: blk_wf_def)
  have bytes: "blk_bytes ?b = drop (nat n) (blk_bytes b)"
    using wf n by (rule blk_bytes_advance)
  have own: "owns (in_heap ib1) (first_block ib1) (ds @ c # cs)"
    using rep b by (auto simp: ib1 ib_rep_def intro!: owns_upd)
  have bl: "blocks (in_heap ib1) cs = blocks (in_heap ib) cs"
    using dist by (simp add: ib1)
  have len: "int (length (blk_bytes b)) = blk_end b - blk_begin b"
    using wf by (rule length_blk_bytes)
  have pos: "ib_pos ib = blk_begin b" using b cur by (simp add: ib_pos_def ib1)
  have nl: "nat n \<le> length (ib_unread ib)" using n len un by simp
  then have l2: "int (length (drop (nat n) (ib_unread ib))) = int (length (ib_unread ib)) - n"
    using n by (simp add: of_nat_diff)
  show ?thesis
  proof (cases "blk_begin b + n = kBlockSize \<and> cs \<noteq> []")
    case True
    then have "int (length (blk_bytes b)) = n" using len e1 by linarith
    then have nn: "nat n = length (blk_bytes b)" by simp
    let ?ib2 = "ib1\<lparr>cur_block := Some (hd cs)\<rparr>"
    have "next_if_full ib1 = Inr ?ib2"
      using True nx by (simp add: next_if_full_def cur ib1)
    moreover have r: "ib_rep ?ib2 (ds @ [c]) cs"
      using True rep own bl by (cases cs) (auto simp: ib_rep_def ib1(4) filled_Cons kBlockSize_def)
    moreover have u2: "ib_unread ?ib2 = drop (nat n) (ib_unread ib)"
      using un nn by (simp add: ib_unread_rep [OF r] bl)
    moreover have mv: "\<exists>b2. load (in_heap ib1) (Some (hd cs)) = Inr b2 \<and> blk_begin b2 = 0"
    proof -
      from rep True have "hd cs \<in> dom (cells (in_heap ib))" "blk_begin (hd (blocks (in_heap ib) cs)) = 0"
        by (auto simp: ib_rep_def owns_def filled_Cons)
      then show ?thesis using True dist by (cases cs) (auto simp: ib1)
    qed
    moreover have "ib_fill ?ib2 = ib_fill ib"
    proof -
      have "ib_pos ?ib2 = 0" using mv by (auto simp: ib_pos_def)
      moreover have "blk_begin b + int (length (ib_unread ib))
          = (int (length (ib_unread ib)) - n) + kBlockSize"
        using True by simp
      ultimately show ?thesis unfolding ib_fill_def u2 l2 pos by (metis add_0 mod_add_self2)
    qed
    ultimately show ?thesis by auto
  next
    case False
    have lt: "blk_begin b + n < kBlockSize"
      using False e0 e1 n wf by (cases "cs = []") (auto simp: blk_wf_def)
    have "next_if_full ib1 = Inr ib1"
      using False nx by (auto simp: next_if_full_def cur ib1)
    moreover have r: "ib_rep ib1 ds (c # cs)"
      using rep own wf' lt b dist e0 e1
      by (auto simp: ib_rep_def ib1 filled_Cons)
    moreover have u1: "ib_unread ib1 = drop (nat n) (ib_unread ib)"
      using un bytes len n dist by (simp add: ib_unread_rep [OF r] ib1)
    moreover have "ib_fill ib1 = ib_fill ib"
    proof -
      have "ib_pos ib1 = blk_begin b + n" using cur by (simp add: ib_pos_def ib1(1))
      then show ?thesis unfolding ib_fill_def u1 l2 pos by simp
    qed
    ultimately show ?thesis using ib1 by auto
  qed
qed

lemma ib_rep_last:
  assumes "ib_rep ib ds cs"
  obtains as l b where "cs = as @ [l]" and "cells (in_heap ib) l = Some b" and "blk_wf b"
    and "blk_end b < kBlockSize" and "last_block ib = Some l"
    and "ib_unread ib = block_bytes (blocks (in_heap ib) as) @ blk_bytes b" and "l \<notin> set as"
proof -
  from assms obtain as l where cs: "cs = as @ [l]"
    by (metis ib_rep_def rev_exhaust)
  with assms have "owns (in_heap ib) (first_block ib) ((ds @ as) @ [l])"
    by (simp add: ib_rep_def)
  then obtain b where b: "cells (in_heap ib) l = Some b" and l: "l \<notin> set as"
    by (rule owns_last) auto
  have "ib_unread ib = block_bytes (blocks (in_heap ib) as) @ blk_bytes b"
    using b by (simp add: ib_unread_rep [OF assms] cs)
  then show thesis
    using that cs b l assms by (auto simp: ib_rep_def filled_snoc)
qed

subsection \<open>The constructor, filling and draining\<close>

lemma InputBuffer_rep: "ib_rep (InputBuffer j) [] [0]"
  using owns_new [of j]
  by (auto simp: ib_rep_def InputBuffer_def new_block_def empty_heap_def blk_wf_def kBlockSize_def
      split: prod.splits)

lemma InputBuffer_unread: "ib_unread (InputBuffer j) = []"
  unfolding ib_unread_rep [OF InputBuffer_rep]
  by (simp add: InputBuffer_def new_block_def empty_heap_def blk_bytes_def)

lemma InputBuffer_inv: "ib_inv (InputBuffer j)"
  unfolding ib_inv_def InputBuffer_unread using InputBuffer_rep [of j]
  by (auto simp: InputBuffer_def new_block_def INT32_MAX_def)

lemma get_buffer_rep:
  assumes "ib_rep ib ds (as @ [l])" and "cells (in_heap ib) l = Some b"
  shows "get_buffer ib = Inr ((Some l, blk_end b), kBlockSize - blk_end b)"
  using assms by (simp add: get_buffer_def ib_rep_def)

lemma get_buffer_ok:
  assumes "ib_inv ib"
  obtains d room where "get_buffer ib = Inr (d, room)" and "0 < room" and "room \<le> kBlockSize"
proof -
  from assms obtain ds cs where rep: "ib_rep ib ds cs" by (auto simp: ib_inv_def)
  then obtain as l b where "cs = as @ [l]" "cells (in_heap ib) l = Some b" "blk_wf b"
      "blk_end b < kBlockSize"
    by (rule ib_rep_last)
  with rep get_buffer_rep [of ib ds as l b] show thesis
    by (intro that) (auto simp: blk_wf_def)
qed

lemma ib_pos_rep:
  assumes "ib_rep ib ds cs"
  shows "ib_pos ib = blk_begin (hd (blocks (in_heap ib) cs))"
proof -
  from assms obtain c cs' where cs: "cs = c # cs'" by (cases cs) (auto simp: ib_rep_def)
  with assms obtain b where "cells (in_heap ib) c = Some b" "cur_block ib = Some c"
    using ib_rep_cur by blast
  then show ?thesis by (simp add: ib_pos_def cs)
qed

lemma ib_fill_receive:
  assumes "ib_rep ib ds cs" and "ib_rep ib2 ds2 cs2"
    and "blk_begin (hd (blocks (in_heap ib2) cs2)) = blk_begin (hd (blocks (in_heap ib) cs))"
    and "ib_unread ib2 = ib_unread ib @ bs"
  shows "ib_fill ib2 = (ib_fill ib + int (length bs)) mod kBlockSize"
  using assms(3,4) by (simp add: ib_fill_def ib_pos_rep [OF assms(1)] ib_pos_rep [OF assms(2)]
      mod_simps algebra_simps)

lemma receive_ok:
  assumes inv: "ib_inv ib" and gb: "get_buffer ib = Inr (d, room)"
    and len: "int (length bs) \<le> room" and sz: "length (ib_unread ib) + length bs < 2 ^ 64"
  obtains ib1 ib2 where "poke ib d bs = Inr ib1" and "recv_add ib1 (int (length bs)) = Inr ib2"
    and "ib_inv ib2" and "ib_unread ib2 = ib_unread ib @ bs"
    and "consumed_bytes ib2 = consumed_bytes ib" and "in_limit ib2 = in_limit ib"
    and "ib_fill ib2 = (ib_fill ib + int (length bs)) mod kBlockSize"
proof -
  from inv obtain ds cs where rep': "ib_rep ib ds cs" by (auto simp: ib_inv_def)
  then obtain as l b where cs: "cs = as @ [l]" and b: "cells (in_heap ib) l = Some b"
    and wf: "blk_wf b" and lb: "last_block ib = Some l" and l: "l \<notin> set as"
    by (rule ib_rep_last) auto
  note rep = rep' [unfolded cs]
  have d: "d = (Some l, blk_end b)" and room: "room = kBlockSize - blk_end b"
    using gb get_buffer_rep [OF rep b] by auto
  have bs: "blk_end b + int (length bs) \<le> kBlockSize" using len room by simp
  let ?n = "int (length bs)"
  let ?bp = "b\<lparr>blk_data := copy_into (blk_data b) (nat (blk_end b)) bs\<rparr>"
  let ?b1 = "?bp\<lparr>blk_end := blk_end b + ?n\<rparr>"
  let ?h1 = "upd (in_heap ib) l ?b1"
  let ?ib1 = "ib\<lparr>in_heap := upd (in_heap ib) l ?bp\<rparr>"
  have poke: "poke ib d bs = Inr ?ib1"
    using b blk_bytes_put(1) [OF wf bs] by (simp add: poke_def d)
  have g: "owns ?h1 (first_block ib) (ds @ as @ [l])" "filled (blocks ?h1 (as @ [l]))"
    "block_bytes (blocks ?h1 (as @ [l])) = ib_unread ib @ bs"
    "blk_begin (hd (blocks ?h1 (as @ [l]))) < kBlockSize"
    "blk_begin (hd (blocks ?h1 (as @ [l]))) = blk_begin (hd (blocks (in_heap ib) (as @ [l])))"
    using queue_grow [OF _ _ b bs refl, of "first_block ib" ds as] rep
    by (simp_all add: ib_rep_def ib_unread_rep [OF rep] del: blocks_simps)
  have cnt: "unat (read_bytes ib + of_int ?n) = length (ib_unread ib) + length bs"
    using unat_add_of_int [of ?n "read_bytes ib"] inv sz by (simp add: ib_inv_def)
  have e: "blk_end b < kBlockSize" and cur: "cur_block ib = Some (hd (as @ [l]))"
    using rep b by (auto simp: ib_rep_def)
  consider (part) "blk_end b + ?n < kBlockSize" | (full) "blk_end b + ?n = kBlockSize"
    using bs by linarith
  then show thesis
  proof cases
    case part
    let ?ib2 = "ib\<lparr>in_heap := ?h1, read_bytes := read_bytes ib + of_int ?n\<rparr>"
    have "recv_add ?ib1 ?n = Inr ?ib2"
      using part lb by (cases bs) (simp_all add: recv_add_def)
    moreover have r: "ib_rep ?ib2 ds (as @ [l])"
      using g part lb cur by (auto simp: ib_rep_def)
    moreover have "ib_unread ?ib2 = ib_unread ib @ bs"
      unfolding ib_unread_rep [OF r] using g by simp
    moreover from this have "ib_inv ?ib2"
      using r cnt inv by (auto simp: ib_inv_def)
    moreover have "ib_fill ?ib2 = (ib_fill ib + int (length bs)) mod kBlockSize"
      by (rule ib_fill_receive [OF rep r]) (use g(5) \<open>ib_unread ?ib2 = _\<close> in auto)
    ultimately show thesis by (intro that [OF poke, of ?ib2]) simp_all
  next
    case full
    let ?m = "brk (in_heap ib)"
    let ?h2 = "upd (snd (new_block ?h1)) l (?b1\<lparr>blk_next := Some ?m\<rparr>)"
    let ?ib2 = "ib\<lparr>in_heap := ?h2, read_bytes := read_bytes ib + of_int ?n, last_block := Some ?m\<rparr>"
    have ne: "bs \<noteq> []" using full e by auto
    have fresh: "?m \<noteq> l" using rep by (auto simp: ib_rep_def owns_def)
    have "recv_add ?ib1 ?n = Inr ?ib2"
      using full lb ne fresh by (simp add: recv_add_def case_prod_beta)
    moreover have r: "ib_rep ?ib2 ds (as @ [l, ?m])"
      using queue_link [OF g(1,2), of ?b1 ?h2] g(4) full cur
      by (simp add: ib_rep_def kBlockSize_def)
    moreover have "ib_unread ?ib2 = ib_unread ib @ bs"
      unfolding ib_unread_rep [OF r] using queue_link(4) [OF g(1,2), of ?b1 ?h2] full g(3) by simp
    moreover from this have "ib_inv ?ib2"
      using cnt inv by (intro ib_invI [OF r]) (simp_all add: ib_inv_def)
    moreover have "ib_fill ?ib2 = (ib_fill ib + int (length bs)) mod kBlockSize"
      by (rule ib_fill_receive [OF rep r])
        (use g(5) queue_link(3) [OF g(1,2), of ?b1 ?h2] full \<open>ib_unread ?ib2 = _\<close> in auto)
    ultimately show thesis by (intro that [OF poke, of ?ib2]) simp_all
  qed
qed

text \<open>
  The invariant split at the current block, the starting point of every reading operation.
\<close>

lemma ib_inv_cur:
  assumes "ib_inv ib"
  obtains ds c cs b where "ib_rep ib ds (c # cs)" and "cells (in_heap ib) c = Some b"
    and "cur_block ib = Some c" and "blk_wf b"
    and "blk_next b = (if cs = [] then None else Some (hd cs))"
    and "cs = [] \<longrightarrow> blk_end b < kBlockSize"
    and "cs \<noteq> [] \<longrightarrow> blk_end b = kBlockSize \<and> blk_begin b < kBlockSize"
    and "ib_unread ib = blk_bytes b @ block_bytes (blocks (in_heap ib) cs)"
    and "cur_len ib = blk_end b - blk_begin b"
    and "int (length (blk_bytes b)) = blk_end b - blk_begin b"
proof -
  from assms obtain ds cs' where "ib_rep ib ds cs'" by (auto simp: ib_inv_def)
  then obtain c cs where rep: "ib_rep ib ds (c # cs)" by (cases cs') (auto simp: ib_rep_def)
  then obtain b where "cells (in_heap ib) c = Some b" "blk_wf b" "cur_block ib = Some c"
    "blk_next b = (if cs = [] then None else Some (hd cs))"
    "cs = [] \<longrightarrow> blk_end b < kBlockSize"
    "cs \<noteq> [] \<longrightarrow> blk_end b = kBlockSize \<and> blk_begin b < kBlockSize"
    "ib_unread ib = blk_bytes b @ block_bytes (blocks (in_heap ib) cs)"
    by (rule ib_rep_cur) blast
  with rep show thesis
    by (intro that) (auto simp: cur_len_def length_blk_bytes)
qed

lemma ib_unread_empty_iff:
  assumes "ib_inv ib"
  shows "ib_unread ib = [] \<longleftrightarrow> cur_len ib = 0" and "0 \<le> cur_len ib"
    and "cur_len ib \<le> int (length (ib_unread ib))" and "cur_len ib \<le> kBlockSize"
proof -
  from assms obtain ds c cs b where *: "ib_rep ib ds (c # cs)" "cells (in_heap ib) c = Some b"
    "blk_wf b" "cs \<noteq> [] \<longrightarrow> blk_end b = kBlockSize \<and> blk_begin b < kBlockSize"
    "ib_unread ib = blk_bytes b @ block_bytes (blocks (in_heap ib) cs)"
    "cur_len ib = blk_end b - blk_begin b"
    "int (length (blk_bytes b)) = blk_end b - blk_begin b"
    by (rule ib_inv_cur) blast
  show "ib_unread ib = [] \<longleftrightarrow> cur_len ib = 0"
  proof (cases "cs = []")
    case True
    then show ?thesis using *(5-7) by (metis append_Nil2 block_bytes_simps(1) blocks_simps(1)
        length_0_conv of_nat_eq_0_iff)
  next
    case False
    with *(4) have "blk_begin b < blk_end b" by simp
    with *(7) have "0 < int (length (blk_bytes b))" by linarith
    then show ?thesis using *(5-7) by auto
  qed
  show "0 \<le> cur_len ib" "cur_len ib \<le> int (length (ib_unread ib))" "cur_len ib \<le> kBlockSize"
    using * by (auto simp: blk_wf_def)
qed

lemma ib_read_bytes_less:
  assumes "ib_inv ib"
  shows "4 > read_bytes ib \<longleftrightarrow> length (ib_unread ib) < 4"
  using assms by (simp add: ib_inv_def word_less_nat_alt)

lemma fetch_uint32_short:
  assumes "ib_inv ib" and "length (ib_unread ib) < 4"
  shows "fetch_uint32 ib val = Inr (False, val, ib)"
  using assms ib_read_bytes_less [OF assms(1)] by (simp add: fetch_uint32_def)

lemma put_out_all: "length bs = length obj \<Longrightarrow> put_out obj 0 bs = Inr bs"
  by (simp add: put_out_def)

lemma ib_inv_consumed:
  assumes "ib_rep ib2 ds cs" and "ib_inv ib" and "ib_unread ib2 = drop n (ib_unread ib)"
    and "n \<le> length (ib_unread ib)" and "0 \<le> in_limit ib2" and "in_limit ib2 \<le> INT32_MAX"
    and "read_bytes ib2 = read_bytes ib - of_int (int n)"
  shows "ib_inv ib2"
  using assms unat_sub_of_int [of "int n" "read_bytes ib"] by (auto simp: ib_inv_def)

lemma ib_rep_same:
  assumes "ib_rep ib ds cs" and "in_heap ib' = in_heap ib" and "first_block ib' = first_block ib"
    and "cur_block ib' = cur_block ib" and "last_block ib' = last_block ib"
  shows "ib_rep ib' ds cs" and "ib_unread ib' = ib_unread ib"
  using assms by (simp_all add: ib_rep_def ib_unread_def)

lemma ib_fill_same:
  "ib_fill (ib\<lparr>read_bytes := n\<rparr>) = ib_fill ib" "ib_fill (ib\<lparr>consumed_bytes := m\<rparr>) = ib_fill ib"
  "ib_fill (ib\<lparr>in_limit := l\<rparr>) = ib_fill ib"
  by (simp_all add: ib_fill_def ib_pos_def ib_unread_def)

lemma fetch_uint32_ok:
  assumes inv: "ib_inv ib" and len: "4 \<le> cur_len ib" and val: "length val = 4"
  obtains ib' where "fetch_uint32 ib val = Inr (True, take 4 (ib_unread ib), ib')"
    and "ib_inv ib'" and "ib_unread ib' = drop 4 (ib_unread ib)"
    and "in_limit ib' = in_limit ib" and "consumed_bytes ib' = consumed_bytes ib + 4"
    and "ib_fill ib' = ib_fill ib"
proof -
  from inv obtain ds c cs b where rep: "ib_rep ib ds (c # cs)"
    and b: "cells (in_heap ib) c = Some b" and cur: "cur_block ib = Some c" and wf: "blk_wf b"
    and un: "ib_unread ib = blk_bytes b @ block_bytes (blocks (in_heap ib) cs)"
    and cl: "cur_len ib = blk_end b - blk_begin b"
    and lb: "int (length (blk_bytes b)) = blk_end b - blk_begin b"
    by (rule ib_inv_cur) blast
  let ?ib1 = "ib\<lparr>in_heap := upd (in_heap ib) c (b\<lparr>blk_begin := blk_begin b + 4\<rparr>)\<rparr>"
  obtain ib2 ds' cs' where nf: "next_if_full ?ib1 = Inr ib2" and r2: "ib_rep ib2 ds' cs'"
    and u2: "ib_unread ib2 = drop 4 (ib_unread ib)" and e2: "ib2 = ?ib1\<lparr>cur_block := cur_block ib2\<rparr>"
    and f2: "ib_fill ib2 = ib_fill ib"
    using ib_consume [OF rep b, of 4 ?ib1] len cl by auto
  have ge: "\<not> 4 > read_bytes ib"
    using len ib_read_bytes_less [OF inv] ib_unread_empty_iff(3) [OF inv] by linarith
  have l4: "4 \<le> length (blk_bytes b)" using lb len cl by linarith
  have bg: "block_get b (blk_begin b) 4 = Inr (take 4 (ib_unread ib))"
    using block_get_prefix [OF wf, of 4] len cl l4 by (simp add: un)
  let ?ib' = "ib2\<lparr>consumed_bytes := consumed_bytes ib2 + 4, read_bytes := read_bytes ib2 - 4\<rparr>"
  have "fetch_uint32 ib val = Inr (True, take 4 (ib_unread ib), ?ib')"
    using ge b bg val nf l4 len cl by (simp add: fetch_uint32_def cur put_out_all un min_def)
  moreover have r': "ib_rep ?ib' ds' cs'" and u': "ib_unread ?ib' = drop 4 (ib_unread ib)"
    using ib_rep_same [OF r2, of ?ib'] u2 by simp_all
  moreover have lim: "in_limit ?ib' = in_limit ib" and "consumed_bytes ?ib' = consumed_bytes ib + 4"
    and rb: "read_bytes ?ib' = read_bytes ib - 4"
    by (subst e2, simp)+
  moreover have "ib_inv ?ib'"
    by (rule ib_inv_consumed [OF r' inv u'])
      (use inv lim rb ge in \<open>simp_all add: ib_inv_def word_less_nat_alt\<close>)
  moreover have "ib_fill ?ib' = ib_fill ib"
    using f2 by (simp add: ib_fill_same)
  ultimately show thesis by (intro that [of ?ib']) simp_all
qed

text \<open>
  A length that straddles two blocks: the second \<open>memcpy\<close> writes outside \<open>value\<close>.
\<close>

lemma fetch_uint32_straddle:
  assumes inv: "ib_inv ib" and len: "4 \<le> length (ib_unread ib)" "cur_len ib < 4"
    and val: "length val = 4"
  shows "fetch_uint32 ib val = Inl OutOfBounds"
proof -
  from inv obtain ds c cs b where rep: "ib_rep ib ds (c # cs)"
    and b: "cells (in_heap ib) c = Some b" and cur: "cur_block ib = Some c" and wf: "blk_wf b"
    and nx: "blk_next b = (if cs = [] then None else Some (hd cs))"
    and e1: "cs \<noteq> [] \<longrightarrow> blk_end b = kBlockSize \<and> blk_begin b < kBlockSize"
    and un: "ib_unread ib = blk_bytes b @ block_bytes (blocks (in_heap ib) cs)"
    and cl: "cur_len ib = blk_end b - blk_begin b"
    and lb: "int (length (blk_bytes b)) = blk_end b - blk_begin b"
    by (rule ib_inv_cur) blast
  obtain c2 cs2 where cs: "cs = c2 # cs2"
    using un len cl lb by (cases cs) auto
  from rep have ne: "c2 \<noteq> c" and w2: "blk_begin (the (cells (in_heap ib) c2)) = 0"
    by (auto simp: ib_rep_def owns_def filled_Cons cs)
  from rep obtain b2 where b2: "cells (in_heap ib) c2 = Some b2"
    by (auto simp: ib_rep_def cs elim!: owns_cell [where a = c2])
  define k where "k = nat (blk_end b - blk_begin b)"
  have k: "0 < k" "k < 4" "blk_end b - blk_begin b = int k"
    using e1 len cl unfolding k_def by (auto simp: cs)
  have u: "unat (word_of_nat k :: size_t) = k" "(word_of_nat k :: size_t) < 4"
    using k by (simp_all add: unat_of_nat take_bit_eq_mod word_less_nat_alt)
  have ge: "\<not> 4 > read_bytes ib"
    using len ib_read_bytes_less [OF inv] by linarith
  have bg: "block_get b (blk_begin b) k = Inr (blk_bytes b)"
    using block_get_prefix [OF wf, of k] k lb by simp
  have b2g: "\<exists>bs2. block_get b2 (blk_begin b2) (4 - k) = Inr bs2 \<and> length bs2 = 4 - k"
    using w2 b2 k by (simp add: block_get_def kBlockSize_def)
  have p1: "\<exists>v1. put_out val 0 (blk_bytes b) = Inr v1 \<and> length v1 = 4"
    using k lb val by (simp add: put_out_def)
  from b2g p1 obtain bs2 v1 where "block_get b2 (blk_begin b2) (4 - k) = Inr bs2" "length bs2 = 4 - k"
    "put_out val 0 (blk_bytes b) = Inr v1" "length v1 = 4" by blast
  moreover from this k have "put_out v1 (4 * k) bs2 = Inl OutOfBounds"
    by (simp add: put_out_def)
  ultimately show ?thesis
    using ge b b2 bg k u nx ne by (simp add: fetch_uint32_def cur cs min_def)
qed

subsection \<open>Chunks\<close>

lemma ib_next_None:
  assumes inv: "ib_inv ib" and av: "ib_avail ib = []"
  shows "ib_next ib = Inr (None, ib)"
proof -
  from inv obtain ds c cs b where b: "cells (in_heap ib) c = Some b" "cur_block ib = Some c"
    and cl: "cur_len ib = blk_end b - blk_begin b"
    by (rule ib_inv_cur) blast
  have "cur_len ib = 0 \<or> in_limit ib = 0"
    using av ib_unread_empty_iff(1) [OF inv] inv by (auto simp: ib_avail_def ib_inv_def split: if_splits)
  then have "blk_begin b = blk_end b \<or> in_limit ib = 0"
    using cl by auto
  then show ?thesis
    using b by (simp add: ib_next_def)
qed

lemma ib_next_Some:
  assumes inv: "ib_inv ib" and av: "ib_avail ib \<noteq> []"
    and n: "n = min (cur_len ib) (in_limit ib)"
  obtains d ib' b where "ib_next ib = Inr (Some (d, n), ib')" and "0 < n"
    and "peek ib' d (nat n) = Inr (take (nat n) (ib_unread ib))"
    and "ib_inv ib'" and "ib_unread ib' = drop (nat n) (ib_unread ib)"
    and "ib_avail ib = take (nat n) (ib_unread ib) @ ib_avail ib'"
    and "in_limit ib' = in_limit ib - (if in_limit ib = INT32_MAX then 0 else n)"
    and "consumed_bytes ib' = consumed_bytes ib + of_int n"
    and "load (in_heap ib) (cur_block ib) = Inr b"
    and "in_heap ib' = upd (in_heap ib) (the (cur_block ib)) (b\<lparr>blk_begin := blk_begin b + n\<rparr>)"
    and "cur_block ib' \<noteq> cur_block ib \<longrightarrow>
      (\<exists>b2. load (in_heap ib') (cur_block ib') = Inr b2 \<and> blk_begin b2 = 0)"
    and "take (nat n) (ib_unread ib) = slice (blk_data b) (nat (blk_begin b)) (nat (blk_begin b) + nat n)"
    and "0 \<le> blk_begin b" and "ib_fill ib' = ib_fill ib"
proof -
  from inv obtain ds c cs b where rep: "ib_rep ib ds (c # cs)"
    and b: "cells (in_heap ib) c = Some b" and cur: "cur_block ib = Some c" and wf: "blk_wf b"
    and un: "ib_unread ib = blk_bytes b @ block_bytes (blocks (in_heap ib) cs)"
    and cl: "cur_len ib = blk_end b - blk_begin b"
    and lb: "int (length (blk_bytes b)) = blk_end b - blk_begin b"
    by (rule ib_inv_cur) blast
  have lim: "0 < in_limit ib" "in_limit ib \<le> INT32_MAX" and clp: "0 < cur_len ib"
    using av ib_unread_empty_iff(1,2) [OF inv] inv
    by (auto simp: ib_avail_def ib_inv_def less_le INT32_MAX_def split: if_splits)
  have n': "0 < n" "n \<le> blk_end b - blk_begin b" "n \<le> in_limit ib"
    using lim clp n cl by auto
  let ?L = "in_limit ib - (if in_limit ib = INT32_MAX then 0 else n)"
  let ?ib1 = "ib\<lparr>in_limit := ?L,
       in_heap := upd (in_heap ib) c (b\<lparr>blk_begin := blk_begin b + n\<rparr>),
       consumed_bytes := consumed_bytes ib + of_int n\<rparr>"
  obtain ib2 ds' cs' where nf: "next_if_full ?ib1 = Inr ib2" and r2: "ib_rep ib2 ds' cs'"
    and u2: "ib_unread ib2 = drop (nat n) (ib_unread ib)" and e2: "ib2 = ?ib1\<lparr>cur_block := cur_block ib2\<rparr>"
    and mv: "cur_block ib2 \<noteq> cur_block ib \<longrightarrow>
      (\<exists>b2. load (in_heap ?ib1) (cur_block ib2) = Inr b2 \<and> blk_begin b2 = 0)"
    and f2: "ib_fill ib2 = ib_fill ib"
    using ib_consume [OF rep b, of n ?ib1] n' by auto
  let ?ib' = "ib2\<lparr>read_bytes := read_bytes ib2 - of_int n\<rparr>"
  have f: "in_heap ?ib' = in_heap ?ib1" "in_limit ?ib' = ?L"
    "consumed_bytes ?ib' = consumed_bytes ib + of_int n" "read_bytes ?ib' = read_bytes ib - of_int n"
    by (subst e2, simp)+
  have l: "nat n \<le> length (ib_unread ib)" using n' lb un by simp
  have nx: "ib_next ib = Inr (Some ((Some c, blk_begin b), n), ?ib')"
  proof -
    have "min (blk_end b - blk_begin b) (in_limit ib) = n" using n cl by simp
    moreover have "\<not> (blk_begin b = blk_end b \<or> in_limit ib = 0)" using lim clp cl by auto
    ultimately show ?thesis using b cur nf by (simp add: ib_next_def Let_def)
  qed
  have pk: "peek ?ib' (Some c, blk_begin b) (nat n) = Inr (take (nat n) (ib_unread ib))"
    using block_get_prefix [OF wf, of "nat n"] n' lb
    by (simp add: peek_def f un)
  have r': "ib_rep ?ib' ds' cs'" and u': "ib_unread ?ib' = drop (nat n) (ib_unread ib)"
    using ib_rep_same [OF r2, of ?ib'] u2 by simp_all
  have inv': "ib_inv ?ib'"
    by (rule ib_inv_consumed [OF r' inv u' l]) (use lim n' f in auto)
  have "ib_avail ib = take (nat n) (ib_unread ib) @ ib_avail ?ib'"
  proof (cases "in_limit ib = INT32_MAX")
    case True
    then show ?thesis using f u' by (simp add: ib_avail_def)
  next
    case False
    then have "nat (in_limit ib) = nat n + nat ?L" and "?L \<noteq> INT32_MAX"
      using n' lim by auto
    then show ?thesis
      using False f u' l by (simp add: ib_avail_def take_add)
  qed
  moreover have "take (nat n) (ib_unread ib)
      = slice (blk_data b) (nat (blk_begin b)) (nat (blk_begin b) + nat n)"
    using pk by (simp add: peek_def f block_get_def split: if_splits)
  ultimately show thesis
    using that [OF nx n'(1) pk inv' u', of b] f mv b cur wf f2 by (simp add: blk_wf_def ib_fill_same)
qed

lemma stream_next_chunk:
  assumes "ib_inv ib" and "ib_avail ib \<noteq> []"
  shows "\<exists>bs ib'. stream_next ib = Inr (Some bs, ib') \<and> bs \<noteq> [] \<and> ib_inv ib' \<and>
    ib_avail ib = bs @ ib_avail ib' \<and> ib_unread ib = bs @ ib_unread ib' \<and> ib_fill ib' = ib_fill ib"
proof -
  define n where "n = min (cur_len ib) (in_limit ib)"
  obtain d ib' where *: "ib_next ib = Inr (Some (d, n), ib')" "0 < n"
    "peek ib' d (nat n) = Inr (take (nat n) (ib_unread ib))"
    "ib_inv ib'" "ib_unread ib' = drop (nat n) (ib_unread ib)"
    "ib_avail ib = take (nat n) (ib_unread ib) @ ib_avail ib'" "ib_fill ib' = ib_fill ib"
    using ib_next_Some [OF assms n_def] by metis
  have "ib_unread ib \<noteq> []" using assms(2) by (auto simp: ib_avail_def split: if_splits)
  then show ?thesis
    using * by (intro exI [of _ "take (nat n) (ib_unread ib)"] exI [of _ ib'])
      (simp add: stream_next_def)
qed

text \<open>Reading keeps the fill, so the contract holds for the buffers of one fill.\<close>

interpretation input_stream: zero_copy_input "\<lambda>ib. ib_inv ib \<and> ib_fill ib = F" stream_next ib_avail ib_unread for F
proof unfold_locales
  fix ib assume "ib_inv ib \<and> ib_fill ib = F" and "ib_avail ib = []"
  then show "stream_next ib = Inr (None, ib)"
    by (simp add: stream_next_def ib_next_None)
next
  fix ib assume "ib_inv ib \<and> ib_fill ib = F" and "ib_avail ib \<noteq> []"
  then show "\<exists>bs s'. stream_next ib = Inr (Some bs, s') \<and> bs \<noteq> [] \<and> (ib_inv s' \<and> ib_fill s' = F) \<and>
      ib_avail ib = bs @ ib_avail s' \<and> ib_unread ib = bs @ ib_unread s'"
    using stream_next_chunk by fastforce
qed

lemma limited_read:
  assumes inv: "ib_inv ib" and L: "0 \<le> L" "L < INT32_MAX" "L \<le> int (length (ib_unread ib))"
  shows "\<exists>ib'. read_all stream_next (push_limit ib L) [] = Some (Inr (take (nat L) (ib_unread ib), ib')) \<and>
    ib_inv (pop_limit ib') \<and> ib_unread (pop_limit ib') = drop (nat L) (ib_unread ib) \<and>
    ib_fill (pop_limit ib') = ib_fill ib \<and> ib_inv ib' \<and> ib_unread ib' = ib_unread (pop_limit ib') \<and>
    ib_fill ib' = ib_fill ib"
proof -
  let ?ib = "push_limit ib L"
  have u: "ib_unread ?ib = ib_unread ib" and inv': "ib_inv ?ib" and f: "ib_fill ?ib = ib_fill ib"
    using assms by (auto simp: ib_inv_def push_limit_def ib_rep_def ib_unread_def ib_fill_same)
  have av: "ib_avail ?ib = take (nat L) (ib_unread ib)"
    using L(2) by (simp add: ib_avail_def u) (simp add: push_limit_def)
  obtain ib' where r: "read_all stream_next ?ib [] = Some (Inr (take (nat L) (ib_unread ib), ib'))"
    and "ib_inv ib'" and "ib_fill ib' = ib_fill ib"
    and "ib_unread ib = take (nat L) (ib_unread ib) @ ib_unread ib'"
    using input_stream.read_all_reads [of ?ib "ib_fill ib" "[]"] inv' f by (auto simp: av u)
  moreover from this have "ib_unread ib' = drop (nat L) (ib_unread ib)"
    by (metis append_take_drop_id same_append_eq)
  ultimately show ?thesis
    by (auto simp: ib_inv_def pop_limit_def ib_rep_def ib_unread_def INT32_MAX_def ib_fill_same)
qed

lemma ib_pos_facts:
  assumes inv: "ib_inv ib"
  shows "0 \<le> ib_pos ib" and "ib_pos ib < kBlockSize"
    and "cur_len ib = min (kBlockSize - ib_pos ib) (int (length (ib_unread ib)))"
    and "ib_pos ib = (ib_fill ib - int (length (ib_unread ib))) mod kBlockSize"
proof -
  from inv obtain ds c cs b where rep: "ib_rep ib ds (c # cs)"
    and b: "cells (in_heap ib) c = Some b" and cur: "cur_block ib = Some c" and wf: "blk_wf b"
    and e0: "cs = [] \<longrightarrow> blk_end b < kBlockSize"
    and e1: "cs \<noteq> [] \<longrightarrow> blk_end b = kBlockSize \<and> blk_begin b < kBlockSize"
    and un: "ib_unread ib = blk_bytes b @ block_bytes (blocks (in_heap ib) cs)"
    and cl: "cur_len ib = blk_end b - blk_begin b"
    and lb: "int (length (blk_bytes b)) = blk_end b - blk_begin b"
    by (rule ib_inv_cur) blast
  have pos: "ib_pos ib = blk_begin b" using b cur by (simp add: ib_pos_def)
  show ge: "0 \<le> ib_pos ib" and lt: "ib_pos ib < kBlockSize"
    using pos wf e0 e1 by (cases "cs = []"; auto simp: blk_wf_def)+
  show "cur_len ib = min (kBlockSize - ib_pos ib) (int (length (ib_unread ib)))"
    using cl un lb e0 e1 pos by (cases "cs = []") auto
  have "(ib_fill ib - int (length (ib_unread ib))) mod kBlockSize = ib_pos ib mod kBlockSize"
    by (simp add: ib_fill_def mod_diff_left_eq)
  then show "ib_pos ib = (ib_fill ib - int (length (ib_unread ib))) mod kBlockSize"
    using ge lt by simp
qed

subsection \<open>Giving back, skipping, destroying\<close>

lemma dealloc_consumed_ok:
  assumes "owns h p (ds @ cs)" and "cs \<noteq> []"
  shows "\<exists>h'. dealloc_consumed h p (Some (hd cs)) = Some (Inr (h', Some (hd cs))) \<and>
    owns h' (Some (hd cs)) cs \<and> blocks h' cs = blocks h cs"
  using assms
proof (induction ds arbitrary: h p)
  case Nil
  then have "p = Some (hd cs)" using chain_head by (fastforce simp: owns_def)
  with Nil show ?case by (simp add: dealloc_consumed.simps)
next
  case (Cons a ds)
  then obtain b where b: "cells h a = Some b" "p = Some a"
    by (auto simp: owns_def)
  have ne: "a \<noteq> hd cs" using Cons.prems by (auto simp: owns_def)
  let ?h = "h\<lparr>cells := (cells h)(a := None)\<rparr>"
  have own: "owns ?h (blk_next b) (ds @ cs)" "blocks ?h (ds @ cs) = blocks h (ds @ cs)"
    using owns_free [of h p a "ds @ cs" b] Cons.prems(1) b by simp_all
  then have "blocks ?h cs = blocks h cs" by simp
  with Cons.IH [OF own(1) Cons.prems(2)] b ne show ?case
    by (simp add: dealloc_consumed.simps [of h])
qed

lemma delete_blocks_ok:
  assumes "owns h p as"
  shows "\<exists>h'. delete_blocks h p = Some (Inr h') \<and> (\<forall>a. cells h' a = None)"
  using assms
proof (induction as arbitrary: h p)
  case Nil
  then show ?case by (auto simp: owns_def delete_blocks.simps dom_def)
next
  case (Cons a as)
  then obtain b where b: "cells h a = Some b" "p = Some a"
    by (auto simp: owns_def)
  with Cons.IH [OF owns_free(1) [OF Cons.prems b(1)]] show ?case
    by (simp add: delete_blocks.simps [of h])
qed

lemma ib_back_up_ok:
  assumes inv: "ib_inv ib" and n: "0 \<le> n" and b: "load (in_heap ib) (cur_block ib) = Inr b"
    and k: "k = min n (blk_begin b)"
    and sz: "length (ib_unread ib) + nat k < 2 ^ 64"
    and lim: "in_limit ib = INT32_MAX \<or> in_limit ib + k \<le> INT32_MAX"
  shows "\<exists>ib'. ib_back_up ib n = Some (Inr ib') \<and> ib_inv ib' \<and>
    ib_unread ib' = slice (blk_data b) (nat (blk_begin b - k)) (nat (blk_begin b)) @ ib_unread ib \<and>
    first_block ib' = cur_block ib' \<and> cur_block ib' = cur_block ib"
proof -
  from inv obtain ds c cs b' where rep: "ib_rep ib ds (c # cs)"
    and b': "cells (in_heap ib) c = Some b'" and cur: "cur_block ib = Some c" and wf: "blk_wf b'"
    and un: "ib_unread ib = blk_bytes b' @ block_bytes (blocks (in_heap ib) cs)"
    by (rule ib_inv_cur) blast
  have bb: "b' = b" using b b' cur by simp
  have k': "0 \<le> k" "k \<le> blk_begin b" using k n wf by (auto simp: bb blk_wf_def)
  let ?b1 = "b\<lparr>blk_begin := blk_begin b - k\<rparr>"
  let ?h1 = "upd (in_heap ib) c ?b1"
  have c: "c \<notin> set cs" using rep by (auto simp: ib_rep_def owns_def)
  have "owns ?h1 (first_block ib) (ds @ c # cs)"
    using rep b' by (auto simp: ib_rep_def bb intro!: owns_upd)
  from dealloc_consumed_ok [OF this] obtain h' where
    da: "dealloc_consumed ?h1 (first_block ib) (Some c) = Some (Inr (h', Some c))"
    and own: "owns h' (Some c) (c # cs)" and bl: "blocks h' (c # cs) = blocks ?h1 (c # cs)"
    by auto
  let ?L = "in_limit ib + (if in_limit ib = INT32_MAX then 0 else k)"
  let ?ib' = "ib\<lparr>in_heap := h', read_bytes := read_bytes ib + of_int k, in_limit := ?L,
     consumed_bytes := consumed_bytes ib - of_int k, first_block := Some c\<rparr>"
  have run: "ib_back_up ib n = Some (Inr ?ib')"
    using b cur da by (simp add: ib_back_up_def k [symmetric] Let_def)
  have "blk_wf ?b1" using wf k' by (simp add: bb blk_wf_def)
  moreover have bl': "the (cells h' c) = ?b1" "blocks h' cs = blocks (in_heap ib) cs"
    using bl c by simp_all
  ultimately have r: "ib_rep ?ib' [] (c # cs)"
    using rep own cur k' b' by (auto simp: ib_rep_def filled_Cons bb)
  have beg: "nat (blk_begin b - k) \<le> nat (blk_begin b)" "nat (blk_begin b) \<le> nat (blk_end b)"
    using k' wf by (auto simp: bb blk_wf_def)
  have bb1: "blk_bytes ?b1 = slice (blk_data b) (nat (blk_begin b - k)) (nat (blk_begin b)) @ blk_bytes b"
    using slice_append [OF beg] by (simp add: blk_bytes_def)
  have "ib_unread ?ib' = blk_bytes ?b1 @ block_bytes (blocks (in_heap ib) cs)"
    unfolding ib_unread_rep [OF r] using bl c by simp
  then have u: "ib_unread ?ib' = slice (blk_data b) (nat (blk_begin b - k)) (nat (blk_begin b)) @ ib_unread ib"
    by (simp add: un bb bb1)
  have "length (ib_unread ?ib') = length (ib_unread ib) + nat k"
    unfolding u using k' by simp
  moreover have "unat (read_bytes ib + of_int k) = length (ib_unread ib) + nat k"
    using unat_add_of_int [of k "read_bytes ib"] sz k' inv by (simp add: ib_inv_def)
  ultimately have "ib_inv ?ib'"
    by (intro ib_invI [OF r]) (use lim inv k' in \<open>auto simp: ib_inv_def\<close>)
  then show ?thesis
    using run u cur by (intro exI [of _ ?ib']) simp
qed

lemma skip_body_ok:
  assumes inv: "ib_inv ib" and n: "0 < n" and k: "k = min n (cur_len ib)"
  obtains ib' where "skip_body ib n = Inr (ib', n - k)"
    and "ib_inv ib'" and "ib_unread ib' = drop (nat k) (ib_unread ib)"
    and "consumed_bytes ib' = consumed_bytes ib + of_int k" and "in_limit ib' = in_limit ib"
    and "0 \<le> k" and "k \<le> int (length (ib_unread ib))"
proof -
  from inv obtain ds c cs b where rep: "ib_rep ib ds (c # cs)"
    and b: "cells (in_heap ib) c = Some b" and cur: "cur_block ib = Some c" and wf: "blk_wf b"
    and un: "ib_unread ib = blk_bytes b @ block_bytes (blocks (in_heap ib) cs)"
    and cl: "cur_len ib = blk_end b - blk_begin b"
    and lb: "int (length (blk_bytes b)) = blk_end b - blk_begin b"
    by (rule ib_inv_cur) blast
  have k': "0 \<le> k" "k \<le> blk_end b - blk_begin b" "min n (blk_end b - blk_begin b) = k"
    using n ib_unread_empty_iff(2) [OF inv] by (auto simp: k cl)
  let ?ib1 = "ib\<lparr>in_heap := upd (in_heap ib) c (b\<lparr>blk_begin := blk_begin b + k\<rparr>),
     consumed_bytes := consumed_bytes ib + of_int k, read_bytes := read_bytes ib - of_int k\<rparr>"
  obtain ib2 ds' cs' where nf: "next_if_full ?ib1 = Inr ib2" and r2: "ib_rep ib2 ds' cs'"
    and u2: "ib_unread ib2 = drop (nat k) (ib_unread ib)" and e2: "ib2 = ?ib1\<lparr>cur_block := cur_block ib2\<rparr>"
    using ib_consume [OF rep b, of k ?ib1] k' by auto
  have f: "in_limit ib2 = in_limit ib" "consumed_bytes ib2 = consumed_bytes ib + of_int k"
    "read_bytes ib2 = read_bytes ib - of_int k"
    by (subst e2, simp)+
  have l: "nat k \<le> length (ib_unread ib)" using k' lb un by simp
  have inv2: "ib_inv ib2"
    by (rule ib_inv_consumed [OF r2 inv u2 l]) (use inv f k' in \<open>auto simp: ib_inv_def\<close>)
  have step: "skip_body ib n = Inr (ib2, n - k)"
    using b cur nf by (simp add: skip_body_def k'(3) Let_def)
  show thesis
    using that [OF step inv2 u2 f(2,1)] k' l by simp
qed

lemma skip_loop_ok:
  assumes "ib_inv ib" and "0 \<le> n" and "n \<le> int (length (ib_unread ib))"
  shows "\<exists>ib'. skip_loop ib n = Some (Inr ib') \<and> ib_inv ib' \<and>
    ib_unread ib' = drop (nat n) (ib_unread ib) \<and>
    consumed_bytes ib' = consumed_bytes ib + of_int n \<and> in_limit ib' = in_limit ib"
  using assms
proof (induction "nat n" arbitrary: ib n rule: less_induct)
  case less
  show ?case
  proof (cases "n = 0")
    case True
    with less.prems show ?thesis by (simp add: skip_loop.simps)
  next
    case False
    define k where "k = min n (cur_len ib)"
    obtain ib1 where s: "skip_body ib n = Inr (ib1, n - k)" "ib_inv ib1"
      "ib_unread ib1 = drop (nat k) (ib_unread ib)"
      "consumed_bytes ib1 = consumed_bytes ib + of_int k" "in_limit ib1 = in_limit ib"
      using skip_body_ok [OF less.prems(1) _ k_def] False less.prems(2) by auto
    have "ib_unread ib \<noteq> []" using False less.prems by auto
    then have k: "0 < k" "k \<le> n"
      using False less.prems ib_unread_empty_iff(1,2) [OF less.prems(1)] by (auto simp: k_def)
    then obtain ib' where "skip_loop ib1 (n - k) = Some (Inr ib')" "ib_inv ib'"
        "ib_unread ib' = drop (nat (n - k)) (ib_unread ib1)"
        "consumed_bytes ib' = consumed_bytes ib1 + of_int (n - k)" "in_limit ib' = in_limit ib1"
      using less.hyps [of "n - k" ib1] s less.prems by auto
    with s k show ?thesis
      by (simp add: skip_loop.simps [of ib] nat_diff_distrib)
  qed
qed

text \<open>Skipping more than is there never returns: the loop waits for bytes it cannot get.\<close>

lemma skip_loop_diverges:
  assumes inv: "ib_inv ib" and n: "n > int (length (ib_unread ib))"
  shows "skip_loop ib n = None"
proof (rule ccontr)
  let ?P = "\<lambda>ib n. ib_inv ib \<and> n > int (length (ib_unread ib))"
  assume "skip_loop ib n \<noteq> None"
  then obtain r where ret: "skip_loop ib n = Some r" by auto
  have "\<not> ?P ib n"
  proof (rule skip_loop.raw_induct [where P = "\<lambda>ib n r. \<not> ?P ib n", OF _ ret], rule notI)
    fix f :: "input_buffer \<Rightarrow> int \<Rightarrow> input_buffer res option" and ib n r
    assume IH: "\<And>ib n r. f ib n = Some r \<Longrightarrow> \<not> ?P ib n"
      and eq: "(if n > 0 then case skip_body ib n of Inl e \<Rightarrow> Some (Inl e)
         | Inr (ib', n') \<Rightarrow> f ib' n' else Some (Inr ib)) = Some r"
      and A: "?P ib n"
    from A have n0: "0 < n" by linarith
    from A n0 obtain ib' k where s: "skip_body ib n = Inr (ib', n - k)" "ib_inv ib'"
      "ib_unread ib' = drop (nat k) (ib_unread ib)" "0 \<le> k" "k \<le> int (length (ib_unread ib))"
      using skip_body_ok [of ib n, OF _ _ refl] by metis
    then have "f ib' (n - k) = Some r" using eq n0 by simp
    with IH have "\<not> ?P ib' (n - k)" by blast
    then show False using A s by simp
  qed
  with inv n show False by simp
qed

subsection \<open>Properties\<close>

text \<open>Buffers for the witnesses: one block that holds the bytes \<open>bs\<close>.\<close>

definition buffer_with :: "byte list \<Rightarrow> input_buffer" where
  "buffer_with bs =
     \<lparr>in_heap = \<lparr>cells = [0 \<mapsto> \<lparr>blk_begin = 0, blk_end = int (length bs),
                          blk_data = (\<lambda>i. if i < length bs then bs ! i else 0), blk_next = None\<rparr>],
               brk = 1, junk = (\<lambda>_ _. 0)\<rparr>,
      read_bytes = of_nat (length bs), consumed_bytes = 0, in_limit = INT32_MAX,
      first_block = Some 0, cur_block = Some 0, last_block = Some 0\<rparr>"

lemma buffer_with_facts:
  assumes "length bs < 8192"
  shows "ib_unread (buffer_with bs) = bs" and "ib_inv (buffer_with bs)"
    and "cur_len (buffer_with bs) = int (length bs)"
proof -
  have r: "ib_rep (buffer_with bs) [] [0]"
    using assms by (auto simp: ib_rep_def owns_def buffer_with_def blk_wf_def kBlockSize_def dom_def
        split: if_splits)
  show u: "ib_unread (buffer_with bs) = bs"
    unfolding ib_unread_rep [OF r]
    by (auto simp: buffer_with_def blk_bytes_def slice_def intro!: nth_equalityI)
  show "ib_inv (buffer_with bs)"
    by (rule ib_invI [OF r])
      (simp_all add: u, use assms in \<open>simp_all add: buffer_with_def INT32_MAX_def unat_of_nat take_bit_eq_mod\<close>)
  show "cur_len (buffer_with bs) = int (length bs)"
    by (simp add: cur_len_def buffer_with_def load_def)
qed

text \<open>
  A buffer of two blocks whose current block has two bytes left, for the witnesses: the state
  after 8196 zero bytes were received and 8190 of them consumed.
\<close>

definition straddle_example :: input_buffer where
  "straddle_example =
     \<lparr>in_heap = \<lparr>cells = [0 \<mapsto> \<lparr>blk_begin = 8190, blk_end = 8192, blk_data = (\<lambda>_. 0), blk_next = Some 1\<rparr>,
                        1 \<mapsto> \<lparr>blk_begin = 0, blk_end = 4, blk_data = (\<lambda>_. 0), blk_next = None\<rparr>],
               brk = 2, junk = (\<lambda>_ _. 0)\<rparr>,
      read_bytes = 6, consumed_bytes = 8190, in_limit = INT32_MAX,
      first_block = Some 0, cur_block = Some 0, last_block = Some 1\<rparr>"

lemma straddle_example_facts:
  shows "ib_rep straddle_example [] [0, 1]" and "ib_unread straddle_example = replicate 6 0"
    and "ib_inv straddle_example" and "cur_len straddle_example = 2"
proof -
  show r: "ib_rep straddle_example [] [0, 1]"
    by (auto simp: ib_rep_def owns_def straddle_example_def blk_wf_def kBlockSize_def dom_def
        split: if_splits)
  show u: "ib_unread straddle_example = replicate 6 0"
    unfolding ib_unread_rep [OF r]
    by (simp add: straddle_example_def blk_bytes_def slice_def upt_rec numeral_eq_Suc)
  show "ib_inv straddle_example"
    by (rule ib_invI [OF r]) (simp_all add: u, simp_all add: straddle_example_def INT32_MAX_def)
  show "cur_len straddle_example = 2"
    by (simp add: cur_len_def straddle_example_def load_def)
qed

text \<open>
  Receiving: for any bytes that fit into the region \<open>get_buffer\<close> offers (which is never
  empty), storing them there and calling \<open>recv_add\<close> is free of memory errors, keeps the
  invariant and appends exactly these bytes to the unread bytes.
\<close>

theorem recv_add_appends:
  assumes "ib_inv ib" and "get_buffer ib = Inr (d, room)" and "int (length bs) \<le> room"
    and "length (ib_unread ib) + length bs < 2 ^ 64"
  shows "0 < room \<and> (\<exists>ib1 ib2. poke ib d bs = Inr ib1 \<and> recv_add ib1 (int (length bs)) = Inr ib2 \<and>
    ib_inv ib2 \<and> ib_unread ib2 = ib_unread ib @ bs)"
proof -
  have "0 < room" using get_buffer_ok [OF assms(1)] assms(2) by auto
  then show ?thesis using receive_ok [OF assms] by metis
qed

lemma get_buffer_new: "get_buffer (InputBuffer j) = Inr ((Some 0, 0), kBlockSize)"
  by (simp add: get_buffer_def InputBuffer_def new_block_def empty_heap_def load_def upd_def)

theorem recv_add_appends_witness:
  "\<exists>ib1 ib2. poke (InputBuffer (\<lambda>_ _. 7)) (Some 0, 0) [1, 2, 3] = Inr ib1 \<and>
     recv_add ib1 3 = Inr ib2 \<and> ib_inv ib2 \<and> ib_unread ib2 = [1, 2, 3]"
  using recv_add_appends [OF InputBuffer_inv get_buffer_new, of "[1, 2, 3]" "\<lambda>_ _. 7"]
  by (simp add: InputBuffer_unread kBlockSize_def)

text \<open>
  \<open>fetch_uint32\<close> returns \<open>false\<close> and changes nothing while fewer than four bytes are
  unread; when the current block holds four bytes it stores exactly the next four unread
  bytes into the caller's object and consumes them, whatever the read limit is.
\<close>

theorem fetch_uint32_reads:
  assumes "ib_inv ib" and "length val = 4"
  shows "(length (ib_unread ib) < 4 \<longrightarrow> fetch_uint32 ib val = Inr (False, val, ib)) \<and>
    (4 \<le> cur_len ib \<longrightarrow> (\<exists>ib'. fetch_uint32 ib val = Inr (True, take 4 (ib_unread ib), ib') \<and>
       ib_inv ib' \<and> ib_unread ib' = drop 4 (ib_unread ib) \<and> in_limit ib' = in_limit ib))"
  using fetch_uint32_short [OF assms(1), of val] fetch_uint32_ok [OF assms(1) _ assms(2)] by metis

theorem fetch_uint32_reads_witness:
  "\<exists>ib'. fetch_uint32 (buffer_with [44, 1, 0, 0, 9]) [0, 0, 0, 0] = Inr (True, [44, 1, 0, 0], ib') \<and>
     ib_inv ib' \<and> ib_unread ib' = [9] \<and> bytes_u32 [44, 1, 0, 0] = 300"
  using fetch_uint32_reads [of "buffer_with [44, 1, 0, 0, 9]" "[0, 0, 0, 0]"]
  by (auto simp: buffer_with_facts)

text \<open>
  C30. A length field that straddles two blocks (at least four bytes unread, but one to three of
  them in the current block) makes \<open>fetch_uint32\<close> write outside the caller's object: the
  second \<open>memcpy\<close> goes to \<open>value + copy_len\<close>, which counts in units of
  \<open>uint32_t\<close>.
\<close>

theorem fetch_uint32_straddling_overflows:
  assumes "ib_inv ib" and "4 \<le> length (ib_unread ib)" and "cur_len ib < 4" and "length val = 4"
  shows "fetch_uint32 ib val = Inl OutOfBounds"
  using assms by (rule fetch_uint32_straddle)

theorem fetch_uint32_straddling_overflows_witness:
  "fetch_uint32 straddle_example [0, 0, 0, 0] = Inl OutOfBounds"
  by (rule fetch_uint32_straddling_overflows) (simp_all add: straddle_example_facts)

text \<open>
  C23. Reading under a limit: after \<open>push_limit(L)\<close>, calling \<open>Next\<close> until it returns
  \<open>false\<close> returns, delivers exactly the first \<open>L\<close> unread bytes in order and leaves
  the rest unread, however the bytes are spread over blocks.
\<close>

theorem limited_read_delivers_prefix:
  assumes "ib_inv ib" and "0 \<le> L" and "L < INT32_MAX" and "L \<le> int (length (ib_unread ib))"
  shows "\<exists>ib'. read_all stream_next (push_limit ib L) [] = Some (Inr (take (nat L) (ib_unread ib), ib')) \<and>
    ib_inv (pop_limit ib') \<and> ib_unread (pop_limit ib') = drop (nat L) (ib_unread ib)"
  using limited_read [OF assms] by blast

theorem limited_read_delivers_prefix_witness:
  "\<exists>ib'. read_all stream_next (push_limit straddle_example 5) [] = Some (Inr (replicate 5 0, ib')) \<and>
     ib_inv (pop_limit ib') \<and> ib_unread (pop_limit ib') = [0]"
  using limited_read_delivers_prefix [OF straddle_example_facts(3), of 5]
  by (simp add: straddle_example_facts INT32_MAX_def numeral_eq_Suc)

text \<open>
  C26. \<open>BackUp\<close> after \<open>Next\<close>: giving back \<open>k\<close> bytes of the chunk makes the last
  \<open>k\<close> bytes of the chunk unread again, and all blocks before the current one are deleted;
  but when the chunk ended at the end of a block that has a successor, nothing is given back.
\<close>

theorem next_then_back_up:
  assumes inv: "ib_inv ib" and nx: "ib_next ib = Inr (Some (d, n), ib1)" and k: "0 \<le> k" "k \<le> n"
  shows "\<exists>ib2. ib_back_up ib1 k = Some (Inr ib2) \<and> ib_inv ib2 \<and> first_block ib2 = cur_block ib2 \<and>
    ib_unread ib2 = (if cur_block ib1 = cur_block ib then drop (nat (n - k)) (ib_unread ib)
                     else drop (nat n) (ib_unread ib))"
proof -
  have av: "ib_avail ib \<noteq> []" using ib_next_None [OF inv] nx by auto
  obtain b where inv1: "ib_inv ib1" and u1: "ib_unread ib1 = drop (nat n) (ib_unread ib)"
    and L1: "in_limit ib1 = in_limit ib - (if in_limit ib = INT32_MAX then 0 else n)"
    and h1: "in_heap ib1 = upd (in_heap ib) (the (cur_block ib)) (b\<lparr>blk_begin := blk_begin b + n\<rparr>)"
    and mv: "cur_block ib1 \<noteq> cur_block ib \<longrightarrow>
      (\<exists>b2. load (in_heap ib1) (cur_block ib1) = Inr b2 \<and> blk_begin b2 = 0)"
    and tk: "take (nat n) (ib_unread ib) = slice (blk_data b) (nat (blk_begin b)) (nat (blk_begin b) + nat n)"
    and b: "load (in_heap ib) (cur_block ib) = Inr b" "0 \<le> blk_begin b"
    using ib_next_Some [OF inv av refl] nx by (metis Inr_inject Pair_inject option.inject)
  have "nat n \<le> length (ib_unread ib)"
    using arg_cong [OF tk, of length] by simp
  moreover have "length (ib_unread ib) < 2 ^ 64"
    using inv unat_less_LENGTH [of "read_bytes ib"] by (simp add: ib_inv_def)
  ultimately have sz: "length (ib_unread ib1) + nat j < 2 ^ 64" if "j \<le> n" for j
    using u1 that by simp
  have lim: "in_limit ib1 = INT32_MAX \<or> in_limit ib1 + j \<le> INT32_MAX" if "j \<le> n" for j
    using L1 that inv by (auto simp: ib_inv_def)
  show ?thesis
  proof (cases "cur_block ib1 = cur_block ib")
    case True
    let ?b = "b\<lparr>blk_begin := blk_begin b + n\<rparr>"
    have lb: "load (in_heap ib1) (cur_block ib1) = Inr ?b"
      using b(1) h1 True by (auto simp: load_def split: option.splits)
    have km: "k = min k (blk_begin ?b)" using k b(2) by simp
    obtain ib2 where "ib_back_up ib1 k = Some (Inr ib2)" "ib_inv ib2" "first_block ib2 = cur_block ib2"
      and u2: "ib_unread ib2 = slice (blk_data b) (nat (blk_begin b + n - k)) (nat (blk_begin b + n)) @ ib_unread ib1"
      using ib_back_up_ok [OF inv1 k(1) lb km sz [OF k(2)] lim [OF k(2)]] by auto
    moreover have "slice (blk_data b) (nat (blk_begin b + n - k)) (nat (blk_begin b + n))
        = drop (nat (n - k)) (take (nat n) (ib_unread ib))"
      unfolding tk drop_slice using k b(2) by (simp add: nat_add_distrib nat_diff_distrib)
    moreover have "drop (nat (n - k)) (take (nat n) (ib_unread ib)) @ drop (nat n) (ib_unread ib)
        = drop (nat (n - k)) (ib_unread ib)"
      using k by (intro drop_take_append) simp
    ultimately show ?thesis using True u1 by auto
  next
    case False
    with mv obtain b2 where lb: "load (in_heap ib1) (cur_block ib1) = Inr b2" and b2: "blk_begin b2 = 0"
      by blast
    have km: "0 = min k (blk_begin b2)" using k b2 by simp
    have "0 \<le> n" using k by simp
    from ib_back_up_ok [OF inv1 k(1) lb km sz [OF this] lim [OF this]] obtain ib2 where
      "ib_back_up ib1 k = Some (Inr ib2)" "ib_inv ib2" "first_block ib2 = cur_block ib2"
      "ib_unread ib2 = ib_unread ib1"
      by (auto simp: b2)
    then show ?thesis using False u1 by auto
  qed
qed

theorem next_then_back_up_witness:
  "(\<exists>d ib1 ib2. ib_next (buffer_with [1, 2, 3]) = Inr (Some (d, 3), ib1) \<and>
      ib_back_up ib1 2 = Some (Inr ib2) \<and> ib_unread ib2 = [2, 3]) \<and>
   (\<exists>d ib1 ib2. ib_next straddle_example = Inr (Some (d, 2), ib1) \<and>
      ib_back_up ib1 2 = Some (Inr ib2) \<and> ib_unread ib2 = replicate 4 0)"
proof
  have "\<exists>ib1. ib_next (buffer_with [1, 2, 3]) = Inr (Some ((Some 0, 0), 3), ib1) \<and>
      cur_block ib1 = cur_block (buffer_with [1, 2, 3])"
    by (simp add: ib_next_def buffer_with_def load_def next_if_full_def upd_def kBlockSize_def
        INT32_MAX_def)
  then obtain ib1 where n: "ib_next (buffer_with [1, 2, 3]) = Inr (Some ((Some 0, 0), 3), ib1)"
    and c: "cur_block ib1 = cur_block (buffer_with [1, 2, 3])" by blast
  show "\<exists>d ib1 ib2. ib_next (buffer_with [1, 2, 3]) = Inr (Some (d, 3), ib1) \<and>
      ib_back_up ib1 2 = Some (Inr ib2) \<and> ib_unread ib2 = [2, 3]"
    using next_then_back_up [OF _ n, of 2] n c by (auto simp: buffer_with_facts)
  have "\<exists>ib1. ib_next straddle_example = Inr (Some ((Some 0, 8190), 2), ib1) \<and>
      cur_block ib1 \<noteq> cur_block straddle_example"
    by (simp add: ib_next_def straddle_example_def load_def next_if_full_def upd_def kBlockSize_def
        INT32_MAX_def)
  then obtain ib1 where n: "ib_next straddle_example = Inr (Some ((Some 0, 8190), 2), ib1)"
    and c: "cur_block ib1 \<noteq> cur_block straddle_example" by blast
  show "\<exists>d ib1 ib2. ib_next straddle_example = Inr (Some (d, 2), ib1) \<and>
      ib_back_up ib1 2 = Some (Inr ib2) \<and> ib_unread ib2 = replicate 4 0"
    using next_then_back_up [OF _ n, of 2] n c by (auto simp: straddle_example_facts)
qed

text \<open>
  \<open>skip(n)\<close> refuses when \<open>n\<close> exceeds the bytes consumed so far; otherwise it skips
  exactly \<open>n\<close> unread bytes if there are that many, and loops forever if there are not.
\<close>

theorem skip_behaviour:
  assumes "ib_inv ib" and "0 \<le> n"
  shows "(n > byte_count ib \<longrightarrow> ib_skip ib n = Some (Inr (False, ib))) \<and>
    (n \<le> byte_count ib \<and> n \<le> int (length (ib_unread ib)) \<longrightarrow>
       (\<exists>ib'. ib_skip ib n = Some (Inr (True, ib')) \<and> ib_inv ib' \<and>
          ib_unread ib' = drop (nat n) (ib_unread ib))) \<and>
    (n \<le> byte_count ib \<and> n > int (length (ib_unread ib)) \<longrightarrow> ib_skip ib n = None)"
  using skip_loop_ok [OF assms] skip_loop_diverges [OF assms(1)] by (auto simp: ib_skip_def)

theorem skip_behaviour_witness:
  "ib_skip (buffer_with [1, 2]) 1 = Some (Inr (False, buffer_with [1, 2])) \<and>
   (\<exists>ib'. ib_skip straddle_example 5 = Some (Inr (True, ib')) \<and> ib_unread ib' = [0]) \<and>
   ib_skip straddle_example 7 = None"
proof (intro conjI)
  have c: "byte_count straddle_example = 8190" "byte_count (buffer_with [1, 2]) = 0"
    by (simp_all add: byte_count_def straddle_example_def buffer_with_def)
  show "ib_skip (buffer_with [1, 2]) 1 = Some (Inr (False, buffer_with [1, 2]))"
    using skip_behaviour [of "buffer_with [1, 2]" 1] c by (simp add: buffer_with_facts)
  show "\<exists>ib'. ib_skip straddle_example 5 = Some (Inr (True, ib')) \<and> ib_unread ib' = [0]"
    using skip_behaviour [OF straddle_example_facts(3), of 5] c
    by (auto simp: straddle_example_facts numeral_eq_Suc)
  show "ib_skip straddle_example 7 = None"
    using skip_behaviour [OF straddle_example_facts(3), of 7] c
    by (simp add: straddle_example_facts)
qed

text \<open>The destructor returns, deletes every block once and leaves none behind.\<close>

theorem InputBuffer_destructor_frees_all:
  assumes "ib_inv ib"
  shows "\<exists>h. InputBuffer_destructor ib = Some (Inr h) \<and> (\<forall>a. cells h a = None)"
  using assms delete_blocks_ok by (auto simp: ib_inv_def ib_rep_def InputBuffer_destructor_def)

theorem InputBuffer_destructor_frees_all_witness:
  "\<exists>h. InputBuffer_destructor straddle_example = Some (Inr h) \<and> (\<forall>a. cells h a = None)"
  by (rule InputBuffer_destructor_frees_all) (rule straddle_example_facts)

end
