(* ===== verification/OutputStream.thy ===== *)
theory OutputStream
  imports BufferBlock ZeroCopyStream
begin

section \<open>The output buffer (src/util/output_stream.h, src/util/output_stream.cc)\<close>

text \<open>
  \<open>OutputBuffer\<close> is the byte queue towards the socket: \<open>append\<close> and the protobuf
  serializer (through \<open>next\<close> and \<open>back_up\<close>) add bytes behind the last block,
  \<open>get_iovecs\<close> describes the queued bytes to \<open>writev\<close>, and \<open>send_add\<close>
  removes the bytes the kernel took. \<open>ob_pending\<close> is the queue as a list of bytes.
\<close>

record output_buffer =
  out_heap :: block_heap
  out_cur_block :: ptr
  out_last_block :: ptr
  to_write_bytes :: size_t
  total_bytes :: size_t

subsection \<open>Operations\<close>

definition OutputBuffer :: "(addr \<Rightarrow> nat \<Rightarrow> byte) \<Rightarrow> output_buffer" where
  "OutputBuffer j = (let (p, h) = new_block (empty_heap j) in
     \<lparr>out_heap = h, out_cur_block = p, out_last_block = p, to_write_bytes = 0, total_bytes = 0\<rparr>)"

text \<open>The loop of the destructor: read the successor, delete, move on.\<close>

partial_function (option) delete_out_blocks :: "block_heap \<Rightarrow> ptr \<Rightarrow> block_heap res option" where
  "delete_out_blocks h cur = (case cur of None \<Rightarrow> Some (Inr h)
     | Some a \<Rightarrow> (case load h cur of Inl e \<Rightarrow> Some (Inl e)
         | Inr b \<Rightarrow> (let next_block = blk_next b in
             case free h cur of Inl e \<Rightarrow> Some (Inl e)
             | Inr h' \<Rightarrow> delete_out_blocks h' next_block)))"

definition OutputBuffer_destructor :: "output_buffer \<Rightarrow> block_heap res option" where
  "OutputBuffer_destructor ob = delete_out_blocks (out_heap ob) (out_cur_block ob)"

text \<open>\<open>last_block->next = new BufferBlock; last_block = last_block->next\<close>, as three operations do.\<close>

definition link_new_block :: "output_buffer \<Rightarrow> output_buffer res" where
  "link_new_block ob = (let (p, h1) = new_block (out_heap ob) in
     res_bind (modify h1 (out_last_block ob) (\<lambda>b. b\<lparr>blk_next := p\<rparr>)) (\<lambda>h2.
     res_bind (load h2 (out_last_block ob)) (\<lambda>b.
       Inr (ob\<lparr>out_heap := h2, out_last_block := blk_next b\<rparr>))))"

text \<open>\<open>next\<close> always succeeds: the data pointer and the size of the region.\<close>

definition ob_next :: "output_buffer \<Rightarrow> (((ptr \<times> int) \<times> int) \<times> output_buffer) res" where
  "ob_next ob = res_bind (load (out_heap ob) (out_last_block ob)) (\<lambda>b0.
     res_bind (if blk_end b0 = kBlockSize then link_new_block ob else Inr ob) (\<lambda>ob1.
     res_bind (load (out_heap ob1) (out_last_block ob1)) (\<lambda>b.
       let data = (out_last_block ob1, blk_end b);
           size = kBlockSize - blk_end b
       in Inr ((data, size),
            ob1\<lparr>to_write_bytes := to_write_bytes ob1 + of_int size,
                total_bytes := total_bytes ob1 + of_int size,
                out_heap := upd (out_heap ob1) (the (out_last_block ob1))
                   (b\<lparr>blk_end := blk_end b + size\<rparr>)\<rparr>))))"

definition ob_back_up :: "output_buffer \<Rightarrow> int \<Rightarrow> output_buffer res" where
  "ob_back_up ob count = res_bind (load (out_heap ob) (out_last_block ob)) (\<lambda>b.
     let to_backup = min count (blk_end b)
     in Inr (ob\<lparr>to_write_bytes := to_write_bytes ob - of_int to_backup,
                total_bytes := total_bytes ob - of_int to_backup,
                out_heap := upd (out_heap ob) (the (out_last_block ob))
                  (b\<lparr>blk_end := blk_end b - to_backup\<rparr>)\<rparr>))"

text \<open>The body of the loop of \<open>append\<close> on the bytes still to be written, and the loop.\<close>

definition append_body :: "output_buffer \<Rightarrow> byte list \<Rightarrow> (output_buffer \<times> byte list) res" where
  "append_body ob bs = res_bind (load (out_heap ob) (out_last_block ob)) (\<lambda>b.
     let to_write = min (int (length bs)) (kBlockSize - blk_end b) in
     res_bind (block_put b (blk_end b) (take (nat to_write) bs)) (\<lambda>b1.
     let b2 = b1\<lparr>blk_end := blk_end b1 + to_write\<rparr>;
         ob1 = ob\<lparr>out_heap := upd (out_heap ob) (the (out_last_block ob)) b2,
                  to_write_bytes := to_write_bytes ob + of_int to_write\<rparr> in
     res_bind (if blk_end b2 = kBlockSize then link_new_block ob1 else Inr ob1) (\<lambda>ob2.
       Inr (ob2, drop (nat to_write) bs))))"

partial_function (option) append_loop :: "output_buffer \<Rightarrow> byte list \<Rightarrow> output_buffer res option" where
  "append_loop ob bs = (if length bs > 0
     then (case append_body ob bs of Inl e \<Rightarrow> Some (Inl e)
       | Inr (ob', bs') \<Rightarrow> append_loop ob' bs')
     else Some (Inr ob))"

definition ob_append :: "output_buffer \<Rightarrow> byte list \<Rightarrow> output_buffer res option" where
  "ob_append ob bs = append_loop ob bs"

definition IOV_MAX :: nat where
  "IOV_MAX = 1024"

type_synonym iovec = "(ptr \<times> int) \<times> size_t"

function iovecs_loop :: "block_heap \<Rightarrow> ptr \<Rightarrow> iovec list \<Rightarrow> iovec list res" where
  "iovecs_loop h block iovs = (if block \<noteq> None \<and> length iovs < IOV_MAX
     then (case load h block of Inl e \<Rightarrow> Inl e
       | Inr b \<Rightarrow> iovecs_loop h (blk_next b)
           (iovs @ [((block, blk_begin b), of_int (blk_end b - blk_begin b))]))
     else Inr iovs)"
  by pat_completeness auto
termination
  by (relation "measure (\<lambda>(h, block, iovs). IOV_MAX - length iovs)") auto

declare iovecs_loop.simps [simp del]

definition get_iovecs :: "output_buffer \<Rightarrow> iovec list res" where
  "get_iovecs ob = iovecs_loop (out_heap ob) (out_cur_block ob) []"

text \<open>The body of the loop of \<open>send_add\<close>, and the loop.\<close>

definition send_body :: "output_buffer \<Rightarrow> int \<Rightarrow> (output_buffer \<times> int) res" where
  "send_body ob left = res_bind (load (out_heap ob) (out_cur_block ob)) (\<lambda>b.
     let cur_write = min left (blk_end b - blk_begin b);
         b1 = b\<lparr>blk_begin := blk_begin b + cur_write\<rparr>;
         ob1 = ob\<lparr>out_heap := upd (out_heap ob) (the (out_cur_block ob)) b1\<rparr> in
     if blk_begin b1 = kBlockSize then
       res_bind (if blk_next b1 = None then link_new_block ob1 else Inr ob1) (\<lambda>ob2.
       res_bind (load (out_heap ob2) (out_cur_block ob2)) (\<lambda>b2.
       let next_block = blk_next b2 in
       res_bind (free (out_heap ob2) (out_cur_block ob2)) (\<lambda>h3.
         Inr (ob2\<lparr>out_heap := h3, out_cur_block := next_block\<rparr>, left - cur_write))))
     else Inr (ob1, left - cur_write))"

partial_function (option) send_loop :: "output_buffer \<Rightarrow> int \<Rightarrow> output_buffer res option" where
  "send_loop ob left = (if left > 0
     then (case send_body ob left of Inl e \<Rightarrow> Some (Inl e)
       | Inr (ob', left') \<Rightarrow> send_loop ob' left')
     else Some (Inr ob))"

definition send_add :: "output_buffer \<Rightarrow> int \<Rightarrow> output_buffer res option" where
  "send_add ob nwrite = (if nwrite \<le> 0 then Some (Inr ob)
     else send_loop (ob\<lparr>to_write_bytes := to_write_bytes ob - of_int nwrite\<rparr>) nwrite)"

definition ob_bytes :: "output_buffer \<Rightarrow> size_t" where
  "ob_bytes ob = to_write_bytes ob"

text \<open>
  What the serializer and the kernel do with the pointers they get: store bytes behind a data
  pointer, read the bytes an array of iovecs describes.
\<close>

definition ob_poke :: "output_buffer \<Rightarrow> ptr \<times> int \<Rightarrow> byte list \<Rightarrow> output_buffer res" where
  "ob_poke ob d bs = res_bind (load (out_heap ob) (fst d)) (\<lambda>b.
     res_bind (block_put b (snd d) bs) (\<lambda>b'.
       Inr (ob\<lparr>out_heap := upd (out_heap ob) (the (fst d)) b'\<rparr>)))"

fun gather :: "block_heap \<Rightarrow> iovec list \<Rightarrow> byte list res" where
  "gather h [] = Inr []"
| "gather h ((d, n) # iovs) = res_bind (load h (fst d)) (\<lambda>b.
     res_bind (block_get b (snd d) (unat n)) (\<lambda>bs.
     res_bind (gather h iovs) (\<lambda>rest. Inr (bs @ rest))))"

subsection \<open>Abstraction and invariant\<close>

definition ob_pending :: "output_buffer \<Rightarrow> byte list" where
  "ob_pending ob = block_bytes (blocks (out_heap ob) (blocks_from (out_heap ob) (out_cur_block ob)))"

definition ob_chain :: "output_buffer \<Rightarrow> addr list \<Rightarrow> bool" where
  "ob_chain ob as \<longleftrightarrow> owns (out_heap ob) (out_cur_block ob) as \<and> as \<noteq> [] \<and>
     out_last_block ob = Some (last as) \<and> filled (blocks (out_heap ob) as)"

definition ob_rep :: "output_buffer \<Rightarrow> addr list \<Rightarrow> bool" where
  "ob_rep ob as \<longleftrightarrow> ob_chain ob as \<and> blk_begin (hd (blocks (out_heap ob) as)) < kBlockSize"

definition out_room :: "output_buffer \<Rightarrow> int" where
  "out_room ob = (case load (out_heap ob) (out_last_block ob) of Inl _ \<Rightarrow> 0
     | Inr b \<Rightarrow> kBlockSize - blk_end b)"

definition ob_inv :: "output_buffer \<Rightarrow> bool" where
  "ob_inv ob \<longleftrightarrow> (\<exists>as. ob_rep ob as) \<and> unat (to_write_bytes ob) = length (ob_pending ob)"

subsection \<open>Lemmas on the representation\<close>

lemma ob_invI:
  "ob_rep ob as \<Longrightarrow> unat (to_write_bytes ob) = length (ob_pending ob) \<Longrightarrow> ob_inv ob"
  by (auto simp: ob_inv_def)

lemma ob_pending_chain:
  assumes "ob_chain ob as"
  shows "ob_pending ob = block_bytes (blocks (out_heap ob) as)"
proof -
  from assms have "owns (out_heap ob) (out_cur_block ob) as"
    by (simp add: ob_chain_def)
  then have "blocks_from (out_heap ob) (out_cur_block ob) = as"
    by (intro blocks_from_chain) (auto simp: owns_def)
  then show ?thesis by (simp add: ob_pending_def)
qed

lemma ob_chain_last:
  assumes "ob_chain ob as"
  obtains as' l b where "as = as' @ [l]" and "cells (out_heap ob) l = Some b" and "blk_wf b"
    and "out_last_block ob = Some l" and "l \<notin> set as'" and "out_room ob = kBlockSize - blk_end b"
proof -
  from assms obtain as' l where as: "as = as' @ [l]"
    by (metis ob_chain_def rev_exhaust)
  with assms have "owns (out_heap ob) (out_cur_block ob) (as' @ [l])"
    by (simp add: ob_chain_def)
  then obtain b where "cells (out_heap ob) l = Some b" "l \<notin> set as'"
    by (rule owns_last) auto
  with assms as show thesis
    by (intro that) (auto simp: ob_chain_def filled_snoc out_room_def)
qed

lemma OutputBuffer_rep: "ob_rep (OutputBuffer j) [0]"
  using owns_new [of j]
  by (auto simp: ob_rep_def ob_chain_def OutputBuffer_def new_block_def empty_heap_def blk_wf_def
      kBlockSize_def)

lemma ob_pending_rep: "ob_rep ob as \<Longrightarrow> ob_pending ob = block_bytes (blocks (out_heap ob) as)"
  by (simp add: ob_rep_def ob_pending_chain)

lemma OutputBuffer_pending: "ob_pending (OutputBuffer j) = []"
  unfolding ob_pending_rep [OF OutputBuffer_rep]
  by (simp add: OutputBuffer_def new_block_def empty_heap_def blk_bytes_def)

lemma OutputBuffer_inv: "ob_inv (OutputBuffer j)"
  by (rule ob_invI [OF OutputBuffer_rep], simp add: OutputBuffer_pending)
    (simp add: OutputBuffer_def new_block_def)

text \<open>Linking a block behind a full last block changes neither the bytes nor the counters.\<close>

lemma link_new_block_ok:
  assumes rep: "ob_chain ob (as @ [l])" and b: "cells (out_heap ob) l = Some b"
    and full: "blk_end b = kBlockSize" and m: "m = brk (out_heap ob)"
  obtains ob' where "link_new_block ob = Inr ob'"
    and "ob_chain ob' (as @ [l, m])" and "ob_pending ob' = ob_pending ob"
    and "blk_begin (hd (blocks (out_heap ob') (as @ [l, m]))) = blk_begin (hd (blocks (out_heap ob) (as @ [l])))"
    and "cells (out_heap ob') m = Some \<lparr>blk_begin = 0, blk_end = 0,
      blk_data = junk (out_heap ob) m, blk_next = None\<rparr>"
    and "cells (out_heap ob') l = Some (b\<lparr>blk_next := Some m\<rparr>)"
    and "to_write_bytes ob' = to_write_bytes ob" and "out_cur_block ob' = out_cur_block ob"
    and "out_last_block ob' = Some m" and "total_bytes ob' = total_bytes ob"
    and "l \<noteq> m"
proof -
  let ?h2 = "upd (snd (new_block (out_heap ob))) l (b\<lparr>blk_next := Some m\<rparr>)"
  let ?ob' = "ob\<lparr>out_heap := ?h2, out_last_block := Some m\<rparr>"
  have own: "owns (out_heap ob) (out_cur_block ob) ([] @ as @ [l])"
    and fl: "filled (blocks (out_heap ob) (as @ [l]))"
    and last: "out_last_block ob = Some l"
    using rep by (simp_all add: ob_chain_def)
  have ne: "l \<noteq> m" using own by (auto simp: owns_def m)
  have run: "link_new_block ob = Inr ?ob'"
    using b ne last by (simp add: link_new_block_def case_prod_beta m)
  note q = queue_link [OF own fl b full, folded m, OF refl]
  have r: "ob_chain ?ob' (as @ [l, m])"
    using q by (simp add: ob_chain_def)
  have "ob_pending ?ob' = ob_pending ob"
    unfolding ob_pending_chain [OF r] ob_pending_chain [OF rep] using q(4) by simp
  then show thesis
    using run r ne q(3) by (intro that [of ?ob']) (simp_all add: m)
qed

subsection \<open>Appending\<close>

lemma append_body_ok:
  assumes inv: "ob_inv ob" and sz: "length (ob_pending ob) + length bs < 2 ^ 64"
    and k: "k = min (length bs) (nat (out_room ob))"
  obtains ob' where "append_body ob bs = Inr (ob', drop k bs)" and "ob_inv ob'"
    and "ob_pending ob' = ob_pending ob @ take k bs" and "0 < out_room ob'"
proof -
  from inv obtain as0 where rep0: "ob_rep ob as0" by (auto simp: ob_inv_def)
  then have "ob_chain ob as0" by (simp add: ob_rep_def)
  then obtain as l b where as0: "as0 = as @ [l]" and b: "cells (out_heap ob) l = Some b"
    and wf: "blk_wf b" and last: "out_last_block ob = Some l" and l: "l \<notin> set as"
    and room: "out_room ob = kBlockSize - blk_end b"
    by (rule ob_chain_last)
  have own: "owns (out_heap ob) (out_cur_block ob) ([] @ as @ [l])"
    and fl: "filled (blocks (out_heap ob) (as @ [l]))"
    and beg: "blk_begin (hd (blocks (out_heap ob) (as @ [l]))) < kBlockSize"
    using rep0 by (simp_all add: ob_rep_def ob_chain_def as0)
  have tw: "min (int (length bs)) (kBlockSize - blk_end b) = int k" and len: "length (take k bs) = k"
    using wf by (auto simp: k room blk_wf_def)
  have fits: "blk_end b + int (length (take k bs)) \<le> kBlockSize"
    using tw len by linarith
  let ?b1 = "b\<lparr>blk_data := copy_into (blk_data b) (nat (blk_end b)) (take k bs)\<rparr>"
  let ?b2 = "?b1\<lparr>blk_end := blk_end b + int k\<rparr>"
  let ?ob1 = "ob\<lparr>out_heap := upd (out_heap ob) l ?b2, to_write_bytes := to_write_bytes ob + of_nat k\<rparr>"
  note q = queue_grow [OF own fl b fits refl, unfolded len]
  have c1: "ob_chain ?ob1 (as @ [l])"
    using q last by (simp add: ob_chain_def)
  have p1: "ob_pending ?ob1 = ob_pending ob @ take k bs"
    unfolding ob_pending_chain [OF c1] ob_pending_rep [OF rep0] as0 using q(4) by simp
  have cnt: "unat (to_write_bytes ob + of_nat k) = length (ob_pending ob @ take k bs)"
    using unat_add_of_int [of "int k" "to_write_bytes ob"] inv sz k by (simp add: ob_inv_def len)
  have put: "block_put b (blk_end b) (take k bs) = Inr ?b1"
    using blk_bytes_put(1) [OF wf fits] .
  have run: "append_body ob bs =
      res_bind (if blk_end ?b2 = kBlockSize then link_new_block ?ob1 else Inr ?ob1)
        (\<lambda>ob2. Inr (ob2, drop k bs))"
    using b last put by (simp add: append_body_def tw Let_def)
  show thesis
  proof (cases "blk_end ?b2 = kBlockSize")
    case False
    moreover have "ob_inv ?ob1"
      using c1 q(3) beg p1 cnt by (intro ob_invI [of _ "as @ [l]"]) (simp_all add: ob_rep_def)
    moreover have "0 < out_room ?ob1"
      using False fits len last by (simp add: out_room_def)
    ultimately show thesis
      using that [of ?ob1] run p1 by simp
  next
    case True
    have c: "cells (out_heap ?ob1) l = Some ?b2" by simp
    obtain ob2 where l2: "link_new_block ?ob1 = Inr ob2"
      and c2: "ob_chain ob2 (as @ [l, brk (out_heap ?ob1)])" and p2: "ob_pending ob2 = ob_pending ?ob1"
      and h2: "blk_begin (hd (blocks (out_heap ob2) (as @ [l, brk (out_heap ?ob1)])))
         = blk_begin (hd (blocks (out_heap ?ob1) (as @ [l])))"
      and n2: "cells (out_heap ob2) (brk (out_heap ?ob1)) = Some \<lparr>blk_begin = 0, blk_end = 0,
         blk_data = junk (out_heap ?ob1) (brk (out_heap ?ob1)), blk_next = None\<rparr>"
      and w2: "to_write_bytes ob2 = to_write_bytes ?ob1"
      and l2': "out_last_block ob2 = Some (brk (out_heap ?ob1))"
      using link_new_block_ok [OF c1 c True refl] by metis
    have "ob_inv ob2"
      using c2 q(3) beg p1 cnt h2 p2 w2 by (intro ob_invI [OF _]) (auto simp: ob_rep_def)
    moreover have "0 < out_room ob2"
      using n2 l2' by (simp add: out_room_def kBlockSize_def)
    ultimately show thesis
      using that [of ob2] run p1 p2 l2 True by simp
  qed
qed

lemma append_loop_room:
  assumes "ob_inv ob" and "0 < out_room ob" and "length (ob_pending ob) + length bs < 2 ^ 64"
  shows "\<exists>ob'. append_loop ob bs = Some (Inr ob') \<and> ob_inv ob' \<and> 0 < out_room ob' \<and>
    ob_pending ob' = ob_pending ob @ bs"
  using assms
proof (induction "length bs" arbitrary: ob bs rule: less_induct)
  case less
  show ?case
  proof (cases "bs = []")
    case True
    with less.prems show ?thesis by (simp add: append_loop.simps)
  next
    case False
    define k where "k = min (length bs) (nat (out_room ob))"
    have k: "0 < k" "k \<le> length bs" using False less.prems by (auto simp: k_def)
    obtain ob1 where ob1: "append_body ob bs = Inr (ob1, drop k bs)" "ob_inv ob1"
      "ob_pending ob1 = ob_pending ob @ take k bs" "0 < out_room ob1"
      using append_body_ok [OF less.prems(1,3) k_def] by blast
    have shorter: "length (drop k bs) < length bs" using k by simp
    have "length (ob_pending ob1) + length (drop k bs) < 2 ^ 64"
      using ob1(3) k less.prems(3) by simp
    from less.hyps [OF shorter ob1(2,4) this] obtain ob' where
      "append_loop ob1 (drop k bs) = Some (Inr ob')" "ob_inv ob'" "0 < out_room ob'"
      "ob_pending ob' = ob_pending ob1 @ drop k bs"
      by blast
    with ob1 False show ?thesis
      by (simp add: append_loop.simps [of ob])
  qed
qed

lemma ob_append_ok:
  assumes "ob_inv ob" and "length (ob_pending ob) + length bs < 2 ^ 64"
  shows "\<exists>ob'. ob_append ob bs = Some (Inr ob') \<and> ob_inv ob' \<and> ob_pending ob' = ob_pending ob @ bs"
proof (cases "bs = []")
  case True
  with assms show ?thesis by (simp add: ob_append_def append_loop.simps)
next
  case False
  define k where "k = min (length bs) (nat (out_room ob))"
  obtain ob1 where ob1: "append_body ob bs = Inr (ob1, drop k bs)" "ob_inv ob1"
    "ob_pending ob1 = ob_pending ob @ take k bs" "0 < out_room ob1"
    using append_body_ok [OF assms k_def] by blast
  have "length (ob_pending ob1) + length (drop k bs) < 2 ^ 64"
    using ob1(3) assms(2) by (simp add: k_def)
  from append_loop_room [OF ob1(2,4) this] obtain ob' where
    "append_loop ob1 (drop k bs) = Some (Inr ob')" "ob_inv ob'"
    "ob_pending ob' = ob_pending ob1 @ drop k bs"
    by blast
  with ob1 False show ?thesis
    by (simp add: ob_append_def append_loop.simps [of ob])
qed

subsection \<open>Sending\<close>

text \<open>Deleting the first block of several: the queue loses its bytes.\<close>

lemma ob_delete_first:
  assumes ch: "ob_chain ob (c # cs)" and cs: "cs \<noteq> []" and b: "cells (out_heap ob) c = Some b"
  shows "\<exists>h. free (out_heap ob) (out_cur_block ob) = Inr h \<and>
    ob_rep (ob\<lparr>out_heap := h, out_cur_block := blk_next b\<rparr>) cs \<and>
    ob_pending (ob\<lparr>out_heap := h, out_cur_block := blk_next b\<rparr>) = block_bytes (blocks (out_heap ob) cs)"
proof -
  let ?h = "(out_heap ob)\<lparr>cells := (cells (out_heap ob))(c := None)\<rparr>"
  let ?ob = "ob\<lparr>out_heap := ?h, out_cur_block := blk_next b\<rparr>"
  have own: "owns (out_heap ob) (out_cur_block ob) (c # cs)" and cur: "out_cur_block ob = Some c"
    using ch by (auto simp: ob_chain_def owns_def)
  note fr = owns_free [OF own b]
  have "blk_begin (hd (blocks (out_heap ob) cs)) = 0"
    using ch cs by (simp add: ob_chain_def filled_Cons)
  then have r: "ob_rep ?ob cs"
    using ch cs fr by (simp add: ob_rep_def ob_chain_def filled_Cons kBlockSize_def)
  moreover have "ob_pending ?ob = block_bytes (blocks (out_heap ob) cs)"
    unfolding ob_pending_rep [OF r] using fr(2) by simp
  ultimately show ?thesis
    using b cur by simp
qed

lemma ob_rep_cur:
  assumes "ob_rep ob as"
  obtains c cs b where "as = c # cs" and "out_cur_block ob = Some c"
    and "cells (out_heap ob) c = Some b" and "blk_wf b" and "blk_begin b < kBlockSize"
    and "blk_next b = (if cs = [] then None else Some (hd cs))" and "c \<notin> set cs"
    and "cs \<noteq> [] \<longrightarrow> blk_end b = kBlockSize"
    and "ob_pending ob = blk_bytes b @ block_bytes (blocks (out_heap ob) cs)"
    and "int (length (blk_bytes b)) = blk_end b - blk_begin b"
proof -
  from assms obtain c cs where as: "as = c # cs" by (cases as) (auto simp: ob_rep_def ob_chain_def)
  with assms obtain b where b: "cells (out_heap ob) c = Some b" "out_cur_block ob = Some c"
    and ch: "chain (out_heap ob) (blk_next b) cs None"
    by (auto simp: ob_rep_def ob_chain_def owns_def)
  have nx: "blk_next b = (if cs = [] then None else Some (hd cs))"
    using ch chain_head [OF ch] by auto
  have pend: "ob_pending ob = blk_bytes b @ block_bytes (blocks (out_heap ob) cs)"
    using b by (simp add: ob_pending_rep [OF assms] as)
  show thesis
    using that [OF as b(2,1)] nx pend assms b(1)
    by (auto simp: ob_rep_def ob_chain_def filled_Cons owns_def as length_blk_bytes)
qed

lemma send_body_ok:
  assumes rep: "ob_rep ob as" and left: "0 < left"
  obtains ob' as' k where "send_body ob left = Inr (ob', left - k)" and "ob_rep ob' as'"
    and "ob_pending ob' = drop (nat k) (ob_pending ob)"
    and "to_write_bytes ob' = to_write_bytes ob" and "0 \<le> k" and "k \<le> left"
    and "k \<le> int (length (ob_pending ob))" and "ob_pending ob \<noteq> [] \<longrightarrow> 0 < k"
proof -
  from rep obtain c cs b where as: "as = c # cs" and cur: "out_cur_block ob = Some c"
    and b: "cells (out_heap ob) c = Some b" and wf: "blk_wf b" and beg: "blk_begin b < kBlockSize"
    and nx: "blk_next b = (if cs = [] then None else Some (hd cs))" and c: "c \<notin> set cs"
    and full: "cs \<noteq> [] \<longrightarrow> blk_end b = kBlockSize"
    and pend: "ob_pending ob = blk_bytes b @ block_bytes (blocks (out_heap ob) cs)"
    and len: "int (length (blk_bytes b)) = blk_end b - blk_begin b"
    by (rule ob_rep_cur)
  define k where "k = min left (blk_end b - blk_begin b)"
  have k: "0 \<le> k" "k \<le> left" "k \<le> blk_end b - blk_begin b"
    using left wf by (auto simp: k_def blk_wf_def)
  have kl: "k \<le> int (length (ob_pending ob))" using k len pend by simp
  have kp: "ob_pending ob \<noteq> [] \<longrightarrow> 0 < k"
    using left full beg len pend by (cases "cs = []") (auto simp: k_def simp flip: length_greater_0_conv)
  let ?b1 = "b\<lparr>blk_begin := blk_begin b + k\<rparr>"
  let ?ob1 = "ob\<lparr>out_heap := upd (out_heap ob) c ?b1\<rparr>"
  have b1: "cells (out_heap ?ob1) c = Some ?b1" by simp
  have wf1: "blk_wf ?b1" using wf k by (auto simp: blk_wf_def)
  have bytes: "blk_bytes ?b1 = drop (nat k) (blk_bytes b)"
    using wf k(1,3) by (rule blk_bytes_advance)
  have c1: "ob_chain ?ob1 (c # cs)"
    using rep b c wf1 by (auto simp: ob_rep_def ob_chain_def as filled_Cons intro!: owns_upd)
  have p1: "ob_pending ?ob1 = drop (nat k) (ob_pending ob)"
    unfolding ob_pending_chain [OF c1] using c pend bytes k len by simp
  show thesis
  proof (cases "blk_begin b + k = kBlockSize")
    case False
    then have "ob_rep ?ob1 (c # cs)"
      using c1 wf1 by (auto simp: ob_rep_def blk_wf_def)
    moreover have "send_body ob left = Inr (?ob1, left - k)"
      using False b cur by (simp add: send_body_def k_def [symmetric] Let_def)
    ultimately show thesis using that p1 k kl kp by simp
  next
    case True
    have e: "blk_end ?b1 = kBlockSize" using True k wf by (auto simp: blk_wf_def)
    have "\<exists>ob2 cs2 b2. (if blk_next ?b1 = None then link_new_block ?ob1 else Inr ?ob1) = Inr ob2 \<and>
        ob_chain ob2 (c # cs2) \<and> cs2 \<noteq> [] \<and> cells (out_heap ob2) c = Some b2 \<and>
        block_bytes (blocks (out_heap ob2) cs2) = ob_pending ?ob1 \<and>
        to_write_bytes ob2 = to_write_bytes ob \<and> out_cur_block ob2 = Some c"
    proof (cases "cs = []")
      case True': True
      let ?m = "brk (out_heap ?ob1)"
      have c1': "ob_chain ?ob1 ([] @ [c])" using c1 True' by simp
      obtain ob2 where ob2: "link_new_block ?ob1 = Inr ob2" "ob_chain ob2 ([] @ [c, ?m])"
        "ob_pending ob2 = ob_pending ?ob1"
        "cells (out_heap ob2) c = Some (?b1\<lparr>blk_next := Some ?m\<rparr>)"
        "to_write_bytes ob2 = to_write_bytes ?ob1" "out_cur_block ob2 = out_cur_block ?ob1"
        using link_new_block_ok [OF c1' b1 e refl] by metis
      have "blk_bytes (the (cells (out_heap ob2) c)) = []"
        using ob2(4) e True by (simp add: blk_bytes_def)
      then have "block_bytes (blocks (out_heap ob2) [?m]) = ob_pending ?ob1"
        using ob_pending_chain [OF ob2(2)] ob2(3) by simp
      with ob2 nx True' cur show ?thesis
        by (intro exI [of _ ob2] exI [of _ "[?m]"] exI [of _ "?b1\<lparr>blk_next := Some ?m\<rparr>"]) simp
    next
      case False
      have "blk_bytes ?b1 = []" using e True by (simp add: blk_bytes_def)
      then have "block_bytes (blocks (out_heap ?ob1) cs) = ob_pending ?ob1"
        using ob_pending_chain [OF c1] by simp
      with False c1 b1 nx cur show ?thesis
        by (intro exI [of _ ?ob1] exI [of _ cs] exI [of _ ?b1]) simp
    qed
    then obtain ob2 cs2 b2 where
      o2: "(if blk_next ?b1 = None then link_new_block ?ob1 else Inr ?ob1) = Inr ob2"
      and c2: "ob_chain ob2 (c # cs2)" "cs2 \<noteq> []" "cells (out_heap ob2) c = Some b2"
      and p2: "block_bytes (blocks (out_heap ob2) cs2) = ob_pending ?ob1"
      and f2: "to_write_bytes ob2 = to_write_bytes ob" "out_cur_block ob2 = Some c"
      by blast
    from ob_delete_first [OF c2] obtain h where h: "free (out_heap ob2) (out_cur_block ob2) = Inr h"
      "ob_rep (ob2\<lparr>out_heap := h, out_cur_block := blk_next b2\<rparr>) cs2"
      "ob_pending (ob2\<lparr>out_heap := h, out_cur_block := blk_next b2\<rparr>) = ob_pending ?ob1"
      using p2 by auto
    have beg1: "blk_begin ?b1 = kBlockSize" using True by simp
    have "send_body ob left = res_bind (if blk_next ?b1 = None then link_new_block ?ob1 else Inr ?ob1)
       (\<lambda>ob2. res_bind (load (out_heap ob2) (out_cur_block ob2)) (\<lambda>b2.
         let next_block = blk_next b2 in
         res_bind (free (out_heap ob2) (out_cur_block ob2)) (\<lambda>h3.
           Inr (ob2\<lparr>out_heap := h3, out_cur_block := next_block\<rparr>, left - k))))"
      unfolding send_body_def cur load_Some [OF b] res_bind_Inr Let_def k_def [symmetric] option.sel
      by (simp only: beg1 simp_thms if_True)
    also have "\<dots> = Inr (ob2\<lparr>out_heap := h, out_cur_block := blk_next b2\<rparr>, left - k)"
      unfolding o2 using c2 h(1) f2 by simp
    finally have "send_body ob left = Inr (ob2\<lparr>out_heap := h, out_cur_block := blk_next b2\<rparr>, left - k)" .
    then show thesis
      using that h(2,3) p1 f2 k kl kp by simp
  qed
qed

lemma send_loop_ok:
  assumes "ob_rep ob as" and "0 \<le> n" and "n \<le> int (length (ob_pending ob))"
  shows "\<exists>ob' as'. send_loop ob n = Some (Inr ob') \<and> ob_rep ob' as' \<and>
    ob_pending ob' = drop (nat n) (ob_pending ob) \<and> to_write_bytes ob' = to_write_bytes ob"
  using assms
proof (induction "nat n" arbitrary: ob as n rule: less_induct)
  case less
  show ?case
  proof (cases "n = 0")
    case True
    with less.prems show ?thesis by (auto simp: send_loop.simps)
  next
    case False
    with less.prems have "0 < n" by simp
    then obtain ob1 as1 k where s: "send_body ob n = Inr (ob1, n - k)" "ob_rep ob1 as1"
      "ob_pending ob1 = drop (nat k) (ob_pending ob)" "to_write_bytes ob1 = to_write_bytes ob"
      "0 \<le> k" "k \<le> n" "k \<le> int (length (ob_pending ob))" "ob_pending ob \<noteq> [] \<longrightarrow> 0 < k"
      using send_body_ok [OF less.prems(1)] by metis
    have "0 < k" using s(8) False less.prems by auto
    then have "nat (n - k) < nat n" "0 \<le> n - k" "n - k \<le> int (length (ob_pending ob1))"
      using s less.prems by auto
    from less.hyps [OF this(1) s(2) this(2,3)] obtain ob' as' where
      "send_loop ob1 (n - k) = Some (Inr ob')" "ob_rep ob' as'"
      "ob_pending ob' = drop (nat (n - k)) (ob_pending ob1)" "to_write_bytes ob' = to_write_bytes ob1"
      by blast
    with s \<open>0 < n\<close> show ?thesis
      by (auto simp: send_loop.simps [of ob] nat_diff_distrib)
  qed
qed

lemma send_loop_diverges:
  assumes rep: "ob_rep ob as" and n: "n > int (length (ob_pending ob))"
  shows "send_loop ob n = None"
proof (rule ccontr)
  let ?P = "\<lambda>ob n. (\<exists>as. ob_rep ob as) \<and> n > int (length (ob_pending ob))"
  assume "send_loop ob n \<noteq> None"
  then obtain r where ret: "send_loop ob n = Some r" by auto
  have "\<not> ?P ob n"
  proof (rule send_loop.raw_induct [where P = "\<lambda>ob n r. \<not> ?P ob n", OF _ ret], rule notI)
    fix f :: "output_buffer \<Rightarrow> int \<Rightarrow> output_buffer res option" and ob n r
    assume IH: "\<And>ob n r. f ob n = Some r \<Longrightarrow> \<not> ?P ob n"
      and eq: "(if n > 0 then case send_body ob n of Inl e \<Rightarrow> Some (Inl e)
         | Inr (ob', n') \<Rightarrow> f ob' n' else Some (Inr ob)) = Some r"
      and A: "?P ob n"
    from A have n0: "0 < n" by linarith
    with A obtain ob' as' k where s: "send_body ob n = Inr (ob', n - k)" "ob_rep ob' as'"
      "ob_pending ob' = drop (nat k) (ob_pending ob)" "0 \<le> k" "k \<le> int (length (ob_pending ob))"
      using send_body_ok by metis
    then have "f ob' (n - k) = Some r" using eq n0 by simp
    with IH have "\<not> ?P ob' (n - k)" by blast
    then show False using A s by auto
  qed
  with rep n show False by blast
qed

lemma send_add_ok:
  assumes inv: "ob_inv ob" and n: "0 \<le> n" "n \<le> int (length (ob_pending ob))"
  shows "\<exists>ob'. send_add ob n = Some (Inr ob') \<and> ob_inv ob' \<and>
    ob_pending ob' = drop (nat n) (ob_pending ob)"
proof (cases "n = 0")
  case True
  with inv show ?thesis by (simp add: send_add_def)
next
  case False
  from inv obtain as where "ob_rep ob as" by (auto simp: ob_inv_def)
  let ?ob = "ob\<lparr>to_write_bytes := to_write_bytes ob - of_int n\<rparr>"
  have r: "ob_rep ?ob as" and p: "ob_pending ?ob = ob_pending ob"
    using \<open>ob_rep ob as\<close> by (simp_all add: ob_rep_def ob_chain_def ob_pending_def)
  have w: "unat (to_write_bytes ?ob) = length (ob_pending ob) - nat n"
    using unat_sub_of_int [of n "to_write_bytes ob"] inv n by (simp add: ob_inv_def)
  from send_loop_ok [OF r n(1)] n p obtain ob' as' where
    "send_loop ?ob n = Some (Inr ob')" "ob_rep ob' as'"
    "ob_pending ob' = drop (nat n) (ob_pending ob)" "to_write_bytes ob' = to_write_bytes ?ob"
    by auto
  with w False n show ?thesis by (auto simp: send_add_def intro!: ob_invI)
qed

lemma send_add_hangs:
  assumes inv: "ob_inv ob" and n: "n > int (length (ob_pending ob))"
  shows "send_add ob n = None"
proof -
  from inv obtain as where "ob_rep ob as" by (auto simp: ob_inv_def)
  let ?ob = "ob\<lparr>to_write_bytes := to_write_bytes ob - of_int n\<rparr>"
  have "ob_rep ?ob as" and "ob_pending ?ob = ob_pending ob"
    using \<open>ob_rep ob as\<close> by (simp_all add: ob_rep_def ob_chain_def ob_pending_def)
  then show ?thesis
    using send_loop_diverges [of ?ob as n] n by (simp add: send_add_def)
qed

subsection \<open>Room for the serializer\<close>

text \<open>
  The serializer's view of \<open>NetOutputStream\<close>: the stream is the buffer and the data pointer
  \<open>Next\<close> returned last, through which the serializer stores its bytes.
\<close>

type_synonym out_stream = "output_buffer \<times> (ptr \<times> int)"

definition stream_region :: "out_stream \<Rightarrow> (nat \<times> out_stream) res" where
  "stream_region s = res_bind (ob_next (fst s)) (\<lambda>((d, size), ob). Inr (nat size, (ob, d)))"

definition stream_fill :: "nat \<Rightarrow> byte list \<Rightarrow> out_stream \<Rightarrow> out_stream res" where
  "stream_fill n bs s = res_bind (ob_poke (fst s) (snd s) bs) (\<lambda>ob. Inr (ob, snd s))"

definition stream_back_up :: "nat \<Rightarrow> out_stream \<Rightarrow> out_stream res" where
  "stream_back_up n s = res_bind (ob_back_up (fst s) (int n)) (\<lambda>ob. Inr (ob, snd s))"

definition out_capacity :: "out_stream \<Rightarrow> nat \<Rightarrow> bool" where
  "out_capacity s n \<longleftrightarrow> length (ob_pending (fst s)) + n < 2 ^ 64"

text \<open>The part of \<open>next\<close> before the region is handed out: a last block with room.\<close>

lemma ob_next_room:
  assumes inv: "ob_inv ob"
  obtains ob1 as l b where "ob_inv ob1" and "ob_rep ob1 (as @ [l])" and "out_last_block ob1 = Some l"
    and "cells (out_heap ob1) l = Some b" and "blk_end b < kBlockSize" and "0 \<le> blk_end b"
    and "ob_pending ob1 = ob_pending ob"
    and "ob_next ob = Inr (((Some l, blk_end b), kBlockSize - blk_end b),
       ob1\<lparr>to_write_bytes := to_write_bytes ob1 + of_int (kBlockSize - blk_end b),
           total_bytes := total_bytes ob1 + of_int (kBlockSize - blk_end b),
           out_heap := upd (out_heap ob1) l (b\<lparr>blk_end := kBlockSize\<rparr>)\<rparr>)"
proof -
  from inv obtain as0 where rep0: "ob_rep ob as0" by (auto simp: ob_inv_def)
  then have ch0: "ob_chain ob as0" by (simp add: ob_rep_def)
  then obtain as l b where as0: "as0 = as @ [l]" and b: "cells (out_heap ob) l = Some b"
    and wf: "blk_wf b" and last: "out_last_block ob = Some l"
    by (rule ob_chain_last)
  show thesis
  proof (cases "blk_end b = kBlockSize")
    case False
    then show thesis
      using inv rep0 as0 b wf last
      by (intro that [of ob as l b]) (auto simp: ob_next_def blk_wf_def Let_def)
  next
    case True
    have ch: "ob_chain ob (as @ [l])" using ch0 as0 by simp
    obtain m ob1 where l1: "link_new_block ob = Inr ob1" and c1: "ob_chain ob1 (as @ [l, m])"
      and p1: "ob_pending ob1 = ob_pending ob"
      and h1: "blk_begin (hd (blocks (out_heap ob1) (as @ [l, m])))
         = blk_begin (hd (blocks (out_heap ob) (as @ [l])))"
      and n1: "cells (out_heap ob1) m = Some \<lparr>blk_begin = 0, blk_end = 0,
         blk_data = junk (out_heap ob) m, blk_next = None\<rparr>"
      and w1: "to_write_bytes ob1 = to_write_bytes ob" and lm: "out_last_block ob1 = Some m"
      using link_new_block_ok [OF ch b True refl] by metis
    have r1: "ob_rep ob1 ((as @ [l]) @ [m])"
      using c1 h1 rep0 by (simp add: ob_rep_def as0)
    moreover have "ob_inv ob1"
      using r1 inv p1 w1 by (intro ob_invI [OF r1]) (simp add: ob_inv_def)
    moreover have "ob_next ob = Inr (((Some m, 0), kBlockSize - 0),
       ob1\<lparr>to_write_bytes := to_write_bytes ob1 + of_int (kBlockSize - 0),
           total_bytes := total_bytes ob1 + of_int (kBlockSize - 0),
           out_heap := upd (out_heap ob1) m \<lparr>blk_begin = 0, blk_end = kBlockSize,
             blk_data = junk (out_heap ob) m, blk_next = None\<rparr>\<rparr>)"
      using b last l1 lm n1 True by (simp add: ob_next_def Let_def)
    ultimately show thesis
      using that [of ob1 "as @ [l]" m, OF _ _ lm n1 _ _ p1] by (simp add: kBlockSize_def)
  qed
qed

lemma upd_same: "cells h a = Some b \<Longrightarrow> upd h a b = h"
  by (cases h) (auto simp: upd_def)

lemma stream_region_ok:
  assumes inv: "ob_inv (fst s)" and room: "out_capacity s 8192"
  shows "\<exists>n s1. stream_region s = Inr (n, s1) \<and> 0 < n \<and>
    (\<forall>bs. length bs \<le> n \<longrightarrow> (\<exists>s2 s3. stream_fill n bs s1 = Inr s2 \<and>
       stream_back_up (n - length bs) s2 = Inr s3 \<and> ob_inv (fst s3) \<and>
       ob_pending (fst s3) = ob_pending (fst s) @ bs \<and> (length bs = n \<longrightarrow> s3 = s2)))"
proof -
  obtain ob1 as l b where inv1: "ob_inv ob1" and rep1: "ob_rep ob1 (as @ [l])"
    and last: "out_last_block ob1 = Some l"
    and b: "cells (out_heap ob1) l = Some b" and lt: "blk_end b < kBlockSize" and ge: "0 \<le> blk_end b"
    and p1: "ob_pending ob1 = ob_pending (fst s)"
    and run: "ob_next (fst s) = Inr (((Some l, blk_end b), kBlockSize - blk_end b),
       ob1\<lparr>to_write_bytes := to_write_bytes ob1 + of_int (kBlockSize - blk_end b),
           total_bytes := total_bytes ob1 + of_int (kBlockSize - blk_end b),
           out_heap := upd (out_heap ob1) l (b\<lparr>blk_end := kBlockSize\<rparr>)\<rparr>)"
    by (rule ob_next_room [OF inv])
  let ?n = "nat (kBlockSize - blk_end b)"
  let ?ob1 = "ob1\<lparr>to_write_bytes := to_write_bytes ob1 + of_int (kBlockSize - blk_end b),
           total_bytes := total_bytes ob1 + of_int (kBlockSize - blk_end b),
           out_heap := upd (out_heap ob1) l (b\<lparr>blk_end := kBlockSize\<rparr>)\<rparr>"
  have "\<exists>s2 s3. stream_fill ?n bs (?ob1, (Some l, blk_end b)) = Inr s2 \<and>
      stream_back_up (?n - length bs) s2 = Inr s3 \<and> ob_inv (fst s3) \<and>
      ob_pending (fst s3) = ob_pending (fst s) @ bs \<and> (length bs = ?n \<longrightarrow> s3 = s2)"
    if len: "length bs \<le> ?n" for bs
  proof -
    let ?d = "copy_into (blk_data b) (nat (blk_end b)) bs"
    let ?ob2 = "?ob1\<lparr>out_heap := upd (out_heap ob1) l (b\<lparr>blk_data := ?d, blk_end := kBlockSize\<rparr>)\<rparr>"
    let ?e = "blk_end b + int (length bs)"
    let ?b3 = "b\<lparr>blk_data := ?d, blk_end := ?e\<rparr>"
    let ?left = "kBlockSize - blk_end b - int (length bs)"
    let ?ob3 = "?ob2\<lparr>out_heap := upd (out_heap ob1) l ?b3,
       to_write_bytes := to_write_bytes ?ob2 - of_int ?left, total_bytes := total_bytes ?ob2 - of_int ?left\<rparr>"
    have fits: "?e \<le> kBlockSize" using len lt by linarith
    have f: "stream_fill ?n bs (?ob1, (Some l, blk_end b)) = Inr (?ob2, (Some l, blk_end b))"
      using fits ge by (cases b) (simp add: stream_fill_def ob_poke_def block_put_def)
    have left: "int (?n - length bs) = ?left" using len lt by (simp add: of_nat_diff)
    have mn: "min ?left kBlockSize = ?left" using ge fits by simp
    have g: "stream_back_up (?n - length bs) (?ob2, (Some l, blk_end b))
        = Inr (?ob3, (Some l, blk_end b))"
      unfolding stream_back_up_def left ob_back_up_def using last mn by (simp add: Let_def)
    have own: "owns (out_heap ob1) (out_cur_block ob1) ([] @ as @ [l])"
      and fl: "filled (blocks (out_heap ob1) (as @ [l]))"
      and beg: "blk_begin (hd (blocks (out_heap ob1) (as @ [l]))) < kBlockSize"
      using rep1 by (simp_all add: ob_rep_def ob_chain_def)
    note q = queue_grow [OF own fl b fits refl]
    have r3: "ob_rep ?ob3 (as @ [l])"
      using q beg last by (simp add: ob_rep_def ob_chain_def)
    have p3: "ob_pending ?ob3 = ob_pending (fst s) @ bs"
      unfolding ob_pending_rep [OF r3] p1 [symmetric] ob_pending_rep [OF rep1] using q(4) by simp
    have w3: "to_write_bytes ?ob3 = to_write_bytes ob1 + of_int (int (length bs))"
      by (simp add: algebra_simps)
    have "length (ob_pending ob1) + length bs < 2 ^ 64"
      using room len p1 ge by (simp add: out_capacity_def kBlockSize_def)
    then have "unat (to_write_bytes ?ob3) = length (ob_pending ?ob3)"
      unfolding w3 p3 using unat_add_of_int [of "int (length bs)" "to_write_bytes ob1"] inv1 p1
      by (simp add: ob_inv_def)
    with r3 have "ob_inv ?ob3" by (rule ob_invI)
    moreover have "length bs = ?n \<longrightarrow> ?ob3 = ?ob2"
      using lt by auto
    ultimately show ?thesis
      using f g p3 by (intro exI [of _ "(?ob2, (Some l, blk_end b))"] exI [of _ "(?ob3, (Some l, blk_end b))"]) simp
  qed
  then show ?thesis
    using run lt by (intro exI [of _ ?n] exI [of _ "(?ob1, (Some l, blk_end b))"])
      (simp add: stream_region_def)
qed

interpretation output_stream: zero_copy_output "\<lambda>s. ob_inv (fst s)" stream_region stream_fill
  stream_back_up "\<lambda>s. ob_pending (fst s)" out_capacity
proof
  fix s :: out_stream
  assume "ob_inv (fst s)" "out_capacity s 8192"
  from stream_region_ok [OF this] show "\<exists>n s1. stream_region s = Inr (n, s1) \<and> 0 < n \<and>
    (\<forall>bs. length bs \<le> n \<longrightarrow> (\<exists>s2 s3. stream_fill n bs s1 = Inr s2 \<and>
       stream_back_up (n - length bs) s2 = Inr s3 \<and> ob_inv (fst s3) \<and>
       ob_pending (fst s3) = ob_pending (fst s) @ bs \<and> (length bs = n \<longrightarrow> s3 = s2) \<and>
       (\<forall>k. out_capacity s (length bs + k) \<longrightarrow> out_capacity s3 k)))"
    unfolding out_capacity_def by (fastforce simp: add.assoc)
next
  fix s m n
  show "out_capacity s n \<Longrightarrow> m \<le> n \<Longrightarrow> out_capacity s m" by (simp add: out_capacity_def)
qed

subsection \<open>The iovecs of the queue\<close>

definition block_iovec :: "block_heap \<Rightarrow> addr \<Rightarrow> iovec" where
  "block_iovec h a = (let b = the (cells h a) in ((Some a, blk_begin b), of_int (blk_end b - blk_begin b)))"

lemma iovecs_loop_chain:
  "chain h p as None \<Longrightarrow>
   iovecs_loop h p iovs = Inr (iovs @ map (block_iovec h) (take (IOV_MAX - length iovs) as))"
proof (induction as arbitrary: p iovs)
  case Nil
  then show ?case by (simp add: iovecs_loop.simps)
next
  case (Cons a as)
  then obtain b where p: "p = Some a" and b: "cells h a = Some b" and ch: "chain h (blk_next b) as None"
    by auto
  show ?case
  proof (cases "length iovs < IOV_MAX")
    case True
    then obtain k where k: "IOV_MAX - length iovs = Suc k" "IOV_MAX - Suc (length iovs) = k"
      by (metis Suc_diff_Suc)
    show ?thesis
      unfolding iovecs_loop.simps [of h p] k(1) using Cons.IH [OF ch] True p b k(2)
      by (simp add: block_iovec_def)
  next
    case False
    then show ?thesis by (simp add: iovecs_loop.simps)
  qed
qed

lemma gather_blocks:
  assumes "\<And>a. a \<in> set as \<Longrightarrow> \<exists>b. cells h a = Some b \<and> blk_wf b"
  shows "gather h (map (block_iovec h) as) = Inr (block_bytes (blocks h as))"
  using assms
proof (induction as)
  case (Cons a as)
  then obtain b where b: "cells h a = Some b" and wf: "blk_wf b" by auto
  have "nat (blk_end b - blk_begin b) < 2 ^ LENGTH(64)"
    using wf by (auto simp: blk_wf_def kBlockSize_def)
  then have n: "unat (of_int (blk_end b - blk_begin b) :: size_t) = nat (blk_end b - blk_begin b)"
    using unat_add_of_int [of "blk_end b - blk_begin b" "0 :: size_t"] wf by (simp add: blk_wf_def)
  have "block_get b (blk_begin b) (nat (blk_end b - blk_begin b)) = Inr (blk_bytes b)"
    using block_get_prefix [OF wf, of "nat (blk_end b - blk_begin b)"] length_blk_bytes [OF wf] wf
    by (simp add: blk_wf_def)
  with Cons b n show ?case by (simp add: block_iovec_def del: of_int_diff)
qed simp

text \<open>All blocks of a queue but the first and the last are full.\<close>

lemma filled_length_from_0:
  "filled bl \<Longrightarrow> blk_begin (hd bl) = 0 \<Longrightarrow> 8192 * (length bl - 1) \<le> length (block_bytes bl)"
proof (induction bl rule: filled.induct)
  case (3 b c bs)
  then have "int (length (blk_bytes b)) = 8192" by (simp add: length_blk_bytes kBlockSize_def)
  with 3 show ?case by simp
qed simp_all

lemma filled_length:
  "filled bl \<Longrightarrow> 8192 * (length bl - 2) \<le> length (block_bytes bl)"
  using filled_length_from_0 [of "tl bl"] by (cases bl) (auto simp: filled_Cons)

lemma get_iovecs_ok:
  assumes rep: "ob_rep ob as"
  shows "get_iovecs ob = Inr (map (block_iovec (out_heap ob)) (take IOV_MAX as))"
    and "gather (out_heap ob) (map (block_iovec (out_heap ob)) (take IOV_MAX as))
      = Inr (block_bytes (blocks (out_heap ob) (take IOV_MAX as)))"
    and "ob_pending ob = block_bytes (blocks (out_heap ob) (take IOV_MAX as)) @
      block_bytes (blocks (out_heap ob) (drop IOV_MAX as))"
    and "length (ob_pending ob) < 1023 * 8192 \<Longrightarrow> drop IOV_MAX as = []"
proof -
  have own: "owns (out_heap ob) (out_cur_block ob) as" and fl: "filled (blocks (out_heap ob) as)"
    using rep by (simp_all add: ob_rep_def ob_chain_def)
  then show "get_iovecs ob = Inr (map (block_iovec (out_heap ob)) (take IOV_MAX as))"
    using iovecs_loop_chain [of "out_heap ob" "out_cur_block ob" as "[]"]
    by (simp add: get_iovecs_def owns_def)
  have "\<exists>b. cells (out_heap ob) a = Some b \<and> blk_wf b" if "a \<in> set (take IOV_MAX as)" for a
  proof -
    have a: "a \<in> set as" using that by (rule in_set_takeD)
    with own obtain b where b: "cells (out_heap ob) a = Some b" by (rule owns_cell)
    moreover have "b \<in> set (blocks (out_heap ob) as)"
      using a b by (force simp: blocks_def)
    ultimately show ?thesis using filled_wf [OF fl] by blast
  qed
  then show "gather (out_heap ob) (map (block_iovec (out_heap ob)) (take IOV_MAX as))
      = Inr (block_bytes (blocks (out_heap ob) (take IOV_MAX as)))"
    by (rule gather_blocks)
  show "ob_pending ob = block_bytes (blocks (out_heap ob) (take IOV_MAX as)) @
      block_bytes (blocks (out_heap ob) (drop IOV_MAX as))"
    unfolding ob_pending_rep [OF rep] blocks_def block_bytes_def
    by (metis append_take_drop_id concat_append map_append)
  assume "length (ob_pending ob) < 1023 * 8192"
  then have "length (blocks (out_heap ob) as) - 2 < 1023"
    using filled_length [OF fl] by (simp add: ob_pending_rep [OF rep])
  then show "drop IOV_MAX as = []" by (simp add: blocks_def IOV_MAX_def)
qed

subsection \<open>Deleting the queue\<close>

lemma delete_out_blocks_ok:
  "owns h p as \<Longrightarrow> \<exists>h'. delete_out_blocks h p = Some (Inr h') \<and> (\<forall>a. cells h' a = None)"
proof (induction as arbitrary: h p)
  case Nil
  then show ?case by (auto simp: delete_out_blocks.simps owns_def)
next
  case (Cons a as)
  then obtain b where p: "p = Some a" and b: "cells h a = Some b"
    by (auto simp: owns_def)
  show ?case
    using Cons.IH [OF owns_free(1) [OF Cons.prems b]] p b
    by (simp add: delete_out_blocks.simps [of h "Some a"] Let_def)
qed

subsection \<open>Properties\<close>

text \<open>Queues for the witnesses: a fresh buffer that holds the bytes \<open>bs\<close>.\<close>

definition output_with :: "byte list \<Rightarrow> output_buffer" where
  "output_with bs =
     \<lparr>out_heap = \<lparr>cells = [0 \<mapsto> \<lparr>blk_begin = 0, blk_end = int (length bs),
                          blk_data = (\<lambda>i. if i < length bs then bs ! i else 0), blk_next = None\<rparr>],
               brk = 1, junk = (\<lambda>_ _. 0)\<rparr>,
      out_cur_block = Some 0, out_last_block = Some 0,
      to_write_bytes = of_nat (length bs), total_bytes = 0\<rparr>"

lemma output_with_facts:
  assumes "length bs < 8192"
  shows "ob_pending (output_with bs) = bs" and "ob_inv (output_with bs)"
proof -
  have r: "ob_rep (output_with bs) [0]"
    using assms by (auto simp: ob_rep_def ob_chain_def owns_def output_with_def blk_wf_def
        kBlockSize_def dom_def split: if_splits)
  show u: "ob_pending (output_with bs) = bs"
    unfolding ob_pending_rep [OF r]
    by (auto simp: output_with_def blk_bytes_def slice_def intro!: nth_equalityI)
  show "ob_inv (output_with bs)"
    by (rule ob_invI [OF r])
      (simp add: u, use assms in \<open>simp add: output_with_def unat_of_nat take_bit_eq_mod\<close>)
qed

text \<open>
  \<open>append\<close> returns, is free of memory errors, keeps the invariant and adds exactly the
  given bytes behind the queued ones, whatever number of blocks they take.
\<close>

theorem append_appends:
  assumes "ob_inv ob" and "length (ob_pending ob) + length bs < 2 ^ 64"
  shows "\<exists>ob'. ob_append ob bs = Some (Inr ob') \<and> ob_inv ob' \<and> ob_pending ob' = ob_pending ob @ bs \<and>
    unat (ob_bytes ob') = length (ob_pending ob) + length bs"
  using ob_append_ok [OF assms] by (auto simp: ob_inv_def ob_bytes_def)

theorem append_appends_witness:
  "\<exists>ob'. ob_append (output_with [1]) (replicate 20000 2) = Some (Inr ob') \<and> ob_inv ob' \<and>
     ob_pending ob' = 1 # replicate 20000 2 \<and> unat (ob_bytes ob') = 20001"
  using append_appends [of "output_with [1]" "replicate 20000 2"] by (simp add: output_with_facts)

text \<open>
  Serializing through \<open>Next\<close> and \<open>BackUp\<close>: a serializer that fills the regions it
  gets and returns the unused tail of the last one ends up with exactly its bytes behind the
  queued ones; the byte counter agrees with the queue again.
\<close>

theorem serializer_appends:
  assumes "ob_inv ob" and "length (ob_pending ob) + length bs + 8192 < 2 ^ 64"
  shows "\<exists>ob' d'. write_all stream_region stream_fill stream_back_up (ob, d) bs = Some (Inr (ob', d')) \<and>
    ob_inv ob' \<and> ob_pending ob' = ob_pending ob @ bs"
  using output_stream.write_all_writes [of "(ob, d)" bs] assms
  by (auto simp: out_capacity_def add.assoc)

theorem serializer_appends_witness:
  "\<exists>ob' d'. write_all stream_region stream_fill stream_back_up (output_with [1, 2], (None, 0)) (replicate 9000 7)
     = Some (Inr (ob', d')) \<and> ob_inv ob' \<and> ob_pending ob' = [1, 2] @ replicate 9000 7"
  using serializer_appends [of "output_with [1, 2]" "replicate 9000 7" "(None, 0)"]
  by (simp add: output_with_facts)

text \<open>
  C25. \<open>get_iovecs\<close> returns at most \<open>IOV_MAX\<close> regions; they are readable and together
  hold a prefix of the queued bytes, all of them when fewer than 1023 blocks' worth are
  queued.
\<close>

theorem get_iovecs_describes_queue:
  assumes "ob_inv ob"
  shows "\<exists>iovs bs rest. get_iovecs ob = Inr iovs \<and> length iovs \<le> IOV_MAX \<and>
    gather (out_heap ob) iovs = Inr bs \<and> ob_pending ob = bs @ rest \<and>
    (length (ob_pending ob) < 1023 * 8192 \<longrightarrow> rest = [])"
proof -
  from assms obtain as where "ob_rep ob as" by (auto simp: ob_inv_def)
  note * = get_iovecs_ok [OF this]
  show ?thesis
    by (rule exI, rule exI, rule exI, intro conjI, rule *(1), simp, rule *(2), rule *(3))
      (use *(4) in auto)
qed

theorem get_iovecs_describes_queue_witness:
  "\<exists>iovs. get_iovecs (output_with [5, 6]) = Inr iovs \<and> gather (out_heap (output_with [5, 6])) iovs = Inr [5, 6]"
  using get_iovecs_describes_queue [of "output_with [5, 6]"] by (auto simp: output_with_facts)

text \<open>
  C24. \<open>send_add(n)\<close> after the kernel took \<open>n\<close> of the queued bytes: it returns without
  memory errors, keeps the invariant and removes exactly the first \<open>n\<close> queued bytes.
  Reporting more bytes than are queued makes it loop forever.
\<close>

theorem send_add_removes_prefix:
  assumes "ob_inv ob" and "0 \<le> n"
  shows "(n \<le> int (length (ob_pending ob)) \<longrightarrow>
      (\<exists>ob'. send_add ob n = Some (Inr ob') \<and> ob_inv ob' \<and> ob_pending ob' = drop (nat n) (ob_pending ob))) \<and>
    (n > int (length (ob_pending ob)) \<longrightarrow> send_add ob n = None)"
  using send_add_ok [OF assms] send_add_hangs [OF assms(1)] by blast

theorem send_add_removes_prefix_witness:
  "(\<exists>ob'. send_add (output_with [1, 2, 3]) 2 = Some (Inr ob') \<and> ob_inv ob' \<and> ob_pending ob' = [3]) \<and>
   send_add (output_with [1, 2, 3]) 4 = None"
  using send_add_removes_prefix [of "output_with [1, 2, 3]" 2]
    send_add_removes_prefix [of "output_with [1, 2, 3]" 4]
  by (simp add: output_with_facts)

text \<open>The destructor returns, deletes every block once and leaves none behind.\<close>

theorem OutputBuffer_destructor_frees_all:
  assumes "ob_inv ob"
  shows "\<exists>h. OutputBuffer_destructor ob = Some (Inr h) \<and> (\<forall>a. cells h a = None)"
  using assms delete_out_blocks_ok
  by (auto simp: ob_inv_def ob_rep_def ob_chain_def OutputBuffer_destructor_def)

theorem OutputBuffer_destructor_frees_all_witness:
  "\<exists>h. OutputBuffer_destructor (output_with [1, 2]) = Some (Inr h) \<and> (\<forall>a. cells h a = None)"
  by (rule OutputBuffer_destructor_frees_all) (simp add: output_with_facts)

end
