(* ===== verification/StableQueue.thy ===== *)
theory StableQueue
  imports OutputStream
begin

section \<open>Queued bytes stay where they are\<close>

text \<open>
  A ring connection gives the kernel the addresses of its queued bytes (\<open>get_iovecs\<close>) and goes
  on appending to the queue while the kernel reads them. This theory shows that appending,
  with \<open>append\<close> and through the serializer, never moves or changes a byte that is already
  queued: an array of iovecs describes the same bytes until \<open>send_add\<close> removes them.
\<close>

definition frozen :: "block_heap \<Rightarrow> block_heap \<Rightarrow> bool" where
  "frozen h h' \<longleftrightarrow> (\<forall>a b. cells h a = Some b \<longrightarrow> (\<exists>b'. cells h' a = Some b' \<and> blk_end b \<le> blk_end b' \<and>
     (\<forall>i. int i < blk_end b \<longrightarrow> blk_data b' i = blk_data b i)))"

definition iovs_within :: "block_heap \<Rightarrow> iovec list \<Rightarrow> bool" where
  "iovs_within h iovs \<longleftrightarrow> (\<forall>((p, off), n) \<in> set iovs. \<exists>a b. p = Some a \<and> cells h a = Some b \<and>
     0 \<le> off \<and> off + int (unat n) \<le> blk_end b)"

lemma frozen_refl [simp]: "frozen h h"
  by (simp add: frozen_def)

lemma frozen_trans [trans]:
  assumes "frozen h1 h2" and "frozen h2 h3"
  shows "frozen h1 h3"
  unfolding frozen_def
proof (intro allI impI)
  fix a b assume "cells h1 a = Some b"
  with assms(1) obtain b2 where 2: "cells h2 a = Some b2" "blk_end b \<le> blk_end b2"
    "\<forall>i. int i < blk_end b \<longrightarrow> blk_data b2 i = blk_data b i" unfolding frozen_def by blast
  with assms(2) obtain b3 where "cells h3 a = Some b3" "blk_end b2 \<le> blk_end b3"
    "\<forall>i. int i < blk_end b2 \<longrightarrow> blk_data b3 i = blk_data b2 i" unfolding frozen_def by blast
  with 2 show "\<exists>b3. cells h3 a = Some b3 \<and> blk_end b \<le> blk_end b3 \<and> (\<forall>i. int i < blk_end b \<longrightarrow> blk_data b3 i = blk_data b i)"
    by auto
qed

lemma frozen_upd:
  assumes "cells h a = Some b" and "blk_end b \<le> blk_end b'" and "\<And>i. int i < blk_end b \<Longrightarrow> blk_data b' i = blk_data b i"
  shows "frozen h (upd h a b')"
  using assms by (auto simp: frozen_def upd_def)

lemma frozen_block_get:
  assumes "frozen h h'" and "cells h a = Some b" and "off + int n \<le> blk_end b"
  obtains b' where "cells h' a = Some b'" and "block_get b' off n = block_get b off n"
proof -
  from assms(1,2) obtain b' where b': "cells h' a = Some b'" "\<forall>i. int i < blk_end b \<longrightarrow> blk_data b' i = blk_data b i"
    unfolding frozen_def by blast
  have "block_get b' off n = block_get b off n"
    using b'(2) assms(3) by (auto simp: block_get_def slice_def)
  with b'(1) that show thesis by blast
qed

lemma frozen_within:
  assumes "frozen h h'" and "iovs_within h iovs"
  shows "iovs_within h' iovs" and "gather h' iovs = gather h iovs"
proof -
  show "iovs_within h' iovs"
    using assms unfolding iovs_within_def frozen_def by (fastforce intro: order_trans)
  show "gather h' iovs = gather h iovs"
    using assms(2)
  proof (induction iovs)
    case (Cons v iovs)
    obtain p off n where v: "v = ((p, off), n)" by (metis prod.collapse)
    with Cons.prems obtain a b where a: "p = Some a" "cells h a = Some b" "off + int (unat n) \<le> blk_end b"
      by (auto simp: iovs_within_def)
    from frozen_block_get [OF assms(1) a(2,3)] obtain b' where
      "cells h' a = Some b'" "block_get b' off (unat n) = block_get b off (unat n)" .
    moreover have "iovs_within h iovs" using Cons.prems by (simp add: iovs_within_def)
    ultimately show ?case using Cons.IH a by (simp add: v)
  qed simp
qed

lemma get_iovecs_within:
  assumes "ob_inv ob" and "get_iovecs ob = Inr iovs"
  shows "iovs_within (out_heap ob) iovs"
proof -
  from assms(1) obtain as where rep: "ob_rep ob as" by (auto simp: ob_inv_def)
  then have own: "owns (out_heap ob) (out_cur_block ob) as" and fl: "filled (blocks (out_heap ob) as)"
    by (simp_all add: ob_rep_def ob_chain_def)
  have iovs: "iovs = map (block_iovec (out_heap ob)) (take IOV_MAX as)" using get_iovecs_ok(1) [OF rep] assms(2) by simp
  have wf: "\<exists>b. cells (out_heap ob) a = Some b \<and> blk_wf b" if a: "a \<in> set as" for a
  proof -
    obtain b where b: "cells (out_heap ob) a = Some b" using own a by (rule owns_cell)
    moreover have "b \<in> set (blocks (out_heap ob) as)" using a b by (force simp: blocks_def)
    ultimately show ?thesis using filled_wf [OF fl] by blast
  qed
  show ?thesis
    unfolding iovs_within_def
  proof (clarify)
    fix p off n assume "((p, off), n) \<in> set iovs"
    then obtain a where a: "a \<in> set as" "block_iovec (out_heap ob) a = ((p, off), n)"
      unfolding iovs by (auto dest: in_set_takeD)
    with wf obtain b where b: "cells (out_heap ob) a = Some b" "blk_wf b" by blast
    have "nat (blk_end b - blk_begin b) < 2 ^ LENGTH(64)" using b(2) by (auto simp: blk_wf_def kBlockSize_def)
    then have "unat (of_int (blk_end b - blk_begin b) :: size_t) = nat (blk_end b - blk_begin b)"
      using unat_add_of_int [of "blk_end b - blk_begin b" "0 :: size_t"] b(2) by (simp add: blk_wf_def)
    moreover have "p = Some a" "off = blk_begin b" "n = of_int (blk_end b - blk_begin b)"
      using a(2) b(1) by (auto simp: block_iovec_def Let_def)
    ultimately show "\<exists>a b. p = Some a \<and> cells (out_heap ob) a = Some b \<and> 0 \<le> off \<and> off + int (unat n) \<le> blk_end b"
      using b by (auto simp: blk_wf_def simp del: of_int_diff)
  qed
qed

subsection \<open>Appending\<close>

lemma ob_inv_fresh: "ob_inv ob \<Longrightarrow> cells (out_heap ob) (brk (out_heap ob)) = None"
  by (auto simp: ob_inv_def ob_rep_def ob_chain_def owns_def)

lemma link_new_block_frozen:
  assumes "link_new_block ob = Inr ob'" and "cells (out_heap ob) (brk (out_heap ob)) = None"
  shows "frozen (out_heap ob) (out_heap ob')"
proof -
  let ?m = "brk (out_heap ob)"
  from assms obtain l b where "out_last_block ob = Some l" and b: "cells (snd (new_block (out_heap ob))) l = Some b"
    and ob': "out_heap ob' = upd (snd (new_block (out_heap ob))) l (b\<lparr>blk_next := Some ?m\<rparr>)"
    by (auto simp: link_new_block_def case_prod_beta modify_def load_def res_bind_eq_Inr new_block_def split: option.splits)
  have "frozen (out_heap ob) (snd (new_block (out_heap ob)))"
    using assms(2) by (auto simp: frozen_def new_block_def upd_def)
  also have "frozen \<dots> (out_heap ob')" unfolding ob' using b by (rule frozen_upd) simp_all
  finally show ?thesis .
qed

lemma append_body_frozen:
  assumes inv: "ob_inv ob" and run: "append_body ob bs = Inr (ob', bs')"
  shows "frozen (out_heap ob) (out_heap ob')"
proof -
  from inv obtain as where "ob_chain ob as" by (auto simp: ob_inv_def ob_rep_def)
  then obtain as' l b where b: "cells (out_heap ob) l = Some b" "blk_wf b" "out_last_block ob = Some l"
    by (rule ob_chain_last)
  define k where "k = min (int (length bs)) (kBlockSize - blk_end b)"
  define b2 where "b2 = b\<lparr>blk_data := copy_into (blk_data b) (nat (blk_end b)) (take (nat k) bs), blk_end := blk_end b + k\<rparr>"
  define ob1 where "ob1 = ob\<lparr>out_heap := upd (out_heap ob) l b2, to_write_bytes := to_write_bytes ob + of_int k\<rparr>"
  have "0 \<le> k" using b(2) by (simp add: k_def blk_wf_def)
  then have f1: "frozen (out_heap ob) (out_heap ob1)"
    unfolding ob1_def using b by (auto simp: b2_def copy_into_def intro!: frozen_upd)
  have "(if blk_end b2 = kBlockSize then link_new_block ob1 else Inr ob1) = Inr ob'"
    using run b by (auto simp: append_body_def res_bind_eq_Inr block_put_def ob1_def b2_def k_def Let_def split: if_splits)
  moreover have "cells (out_heap ob1) (brk (out_heap ob1)) = None"
    using ob_inv_fresh [OF inv] b(1) by (auto simp: ob1_def upd_def)
  ultimately have "frozen (out_heap ob1) (out_heap ob')"
    by (auto dest: link_new_block_frozen split: if_splits)
  with f1 show ?thesis by (rule frozen_trans)
qed

lemma append_loop_frozen:
  assumes "ob_inv ob" and "length (ob_pending ob) + length bs < 2 ^ 64" and "0 < out_room ob \<or> bs = []"
    and "append_loop ob bs = Some (Inr ob')"
  shows "frozen (out_heap ob) (out_heap ob')"
  using assms
proof (induction "length bs" arbitrary: ob bs rule: less_induct)
  case less
  show ?case
  proof (cases "bs = []")
    case True
    with less.prems(4) show ?thesis by (simp add: append_loop.simps)
  next
    case False
    define k where "k = min (length bs) (nat (out_room ob))"
    have k: "0 < k" "k \<le> length bs" using False less.prems(3) by (auto simp: k_def)
    obtain ob1 where ob1: "append_body ob bs = Inr (ob1, drop k bs)" "ob_inv ob1"
      "ob_pending ob1 = ob_pending ob @ take k bs" "0 < out_room ob1"
      using append_body_ok [OF less.prems(1,2) k_def] by blast
    have "frozen (out_heap ob1) (out_heap ob')"
      using less.prems(2,4) ob1 k False by (intro less.hyps) (simp_all add: append_loop.simps [of ob])
    with append_body_frozen [OF less.prems(1) ob1(1)] show ?thesis by (rule frozen_trans)
  qed
qed

lemma ob_append_frozen:
  assumes "ob_inv ob" and "length (ob_pending ob) + length bs < 2 ^ 64" and "ob_append ob bs = Some (Inr ob')"
  shows "frozen (out_heap ob) (out_heap ob')"
proof (cases "bs = []")
  case True
  with assms(3) show ?thesis by (simp add: ob_append_def append_loop.simps)
next
  case False
  define k where "k = min (length bs) (nat (out_room ob))"
  obtain ob1 where ob1: "append_body ob bs = Inr (ob1, drop k bs)" "ob_inv ob1"
    "ob_pending ob1 = ob_pending ob @ take k bs" "0 < out_room ob1"
    using append_body_ok [OF assms(1,2) k_def] by blast
  have "frozen (out_heap ob1) (out_heap ob')"
    using assms(2,3) ob1 False by (intro append_loop_frozen [of _ "drop k bs"])
      (simp_all add: ob_append_def append_loop.simps [of ob] k_def)
  with append_body_frozen [OF assms(1) ob1(1)] show ?thesis by (rule frozen_trans)
qed

subsection \<open>Serializing\<close>

lemma ob_next_frozen:
  assumes inv: "ob_inv ob" and run: "ob_next ob = Inr ((d, room), ob1)" and put: "ob_poke ob1 d bs = Inr ob2"
    and bu: "ob_back_up ob2 (room - int (length bs)) = Inr ob3" and len: "int (length bs) \<le> room"
  shows "frozen (out_heap ob) (out_heap ob3)"
proof -
  from inv obtain as where ch: "ob_chain ob as" by (auto simp: ob_inv_def ob_rep_def)
  then obtain as' l b where as: "as = as' @ [l]" and b: "cells (out_heap ob) l = Some b" "blk_wf b" "out_last_block ob = Some l"
    by (rule ob_chain_last)
  obtain ob0 l0 b0 where lnk: "(if blk_end b = kBlockSize then link_new_block ob else Inr ob) = Inr ob0"
    and last: "out_last_block ob0 = Some l0" and b0: "cells (out_heap ob0) l0 = Some b0" "0 \<le> blk_end b0"
  proof (cases "blk_end b = kBlockSize")
    case True
    obtain ob0 where "link_new_block ob = Inr ob0" "out_last_block ob0 = Some (brk (out_heap ob))"
      "cells (out_heap ob0) (brk (out_heap ob)) = Some \<lparr>blk_begin = 0, blk_end = 0, blk_data = junk (out_heap ob) (brk (out_heap ob)), blk_next = None\<rparr>"
      using link_new_block_ok [OF ch [unfolded as] b(1) True refl] by metis
    with True that show thesis by simp
  next
    case False
    with b that show thesis by (simp add: blk_wf_def)
  qed
  have "frozen (out_heap ob) (out_heap ob0)"
    using lnk ob_inv_fresh [OF inv] by (auto dest: link_new_block_frozen split: if_splits)
  also have "out_heap ob3 = upd (out_heap ob0) l0 (b0\<lparr>blk_data := copy_into (blk_data b0) (nat (blk_end b0)) bs, blk_end := blk_end b0 + int (length bs)\<rparr>)"
    using run put bu lnk b(1,3) last b0 len
    by (auto simp: ob_next_def ob_poke_def ob_back_up_def res_bind_eq_Inr block_put_def Let_def min_def split: if_splits)
  moreover have "frozen (out_heap ob0) (upd (out_heap ob0) l0 (b0\<lparr>blk_data := copy_into (blk_data b0) (nat (blk_end b0)) bs, blk_end := blk_end b0 + int (length bs)\<rparr>))"
    using b0 by (auto simp: copy_into_def intro!: frozen_upd)
  ultimately show ?thesis by (auto intro: frozen_trans)
qed

text \<open>The stream the serializer writes to, with what was queued before as part of the invariant.\<close>

interpretation stable_stream: zero_copy_output "\<lambda>s. ob_inv (fst s) \<and> frozen h (out_heap (fst s))" stream_region stream_fill
  stream_back_up "\<lambda>s. ob_pending (fst s)" out_capacity for h
proof
  fix s :: out_stream
  assume s: "ob_inv (fst s) \<and> frozen h (out_heap (fst s))" "out_capacity s 8192"
  from output_stream.region_ok [OF conjunct1 [OF s(1)] s(2)] obtain n s1 where r: "stream_region s = Inr (n, s1)" "0 < n"
    and ok: "\<And>bs. length bs \<le> n \<Longrightarrow> \<exists>s2 s3. stream_fill n bs s1 = Inr s2 \<and> stream_back_up (n - length bs) s2 = Inr s3 \<and>
       ob_inv (fst s3) \<and> ob_pending (fst s3) = ob_pending (fst s) @ bs \<and> (length bs = n \<longrightarrow> s3 = s2) \<and>
       (\<forall>k. out_capacity s (length bs + k) \<longrightarrow> out_capacity s3 k)" by blast
  have fz: "frozen h (out_heap (fst s3))"
    if "length bs \<le> n" "stream_fill n bs s1 = Inr s2" "stream_back_up (n - length bs) s2 = Inr s3" for bs s2 s3
  proof -
    from r obtain room where nx: "ob_next (fst s) = Inr ((snd s1, room), fst s1)" "n = nat room"
      by (auto simp: stream_region_def res_bind_eq_Inr)
    have "ob_poke (fst s1) (snd s1) bs = Inr (fst s2)" "ob_back_up (fst s2) (room - int (length bs)) = Inr (fst s3)" "int (length bs) \<le> room"
      using that nx(2) r(2) by (auto simp: stream_fill_def stream_back_up_def res_bind_eq_Inr of_nat_diff)
    from ob_next_frozen [OF conjunct1 [OF s(1)] nx(1) this] s(1) show ?thesis using frozen_trans by blast
  qed
  show "\<exists>n s1. stream_region s = Inr (n, s1) \<and> 0 < n \<and>
    (\<forall>bs. length bs \<le> n \<longrightarrow> (\<exists>s2 s3. stream_fill n bs s1 = Inr s2 \<and>
       stream_back_up (n - length bs) s2 = Inr s3 \<and> (ob_inv (fst s3) \<and> frozen h (out_heap (fst s3))) \<and>
       ob_pending (fst s3) = ob_pending (fst s) @ bs \<and> (length bs = n \<longrightarrow> s3 = s2) \<and>
       (\<forall>k. out_capacity s (length bs + k) \<longrightarrow> out_capacity s3 k)))"
    using r ok fz by (intro exI [of _ n] exI [of _ s1]) blast
next
  fix s m n
  show "out_capacity s n \<Longrightarrow> m \<le> n \<Longrightarrow> out_capacity s m" by (simp add: out_capacity_def)
qed

end
