(* ===== verification/Connection.thy ===== *)
theory Connection
  imports Socket InputStream StableQueue
begin

section \<open>Connections and their awaiters\<close>

text \<open>
  A connection (src/net/connection.h) owns a socket, an input and an output buffer and the
  handles of the two coroutines that serve it: one reads, one writes. \<open>PollConnection\<close>
  (src/net/poll_connection.cc) does the system calls itself, \<open>UringConnection\<close>
  (src/net/uring_connection.cc) queues them for the ring of its executor. The awaiters
  (src/scheduler/awaitable.cc) decide whether a coroutine suspends.

  A coroutine is its resume point: the place it continues at when its handle is resumed. The
  writing coroutine \<open>send_fn\<close> is the same in client and server
  (src/server/rpc_server.cc, src/client/client_channel.cc) and its resume point is part of the
  record, because the reading side resumes it from inside \<open>async_read\<close>. A coroutine that ran to
  its end is destroyed (its final suspend point never suspends), so resuming it is a use after
  free.
\<close>

datatype event_type = EV_READ | EV_WRITE | EV_DELETE | EV_UNKNOWN

datatype conn_kind = PollConnection | UringConnection

datatype sqe = SqeRead int "ptr \<times> int" int "64 word" | SqeWritev int "iovec list" "64 word"
  | SqeWrite int "64 word" "64 word"

text \<open>
  The submission queue of an \<open>io_uring\<close>: entries handed out and not yet submitted, entries
  submitted, and its size.
\<close>

record ring =
  sq_entries :: nat
  sq :: "sqe list"
  submitted :: "sqe list"

datatype send_pc = S_loop | S_write | S_done

record connection =
  kind :: conn_kind
  is_dummy :: bool
  this_ptr :: "64 word"
  read_buf :: input_buffer
  write_buf :: output_buffer
  read_handle :: bool
  write_handle :: bool
  sock :: socket
  back_left :: size_t
  ioves :: "iovec list"
  uring :: ring
  events :: "event_type list"
  send_frame :: send_pc

abbreviation kern :: "connection \<Rightarrow> os_socket" where
  "kern c \<equiv> os (sock c)"

definition conn_closed :: "connection \<Rightarrow> bool" where
  "conn_closed c = sock_closed (sock c)"

definition conn_close :: "connection \<Rightarrow> connection" where
  "conn_close c = c\<lparr>sock := socket_close (sock c)\<rparr>"

definition conn_read_bytes :: "connection \<Rightarrow> size_t" where
  "conn_read_bytes c = ib_bytes (read_buf c)"

definition conn_write_bytes :: "connection \<Rightarrow> size_t" where
  "conn_write_bytes c = ob_bytes (write_buf c)"

text \<open>
  The constructors. \<open>read_handle\<close> and \<open>write_handle\<close> are uninitialised in the code:
  \<open>False\<close> until one of the awaiters sets them.
\<close>

definition Connection :: "conn_kind \<Rightarrow> socket \<Rightarrow> bool \<Rightarrow> 64 word \<Rightarrow> ring \<Rightarrow>
    (addr \<Rightarrow> nat \<Rightarrow> byte) \<Rightarrow> connection" where
  "Connection k s dummy this r j =
     \<lparr>kind = k, is_dummy = dummy, this_ptr = this, read_buf = InputBuffer j, write_buf = OutputBuffer j,
      read_handle = False, write_handle = False, sock = s, back_left = 0, ioves = [], uring = r,
      events = [], send_frame = S_loop\<rparr>"

subsection \<open>PollConnection: writing\<close>

text \<open>\<open>int need_write = write_buf_.bytes()\<close> narrows a \<open>size_t\<close>.\<close>

definition to_int32 :: "size_t \<Rightarrow> int" where
  "to_int32 w = sint (ucast w :: 32 word)"

text \<open>The loop of \<open>async_write\<close>: every turn passes the iovecs of the whole queue.\<close>

function write_loop :: "output_buffer \<Rightarrow> os_socket \<Rightarrow> int \<Rightarrow> int \<Rightarrow> (int \<times> os_socket) res" where
  "write_loop ob k need_write nwrite = (if nwrite < need_write then
     (case get_iovecs ob of Inl e \<Rightarrow> Inl e
      | Inr iovs \<Rightarrow> (case gather (out_heap ob) iovs of Inl e \<Rightarrow> Inl e
         | Inr bs \<Rightarrow> (case os_writev k bs of
             (Inr n, k') \<Rightarrow> write_loop ob k' need_write (nwrite + int n)
           | (Inl e, k') \<Rightarrow> (if e = EINTR then write_loop ob k' need_write nwrite
               else Inr (nwrite, k')))))
     else Inr (nwrite, k))"
  by pat_completeness auto
termination
  by (relation "measure (\<lambda>(ob, k, need, n). length (tx k))") (auto dest: os_writev_less [OF sym])

declare write_loop.simps [simp del]

definition poll_async_write :: "connection \<Rightarrow> (bool \<times> connection) res option" where
  "poll_async_write c =
     (let need_write = to_int32 (ob_bytes (write_buf c)) in
      case write_loop (write_buf c) (kern c) need_write 0 of Inl e \<Rightarrow> Some (Inl e)
      | Inr (nwrite, k) \<Rightarrow>
        ro_bind (send_add (write_buf c) nwrite) (\<lambda>ob.
          Some (Inr (\<not> conn_closed c \<and> nwrite < need_write,
            c\<lparr>write_buf := ob, sock := (sock c)\<lparr>os := k\<rparr>\<rparr>))))"

subsection \<open>UringConnection: writing\<close>

text \<open>\<open>user_data\<close>: the event type in the top byte, the connection's address below it.\<close>

fun event_code :: "event_type \<Rightarrow> 64 word" where
  "event_code EV_READ = 0"
| "event_code EV_WRITE = 1"
| "event_code EV_DELETE = 2"
| "event_code EV_UNKNOWN = 3"

definition user_data :: "event_type \<Rightarrow> 64 word \<Rightarrow> 64 word" where
  "user_data t p = push_bit 56 (event_code t) OR p"

text \<open>
  \<open>io_uring_get_sqe\<close> returns null when the queue is full; the code then submits and asks
  again. A queue without entries would make it use the null pointer.
\<close>

definition io_uring_submit :: "ring \<Rightarrow> ring" where
  "io_uring_submit r = r\<lparr>submitted := submitted r @ sq r, sq := []\<rparr>"

definition queue_sqe :: "ring \<Rightarrow> sqe \<Rightarrow> ring res" where
  "queue_sqe r e = (let r1 = (if length (sq r) < sq_entries r then r else io_uring_submit r) in
     if length (sq r1) < sq_entries r1 then Inr (r1\<lparr>sq := sq r1 @ [e]\<rparr>) else Inl NullDeref)"

definition uring_async_write :: "connection \<Rightarrow> (bool \<times> connection) res" where
  "uring_async_write c =
     (if back_left c > 0 then Inr (True, c)
      else let c1 = c\<lparr>back_left := ob_bytes (write_buf c)\<rparr> in
        if back_left c1 = 0 then Inr (False, c1)
        else res_bind (get_iovecs (write_buf c1)) (\<lambda>iovs.
          res_bind (queue_sqe (uring c1) (SqeWritev (sockfd (sock c1)) iovs (user_data EV_WRITE (this_ptr c1)))) (\<lambda>r.
            Inr (\<not> conn_closed c1, c1\<lparr>ioves := iovs, uring := r\<rparr>))))"

text \<open>\<open>UringConnection::send_add\<close>, called when the kernel reports a completed write.\<close>

definition uring_send_add :: "connection \<Rightarrow> int \<Rightarrow> connection res option" where
  "uring_send_add c n = ro_bind (send_add (write_buf c) n) (\<lambda>ob.
     Some (Inr (c\<lparr>back_left := back_left c - of_int n, write_buf := ob\<rparr>)))"

definition async_write :: "connection \<Rightarrow> (bool \<times> connection) res option" where
  "async_write c = (case kind c of PollConnection \<Rightarrow> poll_async_write c
     | UringConnection \<Rightarrow> Some (uring_async_write c))"

subsection \<open>The writing coroutine\<close>

definition WaitWrite_ready :: "connection \<Rightarrow> bool" where
  "WaitWrite_ready c \<longleftrightarrow> conn_closed c \<or> conn_write_bytes c > 0"

definition WaitWrite_suspend :: "connection \<Rightarrow> connection" where
  "WaitWrite_suspend c = c\<lparr>write_handle := True\<rparr>"

definition add_event :: "event_type \<Rightarrow> connection \<Rightarrow> connection" where
  "add_event t c = c\<lparr>events := events c @ [t]\<rparr>"

definition Write_suspend :: "connection \<Rightarrow> connection" where
  "Write_suspend c = add_event EV_WRITE (c\<lparr>write_handle := True\<rparr>)"

text \<open>
  \<open>send_fn\<close>: \<open>S_loop\<close> is the head of its loop, where it continues after
  \<open>async_write\<close> suspended; \<open>S_write\<close> is the call of \<open>async_write\<close>, where it continues after
  the wait for data.
\<close>

partial_function (option) send_fn :: "send_pc \<Rightarrow> connection \<Rightarrow> connection res option" where
  "send_fn pc c = (case pc of
     S_loop \<Rightarrow>
       (if conn_closed c then Some (Inr (c\<lparr>send_frame := S_done\<rparr>))
        else if WaitWrite_ready c then send_fn S_write c
        else Some (Inr ((WaitWrite_suspend c)\<lparr>send_frame := S_write\<rparr>)))
   | S_write \<Rightarrow>
       (case async_write c of None \<Rightarrow> None | Some (Inl e) \<Rightarrow> Some (Inl e)
        | Some (Inr (should_suspend, c')) \<Rightarrow>
            (if should_suspend then Some (Inr ((Write_suspend c')\<lparr>send_frame := S_loop\<rparr>))
             else send_fn S_loop c'))
   | S_done \<Rightarrow> Some (Inl UseAfterFree))"

definition resume_write :: "connection \<Rightarrow> connection res option" where
  "resume_write c = (if write_handle c then send_fn (send_frame c) c else Some (Inl Uninitialised))"

subsection \<open>Reading\<close>

text \<open>The loop of \<open>PollConnection::async_read\<close>.\<close>

function read_loop :: "input_buffer \<Rightarrow> socket \<Rightarrow> ptr \<times> int \<Rightarrow> int \<Rightarrow> int \<Rightarrow>
    (input_buffer \<times> socket \<times> int) res" where
  "read_loop ib s buffer max_size nread = (if max_size > 0 then
     (case os_read (os s) (nat max_size) of
        (Inr bs, k) \<Rightarrow>
          (if bs \<noteq> [] then
             (case poke ib buffer bs of Inl e \<Rightarrow> Inl e
              | Inr ib' \<Rightarrow> read_loop ib' (s\<lparr>os := k\<rparr>) (fst buffer, snd buffer + int (length bs))
                  (max_size - int (length bs)) (nread + int (length bs)))
           else Inr (ib, socket_close (s\<lparr>os := k\<rparr>), nread))
      | (Inl e, k) \<Rightarrow>
          (if e = EAGAIN \<or> e = EWOULDBLOCK then Inr (ib, s\<lparr>os := k\<rparr>, nread)
           else if e = EINTR then read_loop ib (s\<lparr>os := k\<rparr>) buffer max_size nread
           else Inr (ib, socket_close (s\<lparr>os := k\<rparr>), nread)))
     else Inr (ib, s, nread))"
  by pat_completeness auto
termination
  by (relation "measure (\<lambda>(ib, s, d, m, n). rx_weight (rx (os s)))")
    (auto dest: os_read_less [OF sym])

declare read_loop.simps [simp del]

definition poll_async_read :: "connection \<Rightarrow> (bool \<times> connection) res option" where
  "poll_async_read c = (case get_buffer (read_buf c) of Inl e \<Rightarrow> Some (Inl e)
     | Inr (buffer, max_size) \<Rightarrow>
       (case read_loop (read_buf c) (sock c) buffer max_size 0 of Inl e \<Rightarrow> Some (Inl e)
        | Inr (ib, s, nread) \<Rightarrow>
          (let c1 = c\<lparr>read_buf := ib, sock := s\<rparr> in
           ro_bind (if conn_closed c1 then resume_write c1 else Some (Inr c1)) (\<lambda>c2.
             (case recv_add (read_buf c2) nread of Inl e \<Rightarrow> Some (Inl e)
              | Inr ib2 \<Rightarrow> Some (Inr (\<not> conn_closed c2 \<and> nread \<le> 0, c2\<lparr>read_buf := ib2\<rparr>)))))))"

definition uring_async_read :: "connection \<Rightarrow> (bool \<times> connection) res" where
  "uring_async_read c = res_bind (get_buffer (read_buf c)) (\<lambda>(buffer, max_size).
     res_bind (queue_sqe (uring c) (SqeRead (sockfd (sock c)) buffer max_size (user_data EV_READ (this_ptr c)))) (\<lambda>r.
       Inr (True, c\<lparr>uring := r\<rparr>)))"

definition async_read :: "connection \<Rightarrow> (bool \<times> connection) res option" where
  "async_read c = (case kind c of PollConnection \<Rightarrow> poll_async_read c
     | UringConnection \<Rightarrow> Some (uring_async_read c))"

text \<open>The awaiters of the reading coroutine: whether it suspends.\<close>

definition RegisterRead_suspend :: "connection \<Rightarrow> connection" where
  "RegisterRead_suspend c = add_event EV_READ (c\<lparr>read_handle := True\<rparr>)"

definition Read_suspend :: "bool \<Rightarrow> connection \<Rightarrow> bool \<times> connection" where
  "Read_suspend should_suspend c =
     (\<not> conn_closed c \<and> should_suspend, if conn_closed c then add_event EV_DELETE c else c)"

text \<open>\<open>co_await conn->async_read()\<close>: whether the coroutine is suspended now.\<close>

definition await_read :: "connection \<Rightarrow> (bool \<times> connection) res option" where
  "await_read c = ro_bind (async_read c) (\<lambda>(should_suspend, c'). Some (Inr (Read_suspend should_suspend c')))"

subsection \<open>Lemmas on reading\<close>

lemma copy_into_append:
  "copy_into (copy_into d off xs) (off + length xs) ys = copy_into d off (xs @ ys)"
  by (rule ext) (auto simp: copy_into_def nth_append)

lemma poke_append:
  assumes "poke ib (p, off) xs = Inr ib1" and "off + int (length xs) + int (length ys) \<le> kBlockSize"
  shows "poke ib1 (p, off + int (length xs)) ys = poke ib (p, off) (xs @ ys)"
    and "\<exists>ib2. poke ib1 (p, off + int (length xs)) ys = Inr ib2"
proof -
  from assms(1) obtain a b where "p = Some a" and b: "cells (in_heap ib) a = Some b" and "0 \<le> off"
    and "off + int (length xs) \<le> kBlockSize"
    and "ib1 = ib\<lparr>in_heap := upd (in_heap ib) a (b\<lparr>blk_data := copy_into (blk_data b) (nat off) xs\<rparr>)\<rparr>"
    by (auto simp: poke_def res_bind_def load_def block_put_def split: sum.splits option.splits if_splits)
  then show "poke ib1 (p, off + int (length xs)) ys = poke ib (p, off) (xs @ ys)"
    and "\<exists>ib2. poke ib1 (p, off + int (length xs)) ys = Inr ib2"
    using assms(2) by (simp_all add: poke_def block_put_def nat_add_distrib copy_into_append)
qed

lemma poke_Nil:
  assumes "get_buffer ib = Inr (d, room)" and "ib_inv ib"
  shows "poke ib d [] = Inr ib"
proof -
  from assms(2) obtain ds cs where rep: "ib_rep ib ds cs" by (auto simp: ib_inv_def)
  then obtain as l b where cs: "cs = as @ [l]" and b: "cells (in_heap ib) l = Some b" and wf: "blk_wf b"
    by (rule ib_rep_last)
  have d: "d = (Some l, blk_end b)" using get_buffer_rep [OF rep [unfolded cs] b] assms(1) by simp
  have "copy_into (blk_data b) (nat (blk_end b)) [] = blk_data b" by (rule ext) (auto simp: copy_into_def)
  then show ?thesis
    using b wf by (simp add: poke_def d block_put_def blk_wf_def upd_same)
qed

text \<open>The loop stores one run of bytes behind the buffer pointer, whatever the pieces were.\<close>

lemma read_loop_live:
  assumes "rx_live (rx (os s))" and "poke ib0 (p, off) xs = Inr ib"
    and "off + int (length xs) + m \<le> kBlockSize" and "0 \<le> m"
  shows "\<exists>ys ib' es. read_loop ib s (p, off + int (length xs)) m n
      = Inr (ib', s\<lparr>os := (os s)\<lparr>rx := es\<rparr>\<rparr>, n + int (length ys)) \<and>
    poke ib0 (p, off) (xs @ ys) = Inr ib' \<and> int (length ys) \<le> m \<and>
    rx_stream (rx (os s)) = ys @ rx_stream es \<and> rx_live es \<and>
    rx_weight es \<le> rx_weight (rx (os s)) \<and> (ys \<noteq> [] \<longrightarrow> rx_weight es < rx_weight (rx (os s))) \<and>
    rx_pauses es \<le> rx_pauses (rx (os s)) \<and>
    (ys = [] \<and> 0 < m \<longrightarrow> es = [] \<or> rx_pauses es < rx_pauses (rx (os s))) \<and>
    ys = take (nat m) (rx_now (rx (os s)))"
  using assms
proof (induction "rx_weight (rx (os s))" arbitrary: ib s xs m n rule: less_induct)
  case less
  show ?case
  proof (cases "m > 0")
    case False
    with less.prems show ?thesis
      by (intro exI [of _ "[]"] exI [of _ ib] exI [of _ "rx (os s)"]) (simp add: read_loop.simps)
  next
    case True
    obtain r k where k: "os_read (os s) (nat m) = (r, k)" by fastforce
    note kf = os_read_fields [OF k]
    let ?s = "s\<lparr>os := k\<rparr>"
    have sk: "?s = s\<lparr>os := (os s)\<lparr>rx := rx k\<rparr>\<rparr>" by (subst kf(2)) simp
    show ?thesis
    proof (cases r)
      case (Inr bs)
      have ne: "bs \<noteq> []" using rx_read_live_nonempty kf(1) less.prems(1) True Inr by auto
      note d = rx_read_data [OF kf(1) [unfolded Inr] ne]
      have lb: "int (length bs) \<le> m" using d(2) True by linarith
      have fits: "off + int (length xs) + int (length bs) \<le> kBlockSize" using less.prems(3) lb by linarith
      from poke_append [OF less.prems(2) fits] obtain ib1 where
        pk: "poke ib (p, off + int (length xs)) bs = Inr ib1" and pk': "poke ib0 (p, off) (xs @ bs) = Inr ib1"
        by metis
      have live: "rx_live (rx (os ?s))" using d(4) less.prems(1) by simp
      have m1: "off + int (length (xs @ bs)) + (m - int (length bs)) \<le> kBlockSize" "0 \<le> m - int (length bs)"
        using less.prems(3) lb by simp_all
      have less_w: "rx_weight (rx (os ?s)) < rx_weight (rx (os s))" using d(3) by simp
      from less.hyps [OF less_w live pk' m1, of "n + int (length bs)"]
      obtain ys ib' es where ih: "read_loop ib1 ?s (p, off + int (length (xs @ bs))) (m - int (length bs)) (n + int (length bs))
          = Inr (ib', ?s\<lparr>os := (os ?s)\<lparr>rx := es\<rparr>\<rparr>, n + int (length bs) + int (length ys))"
        "poke ib0 (p, off) ((xs @ bs) @ ys) = Inr ib'" "int (length ys) \<le> m - int (length bs)"
        "rx_stream (rx (os ?s)) = ys @ rx_stream es" "rx_live es" "rx_weight es \<le> rx_weight (rx (os ?s))"
        "rx_pauses es \<le> rx_pauses (rx (os ?s))" "ys = take (nat (m - int (length bs))) (rx_now (rx (os ?s)))"
        by blast
      have now: "bs @ ys = take (nat m) (rx_now (rx (os s)))"
        using rx_read_now(1) [OF kf(1) less.prems(1)] True Inr lb ih(8) by (simp add: nat_diff_distrib)
      have es: "?s\<lparr>os := (os ?s)\<lparr>rx := es\<rparr>\<rparr> = s\<lparr>os := (os s)\<lparr>rx := es\<rparr>\<rparr>"
        by (subst kf(2)) simp
      have w: "rx_weight es < rx_weight (rx (os s))"
        using ih(6) d(3) by simp
      have "read_loop ib s (p, off + int (length xs)) m n = Inr (ib', s\<lparr>os := (os s)\<lparr>rx := es\<rparr>\<rparr>, n + int (length (bs @ ys)))"
        using True k Inr ne pk ih(1) es by (simp add: read_loop.simps [of ib] add.assoc)
      then show ?thesis
        using ih(2-7) d(1,5) w ne now [symmetric] by (intro exI [of _ "bs @ ys"] exI [of _ ib'] exI [of _ es]) simp
    next
      case (Inl e)
      note d = rx_read_errno [OF kf(1) [unfolded Inl]]
      have ne: "e \<noteq> EOTHER" using d(4) less.prems(1) by simp
      show ?thesis
      proof (cases "e = EINTR")
        case False
        then have "e = EAGAIN \<or> e = EWOULDBLOCK" using ne by (cases e) auto
        then have "read_loop ib s (p, off + int (length xs)) m n = Inr (ib, ?s, n)"
          using True k Inl by (auto simp: read_loop.simps [of ib])
        then show ?thesis
          unfolding sk using d(1,2,4) d(6) [OF \<open>e = EAGAIN \<or> _\<close>] less.prems(1,2,4) True
            rx_read_now(2) [OF kf(1) less.prems(1) _ Inl False]
          by (intro exI [of _ "[]"] exI [of _ ib] exI [of _ "rx k"]) auto
      next
        case int: True
        have less_w: "rx_weight (rx (os ?s)) < rx_weight (rx (os s))" using d(3) int by simp
        have live: "rx_live (rx (os ?s))" using d(4) less.prems(1) by simp
        from less.hyps [OF less_w live less.prems(2-4), of n] obtain ys ib' es where
          ih: "read_loop ib ?s (p, off + int (length xs)) m n
            = Inr (ib', ?s\<lparr>os := (os ?s)\<lparr>rx := es\<rparr>\<rparr>, n + int (length ys))"
          "poke ib0 (p, off) (xs @ ys) = Inr ib'" "int (length ys) \<le> m"
          "rx_stream (rx (os ?s)) = ys @ rx_stream es" "rx_live es" "rx_weight es \<le> rx_weight (rx (os ?s))"
          "rx_pauses es \<le> rx_pauses (rx (os ?s))"
          "ys = [] \<and> 0 < m \<longrightarrow> es = [] \<or> rx_pauses es < rx_pauses (rx (os ?s))" "ys = take (nat m) (rx_now (rx (os ?s)))"
          by blast
        have now: "rx_now (rx (os s)) = rx_now (rx (os ?s))"
          using rx_read_now(3) [OF kf(1) less.prems(1)] True Inl int by simp
        have es: "?s\<lparr>os := (os ?s)\<lparr>rx := es\<rparr>\<rparr> = s\<lparr>os := (os s)\<lparr>rx := es\<rparr>\<rparr>"
          by (subst kf(2)) simp
        have step: "read_loop ib s (p, off + int (length xs)) m n = read_loop ib ?s (p, off + int (length xs)) m n"
          using True k Inl int by (simp add: read_loop.simps [of ib s])
        show ?thesis
          unfolding step d(1) now using ih(2-9) ih(1) [unfolded es] less_w d(5) [OF int]
          by (intro exI [of _ ys] exI [of _ ib'] exI [of _ es]) simp
      qed
    qed
  qed
qed

text \<open>
  The invariant of a live connection, whose peer neither ends the stream nor fails. A ring
  connection gets its input from completions and not from \<open>rx\<close>; while a write is in flight
  (\<open>back_left\<close>), its iovecs describe the bytes at the head of the queue, whatever has been
  appended since.
\<close>

definition ring_ok :: "connection \<Rightarrow> bool" where
  "ring_ok c \<longleftrightarrow> kind c = UringConnection \<and> rx (kern c) = [] \<and> 0 < sq_entries (uring c) \<and>
     unat (back_left c) \<le> length (ob_pending (write_buf c)) \<and>
     (back_left c \<noteq> 0 \<longrightarrow> send_frame c = S_loop \<and> iovs_within (out_heap (write_buf c)) (ioves c) \<and>
        gather (out_heap (write_buf c)) (ioves c) = Inr (take (unat (back_left c)) (ob_pending (write_buf c))))"

definition conn_inv :: "connection \<Rightarrow> bool" where
  "conn_inv c \<longleftrightarrow> (kind c = PollConnection \<or> ring_ok c) \<and> ib_inv (read_buf c) \<and> ob_inv (write_buf c) \<and>
     \<not> conn_closed c \<and> \<not> shut_wr (kern c) \<and> rx_live (rx (kern c)) \<and>
     write_handle c \<and> read_handle c \<and> send_frame c \<noteq> S_done"

lemma conn_inv_facts:
  assumes "conn_inv c"
  shows "ib_inv (read_buf c)" "ob_inv (write_buf c)" "\<not> conn_closed c" "\<not> shut_wr (kern c)" "rx_live (rx (kern c))"
    "write_handle c" "read_handle c" "send_frame c \<noteq> S_done"
  using assms by (simp_all add: conn_inv_def)

text \<open>What a change of the input side or of the queue keeps.\<close>

lemma ring_ok_read [simp]:
  "ring_ok (c\<lparr>read_buf := ib\<rparr>) = ring_ok c" "ring_ok (c\<lparr>events := evs\<rparr>) = ring_ok c"
  "ring_ok (c\<lparr>read_handle := rh\<rparr>) = ring_ok c" "ring_ok (c\<lparr>write_handle := rh\<rparr>) = ring_ok c"
  by (simp_all add: ring_ok_def)

lemma conn_inv_append:
  assumes "conn_inv c" and "ob_inv ob" and "frozen (out_heap (write_buf c)) (out_heap ob)"
    and "ob_pending ob = ob_pending (write_buf c) @ bs"
  shows "conn_inv (c\<lparr>write_buf := ob\<rparr>)"
proof -
  have "ring_ok (c\<lparr>write_buf := ob\<rparr>)" if "ring_ok c"
    using that frozen_within [OF assms(3)] assms(4) by (auto simp: ring_ok_def)
  with assms(1,2) show ?thesis by (auto simp: conn_inv_def conn_closed_def)
qed

text \<open>A ring with room has room again once a full queue is submitted.\<close>

lemma queue_sqe_ok:
  assumes "0 < sq_entries r"
  shows "\<exists>r'. queue_sqe r e = Inr r' \<and> sq_entries r' = sq_entries r \<and>
    submitted r' @ sq r' = submitted r @ sq r @ [e]"
  using assms by (cases "length (sq r) < sq_entries r") (simp_all add: queue_sqe_def io_uring_submit_def Let_def)

text \<open>One \<open>co_await conn->async_read()\<close>: a poll connection reads what there is, a ring connection queues a read.\<close>

lemma await_read_ring:
  assumes inv: "conn_inv c" and ring: "ring_ok c"
  shows "\<exists>d room r. get_buffer (read_buf c) = Inr (d, room) \<and> 0 < room \<and>
    await_read c = Some (Inr (True, c\<lparr>uring := r\<rparr>)) \<and> sq_entries r = sq_entries (uring c) \<and>
    submitted r @ sq r = submitted (uring c) @ sq (uring c) @ [SqeRead (sockfd (sock c)) d room (user_data EV_READ (this_ptr c))]"
proof -
  obtain d room where "get_buffer (read_buf c) = Inr (d, room)" "0 < room"
    using get_buffer_ok [OF conn_inv_facts(1) [OF inv]] by metis
  moreover obtain r where "queue_sqe (uring c) (SqeRead (sockfd (sock c)) d room (user_data EV_READ (this_ptr c))) = Inr r"
    "sq_entries r = sq_entries (uring c)"
    "submitted r @ sq r = submitted (uring c) @ sq (uring c) @ [SqeRead (sockfd (sock c)) d room (user_data EV_READ (this_ptr c))]"
    using queue_sqe_ok [of "uring c"] ring unfolding ring_ok_def by metis
  ultimately show ?thesis
    using conn_inv_facts(3) [OF inv] ring
    by (intro exI [of _ d] exI [of _ room] exI [of _ r]) (simp add: await_read_def async_read_def uring_async_read_def ring_ok_def Read_suspend_def conn_closed_def)
qed

lemma await_read_live:
  assumes inv: "conn_inv c"
    and sz: "length (ib_unread (read_buf c)) + length (rx_stream (rx (kern c))) < 2 ^ 64"
  shows "\<exists>bs ib es r. await_read c = Some (Inr (bs = [], c\<lparr>read_buf := ib,
       sock := (sock c)\<lparr>os := (kern c)\<lparr>rx := es\<rparr>\<rparr>, uring := r\<rparr>)) \<and>
    (kind c = PollConnection \<or> ring_ok (c\<lparr>sock := (sock c)\<lparr>os := (kern c)\<lparr>rx := es\<rparr>\<rparr>, uring := r\<rparr>)) \<and> ib_inv ib \<and> ib_unread ib = ib_unread (read_buf c) @ bs \<and>
    ib_fill ib = (ib_fill (read_buf c) + int (length bs)) mod kBlockSize \<and>
    rx_stream (rx (kern c)) = bs @ rx_stream es \<and> rx_live es \<and>
    in_limit ib = in_limit (read_buf c) \<and>
    (bs \<noteq> [] \<longrightarrow> rx_weight es < rx_weight (rx (kern c))) \<and> rx_pauses es \<le> rx_pauses (rx (kern c)) \<and>
    (bs = [] \<longrightarrow> es = [] \<or> rx_pauses es < rx_pauses (rx (kern c))) \<and>
    (\<exists>d room. get_buffer (read_buf c) = Inr (d, room) \<and> 0 < room \<and> bs = take (nat room) (rx_now (rx (kern c))) \<and>
       (kind c = UringConnection \<longrightarrow> submitted r @ sq r = submitted (uring c) @ sq (uring c) @
          [SqeRead (sockfd (sock c)) d room (user_data EV_READ (this_ptr c))]))"
proof (cases "ring_ok c")
  case True
  from await_read_ring [OF inv True] obtain d room r where
    r: "await_read c = Some (Inr (True, c\<lparr>uring := r\<rparr>))" "sq_entries r = sq_entries (uring c)"
      "get_buffer (read_buf c) = Inr (d, room)" "0 < room"
      "submitted r @ sq r = submitted (uring c) @ sq (uring c) @ [SqeRead (sockfd (sock c)) d room (user_data EV_READ (this_ptr c))]"
    by blast
  have rx: "rx (kern c) = []" using True by (simp add: ring_ok_def)
  then have "c\<lparr>read_buf := read_buf c, sock := (sock c)\<lparr>os := (kern c)\<lparr>rx := []\<rparr>\<rparr>, uring := r\<rparr> = c\<lparr>uring := r\<rparr>"
    by (cases c; cases "sock c"; cases "kern c") simp
  moreover have "ring_ok (c\<lparr>sock := (sock c)\<lparr>os := (kern c)\<lparr>rx := []\<rparr>\<rparr>, uring := r\<rparr>)"
    using True r(2) by (simp add: ring_ok_def)
  moreover note conn_inv_facts [OF inv]
  ultimately show ?thesis using r rx
    by (intro exI [of _ "[]"] exI [of _ "read_buf c"] exI [of _ r]) (simp add: ib_fill_def)
next
  case False
  with inv have poll: "kind c = PollConnection" by (simp add: conn_inv_def)
  have ib: "ib_inv (read_buf c)" and live: "rx_live (rx (os (sock c)))" and nc: "\<not> sock_closed (sock c)"
    using inv by (simp_all add: conn_inv_def conn_closed_def)
  from get_buffer_ok [OF ib] obtain p off room where gb: "get_buffer (read_buf c) = Inr ((p, off), room)"
    and room: "0 < room" by (metis prod.collapse)
  have le: "off + room \<le> kBlockSize"
    using gb by (auto simp: get_buffer_def res_bind_def split: sum.splits)
  have "off + int (length ([] :: byte list)) + room \<le> kBlockSize" "0 \<le> room"
    using le room by simp_all
  from read_loop_live [OF live poke_Nil [OF gb ib] this, of 0] obtain bs ib1 es where
    rl: "read_loop (read_buf c) (sock c) (p, off) room 0 = Inr (ib1, (sock c)\<lparr>os := (kern c)\<lparr>rx := es\<rparr>\<rparr>, int (length bs))"
    and pk: "poke (read_buf c) (p, off) bs = Inr ib1" and len: "int (length bs) \<le> room"
    and st: "rx_stream (rx (kern c)) = bs @ rx_stream es" "rx_live es"
    and w: "bs \<noteq> [] \<longrightarrow> rx_weight es < rx_weight (rx (kern c))" "rx_pauses es \<le> rx_pauses (rx (kern c))"
      "bs = [] \<longrightarrow> es = [] \<or> rx_pauses es < rx_pauses (rx (kern c))"
    and now: "bs = take (nat room) (rx_now (rx (kern c)))"
    using room by auto
  have "length (ib_unread (read_buf c)) + length bs < 2 ^ 64" using sz st(1) by simp
  from receive_ok [OF ib gb len this] obtain ib2 where
    ra: "recv_add ib1 (int (length bs)) = Inr ib2" "ib_inv ib2" "ib_unread ib2 = ib_unread (read_buf c) @ bs"
    "in_limit ib2 = in_limit (read_buf c)"
    "ib_fill ib2 = (ib_fill (read_buf c) + int (length bs)) mod kBlockSize"
    using pk by (metis Inr_inject)
  have "await_read c = Some (Inr (bs = [], c\<lparr>read_buf := ib2, sock := (sock c)\<lparr>os := (kern c)\<lparr>rx := es\<rparr>\<rparr>, uring := uring c\<rparr>))"
    using inv poll gb rl ra(1) nc
    by (simp add: await_read_def async_read_def poll_async_read_def conn_inv_def conn_closed_def
        Read_suspend_def Let_def)
  moreover have "kind c \<noteq> UringConnection" using poll by simp
  ultimately show ?thesis using poll ra st w gb room now by blast
qed

subsection \<open>Lemmas on writing\<close>

lemma to_int32_small:
  assumes "unat w < 2 ^ 31"
  shows "to_int32 w = int (unat w)"
proof -
  have u: "uint w < 2 ^ 31" using assms by (metis of_nat_less_iff of_nat_numeral of_nat_power uint_nat)
  then have "uint (ucast w :: 32 word) = uint w"
    by (simp add: uint_up_ucast unsigned_ucast_eq take_bit_int_eq_self)
  moreover have "sint (ucast w :: 32 word) = signed_take_bit 31 (uint (ucast w :: 32 word))"
    by (simp add: sint_uint)
  moreover have "- (2 ^ 31) \<le> uint w" by (rule order_trans [OF _ uint_ge_0]) simp
  ultimately show ?thesis
    using u signed_take_bit_int_eq_self [of 31 "uint w"] by (simp add: to_int32_def)
qed

text \<open>The bytes \<open>writev\<close> gets are those of the queue, while it is shorter than \<open>IOV_MAX\<close> blocks.\<close>

abbreviation small_queue :: "byte list \<Rightarrow> bool" where
  "small_queue q \<equiv> length q < 1023 * 8192"

lemma get_iovecs_all:
  assumes "ob_inv ob" and "small_queue (ob_pending ob)"
  shows "\<exists>iovs. get_iovecs ob = Inr iovs \<and> gather (out_heap ob) iovs = Inr (ob_pending ob)"
proof -
  from assms(1) obtain as where "ob_rep ob as" by (auto simp: ob_inv_def)
  note * = get_iovecs_ok [OF this]
  have "ob_pending ob = block_bytes (blocks (out_heap ob) (take IOV_MAX as))"
    using *(3) *(4) [OF assms(2)] by simp
  with * show ?thesis by auto
qed

text \<open>One turn of the loop.\<close>

lemma write_loop_turn:
  assumes "ob_inv ob" and "small_queue (ob_pending ob)" and "n < need"
  shows "write_loop ob k need n = (case os_writev k (ob_pending ob) of
       (Inr m, k') \<Rightarrow> write_loop ob k' need (n + int m)
     | (Inl e, k') \<Rightarrow> (if e = EINTR then write_loop ob k' need n else Inr (n, k')))"
  using get_iovecs_all [OF assms(1,2)] assms(3) by (auto simp: write_loop.simps [of ob k])

lemma write_loop_done: "need \<le> n \<Longrightarrow> write_loop ob k need n = Inr (n, k)"
  by (simp add: write_loop.simps)

lemma write_loop_steady:
  assumes ob: "ob_inv ob" "small_queue (ob_pending ob)" and "tx_steady (tx k)" and "\<not> shut_wr k"
    and need: "need = int (length (ob_pending ob))"
  shows "\<exists>m ts. m = min (tx_room (tx k)) (length (ob_pending ob)) \<and> tx_steady ts \<and>
    ts = (if ob_pending ob = [] then tx k else tx_rest (length (ob_pending ob)) (tx k)) \<and>
    write_loop ob k need 0 = Inr (int m, k\<lparr>tx := ts, wire := wire k @ take m (ob_pending ob)\<rparr>)"
  using assms(3,4)
proof (induction "length (tx k)" arbitrary: k rule: less_induct)
  case less
  note turn = write_loop_turn [OF ob, of _ need, unfolded need]
  show ?case
  proof (cases "ob_pending ob = []")
    case True
    with less.prems show ?thesis
      by (intro exI [of _ 0] exI [of _ "tx k"]) (simp add: need write_loop_done)
  next
    case False
    then have pos: "0 < int (length (ob_pending ob))" by simp
    show ?thesis
    proof (cases "tx k")
      case Nil
      with less.prems show ?thesis
        by (intro exI [of _ 0] exI [of _ "[]"]) (simp add: need turn [OF pos] os_writev_def)
    next
      case (Cons ev ts)
      note tx = Cons
      show ?thesis
      proof (cases ev)
        case (TxErrno e)
        let ?k = "k\<lparr>tx := ts\<rparr>"
        have w: "os_writev k (ob_pending ob) = (Inl e, ?k)"
          using tx TxErrno less.prems by (simp add: os_writev_def)
        show ?thesis
        proof (cases "e = EINTR")
          case True
          then have "write_loop ob k need 0 = write_loop ob ?k need 0"
            using turn [OF pos] w by (simp add: need)
          moreover have "\<exists>m ts'. m = min (tx_room (tx ?k)) (length (ob_pending ob)) \<and> tx_steady ts' \<and>
              ts' = (if ob_pending ob = [] then tx ?k else tx_rest (length (ob_pending ob)) (tx ?k)) \<and>
              write_loop ob ?k need 0 = Inr (int m, ?k\<lparr>tx := ts', wire := wire ?k @ take m (ob_pending ob)\<rparr>)"
            using less.hyps [of ?k] less.prems tx TxErrno by simp
          ultimately show ?thesis using tx TxErrno True \<open>ob_pending ob \<noteq> []\<close> by simp
        next
          case no_int: False
          then show ?thesis
            using turn [OF pos] w less.prems tx TxErrno False
            by (intro exI [of _ 0] exI [of _ ts]) (simp add: need)
        qed
      next
        case (TxTake j)
        define m where "m = min j (length (ob_pending ob))"
        let ?k = "k\<lparr>tx := ts, wire := wire k @ take m (ob_pending ob)\<rparr>"
        have w: "os_writev k (ob_pending ob) = (Inr m, ?k)"
          using tx TxTake less.prems by (simp add: os_writev_def m_def Let_def)
        then have eq: "write_loop ob k need 0 = write_loop ob ?k need (int m)"
          using turn [OF pos] by (simp add: need)
        show ?thesis
        proof (cases "m = length (ob_pending ob)")
          case True
          then show ?thesis
            using eq less.prems tx TxTake \<open>ob_pending ob \<noteq> []\<close>
            by (intro exI [of _ m] exI [of _ ts]) (auto simp: need write_loop_done m_def min_def split: if_splits)
        next
          case False
          then have lt: "int m < int (length (ob_pending ob))" and "j < 2 ^ 31"
            using ob(2) by (auto simp: m_def)
          then have "ts = [] \<or> (\<exists>e ts'. ts = TxErrno e # ts' \<and> e \<noteq> EINTR \<and> tx_steady ts')"
            using less.prems tx TxTake by (cases ts) auto
          then obtain ts' where ts: "ts = [] \<and> ts' = [] \<or> (\<exists>e. ts = TxErrno e # ts' \<and> e \<noteq> EINTR)"
            "tx_steady ts'" by auto
          then have "write_loop ob ?k need (int m)
              = Inr (int m, k\<lparr>tx := ts', wire := wire k @ take m (ob_pending ob)\<rparr>)"
            using turn [OF lt, of ?k] less.prems by (auto simp: need os_writev_def)
          then show ?thesis
            using eq ts lt tx TxTake \<open>ob_pending ob \<noteq> []\<close> by (intro exI [of _ m] exI [of _ ts']) (auto simp: m_def)
        qed
      qed
    qed
  qed
qed

lemma poll_async_write_steady:
  assumes inv: "conn_inv c" and st: "tx_steady (tx (kern c))" and q: "small_queue (ob_pending (write_buf c))"
  shows "\<exists>m ob ts. poll_async_write c = Some (Inr (m < length (ob_pending (write_buf c)),
       c\<lparr>write_buf := ob, sock := (sock c)\<lparr>os := (kern c)\<lparr>tx := ts,
         wire := wire (kern c) @ take m (ob_pending (write_buf c))\<rparr>\<rparr>\<rparr>)) \<and>
    m = min (tx_room (tx (kern c))) (length (ob_pending (write_buf c))) \<and> tx_steady ts \<and> ob_inv ob \<and>
    ts = (if ob_pending (write_buf c) = [] then tx (kern c) else tx_rest (length (ob_pending (write_buf c))) (tx (kern c))) \<and>
    ob_pending ob = drop m (ob_pending (write_buf c))"
proof -
  have ob: "ob_inv (write_buf c)" and "\<not> shut_wr (kern c)" and nc: "\<not> conn_closed c"
    using inv by (simp_all add: conn_inv_def)
  have need: "to_int32 (ob_bytes (write_buf c)) = int (length (ob_pending (write_buf c)))"
    using ob q by (simp add: ob_bytes_def ob_inv_def to_int32_small)
  from write_loop_steady [OF ob q st \<open>\<not> shut_wr (kern c)\<close> need] obtain m ts where
    m: "m = min (tx_room (tx (kern c))) (length (ob_pending (write_buf c)))" "tx_steady ts"
      "ts = (if ob_pending (write_buf c) = [] then tx (kern c) else tx_rest (length (ob_pending (write_buf c))) (tx (kern c)))"
    and wl: "write_loop (write_buf c) (kern c) (to_int32 (ob_bytes (write_buf c))) 0
      = Inr (int m, (kern c)\<lparr>tx := ts, wire := wire (kern c) @ take m (ob_pending (write_buf c))\<rparr>)"
    by blast
  have "m \<le> length (ob_pending (write_buf c))" using m(1) by simp
  with send_add_ok [OF ob, of "int m"] obtain ob' where
    "send_add (write_buf c) (int m) = Some (Inr ob')" "ob_inv ob'"
    "ob_pending ob' = drop m (ob_pending (write_buf c))" by auto
  then show ?thesis
    using m(2) wl nc need unfolding m(1,3) [symmetric]
    by (auto simp: poll_async_write_def Let_def intro!: exI [of _ m] exI [of _ ob'] exI [of _ ts])
qed

text \<open>
  Resuming the writer of a live connection: it returns, suspended again, has moved bytes
  from the queue to the wire without losing, repeating or reordering any, and asks for a write
  event exactly if some are left: then it waits for that event (\<open>S_loop\<close>), otherwise for data
  (\<open>S_write\<close>). The writer of a poll connection moves as much as the kernel takes.
\<close>

definition writer_effect :: "connection \<Rightarrow> connection \<Rightarrow> bool" where
  "writer_effect c c' \<longleftrightarrow> conn_inv c' \<and> tx_steady (tx (kern c')) \<and>
     wire (kern c') @ ob_pending (write_buf c') = wire (kern c) @ ob_pending (write_buf c) \<and>
     length (ob_pending (write_buf c')) \<le> length (ob_pending (write_buf c)) \<and>
     read_buf c' = read_buf c \<and> rx (kern c') = rx (kern c) \<and>
     events c' = events c @ (if ob_pending (write_buf c') = [] then [] else [EV_WRITE]) \<and>
     send_frame c' = (if ob_pending (write_buf c') = [] then S_write else S_loop) \<and> kind c' = kind c \<and>
     (kind c = PollConnection \<longrightarrow> ob_pending (write_buf c') = drop (tx_room (tx (kern c))) (ob_pending (write_buf c)) \<and>
        tx (kern c') = (if ob_pending (write_buf c) = [] then tx (kern c)
          else tx_rest (length (ob_pending (write_buf c))) (tx (kern c))))"

text \<open>What the writer of a poll connection moves to the wire: the first bytes of the queue, as many as the kernel takes.\<close>

definition writes_out :: "connection \<Rightarrow> connection \<Rightarrow> bool" where
  "writes_out c c' \<longleftrightarrow> (let n = tx_room (tx (kern c)); q = ob_pending (write_buf c) in
     wire (kern c') = wire (kern c) @ take n q \<and> ob_pending (write_buf c') = drop n q)"

lemma writer_effect_writes_out:
  assumes "writer_effect c c'" and "kind c = PollConnection"
  shows "writes_out c c'"
proof -
  let ?n = "tx_room (tx (kern c))" and ?q = "ob_pending (write_buf c)"
  have d: "ob_pending (write_buf c') = drop ?n ?q" using assms by (simp add: writer_effect_def)
  have "wire (kern c') @ ob_pending (write_buf c') = (wire (kern c) @ take ?n ?q) @ drop ?n ?q"
    using assms(1) by (simp add: writer_effect_def)
  then have "wire (kern c') = wire (kern c) @ take ?n ?q" unfolding d by blast
  with d show ?thesis by (simp add: writes_out_def Let_def)
qed

lemma send_fn_idle:
  assumes inv: "conn_inv c" and "tx_steady (tx (kern c))" and e: "ob_pending (write_buf c) = []"
  shows "\<exists>c'. send_fn S_loop c = Some (Inr c') \<and> writer_effect c c' \<and> send_frame c' = S_write"
proof -
  have "ob_bytes (write_buf c) = 0"
    using inv e by (simp add: conn_inv_def ob_inv_def ob_bytes_def word_unat_eq_iff)
  then have "send_fn S_loop c = Some (Inr (c\<lparr>write_handle := True, send_frame := S_write\<rparr>))"
    using inv by (simp add: send_fn.simps conn_inv_def WaitWrite_ready_def conn_write_bytes_def WaitWrite_suspend_def)
  moreover have "ring_ok c \<Longrightarrow> back_left c = 0" using e by (simp add: ring_ok_def word_unat_eq_iff)
  then have "writer_effect c (c\<lparr>write_handle := True, send_frame := S_write\<rparr>)"
    using assms by (auto simp: writer_effect_def conn_inv_def ring_ok_def conn_closed_def)
  ultimately show ?thesis by simp
qed

lemma send_fn_write_poll:
  assumes inv: "conn_inv c" and st: "tx_steady (tx (kern c))" and q: "small_queue (ob_pending (write_buf c))"
    and poll: "kind c = PollConnection"
  shows "\<exists>c'. send_fn S_write c = Some (Inr c') \<and> writer_effect c c'"
proof -
  let ?p = "ob_pending (write_buf c)"
  from poll_async_write_steady [OF inv st q] obtain m ob ts where
    aw: "poll_async_write c = Some (Inr (m < length ?p,
       c\<lparr>write_buf := ob, sock := (sock c)\<lparr>os := (kern c)\<lparr>tx := ts, wire := wire (kern c) @ take m ?p\<rparr>\<rparr>\<rparr>))"
    and m: "m = min (tx_room (tx (kern c))) (length ?p)" "tx_steady ts" "ob_inv ob" "ob_pending ob = drop m ?p"
      "ts = (if ?p = [] then tx (kern c) else tx_rest (length ?p) (tx (kern c)))" by blast
  have le: "m \<le> length ?p" and d: "drop m ?p = drop (tx_room (tx (kern c))) ?p" using m(1) by (auto simp: min_def)
  have split: "take m ?p @ drop (tx_room (tx (kern c))) ?p = ?p" unfolding d [symmetric] by simp
  let ?c = "c\<lparr>write_buf := ob, sock := (sock c)\<lparr>os := (kern c)\<lparr>tx := ts, wire := wire (kern c) @ take m ?p\<rparr>\<rparr>\<rparr>"
  have aw': "async_write c = Some (Inr (m < length ?p, ?c))"
    using poll aw by (simp add: async_write_def)
  have ci: "conn_inv ?c" using inv poll m by (simp add: conn_inv_def conn_closed_def)
  show ?thesis
  proof (cases "m < length ?p")
    case True
    let ?c' = "(Write_suspend ?c)\<lparr>send_frame := S_loop\<rparr>"
    have "send_fn S_write c = Some (Inr ?c')"
      using aw' True by (simp add: send_fn.simps [of S_write])
    moreover have "writer_effect c ?c'"
      using inv poll m(2-5) True le d split by (auto simp: writer_effect_def conn_inv_def conn_closed_def Write_suspend_def add_event_def)
    ultimately show ?thesis by blast
  next
    case False
    then have "ob_pending (write_buf ?c) = []" using m(4) by simp
    from send_fn_idle [OF ci _ this] m(2) obtain c' where
      "send_fn S_loop ?c = Some (Inr c')" "writer_effect ?c c'" by auto
    then show ?thesis
      using aw' False le m(4,5) d split poll by (auto simp: send_fn.simps [of S_write] writer_effect_def)
  qed
qed

text \<open>The writer of a ring connection: while a write is in flight it waits, otherwise it queues one for the whole queue.\<close>

lemma send_fn_write_ring:
  assumes inv: "conn_inv c" and st: "tx_steady (tx (kern c))" and q: "small_queue (ob_pending (write_buf c))"
    and ring: "ring_ok c"
  shows "\<exists>c'. send_fn S_write c = Some (Inr c') \<and> writer_effect c c'"
proof -
  note f = conn_inv_facts [OF inv]
  have k: "kind c = UringConnection" "0 < sq_entries (uring c)" using ring by (simp_all add: ring_ok_def)
  have n: "unat (ob_bytes (write_buf c)) = length (ob_pending (write_buf c))" using f(2) by (simp add: ob_inv_def ob_bytes_def)
  consider (wait) "back_left c \<noteq> 0" | (idle) "back_left c = 0" "ob_pending (write_buf c) = []"
    | (queue) "back_left c = 0" "ob_pending (write_buf c) \<noteq> []" by blast
  then show ?thesis
  proof cases
    case wait
    let ?c' = "(Write_suspend c)\<lparr>send_frame := S_loop\<rparr>"
    have "send_fn S_write c = Some (Inr ?c')"
      using wait k by (simp add: send_fn.simps [of S_write] async_write_def uring_async_write_def word_gt_0)
    moreover have "0 < unat (back_left c)" using wait by (simp add: unat_gt_0)
    then have "ob_pending (write_buf c) \<noteq> []" using ring by (auto simp: ring_ok_def)
    then have "writer_effect c ?c'"
      using inv ring st wait by (simp add: writer_effect_def conn_inv_def ring_ok_def conn_closed_def Write_suspend_def add_event_def)
    ultimately show ?thesis by blast
  next
    case idle
    then have "ob_bytes (write_buf c) = 0" and same: "c\<lparr>back_left := 0\<rparr> = c" using n by (simp_all add: word_unat_eq_iff)
    then have "send_fn S_write c = send_fn S_loop (c\<lparr>back_left := 0\<rparr>)"
      using idle k by (simp add: send_fn.simps [of S_write] async_write_def uring_async_write_def Let_def)
    with same send_fn_idle [OF inv st idle(2)] show ?thesis by auto
  next
    case queue
    then have nz: "ob_bytes (write_buf c) \<noteq> 0" using n by auto
    from get_iovecs_all [OF f(2) q] obtain iovs where iovs: "get_iovecs (write_buf c) = Inr iovs"
      "gather (out_heap (write_buf c)) iovs = Inr (ob_pending (write_buf c))" by blast
    from queue_sqe_ok [OF k(2)] obtain r where
      r: "queue_sqe (uring c) (SqeWritev (sockfd (sock c)) iovs (user_data EV_WRITE (this_ptr c))) = Inr r"
        "sq_entries r = sq_entries (uring c)" by blast
    let ?c' = "(Write_suspend (c\<lparr>back_left := ob_bytes (write_buf c), ioves := iovs, uring := r\<rparr>))\<lparr>send_frame := S_loop\<rparr>"
    have "send_fn S_write c = Some (Inr ?c')"
      using queue nz k iovs(1) r(1) f(3)
      by (simp add: send_fn.simps [of S_write] async_write_def uring_async_write_def Let_def conn_closed_def)
    moreover have "writer_effect c ?c'"
      using inv ring st queue(2) n r(2) k iovs get_iovecs_within [OF f(2) iovs(1)]
      by (simp add: writer_effect_def conn_inv_def ring_ok_def conn_closed_def Write_suspend_def add_event_def)
    ultimately show ?thesis by blast
  qed
qed

lemma send_fn_write:
  assumes "conn_inv c" and "tx_steady (tx (kern c))" and "small_queue (ob_pending (write_buf c))"
  shows "\<exists>c'. send_fn S_write c = Some (Inr c') \<and> writer_effect c c'"
  using send_fn_write_poll [OF assms] send_fn_write_ring [OF assms] assms(1) by (auto simp: conn_inv_def)

lemma resume_write_live:
  assumes inv: "conn_inv c" and st: "tx_steady (tx (kern c))" and q: "small_queue (ob_pending (write_buf c))"
  shows "\<exists>c'. resume_write c = Some (Inr c') \<and> writer_effect c c'"
proof (cases "send_frame c")
  case S_loop
  have "send_fn S_loop c = send_fn S_write c" if "ob_pending (write_buf c) \<noteq> []"
  proof -
    from inv that have "WaitWrite_ready c"
      by (simp add: WaitWrite_ready_def conn_write_bytes_def ob_bytes_def conn_inv_def ob_inv_def
          word_less_nat_alt)
    with inv show ?thesis by (simp add: send_fn.simps [of S_loop] conn_inv_def)
  qed
  with S_loop inv send_fn_write [OF assms] send_fn_idle [OF inv st] show ?thesis
    by (cases "ob_pending (write_buf c) = []") (auto simp: resume_write_def conn_inv_def)
next
  case S_write
  with inv send_fn_write [OF assms] show ?thesis by (auto simp: resume_write_def conn_inv_def)
next
  case S_done
  with inv show ?thesis by (simp add: conn_inv_def)
qed

text \<open>Two writes inside one \<open>async_write\<close>: the second starts at the head of the queue again.\<close>

lemma write_loop_twice:
  assumes ob: "ob_inv ob" "small_queue (ob_pending ob)" and "\<not> shut_wr k"
    and tx: "tx k = TxTake a # TxTake b # ts" and a: "a < length (ob_pending ob)"
    and need: "need = int (length (ob_pending ob))"
    and ab: "length (ob_pending ob) \<le> a + min b (length (ob_pending ob))"
  shows "write_loop ob k need 0 = Inr (int a + int (min b (length (ob_pending ob))),
    k\<lparr>tx := ts, wire := wire k @ take a (ob_pending ob) @ take b (ob_pending ob)\<rparr>)"
proof -
  have "write_loop ob k need 0 = write_loop ob (k\<lparr>tx := TxTake b # ts, wire := wire k @ take a (ob_pending ob)\<rparr>)
      need (int a)"
    using a assms(3) by (subst write_loop_turn [OF ob]) (auto simp: need os_writev_def tx)
  also have "\<dots> = write_loop ob (k\<lparr>tx := ts, wire := wire k @ take a (ob_pending ob) @ take b (ob_pending ob)\<rparr>)
      need (int a + int (min b (length (ob_pending ob))))"
    using a assms(3) by (subst write_loop_turn [OF ob]) (simp_all add: need os_writev_def Let_def min_def)
  also have "\<dots> = Inr (int a + int (min b (length (ob_pending ob))),
      k\<lparr>tx := ts, wire := wire k @ take a (ob_pending ob) @ take b (ob_pending ob)\<rparr>)"
    using ab by (intro write_loop_done) (simp add: need flip: of_nat_add)
  finally show ?thesis .
qed

text \<open>The two parts of the tag of a ring entry.\<close>

lemma user_data_parts:
  assumes "p < 2 ^ 56"
  shows "drop_bit 56 (user_data t p) = event_code t \<and> user_data t p AND (push_bit 56 1 - 1) = p"
proof -
  have "uint p < 2 ^ 56" using assms by (simp add: word_less_def)
  then have p: "take_bit 56 p = p"
    by (simp add: word_uint_eq_iff unsigned_take_bit_eq take_bit_int_eq_self)
  have e: "take_bit 8 (event_code t) = event_code t"
    by (cases t) (simp_all add: word_uint_eq_iff unsigned_take_bit_eq take_bit_int_eq_self)
  have "drop_bit 56 (user_data t p) = event_code t"
  proof (rule bit_word_eqI)
    fix n assume "n < LENGTH(64)"
    have "bit p (56 + n) = False" using bit_take_bit_iff [of 56 p "56 + n"] by (simp add: p)
    moreover have "bit (event_code t) n \<longrightarrow> n < 8" using bit_take_bit_iff [of 8 "event_code t" n] unfolding e by blast
    ultimately show "bit (drop_bit 56 (user_data t p)) n = bit (event_code t) n"
      by (auto simp: user_data_def bit_simps)
  qed
  moreover have "push_bit 56 1 - 1 = (mask 56 :: 64 word)"
    by (simp add: mask_eq_exp_minus_1)
  then have "user_data t p AND (push_bit 56 1 - 1) = take_bit 56 (user_data t p)"
    by (simp only: take_bit_eq_mask)
  moreover have "take_bit 56 (user_data t p) = p"
    using p by (simp add: user_data_def take_bit_or take_bit_push_bit)
  ultimately show ?thesis by (simp only: simp_thms)
qed

subsection \<open>Properties\<close>

text \<open>A live poll connection for the witnesses, with given scripts and queued bytes.\<close>

definition live_conn :: "rx_event list \<Rightarrow> tx_event list \<Rightarrow> byte list \<Rightarrow> connection" where
  "live_conn es ts bs =
     (Connection PollConnection (Socket (\<lambda>_. (0, 0)) (\<lambda>_. (0, 0)) (\<lambda>_. []) \<lparr>rx = es, tx = ts, wire = [], shut_wr = False\<rparr> 5)
        False 0 \<lparr>sq_entries = 16384, sq = [], submitted = []\<rparr> (\<lambda>_ _. 0))
      \<lparr>write_buf := output_with bs, read_handle := True, write_handle := True, send_frame := S_write\<rparr>"

lemma live_conn_simps:
  "kern (live_conn es ts bs) = \<lparr>rx = es, tx = ts, wire = [], shut_wr = False\<rparr>"
  "write_buf (live_conn es ts bs) = output_with bs"
  "read_buf (live_conn es ts bs) = InputBuffer (\<lambda>_ _. 0)"
  "send_frame (live_conn es ts bs) = S_write"
  "back_left (live_conn es ts bs) = 0"
  "kind (live_conn es ts bs) = PollConnection"
  by (simp_all add: live_conn_def Connection_def Socket_def Let_def)

lemma live_conn_inv: "rx_live es \<Longrightarrow> length bs < 8192 \<Longrightarrow> conn_inv (live_conn es ts bs)"
  unfolding conn_inv_def live_conn_simps
  by (simp add: InputBuffer_inv output_with_facts)
    (simp add: live_conn_def Connection_def Socket_def Let_def conn_closed_def)

text \<open>
  C18. Reading from a live connection, however the data arrives (in any pieces, with
  interrupted calls and pauses): \<open>co_await conn->async_read()\<close> returns, is free of memory
  errors and appends to the input buffer exactly the bytes that can be read now, as many as
  there is room for in the last block (there always is some); no byte is lost, repeated or
  reordered, and nothing is written. The coroutine suspends exactly if there is nothing to
  read now. A ring connection, whose socket the coroutine never reads itself, suspends with one
  read of that room queued.
\<close>

theorem async_read_lossless:
  assumes "conn_inv c" and "length (ib_unread (read_buf c)) + length (rx_stream (rx (kern c))) < 2 ^ 64"
  shows "\<exists>d room c'. get_buffer (read_buf c) = Inr (d, room) \<and> 0 < room \<and>
    await_read c = Some (Inr (rx_now (rx (kern c)) = [], c')) \<and> conn_inv c' \<and>
    ib_unread (read_buf c') = ib_unread (read_buf c) @ take (nat room) (rx_now (rx (kern c))) \<and>
    ib_unread (read_buf c') @ rx_stream (rx (kern c')) = ib_unread (read_buf c) @ rx_stream (rx (kern c)) \<and>
    (kind c = UringConnection \<longrightarrow> submitted (uring c') @ sq (uring c') = submitted (uring c) @ sq (uring c) @
       [SqeRead (sockfd (sock c)) d room (user_data EV_READ (this_ptr c))]) \<and>
    write_buf c' = write_buf c \<and> wire (kern c') = wire (kern c)"
proof -
  from await_read_live [OF assms] obtain bs ib es r d room where
    r: "await_read c = Some (Inr (bs = [], c\<lparr>read_buf := ib, sock := (sock c)\<lparr>os := (kern c)\<lparr>rx := es\<rparr>\<rparr>, uring := r\<rparr>))"
    and k: "kind c = PollConnection \<or> ring_ok (c\<lparr>sock := (sock c)\<lparr>os := (kern c)\<lparr>rx := es\<rparr>\<rparr>, uring := r\<rparr>)"
    and p: "ib_inv ib" "ib_unread ib = ib_unread (read_buf c) @ bs" "rx_stream (rx (kern c)) = bs @ rx_stream es"
      "rx_live es"
    and now: "get_buffer (read_buf c) = Inr (d, room)" "0 < room" "bs = take (nat room) (rx_now (rx (kern c)))"
    and sq: "kind c = UringConnection \<longrightarrow> submitted r @ sq r = submitted (uring c) @ sq (uring c) @
       [SqeRead (sockfd (sock c)) d room (user_data EV_READ (this_ptr c))]"
    by blast
  let ?c' = "c\<lparr>read_buf := ib, sock := (sock c)\<lparr>os := (kern c)\<lparr>rx := es\<rparr>\<rparr>, uring := r\<rparr>"
  have "conn_inv ?c'" using assms(1) k p by (auto simp: conn_inv_def conn_closed_def ring_ok_def)
  moreover have "bs = [] \<longleftrightarrow> rx_now (rx (kern c)) = []" using now(2,3) by simp
  ultimately show ?thesis using r p now sq
    by (intro exI [of _ d] exI [of _ room] exI [of _ ?c']) simp
qed

theorem async_read_lossless_witness:
  "\<exists>c'. await_read (live_conn [RxErrno EINTR, RxData [1, 2], RxData [3], RxErrno EAGAIN, RxData [4]] [] []) = Some (Inr (False, c')) \<and>
     ib_unread (read_buf c') = [1, 2, 3] \<and> rx_stream (rx (kern c')) = [4]"
proof -
  let ?c = "live_conn [RxErrno EINTR, RxData [1, 2], RxData [3], RxErrno EAGAIN, RxData [4]] [] []"
  have "\<exists>a. get_buffer (read_buf ?c) = Inr ((Some a, 0), 8192)"
    by (simp add: live_conn_simps get_buffer_def InputBuffer_def new_block_def load_def upd_def kBlockSize_def)
  then show ?thesis
    using async_read_lossless [of ?c] by (auto simp: live_conn_inv live_conn_simps InputBuffer_unread)
qed

text \<open>
  C19. Resuming the writing coroutine of a live poll connection, over a kernel that makes a
  short write only when its buffer is full: it returns, suspended again, and has moved to the
  wire exactly the first bytes of the queue, as many as the kernel takes now; no byte is lost,
  repeated or reordered, and if the kernel takes everything, the queue is empty. If bytes are
  left the coroutine has asked for a write event and continues there when it comes, and
  otherwise it has asked for nothing and waits for data. The input is untouched.
\<close>

theorem resume_write_lossless:
  assumes "conn_inv c" and "kind c = PollConnection" and "tx_steady (tx (kern c))"
    and "q = ob_pending (write_buf c)" and "length q < 1023 * 8192" and "n = tx_room (tx (kern c))"
  shows "\<exists>c'. resume_write c = Some (Inr c') \<and> conn_inv c' \<and> tx_steady (tx (kern c')) \<and>
    wire (kern c') = wire (kern c) @ take n q \<and> ob_pending (write_buf c') = drop n q \<and>
    (if length q \<le> n then events c' = events c \<and> send_frame c' = S_write
     else events c' = events c @ [EV_WRITE] \<and> send_frame c' = S_loop) \<and>
    read_buf c' = read_buf c \<and> rx (kern c') = rx (kern c)"
proof -
  from resume_write_live [OF assms(1,3)] assms(4,5) obtain c' where c': "resume_write c = Some (Inr c')" "writer_effect c c'"
    by auto
  from writer_effect_writes_out [OF c'(2) assms(2)] have "wire (kern c') = wire (kern c) @ take n q" "ob_pending (write_buf c') = drop n q"
    using assms(4,6) by (simp_all add: writes_out_def Let_def)
  with c' show ?thesis by (intro exI [of _ c']) (auto simp: writer_effect_def)
qed

theorem resume_write_lossless_witness:
  "\<exists>c'. resume_write (live_conn [] [TxTake 2, TxErrno EAGAIN] [7, 8, 9]) = Some (Inr c') \<and>
     wire (kern c') = [7, 8] \<and> ob_pending (write_buf c') = [9] \<and> EV_WRITE \<in> set (events c') \<and> send_frame c' = S_loop"
  using resume_write_lossless [of "live_conn [] [TxTake 2, TxErrno EAGAIN] [7, 8, 9]" _ 2]
  by (auto simp: live_conn_inv live_conn_simps output_with_facts)

text \<open>
  C32. If the kernel makes a short write and then accepts more within the same call of
  \<open>async_write\<close>, the second write starts at the head of the queue again: the peer receives the
  first bytes twice, and when the two writes add up to more than the queue holds,
  \<open>async_write\<close> never returns.
\<close>

theorem async_write_resends_after_short_write:
  assumes "conn_inv c" and "q = ob_pending (write_buf c)" and "length q < 1023 * 8192"
    and "tx (kern c) = TxTake a # TxTake b # ts" and "a < length q" and "b \<le> length q"
  shows "(a + b = length q \<longrightarrow> (\<exists>c'. poll_async_write c = Some (Inr (False, c')) \<and>
       ob_pending (write_buf c') = [] \<and> wire (kern c') = wire (kern c) @ take a q @ take b q)) \<and>
    (a + b > length q \<longrightarrow> poll_async_write c = None)"
proof -
  have ob: "ob_inv (write_buf c)" and ns: "\<not> shut_wr (kern c)"
    using assms(1) by (simp_all add: conn_inv_def)
  have need: "to_int32 (ob_bytes (write_buf c)) = int (length (ob_pending (write_buf c)))"
    using ob assms(2,3) by (simp add: ob_bytes_def ob_inv_def to_int32_small)
  note wl = write_loop_twice [OF ob assms(3) [unfolded assms(2)] ns assms(4) _ need, folded assms(2)]
  have eq: "poll_async_write c = ro_bind (send_add (write_buf c) (int a + int b)) (\<lambda>ob.
      Some (Inr (\<not> conn_closed c \<and> int a + int b < int (length q),
        c\<lparr>write_buf := ob, sock := (sock c)\<lparr>os := (kern c)\<lparr>tx := ts, wire := wire (kern c) @ take a q @ take b q\<rparr>\<rparr>\<rparr>)))"
    if "length q \<le> a + b"
    using wl that assms(5,6) need assms(2) by (simp add: poll_async_write_def Let_def min_def)
  show ?thesis
    using eq send_add_ok [OF ob, of "int a + int b"] send_add_hangs [OF ob, of "int a + int b"] assms(2)
    by (auto simp flip: of_nat_add)
qed

theorem async_write_resends_after_short_write_witness:
  "(\<exists>c'. poll_async_write (live_conn [] [TxTake 1, TxTake 2] [7, 8, 9]) = Some (Inr (False, c')) \<and>
      wire (kern c') = [7, 7, 8]) \<and>
   poll_async_write (live_conn [] [TxTake 1, TxTake 3] [7, 8, 9]) = None"
  using async_write_resends_after_short_write [of "live_conn [] [TxTake 1, TxTake 2] [7, 8, 9]" _ 1 2 "[]"]
    async_write_resends_after_short_write [of "live_conn [] [TxTake 1, TxTake 3] [7, 8, 9]" _ 1 3 "[]"]
  by (auto simp: live_conn_inv live_conn_simps output_with_facts)

text \<open>
  The tag of a ring entry: the event type and the address of the connection can be read
  back from \<open>user_data\<close> the way the executor does it, for every address below \<open>2 ^ 56\<close>.
\<close>

theorem user_data_roundtrip:
  assumes "p < 2 ^ 56"
  shows "drop_bit 56 (user_data t p) = event_code t \<and> user_data t p AND (push_bit 56 1 - 1) = p"
  using assms by (rule user_data_parts)

theorem user_data_roundtrip_witness:
  "drop_bit 56 (user_data EV_WRITE 4660) = event_code EV_WRITE \<and>
   user_data EV_WRITE 4660 AND (push_bit 56 1 - 1) = 4660"
  using user_data_roundtrip [of 4660 EV_WRITE] by simp

text \<open>
  One write of a ring connection: with nothing in flight and a queue that is not empty,
  \<open>async_write\<close> queues one ring entry that describes the queue (all of it below 1023
  blocks) and suspends an open connection; when the kernel later reports that it took all of
  it, nothing is in flight any more and the bytes are gone from the queue.
\<close>

theorem uring_write_cycle:
  assumes "ob_inv (write_buf c)" and "back_left c = 0" and "ob_pending (write_buf c) \<noteq> []"
    and "length (sq (uring c)) < sq_entries (uring c)" and "length (ob_pending (write_buf c)) < 1023 * 8192"
  shows "\<exists>iovs c1 c2. uring_async_write c = Inr (\<not> conn_closed c, c1) \<and>
    sq (uring c1) = sq (uring c) @ [SqeWritev (sockfd (sock c)) iovs (user_data EV_WRITE (this_ptr c))] \<and>
    gather (out_heap (write_buf c1)) iovs = Inr (ob_pending (write_buf c)) \<and>
    uring_send_add c1 (int (length (ob_pending (write_buf c)))) = Some (Inr c2) \<and>
    back_left c2 = 0 \<and> ob_inv (write_buf c2) \<and> ob_pending (write_buf c2) = []"
proof -
  let ?n = "length (ob_pending (write_buf c))"
  have n: "unat (ob_bytes (write_buf c)) = ?n" using assms(1) by (simp add: ob_inv_def ob_bytes_def)
  then have w: "ob_bytes (write_buf c) = of_nat ?n" by (metis of_nat_unat ucast_id)
  have nz: "ob_bytes (write_buf c) \<noteq> 0" using n assms(3) by auto
  from get_iovecs_all [OF assms(1,5)] obtain iovs where iovs: "get_iovecs (write_buf c) = Inr iovs"
    "gather (out_heap (write_buf c)) iovs = Inr (ob_pending (write_buf c))" by blast
  let ?e = "SqeWritev (sockfd (sock c)) iovs (user_data EV_WRITE (this_ptr c))"
  let ?c1 = "c\<lparr>back_left := ob_bytes (write_buf c), ioves := iovs, uring := (uring c)\<lparr>sq := sq (uring c) @ [?e]\<rparr>\<rparr>"
  have "uring_async_write c = Inr (\<not> conn_closed c, ?c1)"
    using assms(2,4) nz iovs by (simp add: uring_async_write_def queue_sqe_def Let_def conn_closed_def)
  moreover from send_add_ok [OF assms(1), of "int ?n"] obtain ob where
    "send_add (write_buf c) (int ?n) = Some (Inr ob)" "ob_inv ob" "ob_pending ob = []" by auto
  ultimately show ?thesis
    using iovs w by (intro exI [of _ iovs] exI [of _ ?c1] exI [of _ "?c1\<lparr>back_left := 0, write_buf := ob\<rparr>"])
      (simp add: uring_send_add_def)
qed

theorem uring_write_cycle_witness:
  "\<exists>iovs c1 c2. uring_async_write (live_conn [] [] [1, 2]) = Inr (True, c1) \<and>
     length (sq (uring c1)) = 1 \<and> gather (out_heap (write_buf c1)) iovs = Inr [1, 2] \<and>
     uring_send_add c1 2 = Some (Inr c2) \<and> back_left c2 = 0 \<and> ob_pending (write_buf c2) = []"
proof -
  have sq: "sq (uring (live_conn [] [] [1, 2])) = []" "sq_entries (uring (live_conn [] [] [1, 2])) = 16384"
    "\<not> conn_closed (live_conn [] [] [1, 2])"
    by (simp_all add: live_conn_def Connection_def conn_closed_def Socket_def Let_def)
  show ?thesis
    using uring_write_cycle [of "live_conn [] [] [1, 2]"]
    by (auto simp: live_conn_simps output_with_facts sq)
qed

text \<open>
  A short write of a ring connection stalls it: when the kernel reports fewer bytes than
  were in flight, the rest stays queued, and every later \<open>async_write\<close> suspends the writer
  without queueing a ring entry, so that no completion can resume it.
\<close>

theorem uring_short_write_stalls:
  assumes "ob_inv (write_buf c)" and "unat (back_left c) = length (ob_pending (write_buf c))"
    and "n < length (ob_pending (write_buf c))"
  shows "\<exists>c'. uring_send_add c (int n) = Some (Inr c') \<and>
    ob_pending (write_buf c') = drop n (ob_pending (write_buf c)) \<and>
    uring_async_write c' = Inr (True, c') \<and> uring c' = uring c"
proof -
  from send_add_ok [OF assms(1), of "int n"] assms(3) obtain ob where
    ob: "send_add (write_buf c) (int n) = Some (Inr ob)" "ob_pending ob = drop n (ob_pending (write_buf c))"
    by auto
  have "unat (back_left c - of_int (int n)) = unat (back_left c) - n"
    using unat_sub_of_int [of "int n" "back_left c"] assms by simp
  then have "back_left c - of_nat n > 0"
    using assms by (simp add: word_less_nat_alt)
  with ob show ?thesis
    by (simp add: uring_send_add_def uring_async_write_def)
qed

theorem uring_short_write_stalls_witness:
  "\<exists>c'. uring_send_add ((live_conn [] [] [1, 2, 3])\<lparr>back_left := 3\<rparr>) 1 = Some (Inr c') \<and>
     ob_pending (write_buf c') = [2, 3] \<and> uring_async_write c' = Inr (True, c') \<and> sq (uring c') = []"
proof -
  have "sq (uring (live_conn [] [] [1, 2, 3])) = []"
    by (simp add: live_conn_def Connection_def)
  then show ?thesis
    using uring_short_write_stalls [of "(live_conn [] [] [1, 2, 3])\<lparr>back_left := 3\<rparr>" 1]
    by (auto simp: live_conn_simps output_with_facts)
qed

end
