(* ===== verification/Rpc.thy ===== *)
theory Rpc
  imports Connection
begin

section \<open>Messages on the wire\<close>

text \<open>
  Client and server exchange pairs of length-prefixed messages: a header
  (src/proto/message.proto) and a body. The protobuf runtime and the code it generates from
  the \<open>.proto\<close> files are not part of the repository: \<open>ParseFromZeroCopyStream\<close> reads its stream
  to the end and parses the bytes, \<open>SerializeToZeroCopyStream\<close> stores the serialized bytes
  through the regions of the stream, \<open>ByteSizeLong\<close> is their number. The parsing and
  serializing functions themselves are parameters.
\<close>

datatype message_type = MESSAGE_TYPE_UNSPECIFIED | REQUEST | RESPONSE

record header =
  magic :: "64 word"
  version :: int
  message_type :: message_type
  request_id :: int
  service_name :: "string option"
  method_name :: "string option"

definition MAGIC_NUM :: "64 word" where
  "MAGIC_NUM = 0x30F8CA9B"

definition VERSION :: int where
  "VERSION = 1"

text \<open>The getter of an \<open>optional string\<close> field gives the empty string when it is not set.\<close>

definition get_string :: "string option \<Rightarrow> string" where
  "get_string s = (case s of None \<Rightarrow> [] | Some t \<Rightarrow> t)"

definition parse_from_stream :: "(byte list \<Rightarrow> 'a option) \<Rightarrow> input_buffer \<Rightarrow>
    ('a option \<times> input_buffer) res option" where
  "parse_from_stream parse ib = ro_bind (read_all stream_next ib []) (\<lambda>(bs, ib').
     Some (Inr (parse bs, ib')))"

definition serialize_to_stream :: "output_buffer \<Rightarrow> byte list \<Rightarrow> output_buffer res option" where
  "serialize_to_stream ob bs =
     ro_bind (write_all stream_region stream_fill stream_back_up (ob, (None, 0)) bs) (\<lambda>(ob', d).
       Some (Inr ob'))"

text \<open>
  The four lines both sides use to send a message: \<open>uint32_t len = m.ByteSizeLong()\<close>, append the
  length, serialize.
\<close>

definition write_message :: "output_buffer \<Rightarrow> byte list \<Rightarrow> output_buffer res option" where
  "write_message ob bs =
     (let len = (of_nat (length bs) :: u32) in
      ro_bind (ob_append ob (u32_bytes len)) (\<lambda>ob1. serialize_to_stream ob1 bs))"

text \<open>The bytes of a message on the wire.\<close>

definition frame :: "byte list \<Rightarrow> byte list" where
  "frame bs = u32_bytes (of_nat (length bs)) @ bs"

lemma write_message_ok:
  assumes "ob_inv ob" and "length (ob_pending ob) + length bs + 8196 < 2 ^ 64"
  shows "\<exists>ob'. write_message ob bs = Some (Inr ob') \<and> ob_inv ob' \<and>
    ob_pending ob' = ob_pending ob @ frame bs \<and> frozen (out_heap ob) (out_heap ob')"
proof -
  from ob_append_ok [OF assms(1), of "u32_bytes (of_nat (length bs))"] assms(2) obtain ob1 where
    1: "ob_append ob (u32_bytes (of_nat (length bs))) = Some (Inr ob1)" "ob_inv ob1"
      "ob_pending ob1 = ob_pending ob @ u32_bytes (of_nat (length bs))" by auto
  then have "out_capacity (ob1, (None, 0)) (length bs + 8192)"
    using assms(2) by (simp add: out_capacity_def)
  moreover have "frozen (out_heap ob) (out_heap ob1)"
    using ob_append_frozen [OF assms(1) _ 1(1)] assms(2) by simp
  ultimately obtain s where
    "write_all stream_region stream_fill stream_back_up (ob1, (None, 0)) bs = Some (Inr s)" "ob_inv (fst s)"
    "ob_pending (fst s) = ob_pending ob1 @ bs" "frozen (out_heap ob) (out_heap (fst s))"
    using stable_stream.write_all_writes [of "(ob1, (None, 0))" "out_heap ob" bs] 1(2) by auto
  with 1 show ?thesis
    by (cases s) (simp add: write_message_def serialize_to_stream_def frame_def Let_def)
qed

text \<open>Queueing a header and a body and resuming the writer, as client and server do.\<close>

lemma write_pair_ok:
  assumes inv: "conn_inv c" and st: "tx_steady (tx (kern c))" and out: "out = frame hb @ frame rb"
    and q: "small_queue (ob_pending (write_buf c) @ out)"
  obtains ob1 ob2 c' where "write_message (write_buf c) hb = Some (Inr ob1)" and "write_message ob1 rb = Some (Inr ob2)"
    and "resume_write (c\<lparr>write_buf := ob2\<rparr>) = Some (Inr c')" and "writer_effect (c\<lparr>write_buf := ob2\<rparr>) c'"
    and "ob_pending ob2 = ob_pending (write_buf c) @ out"
proof -
  have len: "length out = length hb + length rb + 8" by (simp add: out frame_def)
  from write_message_ok [OF conn_inv_facts(2) [OF inv], of hb] q len obtain ob1 where
    1: "write_message (write_buf c) hb = Some (Inr ob1)" "ob_inv ob1"
      "ob_pending ob1 = ob_pending (write_buf c) @ frame hb" "frozen (out_heap (write_buf c)) (out_heap ob1)" by auto
  from write_message_ok [OF 1(2), of rb] q len 1(3) obtain ob2 where
    2: "write_message ob1 rb = Some (Inr ob2)" "ob_inv ob2" "ob_pending ob2 = ob_pending ob1 @ frame rb"
      "frozen (out_heap ob1) (out_heap ob2)"
    by (auto simp: frame_def)
  have pend: "ob_pending ob2 = ob_pending (write_buf c) @ out" using 1 2 by (simp add: out)
  have "conn_inv (c\<lparr>write_buf := ob2\<rparr>)"
    by (rule conn_inv_append [OF inv 2(2) frozen_trans [OF 1(4) 2(4)] pend])
  moreover have "tx_steady (tx (kern (c\<lparr>write_buf := ob2\<rparr>)))" "small_queue (ob_pending (write_buf (c\<lparr>write_buf := ob2\<rparr>)))"
    using st q pend by simp_all
  ultimately have "\<exists>c'. resume_write (c\<lparr>write_buf := ob2\<rparr>) = Some (Inr c') \<and> writer_effect (c\<lparr>write_buf := ob2\<rparr>) c'"
    by (rule resume_write_live)
  with that 1(1) 2(1) pend show thesis by blast
qed

subsection \<open>Receiving a length and a message\<close>

text \<open>
  A position from which a four-byte length can be fetched: it does not straddle two blocks.
\<close>

definition aligned :: "int \<Rightarrow> bool" where
  "aligned pos \<longleftrightarrow> pos mod kBlockSize \<le> kBlockSize - 4"

lemma fetch_uint32_cases:
  assumes inv: "ib_inv ib" and len: "4 \<le> length (ib_unread ib)" and val: "length val = 4"
  shows "aligned (ib_pos ib) \<Longrightarrow> \<exists>ib'. fetch_uint32 ib val = Inr (True, take 4 (ib_unread ib), ib') \<and>
      ib_inv ib' \<and> ib_unread ib' = drop 4 (ib_unread ib) \<and> in_limit ib' = in_limit ib \<and>
      ib_fill ib' = ib_fill ib"
    and "\<not> aligned (ib_pos ib) \<Longrightarrow> fetch_uint32 ib val = Inl OutOfBounds"
proof -
  note pos = ib_pos_facts [OF inv]
  have mod: "ib_pos ib mod kBlockSize = ib_pos ib" using pos(1,2) by simp
  show "\<exists>ib'. fetch_uint32 ib val = Inr (True, take 4 (ib_unread ib), ib') \<and>
      ib_inv ib' \<and> ib_unread ib' = drop 4 (ib_unread ib) \<and> in_limit ib' = in_limit ib \<and>
      ib_fill ib' = ib_fill ib" if "aligned (ib_pos ib)"
  proof -
    have "4 \<le> cur_len ib" using that pos(3) mod len by (auto simp: aligned_def)
    from fetch_uint32_ok [OF inv this val] show ?thesis by metis
  qed
  show "fetch_uint32 ib val = Inl OutOfBounds" if "\<not> aligned (ib_pos ib)"
  proof -
    have "cur_len ib < 4" using that pos(3) mod by (auto simp: aligned_def)
    with inv len show ?thesis using val by (rule fetch_uint32_straddle)
  qed
qed

text \<open>\<open>push_limit(len)\<close> converts the \<open>uint32_t\<close> to an \<open>int\<close>.\<close>

lemma sint_small:
  assumes "unat (w :: u32) < 2 ^ 31"
  shows "sint w = int (unat w)"
proof -
  have "uint w < 2 ^ 31" using assms by (metis of_nat_less_iff of_nat_numeral of_nat_power uint_nat)
  moreover have "- (2 ^ 31) \<le> uint w" by (rule order_trans [OF _ uint_ge_0]) simp
  ultimately show ?thesis
    using signed_take_bit_int_eq_self [of 31 "uint w"] by (simp add: sint_uint)
qed

lemma parse_message_ok:
  fixes len :: u32
  assumes inv: "ib_inv ib" and len: "unat len \<le> length (ib_unread ib)" "unat len < 2 ^ 31 - 1"
  shows "\<exists>ib'. parse_from_stream parse (push_limit ib (sint len))
      = Some (Inr (parse (take (unat len) (ib_unread ib)), ib')) \<and>
    ib_inv (pop_limit ib') \<and> ib_unread (pop_limit ib') = drop (unat len) (ib_unread ib) \<and>
    ib_fill (pop_limit ib') = ib_fill ib \<and> ib_inv ib' \<and> ib_unread ib' = drop (unat len) (ib_unread ib) \<and>
    ib_fill ib' = ib_fill ib"
proof -
  have s: "sint len = int (unat len)" using sint_small [of len] len(2) by simp
  have "unat len < 2147483647" using len(2) by simp
  then have "int (unat len) < int 2147483647" by (simp only: of_nat_less_iff)
  then have "int (unat len) < INT32_MAX" by (simp add: INT32_MAX_def)
  moreover have "int (unat len) \<le> int (length (ib_unread ib))" using len(1) by (simp only: of_nat_le_iff)
  ultimately show ?thesis
    using limited_read [OF inv, of "int (unat len)"] unfolding parse_from_stream_def s by fastforce
qed

end
