(* ===== verification/RecvMachine.thy ===== *)
theory RecvMachine
  imports Rpc
begin

section \<open>Receiving coroutines\<close>

text \<open>
  Both \<open>recv_fn\<close> coroutines, the server's and the client's, are loops over the same kind of
  resume points: they wait until enough bytes are buffered, take a length or a message out of
  the buffer, act on it and go on. This theory has what they share: running a coroutine from
  a resume point until it suspends or ends, and the interface (\<open>recv_machine\<close>) between such a
  coroutine and a specification that is a function of the received bytes alone. Inside the
  interface it is proved once that a coroutine whose every step matches its specification
  matches it as a whole, for every way the bytes arrive.
\<close>

datatype 'pc ctl = Goto 'pc | Suspend 'pc | Break

text \<open>
  Running a coroutine until it suspends (its resume point) or ends (\<open>None\<close>). \<open>step\<close> is the
  code from one resume point to the next, \<open>finish\<close> the code after the loop.
\<close>

partial_function (option) run_coroutine ::
  "('pc \<Rightarrow> 's \<Rightarrow> ('pc ctl \<times> 's) res option) \<Rightarrow> ('s \<Rightarrow> 's) \<Rightarrow> 'pc \<Rightarrow> 's \<Rightarrow>
   ('pc option \<times> 's) res option" where
  "run_coroutine step finish pc s = (case step pc s of None \<Rightarrow> None | Some (Inl e) \<Rightarrow> Some (Inl e)
     | Some (Inr (ctl, s')) \<Rightarrow>
       (case ctl of Goto pc' \<Rightarrow> run_coroutine step finish pc' s'
        | Suspend pc' \<Rightarrow> Some (Inr (Some pc', s'))
        | Break \<Rightarrow> Some (Inr (None, finish s'))))"

text \<open>
  \<open>conn->resume_read()\<close> by the executor, with the resume point \<open>fr\<close> of the coroutine
  (\<open>None\<close> when it has ended and is destroyed), and \<open>n\<close> such resumptions of a coroutine as long
  as it is suspended.
\<close>

definition resume_coroutine ::
  "('pc \<Rightarrow> 's \<Rightarrow> ('pc ctl \<times> 's) res option) \<Rightarrow> ('s \<Rightarrow> 's) \<Rightarrow> ('s \<Rightarrow> connection) \<Rightarrow>
   'pc option \<Rightarrow> 's \<Rightarrow> ('pc option \<times> 's) res option" where
  "resume_coroutine step finish conn fr s = (if \<not> read_handle (conn s) then Some (Inl Uninitialised)
     else case fr of None \<Rightarrow> Some (Inl UseAfterFree) | Some pc \<Rightarrow> run_coroutine step finish pc s)"

primrec resume_times ::
  "('pc \<Rightarrow> 's \<Rightarrow> ('pc ctl \<times> 's) res option) \<Rightarrow> ('s \<Rightarrow> 's) \<Rightarrow> ('s \<Rightarrow> connection) \<Rightarrow>
   nat \<Rightarrow> 'pc option \<Rightarrow> 's \<Rightarrow> ('pc option \<times> 's) res option" where
  "resume_times step finish conn 0 fr s = Some (Inr (fr, s))"
| "resume_times step finish conn (Suc n) fr s = (case fr of None \<Rightarrow> Some (Inr (None, s))
     | Some pc \<Rightarrow> ro_bind (resume_coroutine step finish conn fr s) (\<lambda>(fr', s').
         resume_times step finish conn n fr' s'))"

text \<open>The body of a read loop: await more data and go back to the loop's condition.\<close>

definition read_more :: "'pc \<Rightarrow> connection \<Rightarrow> ('pc ctl \<times> connection) res option" where
  "read_more pc c = ro_bind (await_read c) (\<lambda>(suspended, c').
     Some (Inr (if suspended then Suspend pc else Goto pc, c')))"

text \<open>\<open>uint32_t len; input_stream.fetch_uint32(&len)\<close>: the length, if there was one.\<close>

definition fetch_len :: "connection \<Rightarrow> (u32 option \<times> connection) res" where
  "fetch_len c = res_bind (fetch_uint32 (read_buf c) [0, 0, 0, 0]) (\<lambda>(ok, v, ib).
     Inr (if ok then Some (bytes_u32 v) else None, c\<lparr>read_buf := ib\<rparr>))"

text \<open>
  How the specification of a coroutine ends at the end of its input: it waits for more (its
  resume point, the position of the next byte in its block and the bytes not used yet), it has
  left its loop, or it has run into undefined behaviour.
\<close>

datatype 'pc outcome = Waiting 'pc int "byte list" | Stopped | Crashed fault

subsection \<open>A connection that is served\<close>

text \<open>The input a connection still has: what is buffered and what will arrive.\<close>

abbreviation input_left :: "connection \<Rightarrow> byte list" where
  "input_left c \<equiv> ib_unread (read_buf c) @ rx_stream (rx (kern c))"

definition serving :: "connection \<Rightarrow> bool" where
  "serving c \<longleftrightarrow> conn_inv c \<and> tx_steady (tx (kern c)) \<and> length (input_left c) < 2 ^ 31 - 1"

lemma unat_ucast_len: "unat (ucast (len :: u32) :: size_t) = unat len"
  using unat_less_LENGTH [of len] by (simp add: unsigned_ucast_eq take_bit_nat_eq_self)

lemma conn_read_bytes_less:
  assumes "ib_inv (read_buf c)"
  shows "conn_read_bytes c < 4 \<longleftrightarrow> length (ib_unread (read_buf c)) < 4"
    and "conn_read_bytes c < ucast (len :: u32) \<longleftrightarrow> length (ib_unread (read_buf c)) < unat len"
  using assms by (simp_all add: ib_inv_def conn_read_bytes_def ib_bytes_def word_less_nat_alt unat_ucast_len)

lemma serving_read_bytes:
  assumes "serving c"
  shows "conn_read_bytes c < 4 \<longleftrightarrow> length (ib_unread (read_buf c)) < 4"
    and "conn_read_bytes c < ucast (len :: u32) \<longleftrightarrow> length (ib_unread (read_buf c)) < unat len"
    and "\<not> conn_closed c"
  using assms conn_read_bytes_less [of c] by (simp_all add: serving_def conn_inv_def)

text \<open>Consuming input: the position advances with the bytes.\<close>

lemma ib_pos_advance:
  assumes "ib_inv ib" and "ib_inv ib'" and "ib_fill ib' = ib_fill ib"
    and "ib_unread ib' = drop n (ib_unread ib)" and "n \<le> length (ib_unread ib)"
  shows "ib_pos ib' = (ib_pos ib + int n) mod kBlockSize"
proof -
  have "ib_pos ib' = (ib_fill ib - (int (length (ib_unread ib)) - int n)) mod kBlockSize"
    using ib_pos_facts(4) [OF assms(2)] assms(3-5) by (simp add: of_nat_diff)
  also have "\<dots> = ((ib_fill ib - int (length (ib_unread ib))) mod kBlockSize + int n) mod kBlockSize"
    by (simp add: mod_simps algebra_simps)
  finally show ?thesis by (simp add: ib_pos_facts(4) [OF assms(1), symmetric])
qed

lemma serving_read_buf:
  assumes "serving c" and "ib_inv ib" and "ib_unread ib = drop n (ib_unread (read_buf c))"
    and "n \<le> length (ib_unread (read_buf c))"
  shows "serving (c\<lparr>read_buf := ib\<rparr>)" and "input_left (c\<lparr>read_buf := ib\<rparr>) = drop n (input_left c)"
  using assms by (auto simp: serving_def conn_inv_def conn_closed_def)

text \<open>What reading leaves alone: everything the writing side of a connection depends on.\<close>

definition same_output :: "connection \<Rightarrow> connection \<Rightarrow> bool" where
  "same_output c c' \<longleftrightarrow> kind c' = kind c \<and> wire (kern c') = wire (kern c) \<and> tx (kern c') = tx (kern c) \<and>
     write_buf c' = write_buf c \<and> events c' = events c \<and> send_frame c' = send_frame c"

lemma same_output_read_buf [simp]: "same_output c (c\<lparr>read_buf := ib\<rparr>)"
  by (simp add: same_output_def)

text \<open>Taking a length out of the buffer.\<close>

lemma fetch_len_ok:
  assumes sv: "serving c" and len: "4 \<le> length (ib_unread (read_buf c))"
  shows "aligned (ib_pos (read_buf c)) \<Longrightarrow>
      \<exists>c1. fetch_len c = Inr (Some (bytes_u32 (take 4 (input_left c))), c1) \<and> serving c1 \<and>
        input_left c1 = drop 4 (input_left c) \<and> ib_pos (read_buf c1) = (ib_pos (read_buf c) + 4) mod kBlockSize \<and>
        kern c1 = kern c \<and> write_buf c1 = write_buf c \<and> same_output c c1"
    and "\<not> aligned (ib_pos (read_buf c)) \<Longrightarrow> fetch_len c = Inl OutOfBounds"
proof -
  have inv: "ib_inv (read_buf c)" using sv by (simp add: serving_def conn_inv_def)
  note fc = fetch_uint32_cases [OF inv len, of "[0, 0, 0, 0]"]
  show "\<not> aligned (ib_pos (read_buf c)) \<Longrightarrow> fetch_len c = Inl OutOfBounds"
    using fc(2) by (simp add: fetch_len_def)
  assume "aligned (ib_pos (read_buf c))"
  from fc(1) [OF _ this] obtain ib where ib: "fetch_uint32 (read_buf c) [0, 0, 0, 0] = Inr (True, take 4 (ib_unread (read_buf c)), ib)"
    "ib_inv ib" "ib_unread ib = drop 4 (ib_unread (read_buf c))" "ib_fill ib = ib_fill (read_buf c)" by auto
  have pos: "ib_pos ib = (ib_pos (read_buf c) + 4) mod kBlockSize"
    using ib_pos_advance [OF inv ib(2,4,3) len] by simp
  have t: "take 4 (input_left c) = take 4 (ib_unread (read_buf c))" using len by simp
  show "\<exists>c1. fetch_len c = Inr (Some (bytes_u32 (take 4 (input_left c))), c1) \<and> serving c1 \<and>
        input_left c1 = drop 4 (input_left c) \<and> ib_pos (read_buf c1) = (ib_pos (read_buf c) + 4) mod kBlockSize \<and>
        kern c1 = kern c \<and> write_buf c1 = write_buf c \<and> same_output c c1"
    using serving_read_buf [OF sv ib(2,3) len] ib(1) pos unfolding t
    by (intro exI [of _ "c\<lparr>read_buf := ib\<rparr>"]) (simp add: fetch_len_def)
qed

text \<open>
  Parsing a message that is buffered completely: the connection afterwards, with and without
  the limit lifted.
\<close>

lemma parse_run:
  fixes len :: u32
  assumes sv: "serving c" and len: "unat len \<le> length (ib_unread (read_buf c))"
  obtains ib where "parse_from_stream parse (push_limit (read_buf c) (sint len))
      = Some (Inr (parse (take (unat len) (input_left c)), ib))"
    and "\<forall>ib' \<in> {ib, pop_limit ib}. serving (c\<lparr>read_buf := ib'\<rparr>) \<and>
      input_left (c\<lparr>read_buf := ib'\<rparr>) = drop (unat len) (input_left c) \<and>
      ib_pos ib' = (ib_pos (read_buf c) + int (unat len)) mod kBlockSize"
proof -
  have inv: "ib_inv (read_buf c)" and "length (ib_unread (read_buf c)) < 2 ^ 31 - 1"
    using sv by (auto simp: serving_def conn_inv_def)
  with parse_message_ok [OF inv len, of parse] len obtain ib where
    ib: "parse_from_stream parse (push_limit (read_buf c) (sint len))
      = Some (Inr (parse (take (unat len) (ib_unread (read_buf c))), ib))"
    "ib_inv (pop_limit ib)" "ib_unread (pop_limit ib) = drop (unat len) (ib_unread (read_buf c))"
    "ib_fill (pop_limit ib) = ib_fill (read_buf c)"
    "ib_inv ib" "ib_unread ib = drop (unat len) (ib_unread (read_buf c))" "ib_fill ib = ib_fill (read_buf c)"
    by auto
  have t: "take (unat len) (input_left c) = take (unat len) (ib_unread (read_buf c))" using len by simp
  have ok: "serving (c\<lparr>read_buf := ib'\<rparr>) \<and> input_left (c\<lparr>read_buf := ib'\<rparr>) = drop (unat len) (input_left c) \<and>
      ib_pos ib' = (ib_pos (read_buf c) + int (unat len)) mod kBlockSize"
    if "ib_inv ib'" "ib_unread ib' = drop (unat len) (ib_unread (read_buf c))" "ib_fill ib' = ib_fill (read_buf c)" for ib'
    using serving_read_buf [OF sv that(1,2) len] ib_pos_advance [OF inv that(1,3,2) len] by simp
  show thesis
  proof (rule that)
    show "parse_from_stream parse (push_limit (read_buf c) (sint len))
        = Some (Inr (parse (take (unat len) (input_left c)), ib))"
      using ib(1) unfolding t .
    show "\<forall>ib' \<in> {ib, pop_limit ib}. serving (c\<lparr>read_buf := ib'\<rparr>) \<and>
      input_left (c\<lparr>read_buf := ib'\<rparr>) = drop (unat len) (input_left c) \<and>
      ib_pos ib' = (ib_pos (read_buf c) + int (unat len)) mod kBlockSize"
      using ok [OF ib(2-4)] ok [OF ib(5-7)] by blast
  qed
qed

text \<open>Waiting for more input: nothing of the input or of the position changes.\<close>

lemma await_read_serving:
  assumes sv: "serving c"
  obtains bs :: "byte list" and c1 where "await_read c = Some (Inr (bs = [], c1))" and "serving c1"
    and "input_left c1 = input_left c" and "ib_pos (read_buf c1) = ib_pos (read_buf c)"
    and "same_output c c1"
    and "bs \<noteq> [] \<longrightarrow> rx_weight (rx (kern c1)) < rx_weight (rx (kern c))"
    and "rx_pauses (rx (kern c1)) \<le> rx_pauses (rx (kern c))"
    and "bs = [] \<longrightarrow> ib_unread (read_buf c1) = ib_unread (read_buf c) \<and>
      (rx (kern c1) = [] \<or> rx_pauses (rx (kern c1)) < rx_pauses (rx (kern c)))"
proof -
  have ci: "conn_inv c" and sz: "length (ib_unread (read_buf c)) + length (rx_stream (rx (kern c))) < 2 ^ 64"
    using sv by (auto simp: serving_def)
  from await_read_live [OF ci sz] obtain bs ib es r where
    aw: "await_read c = Some (Inr (bs = [], c\<lparr>read_buf := ib, sock := (sock c)\<lparr>os := (kern c)\<lparr>rx := es\<rparr>\<rparr>, uring := r\<rparr>))"
    and k: "kind c = PollConnection \<or> ring_ok (c\<lparr>sock := (sock c)\<lparr>os := (kern c)\<lparr>rx := es\<rparr>\<rparr>, uring := r\<rparr>)"
    and ib: "ib_inv ib" "ib_unread ib = ib_unread (read_buf c) @ bs"
      "ib_fill ib = (ib_fill (read_buf c) + int (length bs)) mod kBlockSize"
    and es: "rx_stream (rx (kern c)) = bs @ rx_stream es" "rx_live es"
      "bs \<noteq> [] \<longrightarrow> rx_weight es < rx_weight (rx (kern c))" "rx_pauses es \<le> rx_pauses (rx (kern c))"
      "bs = [] \<longrightarrow> es = [] \<or> rx_pauses es < rx_pauses (rx (kern c))"
    by blast
  let ?c1 = "c\<lparr>read_buf := ib, sock := (sock c)\<lparr>os := (kern c)\<lparr>rx := es\<rparr>\<rparr>, uring := r\<rparr>"
  have left: "input_left ?c1 = input_left c" using ib(2) es(1) by simp
  have sv1: "serving ?c1"
    using sv ib es left k by (auto simp: serving_def conn_inv_def conn_closed_def ring_ok_def)
  have inv: "ib_inv (read_buf c)" using ci by (simp add: conn_inv_def)
  have "ib_pos ib = (ib_fill (read_buf c) + int (length bs) - int (length (ib_unread (read_buf c)) + length bs)) mod kBlockSize"
    using ib_pos_facts(4) [OF ib(1)] ib(2,3) by (simp add: mod_simps)
  then have pos: "ib_pos ib = ib_pos (read_buf c)"
    using ib_pos_facts(4) [OF inv] by (simp add: algebra_simps)
  show thesis
    using that [OF aw sv1 left] pos es ib(2) by (simp add: same_output_def)
qed

text \<open>The output of a connection: what the kernel took and what is still queued.\<close>

definition output_of :: "connection \<Rightarrow> byte list" where
  "output_of c = wire (kern c) @ ob_pending (write_buf c)"

lemma output_of_same: "kern c' = kern c \<Longrightarrow> write_buf c' = write_buf c \<Longrightarrow> output_of c' = output_of c"
  by (simp add: output_of_def)

subsection \<open>Pairs of messages\<close>

text \<open>Requests and responses are sent as a header and a body.\<close>

fun pairs_bytes :: "(byte list \<times> byte list) list \<Rightarrow> byte list" where
  "pairs_bytes [] = []"
| "pairs_bytes ((hb, qb) # ms) = frame hb @ frame qb @ pairs_bytes ms"

text \<open>No length field of the messages straddles two blocks of the input buffer.\<close>

fun lengths_aligned :: "int \<Rightarrow> (byte list \<times> byte list) list \<Rightarrow> bool" where
  "lengths_aligned pos [] \<longleftrightarrow> True"
| "lengths_aligned pos ((hb, qb) # ms) \<longleftrightarrow> aligned pos \<and> aligned (pos + 4 + int (length hb)) \<and>
     lengths_aligned (pos + 8 + int (length hb) + int (length qb)) ms"

lemma aligned_mod [simp]: "aligned (pos mod kBlockSize) = aligned pos"
  by (simp add: aligned_def)

lemma unat_of_nat_u32: "n < 2 ^ 32 \<Longrightarrow> unat (of_nat n :: u32) = n"
  by (simp add: unat_of_nat take_bit_nat_eq_self)

lemma frame_split:
  "take 4 (frame bs) = u32_bytes (of_nat (length bs))" "drop 4 (frame bs) = bs"
  "length (frame bs) = length bs + 4"
  by (simp_all add: frame_def)

lemma lengths_aligned_mod: "lengths_aligned (pos mod kBlockSize) ms = lengths_aligned pos ms"
proof (induction ms arbitrary: pos)
  case (Cons m ms)
  obtain hb qb where m: "m = (hb, qb)" by fastforce
  have "aligned (pos mod kBlockSize + 4 + int (length hb)) = aligned (pos + 4 + int (length hb))"
    by (simp add: aligned_def mod_simps add.assoc)
  moreover have "lengths_aligned (pos mod kBlockSize + 8 + int (length hb) + int (length qb)) ms
      = lengths_aligned (pos + 8 + int (length hb) + int (length qb)) ms"
    by (metis (no_types, opaque_lifting) Cons.IH add.assoc mod_add_left_eq)
  ultimately show ?case by (simp add: m)
qed simp

subsection \<open>The interface\<close>

text \<open>
  How one step of a coroutine matches a specification that says \<open>out\<close> and \<open>r\<close> of the rest of
  its input: it waits for more, moves on and leaves the rest of the output to the rest of the
  input, leaves its loop, or faults. \<open>out_of\<close> is the output so far, \<open>ghost\<close> what the
  specification depends on besides the input, \<open>fits\<close> what has to hold of the writing side for the
  output that is still to come, \<open>rank\<close> orders the resume points that take no input.
\<close>

definition step_match :: "('pc \<Rightarrow> 's \<Rightarrow> ('pc ctl \<times> 's) res option) \<Rightarrow> ('s \<Rightarrow> connection) \<Rightarrow>
    (connection \<Rightarrow> 's \<Rightarrow> 's) \<Rightarrow> ('pc \<Rightarrow> 'g \<Rightarrow> int \<Rightarrow> byte list \<Rightarrow> 'e list \<times> 'pc outcome) \<Rightarrow> ('s \<Rightarrow> 'g) \<Rightarrow>
    ('s \<Rightarrow> 'e list) \<Rightarrow> ('s \<Rightarrow> 'e list \<Rightarrow> bool) \<Rightarrow> ('pc \<Rightarrow> nat) \<Rightarrow> 'pc \<Rightarrow> 's \<Rightarrow> 'e list \<Rightarrow> 'pc outcome \<Rightarrow> bool" where
  "step_match step conn put spec ghost out_of fits rank pc s out r \<longleftrightarrow>
      (step pc s = ro_bind (read_more pc (conn s)) (\<lambda>(ctl, c). Some (Inr (ctl, put c s))) \<and>
        (\<forall>pos. spec pc (ghost s) pos (ib_unread (read_buf (conn s)))
           = ([], Waiting pc pos (ib_unread (read_buf (conn s)))))) \<or>
      (\<exists>pc' s1 out0 out1. step pc s = Some (Inr (Goto pc', s1)) \<and> serving (conn s1) \<and>
        spec pc' (ghost s1) (ib_pos (read_buf (conn s1))) (input_left (conn s1)) = (out1, r) \<and>
        3 * length (input_left (conn s1)) + rank pc' < 3 * length (input_left (conn s)) + rank pc \<and>
        out_of s1 = out_of s @ out0 \<and> out = out0 @ out1 \<and>
        rx_pauses (rx (kern (conn s1))) \<le> rx_pauses (rx (kern (conn s))) \<and> fits s1 out1) \<or>
      (\<exists>s1. step pc s = Some (Inr (Break, s1)) \<and> out_of s1 = out_of s \<and> fits s1 [] \<and> out = [] \<and> r = Stopped) \<or>
      (\<exists>f. step pc s = Some (Inl f) \<and> out = [] \<and> r = Crashed f)"

lemma step_match_more:
  "step pc s = ro_bind (read_more pc (conn s)) (\<lambda>(ctl, c). Some (Inr (ctl, put c s))) \<Longrightarrow>
   (\<And>pos. spec pc (ghost s) pos (ib_unread (read_buf (conn s)))
      = ([], Waiting pc pos (ib_unread (read_buf (conn s))))) \<Longrightarrow>
   step_match step conn put spec ghost out_of fits rank pc s out r"
  by (simp add: step_match_def)

lemma step_match_goto:
  "step pc s = Some (Inr (Goto pc', s1)) \<Longrightarrow> serving (conn s1) \<Longrightarrow>
   spec pc' (ghost s1) (ib_pos (read_buf (conn s1))) (input_left (conn s1)) = (out1, r) \<Longrightarrow>
   3 * length (input_left (conn s1)) + rank pc' < 3 * length (input_left (conn s)) + rank pc \<Longrightarrow>
   out_of s1 = out_of s @ out0 \<Longrightarrow> out = out0 @ out1 \<Longrightarrow>
   rx_pauses (rx (kern (conn s1))) \<le> rx_pauses (rx (kern (conn s))) \<Longrightarrow> fits s1 out1 \<Longrightarrow>
   step_match step conn put spec ghost out_of fits rank pc s out r"
  unfolding step_match_def by blast

lemma step_match_break:
  "step pc s = Some (Inr (Break, s1)) \<Longrightarrow> out_of s1 = out_of s \<Longrightarrow> fits s1 [] \<Longrightarrow> (out, r) = ([], Stopped) \<Longrightarrow>
   step_match step conn put spec ghost out_of fits rank pc s out r"
  by (simp add: step_match_def)

lemma step_match_fault:
  "step pc s = Some (Inl f) \<Longrightarrow> (out, r) = ([], Crashed f) \<Longrightarrow>
   step_match step conn put spec ghost out_of fits rank pc s out r"
  by (simp add: step_match_def)

locale recv_machine =
  fixes step :: "'pc \<Rightarrow> 's \<Rightarrow> ('pc ctl \<times> 's) res option"
    and finish :: "'s \<Rightarrow> 's"
    and conn :: "'s \<Rightarrow> connection"
    and put :: "connection \<Rightarrow> 's \<Rightarrow> 's"
    and spec :: "'pc \<Rightarrow> 'g \<Rightarrow> int \<Rightarrow> byte list \<Rightarrow> 'e list \<times> 'pc outcome"
    and ghost :: "'s \<Rightarrow> 'g"
    and out_of :: "'s \<Rightarrow> 'e list"
    and fits :: "'s \<Rightarrow> 'e list \<Rightarrow> bool"
    and rank :: "'pc \<Rightarrow> nat"
  assumes conn_put: "conn (put c s) = c"
    and put_same: "same_output (conn s) c \<Longrightarrow>
      out_of (put c s) = out_of s \<and> ghost (put c s) = ghost s \<and> fits (put c s) = fits s"
    and finish_ok: "conn_closed (conn (finish s)) \<and> out_of (finish s) = out_of s \<and> (fits s [] \<longrightarrow> fits (finish s) [])"
    and step_ok: "serving (conn s) \<Longrightarrow>
      spec pc (ghost s) (ib_pos (read_buf (conn s))) (input_left (conn s)) = (out, r) \<Longrightarrow> fits s out \<Longrightarrow>
      step_match step conn put spec ghost out_of fits rank pc s out r"
begin

abbreviation run :: "'pc \<Rightarrow> 's \<Rightarrow> ('pc option \<times> 's) res option" where
  "run \<equiv> run_coroutine step finish"

text \<open>
  What a run has to do when the rest of the input is specified to produce \<open>out\<close> and to end as
  \<open>r\<close>: it suspends with a part of the output done and all of the input read or a pause less
  to come, or it ends as specified.
\<close>

definition run_ok :: "'s \<Rightarrow> 'e list \<Rightarrow> 'pc outcome \<Rightarrow> ('pc option \<times> 's) res option \<Rightarrow> bool" where
  "run_ok s out r res \<longleftrightarrow>
     (\<exists>pc' s' out0 out1. res = Some (Inr (Some pc', s')) \<and> serving (conn s') \<and>
        spec pc' (ghost s') (ib_pos (read_buf (conn s'))) (input_left (conn s')) = (out1, r) \<and>
        out = out0 @ out1 \<and> out_of s' = out_of s @ out0 \<and> fits s' out1 \<and>
        rx_pauses (rx (kern (conn s'))) \<le> rx_pauses (rx (kern (conn s))) \<and>
        (rx (kern (conn s')) = [] \<and> out1 = [] \<and>
           r = Waiting pc' (ib_pos (read_buf (conn s'))) (ib_unread (read_buf (conn s'))) \<or>
         rx_pauses (rx (kern (conn s'))) < rx_pauses (rx (kern (conn s))))) \<or>
     (\<exists>s'. r = Stopped \<and> res = Some (Inr (None, s')) \<and> conn_closed (conn s') \<and> out_of s' = out_of s @ out \<and> fits s' []) \<or>
     (\<exists>f. r = Crashed f \<and> res = Some (Inl f))"

lemma run_ok_goto:
  assumes "step pc s = Some (Inr (Goto pc', s1))" and "run_ok s1 out1 r (run pc' s1)"
    and "out_of s1 = out_of s @ out0" and "out = out0 @ out1"
    and "rx_pauses (rx (kern (conn s1))) \<le> rx_pauses (rx (kern (conn s)))"
  shows "run_ok s out r (run pc s)"
proof -
  have eq: "run pc s = run pc' s1"
    using assms(1) by (simp add: run_coroutine.simps [of step finish pc])
  from assms(2) consider
      (suspended) pc'' s' o0 o1 where "run pc' s1 = Some (Inr (Some pc'', s'))" "serving (conn s')"
        "spec pc'' (ghost s') (ib_pos (read_buf (conn s'))) (input_left (conn s')) = (o1, r)"
        "out1 = o0 @ o1" "out_of s' = out_of s1 @ o0" "fits s' o1"
        "rx_pauses (rx (kern (conn s'))) \<le> rx_pauses (rx (kern (conn s1)))"
        "rx (kern (conn s')) = [] \<and> o1 = [] \<and>
           r = Waiting pc'' (ib_pos (read_buf (conn s'))) (ib_unread (read_buf (conn s'))) \<or>
          rx_pauses (rx (kern (conn s'))) < rx_pauses (rx (kern (conn s1)))"
    | (ended) "(\<exists>s'. r = Stopped \<and> run pc' s1 = Some (Inr (None, s')) \<and> conn_closed (conn s') \<and>
          out_of s' = out_of s1 @ out1 \<and> fits s' []) \<or> (\<exists>f. r = Crashed f \<and> run pc' s1 = Some (Inl f))"
    unfolding run_ok_def by blast
  then show ?thesis
  proof cases
    case suspended
    show ?thesis
      unfolding run_ok_def eq
      by (rule disjI1, rule exI [of _ pc''], rule exI [of _ s'], rule exI [of _ "out0 @ o0"], rule exI [of _ o1])
        (use suspended assms(3-5) in auto)
  next
    case ended
    then show ?thesis using assms(3,4) by (auto simp: run_ok_def eq)
  qed
qed

lemma run_ok_read_more:
  assumes step: "step pc s = ro_bind (read_more pc (conn s)) (\<lambda>(ctl, c). Some (Inr (ctl, put c s)))"
    and sv: "serving (conn s)" and ft: "fits s out"
    and spec: "spec pc (ghost s) (ib_pos (read_buf (conn s))) (input_left (conn s)) = (out, r)"
    and wait: "\<forall>pos. spec pc (ghost s) pos (ib_unread (read_buf (conn s)))
      = ([], Waiting pc pos (ib_unread (read_buf (conn s))))"
    and IH: "\<And>s1. serving (conn s1) \<Longrightarrow> input_left (conn s1) = input_left (conn s) \<Longrightarrow>
      rx_weight (rx (kern (conn s1))) < rx_weight (rx (kern (conn s))) \<Longrightarrow> fits s1 out \<Longrightarrow>
      spec pc (ghost s1) (ib_pos (read_buf (conn s1))) (input_left (conn s1)) = (out, r) \<Longrightarrow>
      run_ok s1 out r (run pc s1)"
  shows "run_ok s out r (run pc s)"
proof -
  obtain bs :: "byte list" and c1 where aw: "await_read (conn s) = Some (Inr (bs = [], c1))" and sv1: "serving c1"
    and left: "input_left c1 = input_left (conn s)" and pos: "ib_pos (read_buf c1) = ib_pos (read_buf (conn s))"
    and same: "same_output (conn s) c1"
    and w: "bs \<noteq> [] \<longrightarrow> rx_weight (rx (kern c1)) < rx_weight (rx (kern (conn s)))"
      "rx_pauses (rx (kern c1)) \<le> rx_pauses (rx (kern (conn s)))"
      "bs = [] \<longrightarrow> ib_unread (read_buf c1) = ib_unread (read_buf (conn s)) \<and>
        (rx (kern c1) = [] \<or> rx_pauses (rx (kern c1)) < rx_pauses (rx (kern (conn s))))"
    by (rule await_read_serving [OF sv])
  define s1 where "s1 = put c1 s"
  have s1: "conn s1 = c1" "out_of s1 = out_of s" "ghost s1 = ghost s" "fits s1 = fits s"
    using conn_put [of c1 s] put_same [OF same] by (simp_all add: s1_def)
  have st: "step pc s = Some (Inr (if bs = [] then Suspend pc else Goto pc, s1))"
    by (simp add: step read_more_def aw s1_def)
  have spec1: "spec pc (ghost s1) (ib_pos (read_buf (conn s1))) (input_left (conn s1)) = (out, r)"
    unfolding s1 left pos by (rule spec)
  show ?thesis
  proof (cases "bs = []")
    case False
    have "run_ok s1 out r (run pc s1)"
      by (rule IH [OF _ _ _ _ spec1]) (use sv1 left w(1) False s1 ft in auto)
    with st False s1(1,2) w(2) show ?thesis
      using run_ok_goto [of pc s pc s1 out r "[]" out] by simp
  next
    case True
    have rr: "run pc s = Some (Inr (Some pc, s1))"
      using st True by (simp add: run_coroutine.simps [of step finish pc])
    have e: "rx (kern c1) = [] \<Longrightarrow> r = Waiting pc (ib_pos (read_buf c1)) (ib_unread (read_buf c1)) \<and> out = []"
      using wait spec1 w(3) True s1 by simp
    show ?thesis
      unfolding run_ok_def rr
      by (rule disjI1, rule exI [of _ pc], rule exI [of _ s1], rule exI [of _ "[]"], rule exI [of _ out])
        (use sv1 spec1 s1 w e True ft in auto)
  qed
qed

text \<open>The induction: on the input left, the resume point, and the events to come.\<close>

lemma run_refines:
  assumes "serving (conn s)" and "fits s out"
    and "spec pc (ghost s) (ib_pos (read_buf (conn s))) (input_left (conn s)) = (out, r)"
  shows "run_ok s out r (run pc s)"
  using assms
proof (induction "(3 * length (input_left (conn s)) + rank pc, rx_weight (rx (kern (conn s))))"
    arbitrary: pc s out rule: wf_induct_rule [OF wf_lex_prod [OF wf_less_than wf_less_than]])
  case (1 pc s out)
  note sv = 1(2) and ft = 1(3) and spec = 1(4)
  from step_ok [OF sv spec ft] consider
      (more) "step pc s = ro_bind (read_more pc (conn s)) (\<lambda>(ctl, c). Some (Inr (ctl, put c s)))"
        "\<forall>pos. spec pc (ghost s) pos (ib_unread (read_buf (conn s)))
           = ([], Waiting pc pos (ib_unread (read_buf (conn s))))"
    | (goto) pc' s1 out0 out1 where "step pc s = Some (Inr (Goto pc', s1))" "serving (conn s1)"
        "spec pc' (ghost s1) (ib_pos (read_buf (conn s1))) (input_left (conn s1)) = (out1, r)"
        "3 * length (input_left (conn s1)) + rank pc' < 3 * length (input_left (conn s)) + rank pc"
        "out_of s1 = out_of s @ out0" "out = out0 @ out1"
        "rx_pauses (rx (kern (conn s1))) \<le> rx_pauses (rx (kern (conn s)))" "fits s1 out1"
    | (break) s1 where "step pc s = Some (Inr (Break, s1))" "out_of s1 = out_of s" "fits s1 []" "out = []" "r = Stopped"
    | (fault) f where "step pc s = Some (Inl f)" "r = Crashed f"
    unfolding step_match_def by blast
  then show ?case
  proof cases
    case more
    show ?thesis
    proof (rule run_ok_read_more [OF more(1) sv ft spec more(2)])
      fix s1
      assume s1: "serving (conn s1)" "input_left (conn s1) = input_left (conn s)"
        "rx_weight (rx (kern (conn s1))) < rx_weight (rx (kern (conn s)))" "fits s1 out"
        "spec pc (ghost s1) (ib_pos (read_buf (conn s1))) (input_left (conn s1)) = (out, r)"
      show "run_ok s1 out r (run pc s1)"
        by (rule 1(1) [OF _ s1(1,4,5)]) (unfold s1(2), use s1(3) in simp)
    qed
  next
    case goto
    have "run_ok s1 out1 r (run pc' s1)"
      by (rule 1(1) [OF _ goto(2,8,3)]) (use goto(4) in simp)
    with goto show ?thesis by (intro run_ok_goto [OF goto(1)]) simp_all
  next
    case break
    then show ?thesis
      using finish_ok [of s1] by (simp add: run_ok_def run_coroutine.simps [of step finish pc])
  next
    case fault
    then show ?thesis by (simp add: run_ok_def run_coroutine.simps [of step finish pc])
  qed
qed

text \<open>
  After a run that matches the specification, enough resumptions reach the specified end: each
  one gets past a pause.
\<close>

definition session_ok :: "'e list \<Rightarrow> 'pc outcome \<Rightarrow> ('pc option \<times> 's) res option \<Rightarrow> bool" where
  "session_ok out r res \<longleftrightarrow>
     (\<exists>pc s'. r = Waiting pc (ib_pos (read_buf (conn s'))) (ib_unread (read_buf (conn s'))) \<and>
        res = Some (Inr (Some pc, s')) \<and> \<not> conn_closed (conn s') \<and> out_of s' = out \<and> fits s' []) \<or>
     (\<exists>s'. r = Stopped \<and> res = Some (Inr (None, s')) \<and> conn_closed (conn s') \<and> out_of s' = out \<and> fits s' []) \<or>
     (\<exists>f. r = Crashed f \<and> res = Some (Inl f))"

lemma resume_times_None: "resume_times step finish conn n None s = Some (Inr (None, s))"
  by (cases n) simp_all

lemma serving_resume: "serving (conn s) \<Longrightarrow> resume_coroutine step finish conn (Some pc) s = run pc s"
  by (simp add: resume_coroutine_def serving_def conn_inv_def)

lemma run_ok_resume_times:
  assumes "run_ok s out r res" and "rx_pauses (rx (kern (conn s))) \<le> n"
  shows "session_ok (out_of s @ out) r (ro_bind res (\<lambda>(fr, s'). resume_times step finish conn n fr s'))"
  using assms
proof (induction n arbitrary: s out res)
  case 0
  then show ?case by (auto simp: run_ok_def session_ok_def serving_def conn_inv_def)
next
  case (Suc n)
  show ?case
  proof (cases "\<exists>pc' s'. res = Some (Inr (Some pc', s'))")
    case False
    with Suc.prems(1) show ?thesis by (auto simp: run_ok_def session_ok_def resume_times_None)
  next
    case True
    with Suc.prems(1) obtain pc' s' o0 o1 where
      *: "res = Some (Inr (Some pc', s'))" "serving (conn s')"
      "spec pc' (ghost s') (ib_pos (read_buf (conn s'))) (input_left (conn s')) = (o1, r)" "out = o0 @ o1"
      "out_of s' = out_of s @ o0" "fits s' o1"
      "rx (kern (conn s')) = [] \<or> rx_pauses (rx (kern (conn s'))) < rx_pauses (rx (kern (conn s)))"
      unfolding run_ok_def by blast
    have "run_ok s' o1 r (run pc' s')"
      using *(2,6,3) by (rule run_refines)
    moreover have "rx_pauses (rx (kern (conn s'))) \<le> n" using *(7) Suc.prems(2) by auto
    ultimately have "session_ok (out_of s' @ o1) r
        (ro_bind (run pc' s') (\<lambda>(fr, s'). resume_times step finish conn n fr s'))"
      by (rule Suc.IH)
    with *(1,2,4,5) show ?thesis by (simp add: serving_resume)
  qed
qed

end

end
