(* ===== verification/RpcServer.thy ===== *)
theory RpcServer
  imports RecvMachine
begin

section \<open>The server (src/server/rpc_server.h, src/server/rpc_server.cc)\<close>

text \<open>
  For every accepted connection the server runs \<open>send_fn\<close> (theory \<open>Connection\<close>) and
  \<open>recv_fn\<close>, which reads requests, calls the service and queues the responses. The model of
  \<open>recv_fn\<close> is a machine over its resume points: each of its four read loops is a point where
  it may suspend, and the local variables that are live there are the arguments of the
  constructor.

  A registered service is what the code uses of it: whether its descriptor has a method, how
  the method's request is parsed, what a call makes of it, and how the response is serialized.
\<close>

record 'm service =
  has_method :: "string \<Rightarrow> bool"
  parse_request :: "string \<Rightarrow> byte list \<Rightarrow> 'm option"
  call_method :: "string \<Rightarrow> 'm \<Rightarrow> 'm"
  serialize_response :: "'m \<Rightarrow> byte list"

record 'm rpc_server =
  parse_header :: "byte list \<Rightarrow> header option"
  serialize_header :: "header \<Rightarrow> byte list"
  name2service :: "string \<Rightarrow> 'm service option"

definition register_service :: "string \<Rightarrow> 'm service \<Rightarrow> 'm rpc_server \<Rightarrow> 'm rpc_server" where
  "register_service name service srv = srv\<lparr>name2service := (name2service srv)(name \<mapsto> service)\<rparr>"

datatype 'm recv_pc =
    R_header_len
  | R_header u32
  | R_request_len header
  | R_request header u32 "'m service" string

definition response_header :: "header \<Rightarrow> header" where
  "response_header h = \<lparr>magic = MAGIC_NUM, version = VERSION, message_type = RESPONSE,
     request_id = request_id h, service_name = None, method_name = None\<rparr>"

text \<open>The call and the response.\<close>

definition serve :: "'m rpc_server \<Rightarrow> header \<Rightarrow> 'm service \<Rightarrow> string \<Rightarrow> 'm \<Rightarrow> connection \<Rightarrow>
    connection res option" where
  "serve srv h service method request c =
     (let response = call_method service method request in
      ro_bind (write_message (write_buf c) (serialize_header srv (response_header h))) (\<lambda>ob1.
      ro_bind (write_message ob1 (serialize_response service response)) (\<lambda>ob2.
        resume_write (c\<lparr>write_buf := ob2\<rparr>))))"

text \<open>
  One pass through \<open>recv_fn\<close> from a resume point to the next: the condition of its read loop,
  and the code up to the next loop.
\<close>

fun recv_step :: "'m rpc_server \<Rightarrow> 'm recv_pc \<Rightarrow> connection \<Rightarrow> ('m recv_pc ctl \<times> connection) res option" where
  "recv_step srv R_header_len c =
     (if conn_read_bytes c < 4 \<and> \<not> conn_closed c then read_more R_header_len c
      else if conn_closed c \<and> conn_read_bytes c < 4 then Some (Inr (Break, c))
      else case fetch_len c of Inl e \<Rightarrow> Some (Inl e)
        | Inr (None, c') \<Rightarrow> Some (Inr (Break, c'))
        | Inr (Some len, c') \<Rightarrow> Some (Inr (Goto (R_header len), c')))"
| "recv_step srv (R_header header_len) c =
     (if conn_read_bytes c < ucast header_len \<and> \<not> conn_closed c then read_more (R_header header_len) c
      else if conn_closed c \<and> conn_read_bytes c < ucast header_len then Some (Inr (Break, c))
      else ro_bind (parse_from_stream (parse_header srv) (push_limit (read_buf c) (sint header_len))) (\<lambda>(r, ib).
        case r of None \<Rightarrow> Some (Inr (Break, c\<lparr>read_buf := ib\<rparr>))
        | Some h \<Rightarrow> (let c' = c\<lparr>read_buf := pop_limit ib\<rparr> in
            if magic h \<noteq> MAGIC_NUM then Some (Inr (Break, c'))
            else if version h \<noteq> VERSION then Some (Inr (Break, c'))
            else Some (Inr (Goto (R_request_len h), c')))))"
| "recv_step srv (R_request_len h) c =
     (if conn_read_bytes c < 4 \<and> \<not> conn_closed c then read_more (R_request_len h) c
      else if conn_closed c \<and> conn_read_bytes c < 4 then Some (Inr (Break, c))
      else case fetch_len c of Inl e \<Rightarrow> Some (Inl e)
        | Inr (None, c') \<Rightarrow> Some (Inr (Break, c'))
        | Inr (Some len, c') \<Rightarrow>
          (case name2service srv (get_string (service_name h)) of None \<Rightarrow> Some (Inr (Break, c'))
           | Some service \<Rightarrow>
             (if has_method service (get_string (method_name h))
              then Some (Inr (Goto (R_request h len service (get_string (method_name h))), c'))
              else Some (Inr (Break, c')))))"
| "recv_step srv (R_request h request_len service method) c =
     (if conn_read_bytes c < ucast request_len then read_more (R_request h request_len service method) c
      else if conn_closed c \<and> conn_read_bytes c < ucast request_len then Some (Inr (Break, c))
      else ro_bind (parse_from_stream (parse_request service method) (push_limit (read_buf c) (sint request_len))) (\<lambda>(r, ib).
        case r of None \<Rightarrow> Some (Inr (Break, c\<lparr>read_buf := ib\<rparr>))
        | Some request \<Rightarrow>
          ro_bind (serve srv h service method request (c\<lparr>read_buf := pop_limit ib\<rparr>)) (\<lambda>c'.
            Some (Inr (Goto R_header_len, c')))))"

declare recv_step.simps [simp del]

text \<open>The code after the loop.\<close>

definition recv_finish :: "connection \<Rightarrow> connection" where
  "recv_finish c = (if \<not> conn_closed c then conn_close c else c)"

definition recv_run :: "'m rpc_server \<Rightarrow> 'm recv_pc \<Rightarrow> connection \<Rightarrow>
    ('m recv_pc option \<times> connection) res option" where
  "recv_run srv = run_coroutine (recv_step srv) recv_finish"

definition recv_fn :: "'m rpc_server \<Rightarrow> connection \<Rightarrow> ('m recv_pc option \<times> connection) res option" where
  "recv_fn srv c = recv_run srv R_header_len (RegisterRead_suspend c)"

definition resume_read :: "'m rpc_server \<Rightarrow> 'm recv_pc option \<Rightarrow> connection \<Rightarrow>
    ('m recv_pc option \<times> connection) res option" where
  "resume_read srv = resume_coroutine (recv_step srv) recv_finish (\<lambda>c. c)"

text \<open>
  The start of a connection: the executor first runs the task of \<open>send_fn\<close>, then that of
  \<open>recv_fn\<close>.
\<close>

definition serve_connection :: "'m rpc_server \<Rightarrow> connection \<Rightarrow>
    ('m recv_pc option \<times> connection) res option" where
  "serve_connection srv c = ro_bind (send_fn S_loop c) (\<lambda>c'. recv_fn srv c')"

subsection \<open>Specification\<close>

text \<open>
  What the server makes of the bytes it receives, as a function of these bytes alone: the
  bytes it sends, and how it stands at the end of the input. It runs into undefined behaviour
  when a length straddles two blocks of the buffer.
\<close>

fun pc_rank :: "'m recv_pc \<Rightarrow> nat" where
  "pc_rank R_header_len = 0"
| "pc_rank (R_header _) = 1"
| "pc_rank (R_request_len _) = 0"
| "pc_rank (R_request _ _ _ _) = 1"

function server_spec :: "'m rpc_server \<Rightarrow> 'm recv_pc \<Rightarrow> int \<Rightarrow> byte list \<Rightarrow> byte list \<times> 'm recv_pc outcome" where
  "server_spec srv R_header_len pos bs =
     (if length bs < 4 then ([], Waiting R_header_len pos bs)
      else if \<not> aligned pos then ([], Crashed OutOfBounds)
      else server_spec srv (R_header (bytes_u32 (take 4 bs))) ((pos + 4) mod kBlockSize) (drop 4 bs))"
| "server_spec srv (R_header len) pos bs =
     (if length bs < unat len then ([], Waiting (R_header len) pos bs)
      else case parse_header srv (take (unat len) bs) of None \<Rightarrow> ([], Stopped)
        | Some h \<Rightarrow> if magic h \<noteq> MAGIC_NUM \<or> version h \<noteq> VERSION then ([], Stopped)
            else server_spec srv (R_request_len h) ((pos + int (unat len)) mod kBlockSize) (drop (unat len) bs))"
| "server_spec srv (R_request_len h) pos bs =
     (if length bs < 4 then ([], Waiting (R_request_len h) pos bs)
      else if \<not> aligned pos then ([], Crashed OutOfBounds)
      else case name2service srv (get_string (service_name h)) of None \<Rightarrow> ([], Stopped)
        | Some service \<Rightarrow> if has_method service (get_string (method_name h))
            then server_spec srv (R_request h (bytes_u32 (take 4 bs)) service (get_string (method_name h)))
              ((pos + 4) mod kBlockSize) (drop 4 bs)
            else ([], Stopped))"
| "server_spec srv (R_request h len service method) pos bs =
     (if length bs < unat len then ([], Waiting (R_request h len service method) pos bs)
      else case parse_request service method (take (unat len) bs) of None \<Rightarrow> ([], Stopped)
        | Some q \<Rightarrow> let (out, r) = server_spec srv R_header_len ((pos + int (unat len)) mod kBlockSize) (drop (unat len) bs)
            in (frame (serialize_header srv (response_header h)) @
                frame (serialize_response service (call_method service method q)) @ out, r))"
  by pat_completeness auto
termination
  by (relation "measure (\<lambda>(srv, pc, pos, bs). 3 * length bs + pc_rank pc)") auto

declare server_spec.simps [simp del]

subsection \<open>Refinement\<close>

text \<open>
  What has to hold of the writing side of a connection, with the output \<open>out\<close> still to come. The
  queue must not grow beyond what one \<open>writev\<close> describes. On request, the writer must have asked
  for a write event if it left bytes in the queue, and it must leave none while the kernel takes
  everything. A response has at least eight bytes, so one call per eight bytes is enough.
\<close>

definition writer_asks :: "connection \<Rightarrow> bool" where
  "writer_asks c \<longleftrightarrow> ob_pending (write_buf c) = [] \<or> send_frame c = S_loop \<and> EV_WRITE \<in> set (events c)"

definition sends_all :: "nat \<Rightarrow> connection \<Rightarrow> bool" where
  "sends_all n c \<longleftrightarrow> kind c = PollConnection \<and> ob_pending (write_buf c) = [] \<and> tx_open n (tx (kern c))"

definition out_fits :: "bool \<Rightarrow> bool \<Rightarrow> connection \<Rightarrow> byte list \<Rightarrow> bool" where
  "out_fits asks all c out \<longleftrightarrow> length (ob_pending (write_buf c)) + length out < 1023 * 8192 \<and>
     (asks \<longrightarrow> writer_asks c) \<and> (all \<longrightarrow> sends_all (length out div 8) c)"

lemma out_fits_same: "same_output c c' \<Longrightarrow> out_fits asks all c' = out_fits asks all c"
  by (simp add: same_output_def out_fits_def writer_asks_def sends_all_def fun_eq_iff)

lemma writer_effect_fits:
  assumes "writer_effect c c'" and "sends_all n c \<or> kind c = PollConnection \<and> tx_open (Suc n) (tx (kern c)) \<and>
      length (ob_pending (write_buf c)) < 2 ^ 31"
  shows "sends_all n c'"
  using assms tx_open_first [of n "tx (kern c)" "length (ob_pending (write_buf c))"] tx_open_less [of "Suc n" "tx (kern c)" n]
  by (auto simp: writer_effect_def sends_all_def)

lemma serve_ok:
  assumes sv: "serving c" and ft: "out_fits asks all c (out @ out1)"
    and out: "out = frame (serialize_header srv (response_header h)) @
      frame (serialize_response service (call_method service method req))"
  shows "\<exists>c'. serve srv h service method req c = Some (Inr c') \<and> serving c' \<and>
    output_of c' = output_of c @ out \<and> read_buf c' = read_buf c \<and> rx (kern c') = rx (kern c) \<and> out_fits asks all c' out1"
proof -
  have inv: "conn_inv c" and st: "tx_steady (tx (kern c))" using sv by (simp_all add: serving_def)
  have q: "length (ob_pending (write_buf c)) + length out + length out1 < 1023 * 8192" using ft by (simp add: out_fits_def)
  then have "small_queue (ob_pending (write_buf c) @ out)" by simp
  then obtain ob1 ob2 c' where c': "write_message (write_buf c) (serialize_header srv (response_header h)) = Some (Inr ob1)"
    "write_message ob1 (serialize_response service (call_method service method req)) = Some (Inr ob2)"
    "resume_write (c\<lparr>write_buf := ob2\<rparr>) = Some (Inr c')" "writer_effect (c\<lparr>write_buf := ob2\<rparr>) c'"
    "ob_pending ob2 = ob_pending (write_buf c) @ out"
    by (rule write_pair_ok [OF inv st out])
  have "sends_all (length out1 div 8) c'" if "all"
  proof (rule writer_effect_fits [OF c'(4)])
    have "8 + length out1 \<le> length (out @ out1)" by (simp add: out frame_def)
    then have "Suc (length out1 div 8) \<le> length (out @ out1) div 8" using div_le_mono [of "8 + length out1" _ 8] by simp
    then show "sends_all (length out1 div 8) (c\<lparr>write_buf := ob2\<rparr>) \<or> kind (c\<lparr>write_buf := ob2\<rparr>) = PollConnection \<and>
        tx_open (Suc (length out1 div 8)) (tx (kern (c\<lparr>write_buf := ob2\<rparr>))) \<and> length (ob_pending (write_buf (c\<lparr>write_buf := ob2\<rparr>))) < 2 ^ 31"
      using that ft q c'(5) tx_open_less [of "length (out @ out1) div 8" "tx (kern c)" "Suc (length out1 div 8)"]
      by (simp add: out_fits_def sends_all_def)
  qed
  moreover have "writer_asks c'" using c'(4) by (simp add: writer_effect_def writer_asks_def)
  moreover have "length (ob_pending (write_buf c')) \<le> length (ob_pending (write_buf c)) + length out"
    using c'(4,5) by (simp add: writer_effect_def)
  ultimately have "out_fits asks all c' out1" using q by (simp add: out_fits_def)
  with c' show ?thesis
    using sv by (auto simp: serve_def serving_def writer_effect_def output_of_def)
qed

lemma recv_finish_ok:
  "conn_closed (recv_finish c) \<and> output_of (recv_finish c) = output_of c \<and>
   (out_fits asks all c [] \<longrightarrow> out_fits asks all (recv_finish c) [])"
proof -
  have "same_output c (recv_finish c)"
    by (simp add: recv_finish_def conn_close_def same_output_def socket_close_def)
  then show ?thesis
    by (simp add: out_fits_same) (simp add: recv_finish_def conn_close_def conn_closed_def output_of_def)
qed

text \<open>The law of the interface: one step of \<open>recv_fn\<close> and one step of the specification.\<close>

abbreviation step_matches :: "bool \<Rightarrow> bool \<Rightarrow> 'm rpc_server \<Rightarrow> 'm recv_pc \<Rightarrow> connection \<Rightarrow> byte list \<Rightarrow> 'm recv_pc outcome \<Rightarrow> bool" where
  "step_matches asks all srv \<equiv> step_match (recv_step srv) (\<lambda>c. c) (\<lambda>c _. c) (\<lambda>pc (_ :: unit). server_spec srv pc)
     (\<lambda>_. ()) output_of (out_fits asks all) pc_rank"

lemma read_more_id: "ro_bind (read_more pc c) (\<lambda>(ctl, c'). Some (Inr (ctl, c'))) = read_more pc c"
  by (simp add: ro_bind_def split: option.splits sum.splits)

lemmas server_more = step_match_more [where step = "recv_step srv" and conn = "\<lambda>c. c" and put = "\<lambda>c _. c"
    and spec = "\<lambda>pc (_ :: unit). server_spec srv pc" and ghost = "\<lambda>_. ()" and out_of = output_of
    and fits = "out_fits asks all" and rank = pc_rank] for srv :: "'m rpc_server" and asks all

lemmas server_goto = step_match_goto [where step = "recv_step srv" and conn = "\<lambda>c. c" and put = "\<lambda>c _. c"
    and spec = "\<lambda>pc (_ :: unit). server_spec srv pc" and ghost = "\<lambda>_. ()" and out_of = output_of
    and fits = "out_fits asks all" and rank = pc_rank] for srv :: "'m rpc_server" and asks all

lemmas server_break = step_match_break [where step = "recv_step srv" and conn = "\<lambda>c. c" and put = "\<lambda>c _. c"
    and spec = "\<lambda>pc (_ :: unit). server_spec srv pc" and ghost = "\<lambda>_. ()" and out_of = output_of
    and fits = "out_fits asks all" and rank = pc_rank] for srv :: "'m rpc_server" and asks all

lemmas server_fault = step_match_fault [where step = "recv_step srv" and conn = "\<lambda>c. c" and put = "\<lambda>c _. c"
    and spec = "\<lambda>pc (_ :: unit). server_spec srv pc" and ghost = "\<lambda>_. ()" and out_of = output_of
    and fits = "out_fits asks all" and rank = pc_rank] for srv :: "'m rpc_server" and asks all

lemma header_len_matches:
  assumes sv: "serving c" and ft: "out_fits asks all c out"
    and spec: "server_spec srv R_header_len (ib_pos (read_buf c)) (input_left c) = (out, r)"
  shows "step_matches asks all srv R_header_len c out r"
proof (cases "length (ib_unread (read_buf c)) < 4")
  case True
  with serving_read_bytes [OF sv] show ?thesis
    by (intro server_more) (simp_all add: recv_step.simps server_spec.simps read_more_id)
next
  case False
  then have len: "4 \<le> length (ib_unread (read_buf c))" by simp
  note rb = serving_read_bytes [OF sv]
  show ?thesis
  proof (cases "aligned (ib_pos (read_buf c))")
    case True
    from fetch_len_ok(1) [OF sv len True] obtain c1 where
      c1: "fetch_len c = Inr (Some (bytes_u32 (take 4 (input_left c))), c1)" "serving c1"
      "input_left c1 = drop 4 (input_left c)" "ib_pos (read_buf c1) = (ib_pos (read_buf c) + 4) mod kBlockSize"
      "kern c1 = kern c" "write_buf c1 = write_buf c" "same_output c c1" by blast
    have st: "recv_step srv R_header_len c = Some (Inr (Goto (R_header (bytes_u32 (take 4 (input_left c)))), c1))"
      using False rb c1(1) by (simp add: recv_step.simps)
    show ?thesis
      by (rule server_goto [OF st c1(2), of out _ "[]"])
        (use c1 spec ft len True output_of_same [OF c1(5,6)] out_fits_same [OF c1(7)] in \<open>auto simp: server_spec.simps(1)\<close>)
  next
    case un: False
    show ?thesis
      by (rule server_fault [of _ _ _ OutOfBounds])
        (use fetch_len_ok(2) [OF sv len un] rb False un spec in \<open>auto simp: recv_step.simps server_spec.simps(1)\<close>)
  qed
qed

lemma request_len_matches:
  assumes sv: "serving c" and ft: "out_fits asks all c out"
    and spec: "server_spec srv (R_request_len h) (ib_pos (read_buf c)) (input_left c) = (out, r)"
  shows "step_matches asks all srv (R_request_len h) c out r"
proof (cases "length (ib_unread (read_buf c)) < 4")
  case True
  with serving_read_bytes [OF sv] show ?thesis
    by (intro server_more) (simp_all add: recv_step.simps server_spec.simps read_more_id)
next
  case False
  then have len: "4 \<le> length (ib_unread (read_buf c))" by simp
  note rb = serving_read_bytes [OF sv]
  show ?thesis
  proof (cases "aligned (ib_pos (read_buf c))")
    case True
    let ?n = "bytes_u32 (take 4 (input_left c))" and ?m = "get_string (method_name h)"
    from fetch_len_ok(1) [OF sv len True] obtain c1 where
      c1: "fetch_len c = Inr (Some ?n, c1)" "serving c1"
      "input_left c1 = drop 4 (input_left c)" "ib_pos (read_buf c1) = (ib_pos (read_buf c) + 4) mod kBlockSize"
      "kern c1 = kern c" "write_buf c1 = write_buf c" "same_output c c1" by blast
    note out = output_of_same [OF c1(5,6)] and fits = out_fits_same [OF c1(7)]
    show ?thesis
    proof (cases "\<exists>service. name2service srv (get_string (service_name h)) = Some service \<and> has_method service ?m")
      case ok: True
      then obtain service where s: "name2service srv (get_string (service_name h)) = Some service" "has_method service ?m"
        by blast
      have st: "recv_step srv (R_request_len h) c = Some (Inr (Goto (R_request h ?n service ?m), c1))"
        using False rb c1(1) s by (simp add: recv_step.simps)
      show ?thesis
        by (rule server_goto [OF st c1(2), of out _ "[]"])
          (use c1 spec ft len True out fits s in \<open>auto simp: server_spec.simps(3)\<close>)
    next
      case bad: False
      show ?thesis
        by (rule server_break [of _ _ _ c1])
          (use bad False rb c1(1) spec True len out ft fits in
            \<open>auto simp: recv_step.simps server_spec.simps(3) split: option.splits if_splits\<close>)
    qed
  next
    case un: False
    show ?thesis
      by (rule server_fault [of _ _ _ OutOfBounds])
        (use fetch_len_ok(2) [OF sv len un] rb False un spec in \<open>auto simp: recv_step.simps server_spec.simps(3)\<close>)
  qed
qed

lemma header_matches:
  assumes sv: "serving c" and ft: "out_fits asks all c out"
    and spec: "server_spec srv (R_header len) (ib_pos (read_buf c)) (input_left c) = (out, r)"
  shows "step_matches asks all srv (R_header len) c out r"
proof (cases "length (ib_unread (read_buf c)) < unat len")
  case True
  with serving_read_bytes [OF sv] show ?thesis
    by (intro server_more) (simp_all add: recv_step.simps server_spec.simps read_more_id)
next
  case False
  let ?m = "take (unat len) (input_left c)"
  from False have len: "unat len \<le> length (ib_unread (read_buf c))" by simp
  then have len': "\<not> length (input_left c) < unat len" by simp
  obtain ib where ib: "parse_from_stream (parse_header srv) (push_limit (read_buf c) (sint len))
      = Some (Inr (parse_header srv ?m, ib))"
    and ok: "\<forall>ib' \<in> {ib, pop_limit ib}. serving (c\<lparr>read_buf := ib'\<rparr>) \<and>
      input_left (c\<lparr>read_buf := ib'\<rparr>) = drop (unat len) (input_left c) \<and>
      ib_pos ib' = (ib_pos (read_buf c) + int (unat len)) mod kBlockSize"
    by (rule parse_run [OF sv len])
  define c1 where up: "c1 = c\<lparr>read_buf := pop_limit ib\<rparr>"
  have c1: "serving c1" "input_left c1 = drop (unat len) (input_left c)"
      "ib_pos (read_buf c1) = (ib_pos (read_buf c) + int (unat len)) mod kBlockSize"
      "kern c1 = kern c" "write_buf c1 = write_buf c"
    using ok by (simp_all add: up)
  note out = output_of_same [OF c1(4,5)]
  have fits: "out_fits asks all (c\<lparr>read_buf := ib'\<rparr>) = out_fits asks all c" for ib' by (rule out_fits_same) simp
  have st: "recv_step srv (R_header len) c = (case parse_header srv ?m of
      None \<Rightarrow> Some (Inr (Break, c\<lparr>read_buf := ib\<rparr>))
    | Some h \<Rightarrow> Some (Inr (if magic h \<noteq> MAGIC_NUM \<or> version h \<noteq> VERSION then Break
        else Goto (R_request_len h), c1)))"
    using False serving_read_bytes [OF sv] ib up by (simp add: recv_step.simps Let_def split: option.splits)
  show ?thesis
  proof (cases "\<exists>h. parse_header srv ?m = Some h \<and> magic h = MAGIC_NUM \<and> version h = VERSION")
    case True
    then obtain h where h: "parse_header srv ?m = Some h" "magic h = MAGIC_NUM" "version h = VERSION" by blast
    then have go: "recv_step srv (R_header len) c = Some (Inr (Goto (R_request_len h), c1))" by (simp add: st)
    show ?thesis
      by (rule server_goto [OF go c1(1), of out _ "[]"])
        (use c1 spec ft h len' out in \<open>auto simp: server_spec.simps(2) up fits\<close>)
  next
    case bad: False
    have stop: "(out, r) = ([], Stopped)"
      using spec bad len' by (auto simp: server_spec.simps(2) split: option.splits if_splits)
    have "\<exists>c2. recv_step srv (R_header len) c = Some (Inr (Break, c2)) \<and> output_of c2 = output_of c \<and> out_fits asks all c2 []"
      using bad out ft stop by (auto simp: st output_of_def up fits split: option.splits)
    with stop show ?thesis using server_break by metis
  qed
qed

lemma request_matches:
  assumes sv: "serving c" and ft: "out_fits asks all c out"
    and spec: "server_spec srv (R_request h len service method) (ib_pos (read_buf c)) (input_left c) = (out, r)"
  shows "step_matches asks all srv (R_request h len service method) c out r"
proof (cases "length (ib_unread (read_buf c)) < unat len")
  case True
  with serving_read_bytes [OF sv] show ?thesis
    by (intro server_more) (simp_all add: recv_step.simps server_spec.simps read_more_id)
next
  case False
  let ?m = "take (unat len) (input_left c)"
  from False have len: "unat len \<le> length (ib_unread (read_buf c))" by simp
  then have len': "\<not> length (input_left c) < unat len" by simp
  obtain ib where ib: "parse_from_stream (parse_request service method) (push_limit (read_buf c) (sint len))
      = Some (Inr (parse_request service method ?m, ib))"
    and ok: "\<forall>ib' \<in> {ib, pop_limit ib}. serving (c\<lparr>read_buf := ib'\<rparr>) \<and>
      input_left (c\<lparr>read_buf := ib'\<rparr>) = drop (unat len) (input_left c) \<and>
      ib_pos ib' = (ib_pos (read_buf c) + int (unat len)) mod kBlockSize"
    by (rule parse_run [OF sv len])
  define c1 where up: "c1 = c\<lparr>read_buf := pop_limit ib\<rparr>"
  have c1: "serving c1" "input_left c1 = drop (unat len) (input_left c)"
      "ib_pos (read_buf c1) = (ib_pos (read_buf c) + int (unat len)) mod kBlockSize"
      "kern c1 = kern c" "write_buf c1 = write_buf c"
    using ok by (simp_all add: up)
  have st: "recv_step srv (R_request h len service method) c = (case parse_request service method ?m of
      None \<Rightarrow> Some (Inr (Break, c\<lparr>read_buf := ib\<rparr>))
    | Some q \<Rightarrow> ro_bind (serve srv h service method q c1) (\<lambda>c'. Some (Inr (Goto R_header_len, c'))))"
    using False serving_read_bytes [OF sv] ib up by (simp add: recv_step.simps Let_def split: option.splits)
  show ?thesis
  proof (cases "parse_request service method ?m")
    case None
    then show ?thesis
      using st spec len' ft out_fits_same [of c "c\<lparr>read_buf := ib\<rparr>" asks all]
      by (intro server_break [of _ _ _ "c\<lparr>read_buf := ib\<rparr>"]) (simp_all add: server_spec.simps(4) output_of_def)
  next
    case (Some q)
    define resp where "resp = frame (serialize_header srv (response_header h)) @
      frame (serialize_response service (call_method service method q))"
    from spec Some len' obtain out1 where out: "out = resp @ out1"
      and spec1: "server_spec srv R_header_len (ib_pos (read_buf c1)) (input_left c1) = (out1, r)"
      by (auto simp: server_spec.simps(4) resp_def c1(2,3) split: prod.splits)
    have "out_fits asks all c1 (resp @ out1)"
      using ft out_fits_same [of c c1 asks all] out by (simp add: up)
    from serve_ok [OF c1(1) this resp_def] obtain c2 where
      c2: "serve srv h service method q c1 = Some (Inr c2)" "serving c2" "output_of c2 = output_of c1 @ resp"
        "read_buf c2 = read_buf c1" "rx (kern c2) = rx (kern c1)" "out_fits asks all c2 out1" by blast
    have go: "recv_step srv (R_request h len service method) c = Some (Inr (Goto R_header_len, c2))"
      using Some c2(1) by (simp add: st)
    have left: "input_left c2 = input_left c1" using c2(4,5) by simp
    show ?thesis
      by (rule server_goto [OF go c2(2), of out1 _ resp])
        (use c1 c2 spec1 out left output_of_same [OF c1(4,5)] in auto)
  qed
qed

lemma recv_step_matches:
  assumes "serving c" and "server_spec srv pc (ib_pos (read_buf c)) (input_left c) = (out, r)" and "out_fits asks all c out"
  shows "step_matches asks all srv pc c out r"
  using assms by (cases pc) (simp_all add: header_len_matches header_matches request_len_matches request_matches)

interpretation server: recv_machine "recv_step srv" recv_finish "\<lambda>c. c" "\<lambda>c _. c"
  "\<lambda>pc (_ :: unit). server_spec srv pc" "\<lambda>_. ()" output_of "out_fits asks all" pc_rank for srv asks all
proof unfold_locales
  fix c c' :: connection
  show "same_output c' c \<Longrightarrow> output_of c = output_of c' \<and> () = () \<and> out_fits asks all c = out_fits asks all c'"
    using out_fits_same [of c' c] by (simp add: output_of_def same_output_def)
qed (simp_all add: recv_finish_ok recv_step_matches)

subsection \<open>Sessions\<close>

text \<open>
  A connection from its start: both coroutines are started, and the reading one is resumed
  \<open>n\<close> times as long as it is suspended.
\<close>

definition session :: "'m rpc_server \<Rightarrow> nat \<Rightarrow> connection \<Rightarrow> ('m recv_pc option \<times> connection) res option" where
  "session srv n c = ro_bind (serve_connection srv c) (\<lambda>(fr, c').
     resume_times (recv_step srv) recv_finish (\<lambda>c. c) n fr c')"

text \<open>
  A connection has sent \<open>out\<close>: what the kernel has not taken yet is queued, and then the writer has
  asked for a write event and waits for it; nothing is queued when the kernel took \<open>all\<close> it was
  given.
\<close>

definition has_sent :: "bool \<Rightarrow> byte list \<Rightarrow> connection \<Rightarrow> bool" where
  "has_sent all out c \<longleftrightarrow> wire (kern c) @ ob_pending (write_buf c) = out \<and> writer_asks c \<and> (all \<longrightarrow> wire (kern c) = out)"

lemma out_fits_has_sent: "out_fits True all c [] \<Longrightarrow> output_of c = out \<Longrightarrow> has_sent all out c"
  by (auto simp: has_sent_def out_fits_def sends_all_def output_of_def)

text \<open>How a session must end.\<close>

definition session_ok :: "bool \<Rightarrow> byte list \<Rightarrow> 'm recv_pc outcome \<Rightarrow> ('m recv_pc option \<times> connection) res option \<Rightarrow> bool" where
  "session_ok all out r res \<longleftrightarrow> (case r of
     Waiting pc pos rest \<Rightarrow> (\<exists>c'. res = Some (Inr (Some pc, c')) \<and> \<not> conn_closed c' \<and>
        ib_unread (read_buf c') = rest \<and> has_sent all out c')
   | Stopped \<Rightarrow> (\<exists>c'. res = Some (Inr (None, c')) \<and> conn_closed c' \<and> has_sent all out c')
   | Crashed f \<Rightarrow> res = Some (Inl f))"

text \<open>A connection as the server makes it for an accepted poll socket.\<close>

definition fresh_conn :: "connection \<Rightarrow> bool" where
  "fresh_conn c \<longleftrightarrow> (\<exists>s dummy this r j. c = Connection PollConnection s dummy this r j \<and>
     \<not> sock_closed s \<and> \<not> shut_wr (os s) \<and> wire (os s) = [])"

lemma serve_connection_fresh:
  assumes "fresh_conn c" and "rx_live (rx (kern c))" and "tx_steady (tx (kern c))"
    and "length (rx_stream (rx (kern c))) < 2 ^ 31 - 1"
  shows "\<exists>c0 c1. c0 = c\<lparr>write_handle := True, send_frame := S_write\<rparr> \<and> c1 = RegisterRead_suspend c0 \<and>
    send_fn S_loop c = Some (Inr c0) \<and>
    serve_connection srv c = recv_run srv R_header_len c1 \<and> serving c1 \<and> output_of c1 = [] \<and>
    ob_pending (write_buf c1) = [] \<and> input_left c1 = rx_stream (rx (kern c)) \<and> ib_pos (read_buf c1) = 0 \<and>
    rx (kern c1) = rx (kern c) \<and> tx (kern c1) = tx (kern c) \<and> kind c1 = PollConnection"
proof -
  from assms(1) obtain s dummy this rg j where c: "c = Connection PollConnection s dummy this rg j"
    and s: "\<not> sock_closed s" "\<not> shut_wr (os s)" "wire (os s) = []" by (auto simp: fresh_conn_def)
  let ?c1 = "RegisterRead_suspend (c\<lparr>write_handle := True, send_frame := S_write\<rparr>)"
  have "to_write_bytes (OutputBuffer j) = 0" by (simp add: OutputBuffer_def new_block_def)
  then have sf: "send_fn S_loop c = Some (Inr (c\<lparr>write_handle := True, send_frame := S_write\<rparr>))"
    using s by (simp add: send_fn.simps c Connection_def conn_closed_def WaitWrite_ready_def
        conn_write_bytes_def ob_bytes_def WaitWrite_suspend_def)
  then have "serve_connection srv c = recv_run srv R_header_len ?c1"
    by (simp add: serve_connection_def recv_fn_def)
  moreover have "serving ?c1"
    using s assms(2-4) InputBuffer_inv [of j] OutputBuffer_inv [of j] InputBuffer_unread [of j]
    by (simp add: serving_def conn_inv_def RegisterRead_suspend_def add_event_def c Connection_def conn_closed_def)
  moreover have "ib_pos (InputBuffer j) = 0"
    by (simp add: ib_pos_def InputBuffer_def new_block_def load_def upd_def)
  ultimately show ?thesis
    using s sf OutputBuffer_pending [of j] InputBuffer_unread [of j]
    by (intro exI [of _ "c\<lparr>write_handle := True, send_frame := S_write\<rparr>"] exI [of _ ?c1]) (simp add: RegisterRead_suspend_def add_event_def c Connection_def output_of_def)
qed

text \<open>The contract of the interface, applied to a fresh connection.\<close>

lemma session_refines:
  assumes "fresh_conn c" and "rx_live (rx (kern c))" and "tx_steady (tx (kern c))"
    and "length (rx_stream (rx (kern c))) < 2 ^ 31 - 1" and "rx_pauses (rx (kern c)) \<le> n"
    and "server_spec srv R_header_len 0 (rx_stream (rx (kern c))) = (out, r)" and "length out < 1023 * 8192"
  shows "session_ok (tx_open (length out div 8) (tx (kern c))) out r (session srv n c)"
proof -
  let ?all = "tx_open (length out div 8) (tx (kern c))"
  from serve_connection_fresh [OF assms(1-4), of srv] obtain c1 where
    c1: "serve_connection srv c = recv_run srv R_header_len c1" "serving c1" "output_of c1 = []"
      "ob_pending (write_buf c1) = []" "input_left c1 = rx_stream (rx (kern c))" "ib_pos (read_buf c1) = 0"
      "rx (kern c1) = rx (kern c)" "tx (kern c1) = tx (kern c)" "kind c1 = PollConnection" by blast
  have "server.run_ok srv True ?all c1 out r (server.run srv R_header_len c1)"
    by (rule server.run_refines [OF c1(2)])
      (use c1(4-9) assms(6,7) in \<open>simp_all add: out_fits_def writer_asks_def sends_all_def\<close>)
  from server.run_ok_resume_times [OF this, of n] c1 assms(5) show ?thesis
    by (auto simp: session_def session_ok_def server.session_ok_def recv_run_def intro: out_fits_has_sent)
qed

subsection \<open>Pipelined requests\<close>

text \<open>
  The answer to a request given by the bytes of its header and of its body, when it is one the
  server can serve.
\<close>

definition answer :: "'m rpc_server \<Rightarrow> byte list \<Rightarrow> byte list \<Rightarrow> byte list option" where
  "answer srv hb qb = (case parse_header srv hb of None \<Rightarrow> None
     | Some h \<Rightarrow> if magic h \<noteq> MAGIC_NUM \<or> version h \<noteq> VERSION then None
        else case name2service srv (get_string (service_name h)) of None \<Rightarrow> None
        | Some service \<Rightarrow> let m = get_string (method_name h) in
            if has_method service m
            then map_option (\<lambda>q. frame (serialize_header srv (response_header h)) @
                frame (serialize_response service (call_method service m q))) (parse_request service m qb)
            else None)"

fun answers_bytes :: "'m rpc_server \<Rightarrow> (byte list \<times> byte list) list \<Rightarrow> byte list" where
  "answers_bytes srv [] = []"
| "answers_bytes srv ((hb, qb) # ms) = the (answer srv hb qb) @ answers_bytes srv ms"

lemma server_spec_request:
  assumes "answer srv hb qb = Some resp" and "length hb < 2 ^ 32" and "length qb < 2 ^ 32"
    and "aligned pos" and "aligned (pos + 4 + int (length hb))"
  shows "server_spec srv R_header_len pos (frame hb @ frame qb @ rest) =
    (let (out, r) = server_spec srv R_header_len ((pos + 8 + int (length hb) + int (length qb)) mod kBlockSize) rest
     in (resp @ out, r))"
proof -
  from assms(1) obtain h service q where h: "parse_header srv hb = Some h" "magic h = MAGIC_NUM" "version h = VERSION"
    "name2service srv (get_string (service_name h)) = Some service" "has_method service (get_string (method_name h))"
    "parse_request service (get_string (method_name h)) qb = Some q"
    and resp: "resp = frame (serialize_header srv (response_header h)) @
      frame (serialize_response service (call_method service (get_string (method_name h)) q))"
    by (auto simp: answer_def Let_def split: option.splits if_splits)
  let ?p1 = "(pos + 4) mod kBlockSize"
  let ?p2 = "(?p1 + int (length hb)) mod kBlockSize"
  have p2: "aligned ?p2" using assms(5) by (simp add: aligned_def mod_simps algebra_simps)
  have p4: "((?p2 + 4) mod kBlockSize + int (length qb)) mod kBlockSize
      = (pos + 8 + int (length hb) + int (length qb)) mod kBlockSize"
    by (simp add: mod_simps algebra_simps)
  have "server_spec srv R_header_len pos (frame hb @ frame qb @ rest)
      = server_spec srv (R_header (of_nat (length hb))) ?p1 (hb @ frame qb @ rest)"
    using assms(4) by (subst server_spec.simps(1)) (simp add: frame_split)
  also have "\<dots> = server_spec srv (R_request_len h) ?p2 (frame qb @ rest)"
    using h assms(2) by (subst server_spec.simps(2)) (simp add: unat_of_nat_u32)
  also have "\<dots> = server_spec srv (R_request h (of_nat (length qb)) service (get_string (method_name h)))
      ((?p2 + 4) mod kBlockSize) (qb @ rest)"
    using h p2 by (subst server_spec.simps(3)) (simp add: frame_split)
  also have "\<dots> = (let (out, r) = server_spec srv R_header_len ((pos + 8 + int (length hb) + int (length qb)) mod kBlockSize) rest
     in (resp @ out, r))"
    using h assms(3) by (subst server_spec.simps(4)) (simp add: unat_of_nat_u32 p4 resp split: prod.splits)
  finally show ?thesis .
qed

lemma server_spec_requests:
  assumes "\<forall>(hb, qb) \<in> set ms. answer srv hb qb \<noteq> None \<and> length hb < 2 ^ 32 \<and> length qb < 2 ^ 32"
    and "lengths_aligned pos ms" and "0 \<le> pos" and "pos < kBlockSize"
  shows "server_spec srv R_header_len pos (pairs_bytes ms) =
    (answers_bytes srv ms, Waiting R_header_len ((pos + int (length (pairs_bytes ms))) mod kBlockSize) [])"
  using assms
proof (induction ms arbitrary: pos)
  case Nil
  then show ?case by (simp add: server_spec.simps)
next
  case (Cons m ms)
  obtain hb qb where m: "m = (hb, qb)" by fastforce
  with Cons.prems(1) obtain resp where a: "answer srv hb qb = Some resp" "length hb < 2 ^ 32" "length qb < 2 ^ 32"
    by auto
  let ?p = "(pos + 8 + int (length hb) + int (length qb)) mod kBlockSize"
  have al: "aligned pos" "aligned (pos + 4 + int (length hb))" "lengths_aligned ?p ms"
    using Cons.prems(2) m by (simp_all add: lengths_aligned_mod)
  have "server_spec srv R_header_len ?p (pairs_bytes ms) =
      (answers_bytes srv ms, Waiting R_header_len ((?p + int (length (pairs_bytes ms))) mod kBlockSize) [])"
    using Cons.prems(1) al(3) by (intro Cons.IH) (auto simp: kBlockSize_def)
  moreover have "(?p + int (length (pairs_bytes ms))) mod kBlockSize
      = (pos + int (length (pairs_bytes (m # ms)))) mod kBlockSize"
    by (simp add: m frame_split(3) mod_simps algebra_simps)
  ultimately show ?case
    using server_spec_request [OF a al(1,2), of "pairs_bytes ms"] a(1) by (simp add: m)
qed

subsection \<open>The end of the stream\<close>

text \<open>A connection whose writer has nothing to do, as every served connection between two responses.\<close>

definition idle_conn :: "connection \<Rightarrow> bool" where
  "idle_conn c \<longleftrightarrow> kind c = PollConnection \<and> ib_inv (read_buf c) \<and> ob_inv (write_buf c) \<and>
     ob_pending (write_buf c) = [] \<and> write_handle c \<and> \<not> conn_closed c \<and> send_frame c \<noteq> S_done"

lemma resume_write_closed:
  assumes "kind c = PollConnection" and "ob_inv (write_buf c)" and "ob_pending (write_buf c) = []"
    and "write_handle c" and "conn_closed c"
  shows "resume_write c = (if send_frame c = S_done then Some (Inl UseAfterFree)
    else Some (Inr (c\<lparr>send_frame := S_done\<rparr>)))"
proof -
  have "ob_bytes (write_buf c) = 0"
    using assms(2,3) by (simp add: ob_inv_def ob_bytes_def word_unat_eq_iff)
  then have "async_write c = Some (Inr (False, c))"
    using assms(1) by (simp add: async_write_def poll_async_write_def to_int32_def write_loop_done send_add_def)
  moreover have "send_fn S_loop c = Some (Inr (c\<lparr>send_frame := S_done\<rparr>))"
    using assms(5) by (simp add: send_fn.simps)
  ultimately have "send_fn S_write c = Some (Inr (c\<lparr>send_frame := S_done\<rparr>))"
    by (simp add: send_fn.simps [of S_write])
  with \<open>send_fn S_loop c = _\<close> assms(4) show ?thesis
    by (cases "send_frame c") (simp_all add: resume_write_def send_fn.simps [of S_done])
qed

lemma read_loop_fin:
  assumes "rx (os s) = RxFin # es" and "0 < m"
  shows "read_loop ib s d m n = Inr (ib, socket_close s, n)"
proof -
  have eq: "s\<lparr>os := (os s)\<lparr>rx := RxFin # es\<rparr>\<rparr> = s" using assms(1) by (cases s; cases "os s") simp
  show ?thesis using assms by (simp add: read_loop.simps os_read_def) (simp only: eq)
qed

lemma await_read_fin:
  assumes c: "kind c = PollConnection" "ib_inv (read_buf c)" "ob_inv (write_buf c)"
      "ob_pending (write_buf c) = []" "write_handle c"
    and rx: "rx (kern c) = RxFin # es"
  shows "await_read c = (if send_frame c = S_done then Some (Inl UseAfterFree)
    else Some (Inr (False, add_event EV_DELETE (c\<lparr>sock := socket_close (sock c), send_frame := S_done\<rparr>))))"
proof -
  from get_buffer_ok [OF c(2)] obtain d room where gb: "get_buffer (read_buf c) = Inr (d, room)" "0 < room"
    by blast
  let ?c1 = "c\<lparr>read_buf := read_buf c, sock := socket_close (sock c)\<rparr>"
  have rw: "resume_write ?c1 = (if send_frame c = S_done then Some (Inl UseAfterFree)
      else Some (Inr (?c1\<lparr>send_frame := S_done\<rparr>)))"
    using resume_write_closed [of ?c1] c by (simp add: conn_closed_def)
  show ?thesis
    using c(1) gb read_loop_fin [OF rx gb(2)] rw
    by (simp add: await_read_def async_read_def poll_async_read_def conn_closed_def Read_suspend_def
        recv_add_def)
qed

subsection \<open>Properties\<close>

text \<open>An echo server with a small codec, for the witnesses: messages are byte lists.\<close>

definition echo_header :: header where
  "echo_header = \<lparr>magic = MAGIC_NUM, version = VERSION, message_type = REQUEST, request_id = 7,
     service_name = Some ''EchoService'', method_name = Some ''Echo''\<rparr>"

definition echo_server :: "byte list rpc_server" where
  "echo_server = register_service ''EchoService''
     \<lparr>has_method = (\<lambda>m. m = ''Echo''), parse_request = (\<lambda>_ bs. Some bs),
      call_method = (\<lambda>_ bs. 0 # bs), serialize_response = (\<lambda>bs. bs)\<rparr>
     \<lparr>parse_header = (\<lambda>bs. if bs = [1] then Some echo_header else None),
      serialize_header = (\<lambda>h. [word_of_int (request_id h)]), name2service = (\<lambda>_. None)\<rparr>"

lemma echo_answer: "answer echo_server [1] qb = Some (frame [7] @ frame (0 # qb))"
  by (simp add: answer_def echo_server_def register_service_def echo_header_def response_header_def
      get_string_def)

definition fresh_example :: "rx_event list \<Rightarrow> tx_event list \<Rightarrow> connection" where
  "fresh_example es ts = Connection PollConnection
     (Socket (\<lambda>_. (0, 0)) (\<lambda>_. (0, 0)) (\<lambda>_. []) \<lparr>rx = es, tx = ts, wire = [], shut_wr = False\<rparr> 5)
     False 0 \<lparr>sq_entries = 16384, sq = [], submitted = []\<rparr> (\<lambda>_ _. 0)"

lemma fresh_example_facts:
  "fresh_conn (fresh_example es ts)" "rx (kern (fresh_example es ts)) = es" "tx (kern (fresh_example es ts)) = ts"
  by (auto simp: fresh_example_def fresh_conn_def Connection_def Socket_def Let_def)

text \<open>
  C4. The server implements its specification: for every way the peer's bytes arrive (any
  pieces, pauses and interruptions) and every kernel that makes a short write only when its
  buffer is full, a session on a fresh poll connection returns after enough resumptions and has
  produced exactly the bytes \<open>server_spec\<close> says, in order. What is not on the wire is queued, and
  then the writer has asked for a write event and continues when it comes; if the kernel takes
  whatever it is given, for one call per eight bytes of output, all of it is on the wire. The
  session ends waiting with the unused bytes buffered, or closed, or, exactly if a length field
  straddles two blocks of the buffer, in undefined behaviour.
\<close>

theorem server_implements_spec:
  assumes "fresh_conn c" and "rx_live (rx (kern c))" and "tx_steady (tx (kern c))"
    and "length (rx_stream (rx (kern c))) < 2 ^ 31 - 1" and "rx_pauses (rx (kern c)) \<le> n"
    and "server_spec srv R_header_len 0 (rx_stream (rx (kern c))) = (out, r)" and "length out < 1023 * 8192"
  shows "session_ok (tx_open (length out div 8) (tx (kern c))) out r (session srv n c)"
  using assms by (rule session_refines)

theorem server_implements_spec_witness:
  "\<exists>c'. session echo_server 1 (fresh_example [RxData [1, 0, 0], RxErrno EAGAIN, RxData [0, 1, 1, 0, 0, 0, 5]] [TxTake (2 ^ 31)])
      = Some (Inr (Some R_header_len, c')) \<and> wire (kern c') = frame [7] @ frame [0, 5]"
proof -
  let ?c = "fresh_example [RxData [1, 0, 0], RxErrno EAGAIN, RxData [0, 1, 1, 0, 0, 0, 5]] [TxTake (2 ^ 31)]"
  have "server_spec echo_server R_header_len 0 (pairs_bytes [([1], [5])])
      = (answers_bytes echo_server [([1], [5])], Waiting R_header_len ((0 + int (length (pairs_bytes [([1], [5])]))) mod kBlockSize) [])"
    by (rule server_spec_requests) (auto simp: echo_answer aligned_def kBlockSize_def)
  then have "server_spec echo_server R_header_len 0 (rx_stream (rx (kern ?c))) = (frame [7] @ frame [0, 5], Waiting R_header_len 10 [])"
    by (simp add: fresh_example_facts echo_answer frame_def u32_bytes_def kBlockSize_def)
  from server_implements_spec [OF fresh_example_facts(1) _ _ _ _ this, of 1] show ?thesis
    by (simp add: fresh_example_facts session_ok_def has_sent_def tx_open_def frame_def) blast
qed

text \<open>
  Pipelined requests: if the peer sends any number of requests the server can serve, and
  no length field straddles two blocks, then the server sends the answers to all of them, in
  the order of the requests (all of them at once if the kernel takes whatever it is given), and
  is waiting for the next header with nothing left over.
\<close>

theorem pipelined_requests_answered:
  assumes "fresh_conn c" and "rx_live (rx (kern c))" and "tx_steady (tx (kern c))"
    and "rx_stream (rx (kern c)) = pairs_bytes ms" and "length (pairs_bytes ms) < 2 ^ 31 - 1"
    and "\<forall>(hb, qb) \<in> set ms. answer srv hb qb \<noteq> None \<and> length hb < 2 ^ 32 \<and> length qb < 2 ^ 32"
    and "lengths_aligned 0 ms" and "length (answers_bytes srv ms) < 1023 * 8192"
    and "rx_pauses (rx (kern c)) \<le> n"
  shows "\<exists>c'. session srv n c = Some (Inr (Some R_header_len, c')) \<and> \<not> conn_closed c' \<and>
    ib_unread (read_buf c') = [] \<and> has_sent (tx_open (length (answers_bytes srv ms) div 8) (tx (kern c))) (answers_bytes srv ms) c'"
proof -
  have "server_spec srv R_header_len 0 (rx_stream (rx (kern c))) = (answers_bytes srv ms,
      Waiting R_header_len ((0 + int (length (pairs_bytes ms))) mod kBlockSize) [])"
    unfolding assms(4) using assms(6,7) by (rule server_spec_requests) (simp_all add: kBlockSize_def)
  from session_refines [OF assms(1-3) _ assms(9) this assms(8)] assms(4,5) show ?thesis
    by (simp add: session_ok_def)
qed

theorem pipelined_requests_answered_witness:
  "\<exists>c'. session echo_server 0 (fresh_example [RxData (pairs_bytes [([1], [5]), ([1], [6, 6])])] [TxTake (2 ^ 31)])
       = Some (Inr (Some R_header_len, c')) \<and>
     wire (kern c') @ ob_pending (write_buf c') = frame [7] @ frame [0, 5] @ frame [7] @ frame [0, 6, 6]"
  using pipelined_requests_answered [of "fresh_example [RxData (pairs_bytes [([1], [5]), ([1], [6, 6])])] [TxTake (2 ^ 31)]"
      "[([1], [5]), ([1], [6, 6])]" echo_server 0]
  by (auto simp: fresh_example_facts echo_answer aligned_def kBlockSize_def frame_def has_sent_def)

text \<open>
  The end of the stream between requests, in a header or in a length field: the session
  ends by itself, the connection is closed and both coroutines are done.
\<close>

theorem end_of_stream_ends_session:
  assumes "idle_conn c" and "rx (kern c) = RxFin # es"
    and "(pc = R_header_len \<or> (\<exists>h. pc = R_request_len h)) \<and> length (ib_unread (read_buf c)) < 4 \<or>
      (\<exists>len. pc = R_header len \<and> length (ib_unread (read_buf c)) < unat len)"
  shows "\<exists>c'. recv_run srv pc c = Some (Inr (None, c')) \<and> conn_closed c' \<and> send_frame c' = S_done \<and>
    events c' = events c @ [EV_DELETE] \<and> wire (kern c') = wire (kern c)"
proof -
  let ?c1 = "add_event EV_DELETE (c\<lparr>sock := socket_close (sock c), send_frame := S_done\<rparr>)"
  have "await_read c = Some (Inr (False, ?c1))"
    using await_read_fin [of c es] assms(1,2) by (simp add: idle_conn_def)
  then have rm: "read_more pc c = Some (Inr (Goto pc, ?c1))" by (simp add: read_more_def)
  have closed: "conn_closed ?c1" by (simp add: conn_closed_def add_event_def)
  have n: "unat (conn_read_bytes c) = length (ib_unread (read_buf c))" and nc: "\<not> conn_closed c"
    using assms(1) by (simp_all add: idle_conn_def ib_inv_def conn_read_bytes_def ib_bytes_def)
  have same: "conn_read_bytes ?c1 = conn_read_bytes c" by (simp add: conn_read_bytes_def add_event_def)
  have u: "unat (ucast (len :: u32) :: size_t) = unat len" for len
    using unat_less_LENGTH [of len] by (simp add: unsigned_ucast_eq take_bit_nat_eq_self)
  have "recv_step srv pc c = Some (Inr (Goto pc, ?c1))"
    using assms(3) rm n nc by (auto simp: recv_step.simps word_less_nat_alt u)
  moreover have "recv_step srv pc ?c1 = Some (Inr (Break, ?c1))"
    using assms(3) closed n unfolding same
    by (auto simp: recv_step.simps word_less_nat_alt u same)
  ultimately have "recv_run srv pc c = Some (Inr (None, recv_finish ?c1))"
    by (simp add: recv_run_def run_coroutine.simps [of _ _ pc c] run_coroutine.simps [of _ _ pc ?c1])
  moreover have "recv_finish ?c1 = ?c1" using closed by (simp add: recv_finish_def)
  ultimately show ?thesis using closed by (simp add: add_event_def)
qed

lemma idle_example:
  "idle_conn (live_conn es ts [])"
  unfolding idle_conn_def live_conn_simps
  by (simp add: InputBuffer_inv output_with_facts)
    (simp add: live_conn_def Connection_def Socket_def conn_closed_def Let_def)

theorem end_of_stream_ends_session_witness:
  "\<exists>c'. recv_run echo_server R_header_len (live_conn [RxFin] [] []) = Some (Inr (None, c')) \<and> conn_closed c'"
  using end_of_stream_ends_session [OF idle_example, of "[RxFin]" "[]" "[]" R_header_len echo_server]
  by (auto simp: live_conn_simps InputBuffer_unread)

text \<open>
  C31. The end of the stream inside a request body: the loop that reads the body does not look
  at \<open>closed()\<close>, reads again and resumes the writing coroutine a second time, which was
  destroyed the first time.
\<close>

theorem end_of_stream_in_request_faults:
  assumes "idle_conn c" and "rx (kern c) = RxFin # es" and "length (ib_unread (read_buf c)) < unat len"
  shows "recv_run srv (R_request h len service method) c = Some (Inl UseAfterFree)"
proof -
  let ?pc = "R_request h len service method"
  let ?c1 = "add_event EV_DELETE (c\<lparr>sock := socket_close (sock c), send_frame := S_done\<rparr>)"
  have n: "unat (conn_read_bytes c) = length (ib_unread (read_buf c))"
    using assms(1) by (simp add: idle_conn_def ib_inv_def conn_read_bytes_def ib_bytes_def)
  have "unat (ucast len :: size_t) = unat len"
    using unat_less_LENGTH [of len] by (simp add: unsigned_ucast_eq take_bit_nat_eq_self)
  then have lt: "conn_read_bytes c < ucast len" using assms(3) n by (simp add: word_less_nat_alt)
  then have lt1: "conn_read_bytes ?c1 < ucast len" by (simp add: conn_read_bytes_def add_event_def)
  have "await_read c = Some (Inr (False, ?c1))"
    using await_read_fin [of c es] assms(1,2) by (simp add: idle_conn_def)
  then have "recv_step srv ?pc c = Some (Inr (Goto ?pc, ?c1))"
    using lt by (simp add: recv_step.simps read_more_def)
  moreover have "await_read ?c1 = Some (Inl UseAfterFree)"
    using await_read_fin [of ?c1 es] assms(1,2) by (simp add: idle_conn_def add_event_def)
  then have "recv_step srv ?pc ?c1 = Some (Inl UseAfterFree)"
    using lt1 by (simp add: recv_step.simps read_more_def)
  ultimately show ?thesis
    by (simp add: recv_run_def run_coroutine.simps [of _ _ ?pc c] run_coroutine.simps [of _ _ ?pc ?c1])
qed

theorem end_of_stream_in_request_faults_witness:
  "recv_run echo_server (R_request echo_header 3 (the (name2service echo_server ''EchoService'')) ''Echo'')
     (live_conn [RxFin] [] []) = Some (Inl UseAfterFree)"
  by (rule end_of_stream_in_request_faults [OF idle_example, where es = "[]"])
    (simp_all add: live_conn_simps InputBuffer_unread)

end
