(* ===== verification/ServerInput.thy ===== *)
theory ServerInput
  imports RpcServer
begin

section \<open>Requests in pieces\<close>

text \<open>
  How the specification of the server takes input that comes in pieces. The theories on servers
  whose input arrives while they run, over a ring and over epoll, rest on these lemmas.
\<close>

text \<open>The specification can be stopped and continued: what it says of some input goes on from where it waits.\<close>

lemma server_spec_append:
  "server_spec srv pc pos xs = (out1, Waiting pc1 pos1 rest) \<Longrightarrow>
   server_spec srv pc pos (xs @ ys) = map_prod ((@) out1) id (server_spec srv pc1 pos1 (rest @ ys))"
proof (induction srv pc pos xs arbitrary: out1 rule: server_spec.induct)
  case (1 srv pos bs)
  show ?case
  proof (cases "length bs < 4")
    case True
    with 1 show ?thesis by (simp add: server_spec.simps map_prod_def case_prod_beta)
  next
    case False
    with 1 show ?thesis by (auto simp: server_spec.simps(1) split: if_splits)
  qed
next
  case (2 srv len pos bs)
  show ?case
  proof (cases "length bs < unat len")
    case True
    with 2 show ?thesis by (simp add: server_spec.simps map_prod_def case_prod_beta)
  next
    case False
    with 2 show ?thesis by (auto simp: server_spec.simps(2) split: if_splits option.splits)
  qed
next
  case (3 srv h pos bs)
  show ?case
  proof (cases "length bs < 4")
    case True
    with 3 show ?thesis by (simp add: server_spec.simps map_prod_def case_prod_beta)
  next
    case False
    with 3 show ?thesis by (auto simp: server_spec.simps(3) split: if_splits option.splits)
  qed
next
  case (4 srv h len service name pos bs)
  show ?case
  proof (cases "length bs < unat len")
    case True
    with 4 show ?thesis by (simp add: server_spec.simps map_prod_def case_prod_beta)
  next
    case False
    with 4 show ?thesis
      by (auto simp: server_spec.simps(4) map_prod_def split: if_splits option.splits prod.splits)
  qed
qed

lemma server_spec_rest:
  "server_spec srv pc pos bs = (out, Waiting pc' pos' rest) \<Longrightarrow> length rest \<le> length bs"
proof (induction srv pc pos bs arbitrary: out rule: server_spec.induct)
  case (1 srv pos bs)
  then show ?case by (cases "length bs < 4") (auto simp: server_spec.simps(1) split: if_splits)
next
  case (2 srv len pos bs)
  then show ?case
    by (cases "length bs < unat len") (fastforce simp: server_spec.simps(2) split: if_splits option.splits)+
next
  case (3 srv h pos bs)
  then show ?case
    by (cases "length bs < 4") (fastforce simp: server_spec.simps(3) split: if_splits option.splits)+
next
  case (4 srv h len service name pos bs)
  then show ?case
    by (cases "length bs < unat len") (fastforce simp: server_spec.simps(4) split: if_splits option.splits prod.splits)+
qed

text \<open>Where the specification has come to an end, more input changes nothing.\<close>

lemma server_spec_ended:
  "server_spec srv pc pos xs = (out, r) \<Longrightarrow> (\<And>pc' pos' rest. r \<noteq> Waiting pc' pos' rest) \<Longrightarrow>
   server_spec srv pc pos (xs @ ys) = (out, r)"
proof (induction srv pc pos xs arbitrary: out rule: server_spec.induct)
  case (1 srv pos bs)
  then show ?case by (cases "length bs < 4") (auto simp: server_spec.simps(1) split: if_splits)
next
  case (2 srv len pos bs)
  then show ?case
    by (cases "length bs < unat len") (auto simp: server_spec.simps(2) split: if_splits option.splits)
next
  case (3 srv h pos bs)
  then show ?case
    by (cases "length bs < 4") (auto simp: server_spec.simps(3) split: if_splits option.splits)
next
  case (4 srv h len service name pos bs)
  then show ?case
    by (cases "length bs < unat len") (auto simp: server_spec.simps(4) split: if_splits option.splits prod.splits)
qed

text \<open>Every prefix of a stream that can be served can be served, and its output is a prefix of the output.\<close>

lemma server_spec_prefix:
  assumes "server_spec srv pc pos (xs @ ys) = (out, Waiting pc2 pos2 rest2)"
  obtains out1 out2 pc1 pos1 rest1 where "server_spec srv pc pos xs = (out1, Waiting pc1 pos1 rest1)"
    and "server_spec srv pc1 pos1 (rest1 @ ys) = (out2, Waiting pc2 pos2 rest2)" and "out = out1 @ out2"
proof -
  obtain out1 r where r: "server_spec srv pc pos xs = (out1, r)" by fastforce
  show thesis
  proof (cases r)
    case (Waiting pc1 pos1 rest1)
    then show thesis using that r server_spec_append [OF r [unfolded Waiting], of ys] assms
      by (cases "server_spec srv pc1 pos1 (rest1 @ ys)") auto
  qed (use server_spec_ended [OF r, of ys] assms in auto)
qed

end
