(* ===== verification/Evolution.thy ===== *)
theory Evolution
  imports RpcServer "HOL-Library.Sublist"
begin

section \<open>How a connection may change\<close>

text \<open>
  The executors find a connection by its address, decide on its kind and on whether it is the
  dummy one, and look at what it was registered for. This theory shows that no coroutine
  changes any of that: the relation \<open>evolves_to\<close> holds between a connection and what it is
  after any run of its coroutines, whatever the peer sends and whatever the service does. A
  closed connection stays closed, sent bytes are never taken back, and a running coroutine
  asks its executor only for write events, and to be removed when the connection is closed. A
  coroutine that leaves bytes in the queue of an open connection, and did not find them there
  untouched, has asked for a write event (\<open>asks_if_left\<close>).
\<close>

definition asks_for :: "connection \<Rightarrow> connection \<Rightarrow> bool" where
  "asks_for c c' \<longleftrightarrow> (\<exists>es. events c' = events c @ es \<and> set es \<subseteq> {EV_WRITE, EV_DELETE} \<and>
     (EV_DELETE \<in> set es \<longrightarrow> conn_closed c'))"

definition evolves_to :: "connection \<Rightarrow> connection \<Rightarrow> bool" where
  "evolves_to c c' \<longleftrightarrow> kind c' = kind c \<and> is_dummy c' = is_dummy c \<and> this_ptr c' = this_ptr c \<and>
     sockfd (sock c') = sockfd (sock c) \<and> (conn_closed c \<longrightarrow> conn_closed c') \<and>
     prefix (wire (kern c)) (wire (kern c')) \<and> asks_for c c'"

lemma evolves_to_refl [simp]: "evolves_to c c"
  by (simp add: evolves_to_def asks_for_def)

lemma asks_for_trans:
  assumes "asks_for a b" and "asks_for b c" and "conn_closed b \<longrightarrow> conn_closed c"
  shows "asks_for a c"
proof -
  from assms(1,2) obtain es fs where "events b = events a @ es" "set es \<subseteq> {EV_WRITE, EV_DELETE}"
    "EV_DELETE \<in> set es \<longrightarrow> conn_closed b" "events c = events b @ fs" "set fs \<subseteq> {EV_WRITE, EV_DELETE}"
    "EV_DELETE \<in> set fs \<longrightarrow> conn_closed c" by (auto simp: asks_for_def)
  with assms(3) show ?thesis unfolding asks_for_def by (intro exI [of _ "es @ fs"]) auto
qed

lemma evolves_to_trans [trans]: "evolves_to a b \<Longrightarrow> evolves_to b c \<Longrightarrow> evolves_to a c"
  unfolding evolves_to_def using prefix_order.order_trans asks_for_trans by metis


lemma ro_bind_eq_Inr: "ro_bind m f = Some (Inr y) \<longleftrightarrow> (\<exists>x. m = Some (Inr x) \<and> f x = Some (Inr y))"
  by (auto simp: ro_bind_def split: option.splits sum.splits)

lemma case_res_eq_Inr: "(case m of Inl e \<Rightarrow> Some (Inl e) | Inr x \<Rightarrow> f x) = Some (Inr y) \<longleftrightarrow>
    (\<exists>x. m = Inr x \<and> f x = Some (Inr y))"
  by (cases m) auto

text \<open>Changes of the other fields.\<close>

lemma evolves_to_fields [simp]:
  "evolves_to c (c'\<lparr>read_buf := ib\<rparr>) = evolves_to c c'" "evolves_to c (c'\<lparr>write_buf := ob\<rparr>) = evolves_to c c'"
  "evolves_to c (c'\<lparr>send_frame := pc\<rparr>) = evolves_to c c'" "evolves_to c (c'\<lparr>read_handle := h\<rparr>) = evolves_to c c'"
  "evolves_to c (c'\<lparr>write_handle := h\<rparr>) = evolves_to c c'" "evolves_to c (c'\<lparr>uring := r\<rparr>) = evolves_to c c'"
  "evolves_to c (c'\<lparr>ioves := iovs\<rparr>) = evolves_to c c'" "evolves_to c (c'\<lparr>back_left := n\<rparr>) = evolves_to c c'"
  by (simp_all add: evolves_to_def asks_for_def conn_closed_def)

lemma evolves_to_from_fields [simp]: "evolves_to (c\<lparr>write_buf := ob\<rparr>) c' = evolves_to c c'"
  "evolves_to (c\<lparr>read_buf := ib\<rparr>) c' = evolves_to c c'" "evolves_to (c\<lparr>read_handle := h\<rparr>) c' = evolves_to c c'"
  by (simp_all add: evolves_to_def asks_for_def conn_closed_def)

lemma evolves_to_add_event:
  assumes "evolves_to c c'" and "t = EV_WRITE \<or> t = EV_DELETE \<and> conn_closed c'"
  shows "evolves_to c (add_event t c')"
proof (rule evolves_to_trans [OF assms(1)])
  show "evolves_to c' (add_event t c')"
    using assms(2) by (auto simp: evolves_to_def asks_for_def add_event_def conn_closed_def)
qed

lemma evolves_to_close: "evolves_to c (conn_close c)"
  by (simp add: evolves_to_def asks_for_def conn_close_def socket_close_def conn_closed_def)

text \<open>The system calls.\<close>

lemma os_writev_wire: "os_writev k bs = (r, k') \<Longrightarrow> prefix (wire k) (wire k')"
  by (auto simp: os_writev_def Let_def split: if_splits list.splits tx_event.splits)

lemma write_loop_wire: "write_loop ob k need n = Inr (n', k') \<Longrightarrow> prefix (wire k) (wire k')"
proof (induction ob k need n rule: write_loop.induct)
  case (1 ob k need n)
  show ?case
  proof (cases "n < need")
    case True
    from 1(3) True obtain iovs bs r k1 where a: "get_iovecs ob = Inr iovs" "gather (out_heap ob) iovs = Inr bs"
      "os_writev k bs = (r, k1)" by (subst (asm) write_loop.simps) (auto split: sum.splits prod.splits)
    have "(case r of Inr m \<Rightarrow> write_loop ob k1 need (n + int m)
        | Inl e \<Rightarrow> if e = EINTR then write_loop ob k1 need n else Inr (n, k1)) = Inr (n', k')"
      using 1(3) True a by (subst (asm) write_loop.simps) (simp split: sum.splits)
    then have "prefix (wire k1) (wire k')"
      using 1(1) [OF True a(1,2) a(3) [symmetric]] 1(2) [OF True a(1,2) a(3) [symmetric]]
      by (auto split: sum.splits if_splits)
    moreover from os_writev_wire [OF a(3)] have "prefix (wire k) (wire k1)" .
    ultimately show ?thesis by simp
  qed (use 1(3) in \<open>simp add: write_loop.simps\<close>)
qed

lemma os_read_wire: "os_read k m = (r, k') \<Longrightarrow> wire k' = wire k"
  by (auto simp: os_read_def Let_def split: prod.splits)

lemma read_loop_evolves: "read_loop ib s d m n = Inr (ib', s', n') \<Longrightarrow>
    sockfd s' = sockfd s \<and> wire (os s') = wire (os s) \<and> (sock_closed s \<longrightarrow> sock_closed s')"
proof (induction ib s d m n rule: read_loop.induct)
  case (1 ib s d m n)
  then show ?case
    by (subst (asm) (3) read_loop.simps)
      (auto simp: socket_close_def dest: os_read_wire split: if_splits prod.splits sum.splits)
qed

text \<open>The writing coroutine.\<close>

lemma async_write_evolves: "async_write c = Some (Inr (b, c')) \<Longrightarrow> evolves_to c c'"
  by (cases "kind c")
    (auto simp: async_write_def poll_async_write_def uring_async_write_def ro_bind_eq_Inr res_bind_eq_Inr
      case_res_eq_Inr Let_def evolves_to_def asks_for_def conn_closed_def dest!: write_loop_wire split: if_splits)

lemma send_fn_evolves_all:
  assumes "send_fn pc c = Some r"
  shows "\<forall>d. r = Inr d \<longrightarrow> evolves_to c d"
proof (rule send_fn.raw_induct [where P = "\<lambda>pc c r. \<forall>d. r = Inr d \<longrightarrow> evolves_to c d", OF _ assms],
    intro allI impI, goal_cases)
  case (1 f pc c r d)
  show ?case
  proof (cases pc)
    case S_loop
    with 1 show ?thesis by (auto simp: WaitWrite_suspend_def split: if_splits)
  next
    case S_write
    with 1(2,3) obtain b c1 where c1: "async_write c = Some (Inr (b, c1))"
      and d: "if b then d = (Write_suspend c1)\<lparr>send_frame := S_loop\<rparr> else f S_loop c1 = Some (Inr d)"
      by (auto split: option.splits sum.splits if_splits)
    have "evolves_to c1 d" using d 1(1) [of S_loop c1 "Inr d"]
      by (auto simp: Write_suspend_def intro: evolves_to_add_event split: if_splits)
    with async_write_evolves [OF c1] show ?thesis by (rule evolves_to_trans)
  qed (use 1 in auto)
qed

lemmas send_fn_evolves = send_fn_evolves_all [rule_format, OF _ refl]

lemma resume_write_evolves: "resume_write c = Some (Inr c') \<Longrightarrow> evolves_to c c'"
  by (auto simp: resume_write_def intro: send_fn_evolves split: if_splits)

text \<open>The reading coroutine.\<close>

lemma async_read_evolves:
  assumes "async_read c = Some (Inr (b, c'))"
  shows "evolves_to c c'"
proof (cases "kind c")
  case PollConnection
  with assms obtain d m ib s n c2 ib2 where rl: "read_loop (read_buf c) (sock c) d m 0 = Inr (ib, s, n)"
    and rest: "(if conn_closed (c\<lparr>read_buf := ib, sock := s\<rparr>) then resume_write (c\<lparr>read_buf := ib, sock := s\<rparr>)
        else Some (Inr (c\<lparr>read_buf := ib, sock := s\<rparr>))) = Some (Inr c2)" and c': "c' = c2\<lparr>read_buf := ib2\<rparr>"
    by (simp add: async_read_def poll_async_read_def ro_bind_eq_Inr Let_def case_res_eq_Inr split: prod.splits) metis
  from read_loop_evolves [OF rl] have "evolves_to c (c\<lparr>read_buf := ib, sock := s\<rparr>)"
    by (simp add: evolves_to_def asks_for_def conn_closed_def)
  moreover have "evolves_to (c\<lparr>read_buf := ib, sock := s\<rparr>) c'"
    using rest c' by (auto dest: resume_write_evolves split: if_splits)
  ultimately show ?thesis by (rule evolves_to_trans)
next
  case UringConnection
  with assms show ?thesis
    by (auto simp: async_read_def uring_async_read_def res_bind_eq_Inr)
qed

lemma await_read_evolves: "await_read c = Some (Inr (b, c')) \<Longrightarrow> evolves_to c c'"
  by (auto simp: await_read_def ro_bind_eq_Inr Read_suspend_def intro: evolves_to_add_event dest!: async_read_evolves split: if_splits)

lemma run_coroutine_evolves_raw:
  assumes "run_coroutine step finish pc s = Some r"
    and "\<And>pc s ctl s'. step pc s = Some (Inr (ctl, s')) \<Longrightarrow> R s s'"
    and "\<And>s. R s (finish s)" and "\<And>x y z. R x y \<Longrightarrow> R y z \<Longrightarrow> R x z"
  shows "\<forall>fr s'. r = Inr (fr, s') \<longrightarrow> R s s'"
proof (rule run_coroutine.raw_induct [where P = "\<lambda>st fin pc s r. st = step \<longrightarrow> fin = finish \<longrightarrow>
      (\<forall>fr s'. r = Inr (fr, s') \<longrightarrow> R s s')", OF _ assms(1), THEN mp, THEN mp],
    intro allI impI, goal_cases)
  case (1 f st fin pc s r fr s')
  note IH = 1(1) and run = 1(2) and eqs = 1(3,4) and r = 1(5)
  from run r eqs obtain ctl s1 where stp: "step pc s = Some (Inr (ctl, s1))"
    by (auto split: option.splits sum.splits)
  have "R s s1" by (rule assms(2) [OF stp])
  moreover have "R s1 s'" if "ctl = Break" using that run assms(3) stp r eqs by auto
  moreover have "R s1 s'" if "ctl = Goto pc'" for pc'
    using IH [of st fin pc' s1 r] run stp r eqs that by auto
  moreover have "s1 = s'" if "ctl = Suspend pc'" for pc' using that run stp r eqs by auto
  ultimately show ?case using assms(4) by (cases ctl) blast+
qed simp_all

lemma serve_evolves: "serve srv h service method q c = Some (Inr c') \<Longrightarrow> evolves_to c c'"
  by (auto simp: serve_def ro_bind_eq_Inr Let_def dest!: resume_write_evolves)

lemma read_more_evolves: "read_more pc c = Some (Inr (ctl, c')) \<Longrightarrow> evolves_to c c'"
  by (auto simp: read_more_def ro_bind_eq_Inr dest: await_read_evolves)

lemma fetch_len_evolves: "fetch_len c = Inr (l, c') \<Longrightarrow> evolves_to c c'"
  by (auto simp: fetch_len_def res_bind_eq_Inr)

text \<open>What follows the parsing of a header only touches the input buffer, and does not suspend.\<close>

lemma header_check:
  assumes "(case r of None \<Rightarrow> Some (Inr (Break, c\<lparr>read_buf := ib\<rparr>))
        | Some h \<Rightarrow> (let c' = c\<lparr>read_buf := pop_limit ib\<rparr> in
            if magic h \<noteq> MAGIC_NUM then Some (Inr (Break, c'))
            else if version h \<noteq> VERSION then Some (Inr (Break, c'))
            else Some (Inr (Goto (R_request_len h), c')))) = Some (Inr (ctl, c'))"
  obtains ib' where "c' = c\<lparr>read_buf := ib'\<rparr>" and "ctl \<noteq> Suspend pc"
proof (cases r)
  case None
  with assms that show thesis by auto
next
  case (Some h)
  from assms have "c' = c\<lparr>read_buf := pop_limit ib\<rparr>" "ctl \<noteq> Suspend pc"
    unfolding Some Let_def option.case by (cases "magic h = MAGIC_NUM"; cases "version h = VERSION"; auto)+
  with that show thesis by blast
qed

lemma recv_step_header:
  assumes "recv_step srv (R_header len) c = Some (Inr (ctl, c'))" and "\<not> conn_read_bytes c < ucast len"
  obtains ib' where "c' = c\<lparr>read_buf := ib'\<rparr>" and "ctl \<noteq> Suspend pc"
  using assms by (simp add: recv_step.simps ro_bind_eq_Inr) (elim exE conjE, erule header_check)

lemma recv_step_evolves:
  assumes "recv_step srv pc c = Some (Inr (ctl, c'))"
  shows "evolves_to c c'"
proof (cases pc)
  case R_header_len
  with assms show ?thesis
    by (auto simp: recv_step.simps case_res_eq_Inr
        dest!: read_more_evolves fetch_len_evolves split: if_splits option.splits)
next
  case (R_header len)
  show ?thesis
  proof (cases "conn_read_bytes c < ucast len")
    case True
    with assms R_header show ?thesis
      by (auto simp: recv_step.simps dest!: read_more_evolves split: if_splits)
  next
    case False
    obtain ib' where "c' = c\<lparr>read_buf := ib'\<rparr>" using recv_step_header [OF assms [unfolded R_header] False] by metis
    then show ?thesis by simp
  qed
next
  case (R_request_len h)
  with assms show ?thesis
    by (auto simp: recv_step.simps case_res_eq_Inr
        dest!: read_more_evolves fetch_len_evolves split: if_splits option.splits)
next
  case (R_request h len service name)
  with assms show ?thesis
    by (auto simp: recv_step.simps ro_bind_eq_Inr dest!: read_more_evolves serve_evolves split: if_splits option.splits)
qed

lemma recv_finish_evolves: "evolves_to c (recv_finish c)"
  by (simp add: recv_finish_def evolves_to_close)

lemma recv_run_evolves: "recv_run srv pc c = Some (Inr (fr, c')) \<Longrightarrow> evolves_to c c'"
  using run_coroutine_evolves_raw [where R = evolves_to and step = "recv_step srv" and finish = recv_finish,
      OF _ recv_step_evolves recv_finish_evolves evolves_to_trans, of pc c "Inr (fr, c')"]
  unfolding recv_run_def by simp

lemma recv_fn_evolves: "recv_fn srv c = Some (Inr (fr, c')) \<Longrightarrow> evolves_to (RegisterRead_suspend c) c'"
  unfolding recv_fn_def by (rule recv_run_evolves)

lemma resume_read_evolves: "resume_read srv fr c = Some (Inr (fr', c')) \<Longrightarrow> evolves_to c c'"
  by (auto simp: resume_read_def resume_coroutine_def
      intro: recv_run_evolves [unfolded recv_run_def] split: if_splits option.splits)

subsection \<open>A writer that leaves bytes asks for a write event\<close>

definition asks_if_left :: "connection \<Rightarrow> connection \<Rightarrow> bool" where
  "asks_if_left c c' \<longleftrightarrow> evolves_to c c' \<and> (\<not> conn_closed c' \<longrightarrow>
     write_buf c' = write_buf c \<or> ob_bytes (write_buf c') = 0 \<or> EV_WRITE \<in> set (drop (length (events c)) (events c')))"

lemma asks_if_left_refl [simp]: "asks_if_left c c"
  by (simp add: asks_if_left_def)

lemma asks_if_left_trans:
  assumes "asks_if_left a b" and "asks_if_left b c"
  shows "asks_if_left a c"
proof -
  have e: "evolves_to a b" "evolves_to b c" using assms by (simp_all add: asks_if_left_def)
  then obtain es fs where "events b = events a @ es" "events c = events b @ fs"
    by (auto simp: evolves_to_def asks_for_def)
  moreover have "conn_closed b \<longrightarrow> conn_closed c" using e(2) by (simp add: evolves_to_def)
  ultimately show ?thesis using assms evolves_to_trans [OF e] by (auto simp: asks_if_left_def)
qed

lemma asks_if_left_read_buf [simp]:
  "asks_if_left c (c'\<lparr>read_buf := ib\<rparr>) = asks_if_left c c'" "asks_if_left (c\<lparr>read_buf := ib\<rparr>) c' = asks_if_left c c'"
  by (simp_all add: asks_if_left_def conn_closed_def)

lemma send_fn_asks_all:
  assumes "send_fn pc c = Some r"
  shows "\<forall>d. r = Inr d \<longrightarrow> \<not> conn_closed d \<longrightarrow> ob_bytes (write_buf d) = 0 \<or> EV_WRITE \<in> set (drop (length (events c)) (events d))"
proof (rule send_fn.raw_induct [where P = "\<lambda>pc c r. \<forall>d. r = Inr d \<longrightarrow> \<not> conn_closed d \<longrightarrow>
      ob_bytes (write_buf d) = 0 \<or> EV_WRITE \<in> set (drop (length (events c)) (events d))", OF _ assms], intro allI impI, goal_cases)
  case (1 f pc c r d)
  show ?case
  proof (cases pc)
    case S_loop
    with 1 show ?thesis
      by (auto simp: WaitWrite_suspend_def WaitWrite_ready_def conn_write_bytes_def conn_closed_def word_gt_0 split: if_splits)
  next
    case S_write
    with 1(2,3) obtain b c1 where c1: "async_write c = Some (Inr (b, c1))"
      and d: "if b then d = (Write_suspend c1)\<lparr>send_frame := S_loop\<rparr> else f S_loop c1 = Some (Inr d)"
      by (auto split: option.splits sum.splits if_splits)
    from async_write_evolves [OF c1] obtain es where "events c1 = events c @ es" by (auto simp: evolves_to_def asks_for_def)
    moreover from this have "set (drop (length (events c1)) (events d)) \<subseteq> set (drop (length (events c)) (events d))"
      by (intro set_drop_subset_set_drop) simp
    ultimately show ?thesis
      using d 1(1) [of S_loop c1 "Inr d"] 1(4) by (auto simp: Write_suspend_def add_event_def split: if_splits)
  qed (use 1 in auto)
qed

lemma resume_write_left:
  assumes "resume_write c = Some (Inr c')" and "\<not> conn_closed c'"
  shows "ob_bytes (write_buf c') = 0 \<or> EV_WRITE \<in> set (drop (length (events c)) (events c'))"
  using assms send_fn_asks_all [of "send_frame c" c "Inr c'"] by (auto simp: resume_write_def split: if_splits)

lemma resume_write_asks: "resume_write c = Some (Inr c') \<Longrightarrow> asks_if_left c c'"
  using resume_write_left [of c c'] resume_write_evolves [of c c'] by (auto simp: asks_if_left_def)

lemma async_read_keeps_queue:
  assumes "async_read c = Some (Inr (b, c'))" and "\<not> conn_closed c'"
  shows "write_buf c' = write_buf c"
proof (cases "kind c")
  case PollConnection
  with assms(1) obtain ib s c2 ib2 where
    rest: "(if conn_closed (c\<lparr>read_buf := ib, sock := s\<rparr>) then resume_write (c\<lparr>read_buf := ib, sock := s\<rparr>)
        else Some (Inr (c\<lparr>read_buf := ib, sock := s\<rparr>))) = Some (Inr c2)" and c': "c' = c2\<lparr>read_buf := ib2\<rparr>"
    by (simp add: async_read_def poll_async_read_def ro_bind_eq_Inr Let_def case_res_eq_Inr split: prod.splits) metis
  have "\<not> conn_closed c2" using assms(2) c' by (simp add: conn_closed_def)
  with rest c' show ?thesis
    by (auto simp: evolves_to_def dest!: resume_write_evolves split: if_splits)
next
  case UringConnection
  with assms(1) show ?thesis by (auto simp: async_read_def uring_async_read_def res_bind_eq_Inr)
qed

lemma await_read_asks:
  assumes "await_read c = Some (Inr (b, c'))"
  shows "asks_if_left c c'"
proof -
  have "\<not> conn_closed c' \<Longrightarrow> write_buf c' = write_buf c"
    using assms async_read_keeps_queue [of c]
    by (auto simp: await_read_def Read_suspend_def add_event_def conn_closed_def ro_bind_eq_Inr split: if_splits)
  with await_read_evolves [OF assms(1)] show ?thesis by (simp add: asks_if_left_def)
qed

lemma serve_asks: "serve srv h service name q c = Some (Inr c') \<Longrightarrow> asks_if_left c c'"
  using serve_evolves [of srv h service name q c c']
  by (auto simp: serve_def ro_bind_eq_Inr Let_def asks_if_left_def dest!: resume_write_left)

lemma read_more_asks: "read_more pc c = Some (Inr (ctl, c')) \<Longrightarrow> asks_if_left c c'"
  by (auto simp: read_more_def ro_bind_eq_Inr dest: await_read_asks)

lemma fetch_len_asks: "fetch_len c = Inr (l, c') \<Longrightarrow> asks_if_left c c'"
  by (auto simp: fetch_len_def res_bind_eq_Inr)

lemma recv_step_asks:
  assumes "recv_step srv pc c = Some (Inr (ctl, c'))"
  shows "asks_if_left c c'"
proof (cases pc)
  case (R_header len)
  show ?thesis
  proof (cases "conn_read_bytes c < ucast len")
    case True
    with assms R_header show ?thesis by (auto simp: recv_step.simps dest!: read_more_asks split: if_splits)
  next
    case False
    obtain ib' where "c' = c\<lparr>read_buf := ib'\<rparr>" using recv_step_header [OF assms(1) [unfolded R_header] False] by metis
    then show ?thesis by simp
  qed
qed (use assms in \<open>auto simp: recv_step.simps ro_bind_eq_Inr case_res_eq_Inr dest!: read_more_asks fetch_len_asks serve_asks
    split: if_splits option.splits\<close>)

lemma recv_run_asks:
  assumes "recv_run srv pc c = Some (Inr (fr, c'))"
  shows "asks_if_left c c'"
proof -
  have "asks_if_left s (recv_finish s)" for s
    using recv_finish_evolves [of s] by (simp add: asks_if_left_def recv_finish_def conn_close_def)
  then have "\<forall>fr s'. Inr (fr, c') = Inr (fr, s') \<longrightarrow> asks_if_left c s'"
    using run_coroutine_evolves_raw [where R = asks_if_left, OF assms [unfolded recv_run_def]] recv_step_asks asks_if_left_trans by blast
  then show ?thesis by simp
qed

end
