(* ===== verification/Executor.thy ===== *)
theory Executor
  imports Evolution
begin

section \<open>Executors (src/scheduler/scheduler.h, src/scheduler/*_executor.h)\<close>

text \<open>
  One executor is one thread: it runs queued tasks, waits for events and resumes the coroutines
  of the connections they are for. This theory has what the executors that wait for readiness
  (\<open>EpollExecutor\<close>, \<open>KqueueExecutor\<close>) share: the members they have in common, the loop of the
  thread, and what the server does with an executor. Their differences, which are how an event
  is read and how a coroutine's wishes reach the kernel, are the parameters of the interface
  \<open>poll_executor\<close>; inside it is proved once that an executor serves all its connections. How
  \<open>spawn\<close> and the thread interleave is in theory \<open>Notify\<close>, and that the queue of tasks behaves
  like the list used here in theory \<open>MpmcSequential\<close>.

  The state keeps the connections by address, each with the resume point of its reading
  coroutine (\<open>None\<close> before it is started and once it is destroyed). What the kernel reports is
  an argument. The \<open>add_event\<close> calls a coroutine makes while it runs are recorded by the
  connection (theory \<open>Connection\<close>) and given to the kernel when it suspends.
\<close>

subsection \<open>State\<close>

record 'pc session =
  s_conn :: connection
  s_frame :: "'pc option"

record ('pc, 't) executor =
  sessions :: "64 word \<Rightarrow> 'pc session option"
  should_notify :: bool
  task_queue :: "'t list"
  stop_flag :: bool

type_synonym 'pc resumption = "'pc option \<Rightarrow> connection \<Rightarrow> ('pc option \<times> connection) res option"

type_synonym ('t, 'x) task_runner = "'t \<Rightarrow> 'x \<Rightarrow> 'x res option"

subsection \<open>The loop of the thread\<close>

text \<open>\<open>while (task_queue_.pop(task)) task();\<close> where \<open>run\<close> says what a task does.\<close>

partial_function (option) drain :: "('t, ('pc, 't, 'z) executor_scheme) task_runner \<Rightarrow>
    ('pc, 't, 'z) executor_scheme \<Rightarrow> ('pc, 't, 'z) executor_scheme res option" where
  "drain run ex = (case task_queue ex of [] \<Rightarrow> Some (Inr ex)
     | t # ts \<Rightarrow> (case run t (ex\<lparr>task_queue := ts\<rparr>) of None \<Rightarrow> None | Some (Inl e) \<Rightarrow> Some (Inl e)
         | Some (Inr ex') \<Rightarrow> drain run ex'))"

text \<open>The reported events, one after the other; \<open>handle\<close> is the body of the loop over them.\<close>

primrec handle_all :: "('ev \<Rightarrow> 'x \<Rightarrow> 'x res option) \<Rightarrow> 'ev list \<Rightarrow> 'x \<Rightarrow> 'x res option" where
  "handle_all handle [] ex = Some (Inr ex)"
| "handle_all handle (ev # evs) ex = ro_bind (handle ev ex) (\<lambda>ex'. handle_all handle evs ex')"

text \<open>
  The thread: \<open>waits\<close> are the results of \<open>epoll_wait\<close> or \<open>kevent\<close>, \<open>None\<close> for an error. At
  most \<open>MAX_EVENTS\<close> events are reported at once.
\<close>

definition MAX_EVENTS :: nat where
  "MAX_EVENTS = 1024"

definition poll_turn :: "('ev \<Rightarrow> ('pc, 't, 'z) executor_scheme \<Rightarrow> ('pc, 't, 'z) executor_scheme res option) \<Rightarrow>
    ('t, ('pc, 't, 'z) executor_scheme) task_runner \<Rightarrow> 'ev list option \<Rightarrow>
    ('pc, 't, 'z) executor_scheme \<Rightarrow> ('pc, 't, 'z) executor_scheme res option" where
  "poll_turn handle run w ex = ro_bind (drain run ex) (\<lambda>ex1.
     let ex2 = ex1\<lparr>should_notify := True\<rparr> in
     case w of None \<Rightarrow> Some (Inr ex2) | Some evs \<Rightarrow> handle_all handle (take MAX_EVENTS evs) ex2)"

primrec poll_loop :: "('ev \<Rightarrow> ('pc, 't, 'z) executor_scheme \<Rightarrow> ('pc, 't, 'z) executor_scheme res option) \<Rightarrow>
    ('t, ('pc, 't, 'z) executor_scheme) task_runner \<Rightarrow> 'ev list option list \<Rightarrow>
    ('pc, 't, 'z) executor_scheme \<Rightarrow> ('pc, 't, 'z) executor_scheme res option" where
  "poll_loop handle run [] ex = Some (Inr ex)"
| "poll_loop handle run (w # ws) ex = (if stop_flag ex then Some (Inr ex)
     else ro_bind (poll_turn handle run w ex) (\<lambda>ex'. poll_loop handle run ws ex'))"

subsection \<open>The server's tasks\<close>

text \<open>
  The tasks \<open>RpcServer::start\<close> spawns for a connection: \<open>send_fn\<close> and \<open>recv_fn\<close>. \<open>commit\<close> is how
  the executor takes over what a coroutine left: the connection, its frame and its wishes.
\<close>

datatype server_task = RunSend "64 word" | RunRecv "64 word"

type_synonym ('pc, 'x) committer = "64 word \<Rightarrow> connection \<Rightarrow> connection \<Rightarrow> 'pc option \<Rightarrow> 'x \<Rightarrow> 'x"

fun run_server_task :: "('m recv_pc, ('m recv_pc, server_task, 'z) executor_scheme) committer \<Rightarrow> 'm rpc_server \<Rightarrow>
    (server_task, ('m recv_pc, server_task, 'z) executor_scheme) task_runner" where
  "run_server_task commit srv (RunSend p) ex = (case sessions ex p of None \<Rightarrow> Some (Inl UseAfterFree)
     | Some s \<Rightarrow> ro_bind (send_fn S_loop (s_conn s)) (\<lambda>c'. Some (Inr (commit p (s_conn s) c' (s_frame s) ex))))"
| "run_server_task commit srv (RunRecv p) ex = (case sessions ex p of None \<Rightarrow> Some (Inl UseAfterFree)
     | Some s \<Rightarrow> ro_bind (recv_fn srv (s_conn s)) (\<lambda>(fr, c'). Some (Inr (commit p (s_conn s) c' fr ex))))"

text \<open>
  One turn of the loop of \<open>RpcServer::start\<close>: \<open>accept\<close> gave \<open>connfd\<close> (\<open>-1\<close> for an error, which
  only leads to the next turn); \<open>mk\<close> makes the connection for the server's policy, at the
  address \<open>p\<close> the allocator gave it. The result of \<open>spawn\<close> is not looked at.
\<close>

definition server_accept :: "(server_task \<Rightarrow> ('pc, server_task, 'z) executor_scheme \<Rightarrow> bool \<times> ('pc, server_task, 'z) executor_scheme) \<Rightarrow>
    (int \<Rightarrow> 64 word \<Rightarrow> connection) \<Rightarrow> int \<Rightarrow> 64 word \<Rightarrow>
    ('pc, server_task, 'z) executor_scheme \<Rightarrow> ('pc, server_task, 'z) executor_scheme" where
  "server_accept spawn mk connfd p ex = (if connfd = -1 then ex
     else snd (spawn (RunRecv p) (snd (spawn (RunSend p)
       (ex\<lparr>sessions := (sessions ex)(p \<mapsto> \<lparr>s_conn = mk connfd p, s_frame = None\<rparr>)\<rparr>)))))"

primrec server_accepts :: "(server_task \<Rightarrow> ('pc, server_task, 'z) executor_scheme \<Rightarrow> bool \<times> ('pc, server_task, 'z) executor_scheme) \<Rightarrow>
    (int \<Rightarrow> 64 word \<Rightarrow> connection) \<Rightarrow> (int \<times> 64 word) list \<Rightarrow>
    ('pc, server_task, 'z) executor_scheme \<Rightarrow> ('pc, server_task, 'z) executor_scheme" where
  "server_accepts spawn mk [] ex = ex"
| "server_accepts spawn mk (a # as) ex = server_accepts spawn mk as (server_accept spawn mk (fst a) (snd a) ex)"

subsection \<open>Lemmas\<close>

definition start_tasks :: "64 word list \<Rightarrow> server_task list" where
  "start_tasks ps = concat (map (\<lambda>p. [RunSend p, RunRecv p]) ps)"

lemma start_tasks_simps [simp]: "start_tasks [] = []" "start_tasks (p # ps) = RunSend p # RunRecv p # start_tasks ps"
  by (simp_all add: start_tasks_def)

lemma accepted_fd: "distinct (map snd as) \<Longrightarrow> (fd, p) \<in> set as \<Longrightarrow> map_of (map prod.swap as) p = Some fd"
  by (rule map_of_is_SomeI) (auto simp: comp_def image_iff intro!: bexI [of _ "(fd, p)"])

lemma drain_Nil: "task_queue ex = [] \<Longrightarrow> drain run ex = Some (Inr ex)"
  by (simp add: drain.simps)

lemma drain_Cons: "task_queue ex = t # ts \<Longrightarrow> run t (ex\<lparr>task_queue := ts\<rparr>) = Some (Inr ex') \<Longrightarrow> drain run ex = drain run ex'"
  by (subst drain.simps) simp

subsection \<open>Sessions on track\<close>

text \<open>
  A session between two events: from its resume point, the rest of its input is specified to
  produce what is still missing of the output \<open>out\<close> and to end as \<open>r\<close>, and the writing side is
  as it must be (\<open>out_fits\<close>). It has used all of its input, or will have after at most \<open>n\<close> more
  readable events.
\<close>

definition on_track :: "'m rpc_server \<Rightarrow> bool \<Rightarrow> byte list \<Rightarrow> 'm recv_pc outcome \<Rightarrow> nat \<Rightarrow> 'm recv_pc session \<Rightarrow> bool" where
  "on_track srv all out r n s \<longleftrightarrow> (\<exists>pc todo. let c = s_conn s in
     s_frame s = Some pc \<and> kind c = PollConnection \<and> \<not> is_dummy c \<and> serving c \<and>
     server_spec srv pc (ib_pos (read_buf c)) (input_left c) = (todo, r) \<and> output_of c @ todo = out \<and>
     out_fits True all c todo \<and>
     (rx (kern c) = [] \<and> todo = [] \<and> r = Waiting pc (ib_pos (read_buf c)) (ib_unread (read_buf c)) \<or>
      rx_pauses (rx (kern c)) < n))"

text \<open>A run of the reading coroutine, from its start or from a readable event.\<close>

lemma on_track_run:
  assumes c: "serving c" "kind c = PollConnection" "\<not> is_dummy c" "out_fits True all c todo"
    and spec: "server_spec srv pc (ib_pos (read_buf c)) (input_left c) = (todo, Waiting pc' pos rest)"
    and out: "output_of c @ todo = out" and n: "rx_pauses (rx (kern c)) \<le> n"
  shows "\<exists>fr c'. recv_run srv pc c = Some (Inr (fr, c')) \<and> on_track srv all out (Waiting pc' pos rest) n \<lparr>s_conn = c', s_frame = fr\<rparr>"
proof -
  have "server.run_ok srv True all c todo (Waiting pc' pos rest) (recv_run srv pc c)"
    unfolding recv_run_def by (rule server.run_refines [OF c(1,4) spec])
  then obtain pc1 c' o0 o1 where r: "recv_run srv pc c = Some (Inr (Some pc1, c'))" "serving c'"
    "server_spec srv pc1 (ib_pos (read_buf c')) (input_left c') = (o1, Waiting pc' pos rest)"
    "todo = o0 @ o1" "output_of c' = output_of c @ o0" "out_fits True all c' o1"
    "rx (kern c') = [] \<and> o1 = [] \<and> Waiting pc' pos rest = Waiting pc1 (ib_pos (read_buf c')) (ib_unread (read_buf c')) \<or>
      rx_pauses (rx (kern c')) < rx_pauses (rx (kern c))"
    unfolding server.run_ok_def by blast
  have "kind c' = PollConnection" "\<not> is_dummy c'" using recv_run_evolves [OF r(1)] c(2,3) by (simp_all add: evolves_to_def)
  with r out n show ?thesis
    by (intro exI [of _ "Some pc1"] exI [of _ c']) (auto simp: on_track_def Let_def)
qed

lemma on_track_read:
  assumes "on_track srv all out (Waiting pc pos rest) n s"
  shows "\<exists>fr c'. resume_read srv (s_frame s) (s_conn s) = Some (Inr (fr, c')) \<and>
    on_track srv all out (Waiting pc pos rest) (n - 1) \<lparr>s_conn = c', s_frame = fr\<rparr> \<and> asks_if_left (s_conn s) c'"
proof -
  from assms obtain pc1 todo where s: "s_frame s = Some pc1" "kind (s_conn s) = PollConnection" "\<not> is_dummy (s_conn s)"
    "serving (s_conn s)" "server_spec srv pc1 (ib_pos (read_buf (s_conn s))) (input_left (s_conn s)) = (todo, Waiting pc pos rest)"
    "output_of (s_conn s) @ todo = out" "out_fits True all (s_conn s) todo" "rx_pauses (rx (kern (s_conn s))) \<le> n - 1"
    by (auto simp: on_track_def Let_def)
  have "resume_read srv (s_frame s) (s_conn s) = recv_run srv pc1 (s_conn s)"
    using s(4) by (simp add: resume_read_def s(1) recv_run_def server.serving_resume)
  with on_track_run [OF s(4,2,3,7,5,6,8)] show ?thesis using recv_run_asks by metis
qed

text \<open>A run of the writing coroutine.\<close>

lemma on_track_write:
  assumes "on_track srv all out r n s"
  shows "\<exists>c'. resume_write (s_conn s) = Some (Inr c') \<and> on_track srv all out r n \<lparr>s_conn = c', s_frame = s_frame s\<rparr> \<and>
    writer_effect (s_conn s) c'"
proof -
  from assms obtain pc todo where s: "s_frame s = Some pc" "kind (s_conn s) = PollConnection" "\<not> is_dummy (s_conn s)"
    "serving (s_conn s)" "server_spec srv pc (ib_pos (read_buf (s_conn s))) (input_left (s_conn s)) = (todo, r)"
    "output_of (s_conn s) @ todo = out" "out_fits True all (s_conn s) todo"
    "rx (kern (s_conn s)) = [] \<and> todo = [] \<and> r = Waiting pc (ib_pos (read_buf (s_conn s))) (ib_unread (read_buf (s_conn s))) \<or>
      rx_pauses (rx (kern (s_conn s))) < n"
    by (auto simp: on_track_def Let_def)
  have "small_queue (ob_pending (write_buf (s_conn s)))" using s(7) by (simp add: out_fits_def)
  with resume_write_live [of "s_conn s"] s(4) obtain c' where
    c': "resume_write (s_conn s) = Some (Inr c')" "writer_effect (s_conn s) c'" by (auto simp: serving_def)
  have e: "kind c' = PollConnection" "\<not> is_dummy c'" using resume_write_evolves [OF c'(1)] s(2,3) by (simp_all add: evolves_to_def)
  have f: "out_fits True all c' todo"
    using s(7) c'(2) writer_effect_fits [OF c'(2)] by (auto simp: out_fits_def writer_effect_def writer_asks_def)
  have "on_track srv all out r n \<lparr>s_conn = c', s_frame = s_frame s\<rparr>"
    using s e f c'(2) by (auto simp: on_track_def Let_def writer_effect_def serving_def output_of_def)
  with c' show ?thesis by blast
qed

text \<open>The two tasks of a new connection.\<close>

lemma on_track_start:
  assumes "fresh_conn c" and "\<not> is_dummy c" and "rx_live (rx (kern c))" and "tx_steady (tx (kern c))"
    and "length (rx_stream (rx (kern c))) < 2 ^ 31 - 1" and "rx_pauses (rx (kern c)) \<le> n"
    and "server_spec srv R_header_len 0 (rx_stream (rx (kern c))) = (out, Waiting pc pos rest)" and "length out < 1023 * 8192"
  obtains c0 fr c' where "send_fn S_loop c = Some (Inr c0)" and "events c0 = events c" and "recv_fn srv c0 = Some (Inr (fr, c'))"
    and "evolves_to (RegisterRead_suspend c0) c'" and "sockfd (sock c') = sockfd (sock c)" and "this_ptr c' = this_ptr c"
    and "on_track srv (tx_open (length out div 8) (tx (kern c))) out (Waiting pc pos rest) n \<lparr>s_conn = c', s_frame = fr\<rparr>"
proof -
  let ?all = "tx_open (length out div 8) (tx (kern c))"
  from serve_connection_fresh [OF assms(1,3-5), of srv] obtain c0 c1 where
    c0: "c0 = c\<lparr>write_handle := True, send_frame := S_write\<rparr>" "c1 = RegisterRead_suspend c0" "send_fn S_loop c = Some (Inr c0)"
    and c1: "serving c1" "output_of c1 = []" "ob_pending (write_buf c1) = []" "input_left c1 = rx_stream (rx (kern c))"
      "ib_pos (read_buf c1) = 0" "rx (kern c1) = rx (kern c)" "tx (kern c1) = tx (kern c)" "kind c1 = PollConnection" by blast
  have same: "events c0 = events c" "is_dummy c1 = is_dummy c" "sockfd (sock c1) = sockfd (sock c)" "this_ptr c1 = this_ptr c"
    by (simp_all add: c0(1,2) RegisterRead_suspend_def add_event_def)
  have "out_fits True ?all c1 out" using c1 assms(8) by (simp add: out_fits_def writer_asks_def sends_all_def)
  from on_track_run [OF c1(1,8) _ this, of srv R_header_len pc pos rest out n] c1 assms(2,6,7) same(2) obtain fr c' where
    r: "recv_run srv R_header_len c1 = Some (Inr (fr, c'))" "on_track srv ?all out (Waiting pc pos rest) n \<lparr>s_conn = c', s_frame = fr\<rparr>"
    by auto
  have ev: "evolves_to c1 c'" by (rule recv_run_evolves [OF r(1)])
  show thesis
    by (rule that [of c0 fr c']) (use r ev c0(2,3) same in \<open>simp_all add: recv_fn_def evolves_to_def\<close>)
qed

text \<open>A session that needs no more events has ended as specified, and sends what the kernel takes.\<close>

lemma on_track_end:
  assumes "on_track srv all out (Waiting pc pos rest) 0 s"
  shows "s_frame s = Some pc" and "\<not> conn_closed (s_conn s)" and "ib_unread (read_buf (s_conn s)) = rest"
    and "has_sent all out (s_conn s)"
  using assms by (auto simp: on_track_def Let_def serving_def conn_inv_def intro: out_fits_has_sent)

text \<open>
  A connection the server has just made for the descriptor \<open>fd\<close> at the address \<open>p\<close>, whose peer
  sends what the specification answers with \<open>out\<close>, in pieces with at most \<open>n\<close> pauses; and what
  its two tasks make of it.
\<close>

definition admitted :: "'m rpc_server \<Rightarrow> byte list \<Rightarrow> 'm recv_pc \<Rightarrow> int \<Rightarrow> byte list \<Rightarrow> nat \<Rightarrow> int \<Rightarrow> 64 word \<Rightarrow> connection \<Rightarrow> bool" where
  "admitted srv out pc pos rest n fd p c \<longleftrightarrow> fresh_conn c \<and> \<not> is_dummy c \<and> sockfd (sock c) = fd \<and> this_ptr c = p \<and>
     rx_live (rx (kern c)) \<and> tx_steady (tx (kern c)) \<and> length (rx_stream (rx (kern c))) < 2 ^ 31 - 1 \<and> rx_pauses (rx (kern c)) \<le> n \<and>
     server_spec srv R_header_len 0 (rx_stream (rx (kern c))) = (out, Waiting pc pos rest) \<and> length out < 1023 * 8192"

definition starts :: "'m rpc_server \<Rightarrow> bool \<Rightarrow> byte list \<Rightarrow> 'm recv_pc outcome \<Rightarrow> nat \<Rightarrow> int \<Rightarrow> 64 word \<Rightarrow> connection \<Rightarrow> bool" where
  "starts srv all out r n fd p c \<longleftrightarrow> (\<exists>c0 fr c' es. send_fn S_loop c = Some (Inr c0) \<and> events c0 = events c \<and>
     recv_fn srv c0 = Some (Inr (fr, c')) \<and> sockfd (sock c') = fd \<and> this_ptr c' = p \<and> events c' = events c0 @ EV_READ # es \<and>
     set es \<subseteq> {EV_WRITE} \<and> (ob_pending (write_buf c') \<noteq> [] \<longrightarrow> es \<noteq> []) \<and> on_track srv all out r n \<lparr>s_conn = c', s_frame = fr\<rparr>)"

lemma admitted_starts:
  assumes "admitted srv out pc pos rest n fd p c"
  shows "starts srv (tx_open (length out div 8) (tx (kern c))) out (Waiting pc pos rest) n fd p c"
proof -
  note a = assms [unfolded admitted_def]
  from a obtain c0 fr c' where s: "send_fn S_loop c = Some (Inr c0)" "events c0 = events c" "recv_fn srv c0 = Some (Inr (fr, c'))"
    "evolves_to (RegisterRead_suspend c0) c'" "sockfd (sock c') = sockfd (sock c)" "this_ptr c' = this_ptr c"
    "on_track srv (tx_open (length out div 8) (tx (kern c))) out (Waiting pc pos rest) n \<lparr>s_conn = c', s_frame = fr\<rparr>"
    by (elim conjE) (rule on_track_start [of c n srv out pc pos rest])
  have "\<not> conn_closed c'" "writer_asks c'" using s(7) by (auto simp: on_track_def Let_def serving_def conn_inv_def out_fits_def)
  moreover from s(4) this(1) obtain es where "events c' = events (RegisterRead_suspend c0) @ es" "set es \<subseteq> {EV_WRITE}"
    by (auto simp: evolves_to_def asks_for_def)
  moreover have "events c = []" using a by (auto simp: fresh_conn_def Connection_def)
  ultimately show ?thesis
    unfolding starts_def using s a by (intro exI [of _ c0] exI [of _ fr] exI [of _ c'] exI [of _ es])
      (auto simp: writer_asks_def RegisterRead_suspend_def add_event_def)
qed

subsection \<open>The interface of the executors\<close>

text \<open>
  What the server relies on. \<open>spawn\<close> appends the task to the queue. \<open>commit\<close> stores the connection
  and the frame and tells the kernel what the coroutine asked for: \<open>watched\<close> says of a descriptor
  under which address the kernel reports it, whether it reports input, and whether output.
  \<open>report w fd p\<close> is the event that says that the connection is readable, or writable if \<open>w\<close>: a
  readable event resumes the reading coroutine, a writable one takes back the interest in output
  and resumes the writing coroutine. None of them touches other connections.
\<close>

locale poll_executor =
  fixes spawn :: "server_task \<Rightarrow> ('m recv_pc, server_task, 'z) executor_scheme \<Rightarrow> bool \<times> ('m recv_pc, server_task, 'z) executor_scheme"
    and commit :: "('m recv_pc, ('m recv_pc, server_task, 'z) executor_scheme) committer"
    and handle :: "'m recv_pc resumption \<Rightarrow> 'ev \<Rightarrow> ('m recv_pc, server_task, 'z) executor_scheme \<Rightarrow>
      ('m recv_pc, server_task, 'z) executor_scheme res option"
    and report :: "bool \<Rightarrow> int \<Rightarrow> 64 word \<Rightarrow> 'ev"
    and watched :: "('m recv_pc, server_task, 'z) executor_scheme \<Rightarrow> int \<Rightarrow> (64 word \<times> bool \<times> bool) option"
  assumes spawn_queue: "task_queue (snd (spawn t ex)) = task_queue ex @ [t]"
    and spawn_rest: "sessions (snd (spawn t ex)) = sessions ex" "stop_flag (snd (spawn t ex)) = stop_flag ex"
      "watched (snd (spawn t ex)) = watched ex"
    and watched_rest: "watched (ex\<lparr>sessions := ss\<rparr>) = watched ex" "watched (ex\<lparr>should_notify := b\<rparr>) = watched ex"
      "watched (ex\<lparr>task_queue := ts\<rparr>) = watched ex"
    and commit_sessions: "sessions (commit p c c' fr ex) = (sessions ex)(p \<mapsto> \<lparr>s_conn = c', s_frame = fr\<rparr>)"
    and commit_rest: "task_queue (commit p c c' fr ex) = task_queue ex" "stop_flag (commit p c c' fr ex) = stop_flag ex"
    and commit_silent: "events c' = events c \<Longrightarrow> watched (commit p c c' fr ex) = watched ex"
    and commit_other: "fd \<noteq> sockfd (sock c') \<Longrightarrow> watched (commit p c c' fr ex) fd = watched ex fd"
    and commit_first: "watched ex (sockfd (sock c')) = None \<Longrightarrow> events c' = events c @ EV_READ # es \<Longrightarrow> set es \<subseteq> {EV_WRITE} \<Longrightarrow>
      watched (commit p c c' fr ex) (sockfd (sock c')) = Some (this_ptr c', True, es \<noteq> [])"
    and commit_more: "watched ex (sockfd (sock c')) = Some (this_ptr c', True, w) \<Longrightarrow> events c' = events c @ es \<Longrightarrow>
      set es \<subseteq> {EV_WRITE} \<Longrightarrow> watched (commit p c c' fr ex) (sockfd (sock c')) = Some (this_ptr c', True, w \<or> es \<noteq> [])"
    and handle_readable: "p \<noteq> 0 \<Longrightarrow> sessions ex p = Some s \<Longrightarrow> \<not> is_dummy (s_conn s) \<Longrightarrow>
      handle rr (report False fd p) ex = ro_bind (rr (s_frame s) (s_conn s)) (\<lambda>(fr, c').
        Some (Inr (commit p (s_conn s) c' fr ex)))"
    and handle_writable: "p \<noteq> 0 \<Longrightarrow> sessions ex p = Some s \<Longrightarrow> \<not> is_dummy (s_conn s) \<Longrightarrow>
      fd = sockfd (sock (s_conn s)) \<Longrightarrow> watched ex fd = Some (p, True, w) \<Longrightarrow>
      \<exists>ex1. handle rr (report True fd p) ex = ro_bind (resume_write (s_conn s)) (\<lambda>c'.
          Some (Inr (commit p (s_conn s) c' (s_frame s) ex1))) \<and>
        sessions ex1 = sessions ex \<and> task_queue ex1 = task_queue ex \<and> stop_flag ex1 = stop_flag ex \<and>
        watched ex1 = (watched ex)(fd \<mapsto> (p, True, False))"
begin

lemmas laws [simp] = spawn_queue spawn_rest watched_rest commit_sessions commit_rest

abbreviation reports :: "(bool \<times> int \<times> 64 word) list \<Rightarrow> 'ev list" where
  "reports es \<equiv> map (\<lambda>(w, fd, p). report w fd p) es"

abbreviation turns :: "(bool \<times> int \<times> 64 word) list list \<Rightarrow> 'ev list option list" where
  "turns ess \<equiv> map (\<lambda>es. Some (reports es)) ess"

text \<open>
  The invariant: the executor has a session for each connection of \<open>A\<close>, on track to its own
  output, and the kernel reports its input, and its output while bytes are queued.
\<close>

definition tended :: "'m rpc_server \<Rightarrow> (int \<times> 64 word \<Rightarrow> bool) \<Rightarrow> (64 word \<Rightarrow> byte list) \<Rightarrow> (64 word \<Rightarrow> 'm recv_pc outcome) \<Rightarrow>
    (int \<times> 64 word) set \<Rightarrow> (int \<times> 64 word \<Rightarrow> nat) \<Rightarrow> ('m recv_pc, server_task, 'z) executor_scheme \<Rightarrow> bool" where
  "tended srv all out r A n ex \<longleftrightarrow> (\<forall>a \<in> A. snd a \<noteq> 0 \<and> (\<exists>s w. sessions ex (snd a) = Some s \<and> this_ptr (s_conn s) = snd a \<and>
     sockfd (sock (s_conn s)) = fst a \<and> on_track srv (all a) (out (snd a)) (r (snd a)) (n a) s \<and>
     watched ex (fst a) = Some (snd a, True, w) \<and> (ob_pending (write_buf (s_conn s)) \<noteq> [] \<longrightarrow> w)))"

lemma tended_cong:
  assumes "tended srv all out r A n ex" and "sessions ex' = sessions ex" and "watched ex' = watched ex" and "\<And>a. a \<in> A \<Longrightarrow> n' a = n a"
  shows "tended srv all out r A n' ex'"
  using assms unfolding tended_def by simp

lemma tendedD:
  assumes "tended srv all out r A n ex" and "(fd, p) \<in> A"
  obtains s w where "p \<noteq> 0" and "sessions ex p = Some s" and "this_ptr (s_conn s) = p" and "sockfd (sock (s_conn s)) = fd"
    and "on_track srv (all (fd, p)) (out p) (r p) (n (fd, p)) s" and "watched ex fd = Some (p, True, w)"
    and "ob_pending (write_buf (s_conn s)) \<noteq> [] \<longrightarrow> w"
  using assms unfolding tended_def by fastforce

text \<open>A coroutine of one of the connections ran: the others are not concerned.\<close>

lemma tended_commit:
  assumes inv: "tended srv all out r A n ex" and inj: "inj_on fst (insert (fd, p) A)" "inj_on snd (insert (fd, p) A)"
    and ex1: "sessions ex1 = sessions ex" "\<And>fd'. fd' \<noteq> fd \<Longrightarrow> watched ex1 fd' = watched ex fd'"
    and c': "p \<noteq> 0" "this_ptr c' = p" "sockfd (sock c') = fd" "on_track srv (all (fd, p)) (out p) (r p) m \<lparr>s_conn = c', s_frame = fr\<rparr>"
    and w: "watched (commit p c c' fr ex1) fd = Some (p, True, w)" "ob_pending (write_buf c') \<noteq> [] \<longrightarrow> w"
  shows "tended srv all out r (insert (fd, p) A) (n((fd, p) := m)) (commit p c c' fr ex1)"
  unfolding tended_def
proof
  fix a assume a: "a \<in> insert (fd, p) A"
  show "snd a \<noteq> 0 \<and> (\<exists>s w. sessions (commit p c c' fr ex1) (snd a) = Some s \<and> this_ptr (s_conn s) = snd a \<and>
      sockfd (sock (s_conn s)) = fst a \<and> on_track srv (all a) (out (snd a)) (r (snd a)) ((n((fd, p) := m)) a) s \<and>
      watched (commit p c c' fr ex1) (fst a) = Some (snd a, True, w) \<and> (ob_pending (write_buf (s_conn s)) \<noteq> [] \<longrightarrow> w))"
  proof (cases "a = (fd, p)")
    case True
    with c' w show ?thesis by auto
  next
    case False
    with a have m: "a \<in> A" by simp
    have "fst a \<noteq> fd" "snd a \<noteq> p"
      using inj_onD [OF inj(1), of a "(fd, p)"] inj_onD [OF inj(2), of a "(fd, p)"] a False by auto
    with inv m False ex1 c'(3) commit_other [of "fst a" c' p c fr ex1] show ?thesis unfolding tended_def by auto
  qed
qed

text \<open>The new events of a coroutine that ran on an open connection.\<close>

lemma new_writes:
  assumes "evolves_to c c'" and "\<not> conn_closed c'"
  obtains es where "events c' = events c @ es" and "set es \<subseteq> {EV_WRITE}"
  using assms by (auto simp: evolves_to_def asks_for_def)

lemma on_track_open: "on_track srv all out r n s \<Longrightarrow> \<not> conn_closed (s_conn s) \<and> \<not> is_dummy (s_conn s)"
  by (auto simp: on_track_def Let_def serving_def conn_inv_def)

lemma on_track_empty: "on_track srv all out r n s \<Longrightarrow> ob_bytes (write_buf (s_conn s)) = 0 \<longleftrightarrow> ob_pending (write_buf (s_conn s)) = []"
  by (auto simp: on_track_def Let_def serving_def conn_inv_def ob_inv_def ob_bytes_def word_unat_eq_iff)

lemma tended_readable:
  assumes inv: "tended srv all out (\<lambda>p. Waiting (pc p) (pos p) (rest p)) A n ex" and a: "(fd, p) \<in> A" and inj: "inj_on fst A" "inj_on snd A"
  shows "\<exists>ex'. handle (resume_read srv) (report False fd p) ex = Some (Inr ex') \<and> task_queue ex' = task_queue ex \<and>
    stop_flag ex' = stop_flag ex \<and> tended srv all out (\<lambda>p. Waiting (pc p) (pos p) (rest p)) A (n((fd, p) := n (fd, p) - 1)) ex'"
proof -
  from tendedD [OF inv a] obtain s w where s: "p \<noteq> 0" "sessions ex p = Some s" "this_ptr (s_conn s) = p" "sockfd (sock (s_conn s)) = fd"
    "on_track srv (all (fd, p)) (out p) (Waiting (pc p) (pos p) (rest p)) (n (fd, p)) s" "watched ex fd = Some (p, True, w)"
    "ob_pending (write_buf (s_conn s)) \<noteq> [] \<longrightarrow> w" .
  from on_track_read [OF s(5)] obtain fr c' where r: "resume_read srv (s_frame s) (s_conn s) = Some (Inr (fr, c'))"
    "on_track srv (all (fd, p)) (out p) (Waiting (pc p) (pos p) (rest p)) (n (fd, p) - 1) \<lparr>s_conn = c', s_frame = fr\<rparr>"
    "asks_if_left (s_conn s) c'" by blast
  note o = on_track_open [OF r(2)] on_track_empty [OF r(2)]
  have ev: "evolves_to (s_conn s) c'" using r(3) by (simp add: asks_if_left_def)
  have id: "this_ptr c' = p" "sockfd (sock c') = fd" using ev s(3,4) by (simp_all add: evolves_to_def)
  obtain es where es: "events c' = events (s_conn s) @ es" "set es \<subseteq> {EV_WRITE}" using new_writes [OF ev] o(1) by auto
  have wt: "watched (commit p (s_conn s) c' fr ex) fd = Some (p, True, w \<or> es \<noteq> [])"
    using commit_more [of ex c' w "s_conn s" es p fr] s(6) es id by simp
  have left: "ob_pending (write_buf c') \<noteq> [] \<longrightarrow> w \<or> es \<noteq> []" using r(3) o s(7) es(1) by (auto simp: asks_if_left_def)
  have "insert (fd, p) A = A" using a by auto
  then have "tended srv all out (\<lambda>p. Waiting (pc p) (pos p) (rest p)) A (n((fd, p) := n (fd, p) - 1)) (commit p (s_conn s) c' fr ex)"
    using tended_commit [OF inv, of fd p ex c' "n (fd, p) - 1" fr "s_conn s" "w \<or> es \<noteq> []"] inj s(1) id r(2) wt left by simp
  then show ?thesis using handle_readable [OF s(1,2), of "resume_read srv" fd] on_track_open [OF s(5)] r(1) by simp
qed

text \<open>A writable event: the writer moves as much of the queue as the kernel takes.\<close>

lemma tended_writable:
  assumes inv: "tended srv all out r A n ex" and a: "(fd, p) \<in> A" and inj: "inj_on fst A" "inj_on snd A"
  shows "\<exists>s c' ex'. handle rr (report True fd p) ex = Some (Inr ex') \<and> task_queue ex' = task_queue ex \<and>
    stop_flag ex' = stop_flag ex \<and> tended srv all out r A n ex' \<and> sessions ex p = Some s \<and>
    sessions ex' = (sessions ex)(p \<mapsto> \<lparr>s_conn = c', s_frame = s_frame s\<rparr>) \<and> writer_effect (s_conn s) c' \<and> kind (s_conn s) = PollConnection \<and>
    watched ex' fd = Some (p, True, ob_pending (write_buf c') \<noteq> [])"
proof -
  from tendedD [OF inv a] obtain s w where s: "p \<noteq> 0" "sessions ex p = Some s" "this_ptr (s_conn s) = p" "sockfd (sock (s_conn s)) = fd"
    "on_track srv (all (fd, p)) (out p) (r p) (n (fd, p)) s" "watched ex fd = Some (p, True, w)" .
  from on_track_write [OF s(5)] obtain c' where c': "resume_write (s_conn s) = Some (Inr c')"
    "on_track srv (all (fd, p)) (out p) (r p) (n (fd, p)) \<lparr>s_conn = c', s_frame = s_frame s\<rparr>" "writer_effect (s_conn s) c'" by blast
  note ev = resume_write_evolves [OF c'(1)]
  have id: "this_ptr c' = p" "sockfd (sock c') = fd" using ev s(3,4) by (simp_all add: evolves_to_def)
  have "fd = sockfd (sock (s_conn s))" "\<not> is_dummy (s_conn s)" using s(4) on_track_open [OF s(5)] by auto
  from handle_writable [OF s(1,2) this(2,1) s(6), of rr] obtain ex1 where
    ex1: "handle rr (report True fd p) ex = Some (Inr (commit p (s_conn s) c' (s_frame s) ex1))" "sessions ex1 = sessions ex"
      "task_queue ex1 = task_queue ex" "stop_flag ex1 = stop_flag ex" "watched ex1 = (watched ex)(fd \<mapsto> (p, True, False))"
    using c'(1) by auto
  have w: "watched (commit p (s_conn s) c' (s_frame s) ex1) fd = Some (p, True, ob_pending (write_buf c') \<noteq> [])"
    using commit_more [of ex1 c' False "s_conn s" "if ob_pending (write_buf c') = [] then [] else [EV_WRITE]" p "s_frame s"] ex1(5) c'(3) id
    by (simp add: writer_effect_def)
  have "insert (fd, p) A = A" "n((fd, p) := n (fd, p)) = n" using a by auto
  then have "tended srv all out r A n (commit p (s_conn s) c' (s_frame s) ex1)"
    using tended_commit [OF inv, of fd p ex1 c' "n (fd, p)" "s_frame s" "s_conn s" "ob_pending (write_buf c') \<noteq> []"] inj s(1) id c'(2) w ex1(2,5) by simp
  moreover have "kind (s_conn s) = PollConnection" using s(5) by (auto simp: on_track_def Let_def)
  ultimately show ?thesis using ex1 s(2) c'(3) w by auto
qed

text \<open>
  The events of one turn, however those of different connections and of both kinds are mixed:
  each connection uses up its own readable events.
\<close>

lemma handle_reports:
  assumes "tended srv all out (\<lambda>p. Waiting (pc p) (pos p) (rest p)) A (\<lambda>a. count_list es (False, a) + n a) ex"
    and "snd ` set es \<subseteq> A" and "inj_on fst A" and "inj_on snd A"
  shows "\<exists>ex'. handle_all (handle (resume_read srv)) (reports es) ex = Some (Inr ex') \<and> task_queue ex' = task_queue ex \<and>
    stop_flag ex' = stop_flag ex \<and> tended srv all out (\<lambda>p. Waiting (pc p) (pos p) (rest p)) A n ex'"
  using assms
proof (induction es arbitrary: ex)
  case (Cons e es)
  obtain w fd p where e: "e = (w, fd, p)" by (cases e) auto
  have a: "(fd, p) \<in> A" using Cons.prems(2) e by auto
  let ?n = "\<lambda>a. count_list es (False, a) + n a"
  have "\<exists>ex1. handle (resume_read srv) (report w fd p) ex = Some (Inr ex1) \<and> task_queue ex1 = task_queue ex \<and>
      stop_flag ex1 = stop_flag ex \<and> tended srv all out (\<lambda>p. Waiting (pc p) (pos p) (rest p)) A ?n ex1"
  proof (cases w)
    case True
    with tended_writable [OF Cons.prems(1) a Cons.prems(3,4), of "resume_read srv"] show ?thesis by (auto simp: e)
  next
    case False
    from tended_readable [OF Cons.prems(1) a Cons.prems(3,4)] obtain ex1 where
      ex1: "handle (resume_read srv) (report False fd p) ex = Some (Inr ex1)" "task_queue ex1 = task_queue ex" "stop_flag ex1 = stop_flag ex"
        "tended srv all out (\<lambda>p. Waiting (pc p) (pos p) (rest p)) A
          ((\<lambda>a. count_list (e # es) (False, a) + n a)((fd, p) := count_list (e # es) (False, fd, p) + n (fd, p) - 1)) ex1" by blast
    have "tended srv all out (\<lambda>p. Waiting (pc p) (pos p) (rest p)) A ?n ex1"
      by (rule tended_cong [OF ex1(4)]) (auto simp: e False)
    with ex1(1-3) False show ?thesis by auto
  qed
  then obtain ex1 where ex1: "handle (resume_read srv) (report w fd p) ex = Some (Inr ex1)" "task_queue ex1 = task_queue ex"
    "stop_flag ex1 = stop_flag ex" "tended srv all out (\<lambda>p. Waiting (pc p) (pos p) (rest p)) A ?n ex1" by blast
  from Cons.IH [OF ex1(4)] Cons.prems(2-4) ex1(1-3) show ?case by (auto simp: e)
qed simp

text \<open>The accepted connections, and the tasks that start their coroutines.\<close>

lemma server_accepts_effect:
  assumes "\<forall>a \<in> set as. fst a \<noteq> -1" and "distinct (map snd as)"
  shows "task_queue (server_accepts spawn mk as ex) = task_queue ex @ start_tasks (map snd as) \<and>
    stop_flag (server_accepts spawn mk as ex) = stop_flag ex \<and>
    (\<forall>p. sessions (server_accepts spawn mk as ex) p = (case map_of (map prod.swap as) p of None \<Rightarrow> sessions ex p
       | Some fd \<Rightarrow> Some \<lparr>s_conn = mk fd p, s_frame = None\<rparr>))"
  using assms
proof (induction as arbitrary: ex)
  case (Cons a as)
  obtain fd p where a: "a = (fd, p)" by fastforce
  have "map_of (map prod.swap as) p = None" using Cons.prems(2) a by (force simp: map_of_eq_None_iff)
  with Cons.IH [of "server_accept spawn mk fd p ex"] Cons.prems a show ?case
    by (auto simp: server_accept_def split: option.splits)
qed simp

lemma server_accepts_watched: "watched (server_accepts spawn mk as ex) = watched ex"
  by (induction as arbitrary: ex) (simp_all add: server_accept_def)

lemma start_one:
  assumes q: "task_queue ex = RunSend p # RunRecv p # ts" and s: "sessions ex p = Some s"
    and st: "starts srv (all (fd, p)) (out p) (r p) (n (fd, p)) fd p (s_conn s)" and p: "p \<noteq> 0" "watched ex fd = None"
    and inv: "tended srv all out r A n ex" and inj: "inj_on fst (insert (fd, p) A)" "inj_on snd (insert (fd, p) A)" and new: "(fd, p) \<notin> A"
  obtains ex' where "drain (run_server_task commit srv) ex = drain (run_server_task commit srv) ex'"
    and "task_queue ex' = ts" and "stop_flag ex' = stop_flag ex" and "\<forall>q. q \<noteq> p \<longrightarrow> sessions ex' q = sessions ex q"
    and "\<forall>fd'. fd' \<noteq> fd \<longrightarrow> watched ex' fd' = watched ex fd'" and "tended srv all out r (insert (fd, p) A) n ex'"
proof -
  from st obtain c0 fr c' es where c: "send_fn S_loop (s_conn s) = Some (Inr c0)" "events c0 = events (s_conn s)"
    "recv_fn srv c0 = Some (Inr (fr, c'))" "sockfd (sock c') = fd" "this_ptr c' = p" "events c' = events c0 @ EV_READ # es"
    "set es \<subseteq> {EV_WRITE}" "ob_pending (write_buf c') \<noteq> [] \<longrightarrow> es \<noteq> []"
    "on_track srv (all (fd, p)) (out p) (r p) (n (fd, p)) \<lparr>s_conn = c', s_frame = fr\<rparr>" unfolding starts_def by blast
  let ?ex0 = "commit p (s_conn s) c0 (s_frame s) (ex\<lparr>task_queue := RunRecv p # ts\<rparr>)"
  let ?ex1 = "?ex0\<lparr>task_queue := ts\<rparr>"
  let ?ex2 = "commit p c0 c' fr ?ex1"
  have d: "drain (run_server_task commit srv) ex = drain (run_server_task commit srv) ?ex2"
    using drain_Cons [OF q, of "run_server_task commit srv" ?ex0] drain_Cons [of ?ex0 "RunRecv p" ts "run_server_task commit srv" ?ex2] s c(1,3) by simp
  have w1: "watched ?ex1 = watched ex" using commit_silent [OF c(2)] by simp
  have "snd a \<noteq> p" if "a \<in> A" for a using inj_onD [OF inj(2), of a "(fd, p)"] that new by auto
  then have "tended srv all out r A n ?ex1" using inv unfolding tended_def w1 by simp
  moreover have "watched ?ex2 fd = Some (p, True, es \<noteq> [])" using commit_first [of ?ex1 c' c0 es p fr] c(4-7) p(2) w1 by simp
  ultimately have t: "tended srv all out r (insert (fd, p) A) (n((fd, p) := n (fd, p))) ?ex2"
    using tended_commit [of srv all out r A n ?ex1 fd p ?ex1 c' "n (fd, p)" fr c0 "es \<noteq> []"] inj p(1) c(4,5,8,9) by blast
  show thesis
  proof (rule that [OF d])
    show "\<forall>fd'. fd' \<noteq> fd \<longrightarrow> watched ?ex2 fd' = watched ex fd'" using commit_other [of _ c'] c(4) w1 by auto
    show "tended srv all out r (insert (fd, p) A) n ?ex2" using t by simp
  qed simp_all
qed

lemma drain_tends:
  assumes "task_queue ex = start_tasks (map snd bs)" and "tended srv all out r A n ex"
    and "inj_on fst (A \<union> set bs)" and "inj_on snd (A \<union> set bs)" and "distinct bs" and "A \<inter> set bs = {}"
    and "\<And>fd p. (fd, p) \<in> set bs \<Longrightarrow> p \<noteq> 0 \<and> watched ex fd = None \<and>
      (\<exists>s. sessions ex p = Some s \<and> starts srv (all (fd, p)) (out p) (r p) (n (fd, p)) fd p (s_conn s))"
  shows "\<exists>ex'. drain (run_server_task commit srv) ex = Some (Inr ex') \<and> task_queue ex' = [] \<and> stop_flag ex' = stop_flag ex \<and>
    tended srv all out r (A \<union> set bs) n ex'"
  using assms
proof (induction bs arbitrary: A ex)
  case (Cons b bs)
  obtain fd p where b: "b = (fd, p)" by fastforce
  from Cons.prems(7) [of fd p] b obtain s where s: "p \<noteq> 0" "watched ex fd = None" "sessions ex p = Some s"
    "starts srv (all (fd, p)) (out p) (r p) (n (fd, p)) fd p (s_conn s)" by auto
  have inj: "inj_on fst (insert (fd, p) A)" "inj_on snd (insert (fd, p) A)" "(fd, p) \<notin> A"
    using Cons.prems(3,4,6) b by (auto elim: inj_on_subset)
  from start_one [OF _ s(3,4,1,2) Cons.prems(2) inj] Cons.prems(1) obtain ex1 where
    ex1: "drain (run_server_task commit srv) ex = drain (run_server_task commit srv) ex1" "task_queue ex1 = start_tasks (map snd bs)"
      "stop_flag ex1 = stop_flag ex" "\<forall>q. q \<noteq> p \<longrightarrow> sessions ex1 q = sessions ex q" "\<forall>fd'. fd' \<noteq> fd \<longrightarrow> watched ex1 fd' = watched ex fd'"
      "tended srv all out r (insert (fd, p) A) n ex1" by (auto simp: b)
  have "q \<noteq> p \<and> fd' \<noteq> fd" if "(fd', q) \<in> set bs" for fd' q
    using that inj_onD [OF Cons.prems(3), of "(fd', q)" "(fd, p)"] inj_onD [OF Cons.prems(4), of "(fd', q)" "(fd, p)"] Cons.prems(5) b by auto
  then have "q \<noteq> 0 \<and> watched ex1 fd' = None \<and>
      (\<exists>s. sessions ex1 q = Some s \<and> starts srv (all (fd', q)) (out q) (r q) (n (fd', q)) fd' q (s_conn s))" if "(fd', q) \<in> set bs" for fd' q
    using that Cons.prems(7) [of fd' q] ex1(4,5) by auto
  from Cons.IH [OF ex1(2,6) _ _ _ _ this] Cons.prems(3-6) ex1(1,3) show ?case by (auto simp: b)
qed (simp add: drain_Nil)

text \<open>One turn, and the loop.\<close>

lemma turn_reports:
  assumes "snd ` set es \<subseteq> A" and "inj_on fst A" and "inj_on snd A" and "length es \<le> MAX_EVENTS"
    and "tended srv all out (\<lambda>p. Waiting (pc p) (pos p) (rest p)) A (\<lambda>a. count_list es (False, a) + n a) ex1"
    and d: "drain run ex = Some (Inr ex1)"
  shows "\<exists>ex'. poll_turn (handle (resume_read srv)) run (Some (reports es)) ex = Some (Inr ex') \<and>
    tended srv all out (\<lambda>p. Waiting (pc p) (pos p) (rest p)) A n ex' \<and> task_queue ex' = task_queue ex1 \<and> stop_flag ex' = stop_flag ex1"
proof -
  have "tended srv all out (\<lambda>p. Waiting (pc p) (pos p) (rest p)) A (\<lambda>a. count_list es (False, a) + n a) (ex1\<lparr>should_notify := True\<rparr>)"
    by (rule tended_cong [OF assms(5)]) simp_all
  from handle_reports [OF this assms(1-3)] d assms(4) show ?thesis by (auto simp: poll_turn_def Let_def)
qed

lemma loop_reports:
  assumes "\<And>es. es \<in> set ess \<Longrightarrow> snd ` set es \<subseteq> A \<and> length es \<le> MAX_EVENTS" and "inj_on fst A" and "inj_on snd A"
    and "tended srv all out (\<lambda>p. Waiting (pc p) (pos p) (rest p)) A (\<lambda>a. count_list (concat ess) (False, a)) ex"
    and "task_queue ex = []" and "\<not> stop_flag ex"
  shows "\<exists>ex'. poll_loop (handle (resume_read srv)) run (turns ess) ex = Some (Inr ex') \<and> task_queue ex' = [] \<and>
    tended srv all out (\<lambda>p. Waiting (pc p) (pos p) (rest p)) A (\<lambda>_. 0) ex'"
  using assms
proof (induction ess arbitrary: ex)
  case (Cons es ess)
  have "tended srv all out (\<lambda>p. Waiting (pc p) (pos p) (rest p)) A (\<lambda>a. count_list es (False, a) + count_list (concat ess) (False, a)) ex"
    by (rule tended_cong [OF Cons.prems(4)]) simp_all
  from turn_reports [OF _ Cons.prems(2,3) _ this drain_Nil [OF Cons.prems(5), of run]] Cons.prems(1) [of es] obtain ex1 where
    ex1: "poll_turn (handle (resume_read srv)) run (Some (reports es)) ex = Some (Inr ex1)"
      "tended srv all out (\<lambda>p. Waiting (pc p) (pos p) (rest p)) A (\<lambda>a. count_list (concat ess) (False, a)) ex1"
      "task_queue ex1 = []" "\<not> stop_flag ex1" using Cons.prems(5,6) by auto
  from Cons.IH [OF Cons.prems(1) Cons.prems(2,3) ex1(2-4)] ex1(1) Cons.prems(6) show ?case by simp
qed simp

text \<open>
  The executor serves every accepted connection by the specification of the server, whatever
  the order of the events: from the invariant at the end of the run follows how each session
  ended, what it has sent and what it is registered for.
\<close>

lemma serves:
  assumes "task_queue ex = []" and "\<not> stop_flag ex"
    and d: "distinct (map fst as)" "distinct (map snd as)" and new: "\<forall>(fd, p) \<in> set as. watched ex fd = None \<and> fd \<noteq> -1 \<and> p \<noteq> 0 \<and>
      admitted srv (out p) (pc p) (pos p) (rest p) (count_list (concat ess) (False, fd, p)) fd p (mk fd p)"
    and "ess \<noteq> []" and ess: "\<forall>es \<in> set ess. snd ` set es \<subseteq> set as \<and> length es \<le> MAX_EVENTS"
  shows "\<exists>ex'. poll_loop (handle (resume_read srv)) (run_server_task commit srv) (turns ess) (server_accepts spawn mk as ex) = Some (Inr ex') \<and> task_queue ex' = [] \<and>
    tended srv (\<lambda>(fd, p). tx_open (length (out p) div 8) (tx (kern (mk fd p)))) out (\<lambda>p. Waiting (pc p) (pos p) (rest p)) (set as) (\<lambda>_. 0) ex'"
proof -
  let ?all = "\<lambda>(fd, p). tx_open (length (out p) div 8) (tx (kern (mk fd p)))" and ?r = "\<lambda>p. Waiting (pc p) (pos p) (rest p)"
  let ?ex = "server_accepts spawn mk as ex" and ?n = "\<lambda>a. count_list (concat ess) (False, a)"
  have "\<forall>a \<in> set as. fst a \<noteq> -1" using new by auto
  note ae = server_accepts_effect [OF this d(2), of mk ex]
  have acc: "task_queue ?ex = start_tasks (map snd as)" "stop_flag ?ex = stop_flag ex"
    and conns: "\<And>fd p. (fd, p) \<in> set as \<Longrightarrow> sessions ?ex p = Some \<lparr>s_conn = mk fd p, s_frame = None\<rparr>"
    using ae assms(1,2) accepted_fd [OF d(2)] by simp_all
  have inj: "inj_on fst (set as)" "inj_on snd (set as)" "distinct as" using d by (simp_all add: distinct_map)
  have st: "p \<noteq> 0 \<and> watched ?ex fd = None \<and> (\<exists>s. sessions ?ex p = Some s \<and> starts srv (?all (fd, p)) (out p) (?r p) (?n (fd, p)) fd p (s_conn s))"
    if "(fd, p) \<in> set as" for fd p
  proof -
    from new that have a: "watched ex fd = None" "p \<noteq> 0" "admitted srv (out p) (pc p) (pos p) (rest p) (?n (fd, p)) fd p (mk fd p)" by auto
    from admitted_starts [OF a(3)] conns [OF that] a(1,2) show ?thesis by (simp add: server_accepts_watched)
  qed
  have "tended srv ?all out ?r {} ?n ?ex" by (simp add: tended_def)
  from drain_tends [OF acc(1) this _ _ inj(3) _ st] inj(1,2) obtain ex1 where
    ex1: "drain (run_server_task commit srv) ?ex = Some (Inr ex1)" "task_queue ex1 = []" "stop_flag ex1 = stop_flag ?ex" "tended srv ?all out ?r (set as) ?n ex1"
    by auto
  obtain es ess' where e: "ess = es # ess'" using assms(6) by (cases ess) auto
  have "tended srv ?all out ?r (set as) (\<lambda>a. count_list es (False, a) + count_list (concat ess') (False, a)) ex1"
    by (rule tended_cong [OF ex1(4)]) (simp_all add: e)
  from turn_reports [OF _ inj(1,2) _ this ex1(1)] ess acc(2) ex1(2,3) assms(2) obtain ex2 where
    t: "poll_turn (handle (resume_read srv)) (run_server_task commit srv) (Some (reports es)) ?ex = Some (Inr ex2)"
      "tended srv ?all out ?r (set as) (\<lambda>a. count_list (concat ess') (False, a)) ex2" "task_queue ex2 = []" "\<not> stop_flag ex2" by (auto simp: e)
  from loop_reports [OF _ inj(1,2) t(2-4), of "run_server_task commit srv"] ess obtain ex3 where
    l: "poll_loop (handle (resume_read srv)) (run_server_task commit srv) (turns ess') ex2 = Some (Inr ex3)" "task_queue ex3 = []" "tended srv ?all out ?r (set as) (\<lambda>_. 0) ex3"
    by (auto simp: e)
  then show ?thesis using t(1) acc(2) assms(2) by (auto simp: e)
qed

lemma serves_connections:
  assumes "task_queue ex = []" and "\<not> stop_flag ex"
    and "distinct (map fst as)" and "distinct (map snd as)" and "\<forall>(fd, p) \<in> set as. watched ex fd = None \<and> fd \<noteq> -1 \<and> p \<noteq> 0 \<and>
      admitted srv (out p) (pc p) (pos p) (rest p) (count_list (concat ess) (False, fd, p)) fd p (mk fd p)"
    and "ess \<noteq> []" and "\<forall>es \<in> set ess. snd ` set es \<subseteq> set as \<and> length es \<le> MAX_EVENTS"
  shows "\<exists>ex'. poll_loop (handle (resume_read srv)) (run_server_task commit srv) (turns ess) (server_accepts spawn mk as ex) = Some (Inr ex') \<and> task_queue ex' = [] \<and>
    (\<forall>(fd, p) \<in> set as. \<exists>c' w ex2 c2. sessions ex' p = Some \<lparr>s_conn = c', s_frame = Some (pc p)\<rparr> \<and> \<not> conn_closed c' \<and>
      ib_unread (read_buf c') = rest p \<and> has_sent (tx_open (length (out p) div 8) (tx (kern (mk fd p)))) (out p) c' \<and>
      watched ex' fd = Some (p, True, w) \<and> (ob_pending (write_buf c') \<noteq> [] \<longrightarrow> w) \<and>
      handle (resume_read srv) (report True fd p) ex' = Some (Inr ex2) \<and> sessions ex2 p = Some \<lparr>s_conn = c2, s_frame = Some (pc p)\<rparr> \<and>
      writes_out c' c2 \<and> watched ex2 fd = Some (p, True, ob_pending (write_buf c2) \<noteq> []))"
proof -
  let ?all = "\<lambda>(fd, p). tx_open (length (out p) div 8) (tx (kern (mk fd p)))" and ?r = "\<lambda>p. Waiting (pc p) (pos p) (rest p)"
  have inj: "inj_on fst (set as)" "inj_on snd (set as)" using assms(3,4) by (simp_all add: distinct_map)
  from serves [OF assms] obtain ex' where ex': "poll_loop (handle (resume_read srv)) (run_server_task commit srv) (turns ess) (server_accepts spawn mk as ex)
      = Some (Inr ex')" "tended srv ?all out ?r (set as) (\<lambda>_. 0) ex'" "task_queue ex' = []" by blast
  have "\<exists>c' w ex2 c2. sessions ex' p = Some \<lparr>s_conn = c', s_frame = Some (pc p)\<rparr> \<and> \<not> conn_closed c' \<and>
      ib_unread (read_buf c') = rest p \<and> has_sent (tx_open (length (out p) div 8) (tx (kern (mk fd p)))) (out p) c' \<and>
      watched ex' fd = Some (p, True, w) \<and> (ob_pending (write_buf c') \<noteq> [] \<longrightarrow> w) \<and>
      handle (resume_read srv) (report True fd p) ex' = Some (Inr ex2) \<and> sessions ex2 p = Some \<lparr>s_conn = c2, s_frame = Some (pc p)\<rparr> \<and>
      writes_out c' c2 \<and> watched ex2 fd = Some (p, True, ob_pending (write_buf c2) \<noteq> [])" if a: "(fd, p) \<in> set as" for fd p
  proof -
    from tendedD [OF ex'(2) a] obtain s w where s: "sessions ex' p = Some s"
      "on_track srv (?all (fd, p)) (out p) (?r p) 0 s" "watched ex' fd = Some (p, True, w)" "ob_pending (write_buf (s_conn s)) \<noteq> [] \<longrightarrow> w" .
    note e = on_track_end [OF s(2)]
    from tended_writable [OF ex'(2) a inj, of "resume_read srv"] s(1) obtain c2 ex2 where
      w: "handle (resume_read srv) (report True fd p) ex' = Some (Inr ex2)" "sessions ex2 p = Some \<lparr>s_conn = c2, s_frame = Some (pc p)\<rparr>"
        "writer_effect (s_conn s) c2" "kind (s_conn s) = PollConnection" "watched ex2 fd = Some (p, True, ob_pending (write_buf c2) \<noteq> [])"
      by (auto simp: e(1))
    have "sessions ex' p = Some \<lparr>s_conn = s_conn s, s_frame = Some (pc p)\<rparr>" using s(1) e(1) by (cases s) simp
    with e s(3,4) w writer_effect_writes_out [OF w(3,4)] show ?thesis
      by (intro exI [of _ "s_conn s"] exI [of _ w] exI [of _ ex2] exI [of _ c2]) simp
  qed
  with ex'(1,3) show ?thesis by fast
qed

end

subsection \<open>Example connections\<close>

text \<open>For the witnesses: one connection whose request arrives in two pieces, and others whose request arrives at once.\<close>

definition example_mk :: "int \<Rightarrow> 64 word \<Rightarrow> connection" where
  "example_mk fd p = Connection PollConnection (Socket (\<lambda>_. (0, 0)) (\<lambda>_. (0, 0)) (\<lambda>_. [])
     \<lparr>rx = (if fd = 5 then [RxData [1, 0, 0], RxErrno EAGAIN, RxData [0, 1, 1, 0, 0, 0, 5]] else [RxData [1, 0, 0, 0, 1, 1, 0, 0, 0, 6]]),
      tx = (if fd = 5 then [TxTake 3, TxErrno EAGAIN, TxTake 100] else [TxTake (2 ^ 31)]), wire = [], shut_wr = False\<rparr> fd)
     False p \<lparr>sq_entries = 16384, sq = [], submitted = []\<rparr> (\<lambda>_ _. 0)"

lemma example_mk_facts:
  "fresh_conn (example_mk fd p)" "\<not> is_dummy (example_mk fd p)" "sockfd (sock (example_mk fd p)) = fd" "this_ptr (example_mk fd p) = p"
  "tx (kern (example_mk fd p)) = (if fd = 5 then [TxTake 3, TxErrno EAGAIN, TxTake 100] else [TxTake (2 ^ 31)])"
  "rx (kern (example_mk fd p)) = (if fd = 5 then [RxData [1, 0, 0], RxErrno EAGAIN, RxData [0, 1, 1, 0, 0, 0, 5]]
     else [RxData [1, 0, 0, 0, 1, 1, 0, 0, 0, 6]])"
proof -
  show "fresh_conn (example_mk fd p)" unfolding fresh_conn_def example_mk_def
    by (intro exI conjI, rule refl) (simp_all add: Socket_def Let_def)
qed (simp_all add: example_mk_def Connection_def Socket_def Let_def)

lemma example_spec: "server_spec echo_server R_header_len 0 [1, 0, 0, 0, 1, 1, 0, 0, 0, b]
    = (frame [7] @ frame [0, b], Waiting R_header_len 10 [])"
proof -
  have "server_spec echo_server R_header_len 0 (pairs_bytes [([1], [b])])
    = (answers_bytes echo_server [([1], [b])], Waiting R_header_len ((0 + int (length (pairs_bytes [([1], [b])]))) mod kBlockSize) [])"
    by (rule server_spec_requests) (auto simp: echo_answer aligned_def kBlockSize_def)
  then show ?thesis by (simp add: echo_answer frame_def u32_bytes_def kBlockSize_def)
qed

lemma example_admitted:
  assumes "fd = 5 \<longrightarrow> 0 < n"
  shows "admitted echo_server (frame [7] @ frame [0, if fd = 5 then 5 else 6]) R_header_len 10 [] n fd p (example_mk fd p)"
  using assms by (auto simp: admitted_def example_mk_facts example_spec frame_def)

end
