(* ===== verification/Epoll.thy ===== *)
theory Epoll
  imports Executor
begin

section \<open>EpollExecutor (src/scheduler/epoll_executor.h, src/scheduler/epoll_exector.cc)\<close>

text \<open>
  The executor on Linux. Beside the members of every executor it has the kernel's interest
  list and the counter of its event descriptor. The theory provides the interface
  \<open>poll_executor\<close>, and shows that the interest list keeps up with the connections.
\<close>

record ep_mask =
  ep_in :: bool
  ep_out :: bool
  ep_et :: bool

type_synonym interest = "int \<Rightarrow> (64 word \<times> ep_mask) option"

datatype ctl_op = EPOLL_CTL_ADD | EPOLL_CTL_MOD | EPOLL_CTL_DEL

text \<open>
  \<open>epoll_ctl\<close>: adding a descriptor twice and changing or removing an unknown one fail; \<open>refused\<close>
  stands for the other reasons.
\<close>

definition epoll_ctl :: "bool \<Rightarrow> ctl_op \<Rightarrow> int \<Rightarrow> 64 word \<Rightarrow> ep_mask \<Rightarrow> interest \<Rightarrow> bool \<times> interest" where
  "epoll_ctl refused op fd p m I =
     (if refused \<or> (op = EPOLL_CTL_ADD) = (I fd \<noteq> None) then (False, I)
      else (True, I(fd := (if op = EPOLL_CTL_DEL then None else Some (p, m)))))"

definition epoll_add_event :: "bool \<Rightarrow> event_type \<Rightarrow> connection \<Rightarrow> interest \<Rightarrow> bool \<times> interest" where
  "epoll_add_event refused t c I =
     (let fd = sockfd (sock c); p = this_ptr c in
      case t of
        EV_READ \<Rightarrow> epoll_ctl refused EPOLL_CTL_ADD fd p \<lparr>ep_in = True, ep_out = False, ep_et = True\<rparr> I
      | EV_WRITE \<Rightarrow> epoll_ctl refused EPOLL_CTL_MOD fd p \<lparr>ep_in = True, ep_out = True, ep_et = True\<rparr> I
      | EV_DELETE \<Rightarrow> epoll_ctl refused EPOLL_CTL_DEL fd p \<lparr>ep_in = False, ep_out = False, ep_et = False\<rparr> I
      | EV_UNKNOWN \<Rightarrow> (True, I))"

record ('pc, 't) epoll_executor = "('pc, 't) executor" +
  interest :: interest
  event_count :: nat

text \<open>
  The constructor: the event descriptor is registered with the dummy connection at \<open>p\<close>.
  \<open>stop_\<close> has no initialiser, so its first value is an argument.
\<close>

definition EpollExecutor :: "bool \<Rightarrow> bool \<Rightarrow> 64 word \<Rightarrow> connection \<Rightarrow> ('pc, 't) epoll_executor" where
  "EpollExecutor indeterminate refused p dummy =
     \<lparr>sessions = [p \<mapsto> \<lparr>s_conn = dummy, s_frame = None\<rparr>],
      should_notify = False, task_queue = [], stop_flag = indeterminate,
      interest = snd (epoll_ctl refused EPOLL_CTL_ADD (sockfd (sock dummy)) p \<lparr>ep_in = True, ep_out = False, ep_et = True\<rparr> (\<lambda>_. None)),
      event_count = 0\<rparr>"

definition epoll_stop :: "('pc, 't) epoll_executor \<Rightarrow> ('pc, 't) epoll_executor" where
  "epoll_stop ex = ex\<lparr>stop_flag := True\<rparr>"

text \<open>\<open>spawn\<close> without interference: queue the task, and notify if the flag can be reset.\<close>

definition epoll_spawn :: "'t \<Rightarrow> ('pc, 't) epoll_executor \<Rightarrow> bool \<times> ('pc, 't) epoll_executor" where
  "epoll_spawn task ex =
     (let ex1 = ex\<lparr>task_queue := task_queue ex @ [task]\<rparr> in
      (True, if should_notify ex1 then ex1\<lparr>should_notify := False, event_count := event_count ex1 + 1\<rparr> else ex1))"

text \<open>A coroutine of the connection \<open>c\<close> at \<open>p\<close> ran and left \<open>c'\<close> and the frame \<open>fr\<close>.\<close>

definition epoll_commit :: "64 word \<Rightarrow> connection \<Rightarrow> connection \<Rightarrow> 'pc option \<Rightarrow> ('pc, 't) epoll_executor \<Rightarrow> ('pc, 't) epoll_executor" where
  "epoll_commit p c c' fr ex = ex\<lparr>sessions := (sessions ex)(p \<mapsto> \<lparr>s_conn = c', s_frame = fr\<rparr>),
     interest := fold (\<lambda>t I. snd (epoll_add_event False t c' I)) (drop (length (events c)) (events c')) (interest ex)\<rparr>"

record ep_event =
  ev_ptr :: "64 word"
  ev_in :: bool
  ev_out :: bool
  ev_hup :: bool
  ev_rdhup :: bool

text \<open>The three parts of the loop over the reported events; the first component says whether the next part runs.\<close>

definition epoll_hangup :: "64 word \<Rightarrow> 'pc session \<Rightarrow> ('pc, 't) epoll_executor \<Rightarrow> ('pc, 't) epoll_executor" where
  "epoll_hangup p s ex =
     (let c = conn_close (s_conn s) in
      ex\<lparr>sessions := (sessions ex)(p \<mapsto> s\<lparr>s_conn := c\<rparr>),
         interest := snd (epoll_ctl False EPOLL_CTL_DEL (sockfd (sock c)) p \<lparr>ep_in = False, ep_out = False, ep_et = False\<rparr> (interest ex))\<rparr>)"

definition epoll_writable :: "64 word \<Rightarrow> 'pc session \<Rightarrow> ('pc, 't) epoll_executor \<Rightarrow> (bool \<times> ('pc, 't) epoll_executor) res option" where
  "epoll_writable p s ex =
     (let c = s_conn s in
      case epoll_ctl False EPOLL_CTL_MOD (sockfd (sock c)) p \<lparr>ep_in = True, ep_out = False, ep_et = True\<rparr> (interest ex) of
        (False, I) \<Rightarrow> Some (Inr (False, ex))
      | (True, I) \<Rightarrow> ro_bind (resume_write c) (\<lambda>c'. Some (Inr (True, epoll_commit p c c' (s_frame s) (ex\<lparr>interest := I\<rparr>)))))"

definition epoll_readable :: "'pc resumption \<Rightarrow> 64 word \<Rightarrow> 'pc session \<Rightarrow> ('pc, 't) epoll_executor \<Rightarrow> ('pc, 't) epoll_executor res option" where
  "epoll_readable rr p s ex = ro_bind (rr (s_frame s) (s_conn s)) (\<lambda>(fr, c').
     Some (Inr (epoll_commit p (s_conn s) c' fr ex)))"

definition epoll_handle :: "'pc resumption \<Rightarrow> ep_event \<Rightarrow> ('pc, 't) epoll_executor \<Rightarrow> ('pc, 't) epoll_executor res option" where
  "epoll_handle rr ev ex =
     (let p = ev_ptr ev in
      if p = 0 then Some (Inr ex)
      else case sessions ex p of None \<Rightarrow> Some (Inl UseAfterFree)
      | Some s \<Rightarrow>
        if is_dummy (s_conn s) then Some (Inr (ex\<lparr>event_count := 0, should_notify := False\<rparr>))
        else if ev_hup ev \<or> ev_rdhup ev then Some (Inr (epoll_hangup p s ex))
        else ro_bind (if ev_out ev then epoll_writable p s ex else Some (Inr (True, ex))) (\<lambda>(go_on, ex1).
          if go_on \<and> ev_in ev then (case sessions ex1 p of None \<Rightarrow> Some (Inl UseAfterFree)
            | Some s1 \<Rightarrow> epoll_readable rr p s1 ex1)
          else Some (Inr ex1)))"

text \<open>An event that only says that the connection at \<open>p\<close> is readable, or writable if \<open>w\<close>; and what the list has of a descriptor.\<close>

definition poll_event :: "bool \<Rightarrow> int \<Rightarrow> 64 word \<Rightarrow> ep_event" where
  "poll_event w fd p = \<lparr>ev_ptr = p, ev_in = \<not> w, ev_out = w, ev_hup = False, ev_rdhup = False\<rparr>"

definition epoll_watched :: "('pc, 't) epoll_executor \<Rightarrow> int \<Rightarrow> (64 word \<times> bool \<times> bool) option" where
  "epoll_watched ex fd = map_option (\<lambda>(p, m). (p, ep_in m \<and> ep_et m, ep_out m)) (interest ex fd)"

lemma epoll_commit_simps [simp]:
  "sessions (epoll_commit p c c' fr ex) = (sessions ex)(p \<mapsto> \<lparr>s_conn = c', s_frame = fr\<rparr>)"
  "task_queue (epoll_commit p c c' fr ex) = task_queue ex" "stop_flag (epoll_commit p c c' fr ex) = stop_flag ex"
  "should_notify (epoll_commit p c c' fr ex) = should_notify ex" "event_count (epoll_commit p c c' fr ex) = event_count ex"
  by (simp_all add: epoll_commit_def)

abbreviation apply_events :: "connection \<Rightarrow> event_type list \<Rightarrow> interest \<Rightarrow> interest" where
  "apply_events c es I \<equiv> fold (\<lambda>t I. snd (epoll_add_event False t c I)) es I"

lemma apply_events_other: "fd \<noteq> sockfd (sock c) \<Longrightarrow> apply_events c es I fd = I fd"
proof (induction es arbitrary: I)
  case (Cons t es)
  have "snd (epoll_add_event False t c I) fd = I fd"
    using Cons.prems by (cases t) (simp_all add: epoll_add_event_def epoll_ctl_def Let_def)
  with Cons show ?case by simp
qed simp

lemma apply_writes:
  assumes "set es \<subseteq> {EV_WRITE}" and "I (sockfd (sock c)) = Some (this_ptr c, m)" and "ep_in m" and "ep_et m"
  shows "\<exists>m'. apply_events c es I (sockfd (sock c)) = Some (this_ptr c, m') \<and> ep_in m' \<and> ep_et m' \<and> ep_out m' = (ep_out m \<or> es \<noteq> [])"
  using assms
proof (induction es arbitrary: I m)
  case (Cons t es)
  then have t: "t = EV_WRITE" by simp
  let ?m = "\<lparr>ep_in = True, ep_out = True, ep_et = True\<rparr>" and ?I = "snd (epoll_add_event False t c I)"
  have "?I (sockfd (sock c)) = Some (this_ptr c, ?m)" using Cons.prems t by (simp add: epoll_add_event_def epoll_ctl_def Let_def)
  from Cons.IH [where I = ?I and m = ?m, OF _ this] Cons.prems(1) show ?case by auto
qed simp

lemma epoll_commit_interest: "events c' = events c @ es \<Longrightarrow> interest (epoll_commit p c c' fr ex) = apply_events c' es (interest ex)"
  by (simp add: epoll_commit_def)

lemma epoll_watchedD: "epoll_watched ex fd = Some (p, True, w) \<Longrightarrow> \<exists>m. interest ex fd = Some (p, m) \<and> ep_in m \<and> ep_et m \<and> ep_out m = w"
  by (auto simp: epoll_watched_def)

lemma epoll_commit_more:
  assumes "epoll_watched ex (sockfd (sock c')) = Some (this_ptr c', True, w)" and "events c' = events c @ es" and "set es \<subseteq> {EV_WRITE}"
  shows "epoll_watched (epoll_commit p c c' fr ex) (sockfd (sock c')) = Some (this_ptr c', True, w \<or> es \<noteq> [])"
proof -
  obtain m where "interest ex (sockfd (sock c')) = Some (this_ptr c', m)" "ep_in m" "ep_et m" "ep_out m = w"
    using epoll_watchedD [OF assms(1)] by blast
  with apply_writes [where c = c' and I = "interest ex" and m = m, OF assms(3)] show ?thesis by (auto simp: epoll_watched_def epoll_commit_interest [OF assms(2)])
qed

lemma epoll_commit_first:
  assumes "epoll_watched ex (sockfd (sock c')) = None" and "events c' = events c @ EV_READ # es" and "set es \<subseteq> {EV_WRITE}"
  shows "epoll_watched (epoll_commit p c c' fr ex) (sockfd (sock c')) = Some (this_ptr c', True, es \<noteq> [])"
proof -
  let ?I = "snd (epoll_add_event False EV_READ c' (interest ex))" and ?m = "\<lparr>ep_in = True, ep_out = False, ep_et = True\<rparr>"
  have "?I (sockfd (sock c')) = Some (this_ptr c', ?m)"
    using assms(1) by (simp add: epoll_watched_def epoll_add_event_def epoll_ctl_def Let_def)
  with apply_writes [where c = c' and I = ?I and m = ?m, OF assms(3)] show ?thesis by (auto simp: epoll_watched_def epoll_commit_interest [OF assms(2)])
qed

lemma epoll_handle_writable:
  assumes "p \<noteq> 0" and "sessions ex p = Some s" and "\<not> is_dummy (s_conn s)" and "fd = sockfd (sock (s_conn s))"
    and "epoll_watched ex fd = Some (p, True, w)"
  shows "\<exists>ex1. epoll_handle rr (poll_event True fd p) ex = ro_bind (resume_write (s_conn s)) (\<lambda>c'.
        Some (Inr (epoll_commit p (s_conn s) c' (s_frame s) ex1))) \<and>
      sessions ex1 = sessions ex \<and> task_queue ex1 = task_queue ex \<and> stop_flag ex1 = stop_flag ex \<and>
      epoll_watched ex1 = (epoll_watched ex)(fd \<mapsto> (p, True, False))"
proof -
  let ?I = "(interest ex)(fd \<mapsto> (p, \<lparr>ep_in = True, ep_out = False, ep_et = True\<rparr>))"
  have "interest ex fd \<noteq> None" using epoll_watchedD [OF assms(5)] by auto
  then have "epoll_ctl False EPOLL_CTL_MOD fd p \<lparr>ep_in = True, ep_out = False, ep_et = True\<rparr> (interest ex) = (True, ?I)"
    by (auto simp: epoll_ctl_def)
  then have "epoll_handle rr (poll_event True fd p) ex = ro_bind (resume_write (s_conn s)) (\<lambda>c'.
      Some (Inr (epoll_commit p (s_conn s) c' (s_frame s) (ex\<lparr>interest := ?I\<rparr>))))"
    using assms(1-4) by (cases "resume_write (s_conn s)") (auto simp: epoll_handle_def poll_event_def epoll_writable_def Let_def ro_bind_def split: sum.splits)
  then show ?thesis by (intro exI [of _ "ex\<lparr>interest := ?I\<rparr>"]) (auto simp: epoll_watched_def fun_eq_iff)
qed

interpretation epoll: poll_executor epoll_spawn epoll_commit epoll_handle poll_event epoll_watched
proof (unfold_locales, goal_cases)
  case (11 c' c p fr ex)
  then show ?case by (simp add: epoll_watched_def epoll_commit_def fun_eq_iff)
next
  case (12 fd c' p c fr ex)
  then show ?case by (simp add: epoll_watched_def epoll_commit_def apply_events_other)
next
  case 13
  then show ?case by (rule epoll_commit_first)
next
  case 14
  then show ?case by (rule epoll_commit_more)
next
  case (15 p ex s rr fd)
  then show ?case by (simp add: epoll_handle_def poll_event_def epoll_readable_def)
next
  case 16
  then show ?case by (rule epoll_handle_writable)
qed (auto simp: epoll_spawn_def Let_def epoll_watched_def fun_eq_iff)

subsection \<open>The interest list\<close>

abbreviation fd_of :: "'pc session \<Rightarrow> int" where
  "fd_of s \<equiv> sockfd (sock (s_conn s))"

text \<open>
  Every connection with a live reading coroutine is registered for edge-triggered input, under
  its own address.
\<close>

definition reg_inv :: "('pc, 't) epoll_executor \<Rightarrow> bool" where
  "reg_inv ex \<longleftrightarrow> (\<forall>p s. sessions ex p = Some s \<longrightarrow> this_ptr (s_conn s) = p) \<and>
     (\<forall>p q s t. sessions ex p = Some s \<and> sessions ex q = Some t \<and> fd_of s = fd_of t \<longrightarrow> p = q) \<and>
     (\<forall>p s. sessions ex p = Some s \<and> \<not> conn_closed (s_conn s) \<and> s_frame s \<noteq> None \<longrightarrow>
        (\<exists>m. interest ex (fd_of s) = Some (p, m) \<and> ep_in m \<and> ep_et m))"

lemma reg_inv_commit:
  assumes inv: "reg_inv ex" and s: "sessions ex p = Some s" and ev: "evolves_to (s_conn s) c'"
    and fr: "fr \<noteq> None \<longrightarrow> s_frame s \<noteq> None"
  shows "reg_inv (epoll_commit p (s_conn s) c' fr ex)"
proof -
  let ?c = "s_conn s" and ?ex = "epoll_commit p (s_conn s) c' fr ex"
  have id: "this_ptr c' = p" "sockfd (sock c') = sockfd (sock ?c)" "conn_closed ?c \<longrightarrow> conn_closed c'"
    using ev inv s by (auto simp: evolves_to_def reg_inv_def)
  from ev obtain es where es: "events c' = events ?c @ es" "set es \<subseteq> {EV_WRITE, EV_DELETE}" "EV_DELETE \<in> set es \<longrightarrow> conn_closed c'"
    by (auto simp: evolves_to_def asks_for_def)
  have I: "interest ?ex = apply_events c' es (interest ex)" by (simp add: epoll_commit_def es(1))
  have distinct_fds: "fd_of t \<noteq> sockfd (sock c')" if "sessions ex q = Some t" "q \<noteq> p" for q t
    using inv s that id(2) unfolding reg_inv_def by metis
  have "\<exists>m. interest ?ex (sockfd (sock c')) = Some (p, m) \<and> ep_in m \<and> ep_et m" if "\<not> conn_closed c'" "fr \<noteq> None"
  proof -
    from that fr id(2,3) inv s obtain m where "interest ex (sockfd (sock c')) = Some (p, m)" "ep_in m" "ep_et m"
      unfolding reg_inv_def by metis
    moreover have "set es \<subseteq> {EV_WRITE}" using es(2,3) that(1) by auto
    ultimately show ?thesis unfolding I using apply_writes [of es "interest ex" c' m] by (auto simp: id(1))
  qed
  then show ?thesis
    using inv id(1) distinct_fds apply_events_other [of _ c' es "interest ex"]
    unfolding reg_inv_def I by (auto simp: fun_upd_def dest: distinct_fds split: if_splits)
qed

lemma reg_inv_interest:
  assumes "reg_inv ex" and "sessions ex p = Some s" and "\<And>fd. fd \<noteq> fd_of s \<Longrightarrow> I fd = interest ex fd"
    and "conn_closed (s_conn s) \<or> (\<exists>m. I (fd_of s) = Some (p, m) \<and> ep_in m \<and> ep_et m)"
  shows "reg_inv (ex\<lparr>interest := I\<rparr>)"
  unfolding reg_inv_def
proof (intro conjI allI impI, goal_cases)
  case (3 q t)
  show ?case
  proof (cases "q = p")
    case True
    with 3 assms(2,4) show ?thesis by auto
  next
    case False
    with 3 assms(1,2) have "fd_of t \<noteq> fd_of s" unfolding reg_inv_def by auto
    with 3 assms(1,3) show ?thesis unfolding reg_inv_def by simp
  qed
qed (use assms(1) in \<open>auto simp: reg_inv_def\<close>)

lemma reg_inv_hangup: "reg_inv ex \<Longrightarrow> sessions ex p = Some s \<Longrightarrow> reg_inv (epoll_hangup p s ex)"
proof -
  assume inv: "reg_inv ex" and s: "sessions ex p = Some s"
  let ?c = "conn_close (s_conn s)" and ?ex = "ex\<lparr>sessions := (sessions ex)(p \<mapsto> s\<lparr>s_conn := conn_close (s_conn s)\<rparr>)\<rparr>"
  have c: "conn_closed ?c" "this_ptr ?c = this_ptr (s_conn s)" "sockfd (sock ?c) = fd_of s"
    by (simp_all add: conn_close_def conn_closed_def socket_close_def)
  have "reg_inv ?ex" using inv s c unfolding reg_inv_def by (auto split: if_splits)
  from reg_inv_interest [OF this, of p "s\<lparr>s_conn := ?c\<rparr>"] c show ?thesis
    by (simp add: epoll_hangup_def Let_def epoll_ctl_def)
qed

lemma reg_inv_writable:
  assumes inv: "reg_inv ex" and s: "sessions ex p = Some s" and r: "epoll_writable p s ex = Some (Inr (b, ex'))"
  shows "reg_inv ex'"
proof (cases "interest ex (fd_of s)")
  case None
  with r inv show ?thesis by (simp add: epoll_writable_def epoll_ctl_def Let_def)
next
  case (Some x)
  obtain a m where x: "x = (a, m)" by fastforce
  let ?I = "(interest ex)(fd_of s \<mapsto> (p, \<lparr>ep_in = True, ep_out = False, ep_et = True\<rparr>))"
  from r Some obtain c' where c': "resume_write (s_conn s) = Some (Inr c')"
    "ex' = epoll_commit p (s_conn s) c' (s_frame s) (ex\<lparr>interest := ?I\<rparr>)"
    by (auto simp: epoll_writable_def epoll_ctl_def Let_def ro_bind_eq_Inr x)
  have "reg_inv (ex\<lparr>interest := ?I\<rparr>)" by (rule reg_inv_interest [OF inv s]) auto
  then show ?thesis unfolding c'(2)
    by (rule reg_inv_commit) (use s resume_write_evolves [OF c'(1)] in auto)
qed

lemma reg_inv_readable:
  assumes "reg_inv ex" and "sessions ex p = Some s" and "epoll_readable (resume_read srv) p s ex = Some (Inr ex')"
  shows "reg_inv ex'"
proof -
  from assms(3) obtain fr c' where r: "resume_read srv (s_frame s) (s_conn s) = Some (Inr (fr, c'))"
    "ex' = epoll_commit p (s_conn s) c' fr ex" by (auto simp: epoll_readable_def ro_bind_eq_Inr)
  have "s_frame s \<noteq> None" using r(1) by (cases "s_frame s") (auto simp: resume_read_def resume_coroutine_def split: if_splits)
  then show ?thesis unfolding r(2)
    by (intro reg_inv_commit [OF assms(1,2) resume_read_evolves [OF r(1)]]) simp
qed

lemma reg_inv_handle:
  assumes "reg_inv ex" and "epoll_handle (resume_read srv) ev ex = Some (Inr ex')"
  shows "reg_inv ex'"
proof (cases "ev_ptr ev = 0")
  case False
  let ?p = "ev_ptr ev"
  from assms(2) False obtain s where s: "sessions ex ?p = Some s"
    by (auto simp: epoll_handle_def Let_def split: option.splits)
  show ?thesis
  proof (cases "is_dummy (s_conn s)")
    case True
    then have "ex' = ex\<lparr>event_count := 0, should_notify := False\<rparr>"
      using assms(2) False s by (simp add: epoll_handle_def Let_def)
    then show ?thesis using assms(1) by (simp add: reg_inv_def)
  next
    case nd: False
    show ?thesis
    proof (cases "ev_hup ev \<or> ev_rdhup ev")
      case True
      then have "ex' = epoll_hangup ?p s ex" using assms(2) False s nd by (simp add: epoll_handle_def Let_def)
      then show ?thesis using reg_inv_hangup [OF assms(1) s] by simp
    next
      case nh: False
      then have "ro_bind (if ev_out ev then epoll_writable ?p s ex else Some (Inr (True, ex))) (\<lambda>(go_on, ex1).
          if go_on \<and> ev_in ev then (case sessions ex1 ?p of None \<Rightarrow> Some (Inl UseAfterFree)
            | Some s1 \<Rightarrow> epoll_readable (resume_read srv) ?p s1 ex1) else Some (Inr ex1)) = Some (Inr ex')"
        using assms(2) False s nd by (simp add: epoll_handle_def Let_def)
      then obtain r where r: "(if ev_out ev then epoll_writable ?p s ex else Some (Inr (True, ex))) = Some (Inr r)"
        "(case r of (go_on, ex1) \<Rightarrow> if go_on \<and> ev_in ev then (case sessions ex1 ?p of None \<Rightarrow> Some (Inl UseAfterFree)
            | Some s1 \<Rightarrow> epoll_readable (resume_read srv) ?p s1 ex1) else Some (Inr ex1)) = Some (Inr ex')"
        unfolding ro_bind_eq_Inr by blast
      obtain go_on ex1 where re: "r = (go_on, ex1)" by fastforce
      have "reg_inv ex1" using r(1) assms(1) reg_inv_writable [OF assms(1) s, of go_on ex1] by (cases "ev_out ev") (auto simp: re)
      then show ?thesis
        using r(2) reg_inv_readable [of ex1 ?p] by (cases "go_on \<and> ev_in ev"; cases "sessions ex1 ?p") (auto simp: re)
    qed
  qed
qed (use assms in \<open>simp add: epoll_handle_def\<close>)

lemma reg_inv_handle_all:
  "reg_inv ex \<Longrightarrow> handle_all (epoll_handle (resume_read srv)) evs ex = Some (Inr ex') \<Longrightarrow> reg_inv ex'"
  by (induction evs arbitrary: ex) (auto simp: ro_bind_eq_Inr dest: reg_inv_handle)

subsection \<open>Properties\<close>

text \<open>What the interface gives for this executor, in terms of its interest list.\<close>

lemma epoll_serves:
  assumes "task_queue ex = []" and "\<not> stop_flag ex"
    and "distinct (map fst as)" and "distinct (map snd as)" and "\<forall>(fd, p) \<in> set as. interest ex fd = None \<and> fd \<noteq> -1 \<and> p \<noteq> 0 \<and>
      admitted srv (out p) (pc p) (pos p) (rest p) (count_list (concat ess) (False, fd, p)) fd p (mk fd p)"
    and "ess \<noteq> []" and "\<forall>es \<in> set ess. snd ` set es \<subseteq> set as \<and> length es \<le> MAX_EVENTS"
  shows "\<exists>ex'. poll_loop (epoll_handle (resume_read srv)) (run_server_task epoll_commit srv) (map (\<lambda>es. Some (map (\<lambda>(w, fd, p). poll_event w fd p) es)) ess)
      (server_accepts epoll_spawn mk as ex) = Some (Inr ex') \<and> task_queue ex' = [] \<and>
    (\<forall>(fd, p) \<in> set as. \<exists>c' m ex2 c2 m2. sessions ex' p = Some \<lparr>s_conn = c', s_frame = Some (pc p)\<rparr> \<and> \<not> conn_closed c' \<and>
      ib_unread (read_buf c') = rest p \<and> has_sent (tx_open (length (out p) div 8) (tx (kern (mk fd p)))) (out p) c' \<and>
      interest ex' fd = Some (p, m) \<and> ep_in m \<and> ep_et m \<and> (ob_pending (write_buf c') \<noteq> [] \<longrightarrow> ep_out m) \<and>
      epoll_handle (resume_read srv) (poll_event True fd p) ex' = Some (Inr ex2) \<and> sessions ex2 p = Some \<lparr>s_conn = c2, s_frame = Some (pc p)\<rparr> \<and>
      writes_out c' c2 \<and> interest ex2 fd = Some (p, m2) \<and> ep_in m2 \<and> ep_et m2 \<and> ep_out m2 = (ob_pending (write_buf c2) \<noteq> []))"
proof -
  have w: "\<forall>(fd, p) \<in> set as. epoll_watched ex fd = None \<and> fd \<noteq> -1 \<and> p \<noteq> 0 \<and>
      admitted srv (out p) (pc p) (pos p) (rest p) (count_list (concat ess) (False, fd, p)) fd p (mk fd p)"
    using assms(5) by (auto simp: epoll_watched_def)
  from epoll.serves_connections [OF assms(1-4) w assms(6,7)] show ?thesis by (fast dest: epoll_watchedD)
qed

definition example_executor :: "('pc, 't) epoll_executor" where
  "example_executor = EpollExecutor False False 2 ((example_mk 3 2)\<lparr>is_dummy := True\<rparr>)"

lemma example_executor_facts:
  "task_queue example_executor = []" "\<not> stop_flag example_executor" "fd \<noteq> 3 \<Longrightarrow> interest example_executor fd = None"
  by (simp_all add: example_executor_def EpollExecutor_def epoll_ctl_def example_mk_facts)

definition example_turns :: "(bool \<times> int \<times> 64 word) list list" where
  "example_turns = [[(False, 6, 8)], [(False, 5, 4), (True, 6, 8)]]"

lemma example_turns_ok:
  "\<forall>(fd, p) \<in> set [(5, 4), (6, 8)]. interest example_executor fd = None \<and> fd \<noteq> -1 \<and> p \<noteq> 0 \<and>
     admitted echo_server (frame [7] @ frame [0, if p = 4 then 5 else 6]) R_header_len 10 [] (count_list (concat example_turns) (False, fd, p)) fd p (example_mk fd p)"
  "example_turns \<noteq> []" "\<forall>es \<in> set example_turns. snd ` set es \<subseteq> set [(5, 4), (6, 8)] \<and> length es \<le> MAX_EVENTS"
  using example_admitted [of 5 1 4] example_admitted [of 6 1 8]
  by (simp_all add: example_turns_def example_executor_facts MAX_EVENTS_def)

lemma example_served:
  "\<exists>ex'. poll_loop (epoll_handle (resume_read echo_server)) (run_server_task epoll_commit echo_server)
      (map (\<lambda>es. Some (map (\<lambda>(w, fd, p). poll_event w fd p) es)) example_turns)
      (server_accepts epoll_spawn example_mk [(5, 4), (6, 8)] example_executor) = Some (Inr ex')"
  using epoll_serves [OF example_executor_facts(1,2) _ _ example_turns_ok] by auto

text \<open>
  C16. No event makes the executor lose a connection: if every connection with a live reading
  coroutine is registered for edge-triggered input under its own address, then this still
  holds after any list of events the kernel may report, for every connection that is not
  closed.
\<close>

theorem open_connections_stay_registered:
  assumes "reg_inv ex" and "handle_all (epoll_handle (resume_read srv)) evs ex = Some (Inr ex')"
  shows "reg_inv ex'"
  using assms by (rule reg_inv_handle_all)

definition two_sessions :: "('m recv_pc, server_task) epoll_executor" where
  "two_sessions = \<lparr>sessions = (\<lambda>p. if p = 4 \<or> p = 8
       then Some \<lparr>s_conn = (live_conn [] [TxTake 2] [7, 8, 9])\<lparr>this_ptr := p, sock := (sock (live_conn [] [TxTake 2] [7, 8, 9]))\<lparr>sockfd := uint p\<rparr>\<rparr>,
         s_frame = Some R_header_len\<rparr> else None),
     should_notify = False, task_queue = [], stop_flag = False,
     interest = (\<lambda>fd. if fd = 4 \<or> fd = 8 then Some (word_of_int fd, \<lparr>ep_in = True, ep_out = True, ep_et = True\<rparr>) else None),
     event_count = 0\<rparr>"

lemma two_sessions_inv: "reg_inv two_sessions"
  by (simp add: reg_inv_def two_sessions_def)

lemma two_sessions_facts:
  fixes s :: "'m recv_pc session"
  assumes "sessions (two_sessions :: ('m recv_pc, server_task) epoll_executor) 4 = Some s"
  shows "\<not> is_dummy (s_conn s)" and "this_ptr (s_conn s) = 4" and "conn_inv (s_conn s)" and "fd_of s = 4"
    and "tx (kern (s_conn s)) = [TxTake 2]" and "wire (kern (s_conn s)) = []" and "ob_pending (write_buf (s_conn s)) = [7, 8, 9]"
proof -
  have c: "s_conn s = (live_conn [] [TxTake 2] [7, 8, 9])\<lparr>this_ptr := 4, sock := (sock (live_conn [] [TxTake 2] [7, 8, 9]))\<lparr>sockfd := 4\<rparr>\<rparr>"
    using assms by (auto simp: two_sessions_def)
  show "conn_inv (s_conn s)"
    using live_conn_inv [of "[]" "[7, 8, 9]" "[TxTake 2]"] by (simp add: c conn_inv_def conn_closed_def live_conn_simps(6))
  show "\<not> is_dummy (s_conn s)" by (simp add: c) (simp add: live_conn_def Connection_def)
qed (use assms in \<open>auto simp: two_sessions_def live_conn_simps output_with_facts\<close>)

lemma two_sessions_get:
  obtains s :: "'m recv_pc session" where "sessions two_sessions 4 = Some s"
  by (auto simp: two_sessions_def)

definition hangup_event :: "64 word \<Rightarrow> ep_event" where
  "hangup_event p = \<lparr>ev_ptr = p, ev_in = True, ev_out = False, ev_hup = False, ev_rdhup = True\<rparr>"

theorem open_connections_stay_registered_witness:
  "\<exists>ex'. handle_all (epoll_handle (resume_read echo_server)) [hangup_event 4, hangup_event 0] two_sessions = Some (Inr ex') \<and>
     reg_inv ex' \<and> interest ex' 4 = None \<and> interest ex' 8 \<noteq> None"
proof -
  obtain s :: "byte list recv_pc session" where s: "sessions two_sessions 4 = Some s" by (rule two_sessions_get)
  note f = two_sessions_facts [OF s]
  have r: "handle_all (epoll_handle (resume_read echo_server)) [hangup_event 4, hangup_event 0] two_sessions
      = Some (Inr (epoll_hangup 4 s two_sessions))"
    using s f by (simp add: epoll_handle_def hangup_event_def)
  from open_connections_stay_registered [OF two_sessions_inv r] have "reg_inv (epoll_hangup 4 s two_sessions)" .
  moreover have "interest (epoll_hangup 4 s two_sessions) 4 = None" "interest (epoll_hangup 4 s two_sessions) 8 \<noteq> None"
    using f(4) by (simp_all add: epoll_hangup_def epoll_ctl_def Let_def conn_close_def socket_close_def) (simp_all add: two_sessions_def)
  ultimately show ?thesis using r by blast
qed

text \<open>
  A write event flushes: when the kernel reports a live connection writable, its writer
  moves a prefix of the queue to the wire, nothing is lost, repeated or reordered, and the
  connection stays registered for write events exactly if bytes are left.
\<close>

theorem writable_event_flushes:
  assumes "p \<noteq> 0" and "sessions ex p = Some s" and "\<not> is_dummy (s_conn s)" and "this_ptr (s_conn s) = p"
    and "conn_inv (s_conn s)" and "tx_steady (tx (kern (s_conn s)))"
    and "length (ob_pending (write_buf (s_conn s))) < 1023 * 8192" and "interest ex (fd_of s) \<noteq> None"
  shows "\<exists>ex' c'. epoll_handle rr \<lparr>ev_ptr = p, ev_in = False, ev_out = True, ev_hup = False, ev_rdhup = False\<rparr> ex = Some (Inr ex') \<and>
    sessions ex' = (sessions ex)(p \<mapsto> s\<lparr>s_conn := c'\<rparr>) \<and> conn_inv c' \<and>
    wire (kern c') @ ob_pending (write_buf c') = wire (kern (s_conn s)) @ ob_pending (write_buf (s_conn s)) \<and>
    interest ex' (fd_of s) = Some (p, \<lparr>ep_in = True, ep_out = ob_pending (write_buf c') \<noteq> [], ep_et = True\<rparr>)"
proof -
  from resume_write_live [OF assms(5-7)] obtain c' where c': "resume_write (s_conn s) = Some (Inr c')"
    and w: "writer_effect (s_conn s) c'" by blast
  have id: "sockfd (sock c') = fd_of s" "this_ptr c' = p" using resume_write_evolves [OF c'] assms(4) by (simp_all add: evolves_to_def)
  from assms(8) obtain q m where q: "interest ex (fd_of s) = Some (q, m)" by auto
  let ?ex = "epoll_commit p (s_conn s) c' (s_frame s) (ex\<lparr>interest := (interest ex)(fd_of s \<mapsto> (p, \<lparr>ep_in = True, ep_out = False, ep_et = True\<rparr>))\<rparr>)"
  have "epoll_handle rr \<lparr>ev_ptr = p, ev_in = False, ev_out = True, ev_hup = False, ev_rdhup = False\<rparr> ex = Some (Inr ?ex)"
    using assms(1-3) c' q by (simp add: epoll_handle_def epoll_writable_def epoll_ctl_def Let_def)
  moreover have "interest ?ex (fd_of s) = Some (p, \<lparr>ep_in = True, ep_out = ob_pending (write_buf c') \<noteq> [], ep_et = True\<rparr>)"
    using w id by (simp add: epoll_commit_def writer_effect_def epoll_add_event_def epoll_ctl_def Let_def)
  moreover have "sessions ?ex = (sessions ex)(p \<mapsto> s\<lparr>s_conn := c'\<rparr>)" by (cases s) simp
  ultimately show ?thesis using w by (intro exI [of _ ?ex] exI [of _ c']) (simp add: writer_effect_def)
qed

theorem writable_event_flushes_witness:
  "\<exists>ex' c'. epoll_handle (resume_read echo_server) \<lparr>ev_ptr = 4, ev_in = False, ev_out = True, ev_hup = False, ev_rdhup = False\<rparr>
      two_sessions = Some (Inr ex') \<and> wire (kern c') @ ob_pending (write_buf c') = [7, 8, 9] \<and>
    interest ex' 4 = Some (4, \<lparr>ep_in = True, ep_out = ob_pending (write_buf c') \<noteq> [], ep_et = True\<rparr>)"
proof -
  obtain s :: "byte list recv_pc session" where s: "sessions two_sessions 4 = Some s" by (rule two_sessions_get)
  from writable_event_flushes [OF _ s, of "resume_read echo_server"] two_sessions_facts [OF s] show ?thesis
    by (auto simp: two_sessions_def)
qed

text \<open>
  C37. A hang-up event abandons the session: the connection is closed and removed from the
  interest list, but neither of its coroutines is resumed: both resume points stay as they
  were, and as no event can reach the connection any more, what it had queued is never sent.
\<close>

theorem hangup_abandons_session:
  assumes "p \<noteq> 0" and "sessions ex p = Some s" and "\<not> is_dummy (s_conn s)" and "ev_ptr ev = p"
    and "ev_hup ev \<or> ev_rdhup ev"
  shows "\<exists>ex' s'. epoll_handle rr ev ex = Some (Inr ex') \<and> sessions ex' = (sessions ex)(p \<mapsto> s') \<and>
    conn_closed (s_conn s') \<and> s_frame s' = s_frame s \<and> send_frame (s_conn s') = send_frame (s_conn s) \<and>
    write_buf (s_conn s') = write_buf (s_conn s) \<and> wire (kern (s_conn s')) = wire (kern (s_conn s)) \<and>
    interest ex' = (interest ex)(fd_of s := None)"
proof -
  let ?s = "s\<lparr>s_conn := conn_close (s_conn s)\<rparr>"
  have "epoll_handle rr ev ex = Some (Inr (epoll_hangup p s ex))"
    using assms by (simp add: epoll_handle_def)
  moreover have "interest (epoll_hangup p s ex) = (interest ex)(fd_of s := None)"
    by (cases "interest ex (fd_of s)") (auto simp: epoll_hangup_def epoll_ctl_def Let_def conn_close_def socket_close_def fun_eq_iff)
  moreover have "sessions (epoll_hangup p s ex) = (sessions ex)(p \<mapsto> ?s)" by (simp add: epoll_hangup_def Let_def)
  moreover have "conn_closed (s_conn ?s)" "wire (kern (s_conn ?s)) = wire (kern (s_conn s))"
    by (simp_all add: conn_close_def conn_closed_def socket_close_def)
  ultimately show ?thesis
    by (intro exI [of _ "epoll_hangup p s ex"] exI [of _ ?s]) (simp add: conn_close_def)
qed

theorem hangup_abandons_session_witness:
  "\<exists>ex' s'. epoll_handle (resume_read echo_server) (hangup_event 4) two_sessions = Some (Inr ex') \<and>
     sessions ex' 4 = Some s' \<and> conn_closed (s_conn s') \<and> ob_pending (write_buf (s_conn s')) = [7, 8, 9] \<and> wire (kern (s_conn s')) = []"
proof -
  obtain s :: "byte list recv_pc session" where s: "sessions two_sessions 4 = Some s" by (rule two_sessions_get)
  from hangup_abandons_session [OF _ s, of "hangup_event 4" "resume_read echo_server"] two_sessions_facts [OF s] show ?thesis
    by (auto simp: hangup_event_def)
qed

end
