(* ===== verification/ClientChannel.thy ===== *)
theory ClientChannel
  imports RecvMachine
begin

section \<open>The client (src/client/client_channel.h, src/client/client_channel.cc)\<close>

text \<open>
  A channel keeps the calls that wait for their response in \<open>id2session\<close>. \<open>CallMethod\<close> hands a
  task to the executor; the task numbers the request, queues it and remembers the call.
  \<open>recv_fn\<close> reads responses, looks the call up by its number, parses the response into the
  caller's message and runs the caller's closure. The effects the caller sees (objects
  deleted, closures run, with the message parsed) are collected in a list.
\<close>

record 'm call =
  controller_obj :: nat
  request_obj :: nat
  request_bytes :: "byte list"
  call_service :: string
  call_method_name :: string
  response_obj :: nat
  parse_response :: "byte list \<Rightarrow> 'm option"
  done_closure :: "nat option"

datatype 'm effect = DeleteController nat | DeleteRequest nat | DeleteResponse nat | RunDone nat nat 'm

record 'm client_channel =
  chan_conn :: connection
  id2session :: "int \<Rightarrow> 'm call option"
  next_request_id :: int
  effects :: "'m effect list"

subsection \<open>Operations\<close>

text \<open>\<open>executor_->spawn(send_request)\<close>: the task waits in the executor's queue.\<close>

definition CallMethod :: "'m call \<Rightarrow> 'm call list \<Rightarrow> 'm call list" where
  "CallMethod call tasks = tasks @ [call]"

definition request_header :: "'m client_channel \<Rightarrow> 'm call \<Rightarrow> header" where
  "request_header ch call = \<lparr>magic = MAGIC_NUM, version = VERSION, message_type = REQUEST,
     request_id = next_request_id ch, service_name = Some (call_service call),
     method_name = Some (call_method_name call)\<rparr>"

text \<open>The task itself, run on the executor's thread.\<close>

definition send_request :: "(header \<Rightarrow> byte list) \<Rightarrow> 'm call \<Rightarrow> 'm client_channel \<Rightarrow> 'm client_channel res option" where
  "send_request serialize_header call ch =
     (let h = request_header ch call;
          ch1 = ch\<lparr>next_request_id := next_request_id ch + 1\<rparr> in
      ro_bind (write_message (write_buf (chan_conn ch1)) (serialize_header h)) (\<lambda>ob1.
      ro_bind (write_message ob1 (request_bytes call)) (\<lambda>ob2.
      let ch2 = ch1\<lparr>effects := effects ch1 @ [DeleteController (controller_obj call), DeleteRequest (request_obj call)],
                    id2session := (id2session ch1)(request_id h \<mapsto> call)\<rparr> in
      ro_bind (resume_write ((chan_conn ch2)\<lparr>write_buf := ob2\<rparr>)) (\<lambda>c.
        Some (Inr (ch2\<lparr>chan_conn := c\<rparr>))))))"

definition channel_close :: "'m client_channel \<Rightarrow> 'm client_channel" where
  "channel_close ch = ch\<lparr>chan_conn := conn_close (chan_conn ch)\<rparr>"

datatype client_pc =
    C_header_len
  | C_header u32
  | C_response_len header
  | C_response header u32

definition put_conn :: "connection \<Rightarrow> 'm client_channel \<Rightarrow> 'm client_channel" where
  "put_conn c ch = ch\<lparr>chan_conn := c\<rparr>"

definition client_read_more :: "client_pc \<Rightarrow> 'm client_channel \<Rightarrow> (client_pc ctl \<times> 'm client_channel) res option" where
  "client_read_more pc ch = ro_bind (read_more pc (chan_conn ch)) (\<lambda>(ctl, c). Some (Inr (ctl, put_conn c ch)))"

text \<open>\<open>if (done) done->Run(); else delete response;\<close>\<close>

definition handle_response :: "'m call \<Rightarrow> 'm \<Rightarrow> 'm effect" where
  "handle_response call m = (case done_closure call of Some d \<Rightarrow> RunDone d (response_obj call) m
     | None \<Rightarrow> DeleteResponse (response_obj call))"

text \<open>One pass through \<open>recv_fn\<close> from a resume point to the next.\<close>

fun client_step :: "(byte list \<Rightarrow> header option) \<Rightarrow> client_pc \<Rightarrow> 'm client_channel \<Rightarrow>
    (client_pc ctl \<times> 'm client_channel) res option" where
  "client_step parse_hd C_header_len ch =
     (let c = chan_conn ch in
      if conn_read_bytes c < 4 \<and> \<not> conn_closed c then client_read_more C_header_len ch
      else if conn_closed c \<and> conn_read_bytes c < 4 then Some (Inr (Break, ch))
      else case fetch_len c of Inl e \<Rightarrow> Some (Inl e)
        | Inr (None, c') \<Rightarrow> Some (Inr (Break, put_conn c' ch))
        | Inr (Some len, c') \<Rightarrow> Some (Inr (Goto (C_header len), put_conn c' ch)))"
| "client_step parse_hd (C_header header_len) ch =
     (let c = chan_conn ch in
      if conn_read_bytes c < ucast header_len \<and> \<not> conn_closed c then client_read_more (C_header header_len) ch
      else if conn_closed c \<and> conn_read_bytes c < ucast header_len then Some (Inr (Break, ch))
      else ro_bind (parse_from_stream parse_hd (push_limit (read_buf c) (sint header_len))) (\<lambda>(r, ib).
        case r of None \<Rightarrow> Some (Inr (Break, put_conn (c\<lparr>read_buf := ib\<rparr>) ch))
        | Some h \<Rightarrow> Some (Inr (Goto (C_response_len h), put_conn (c\<lparr>read_buf := pop_limit ib\<rparr>) ch))))"
| "client_step parse_hd (C_response_len h) ch =
     (let c = chan_conn ch in
      if conn_read_bytes c < 4 \<and> \<not> conn_closed c then client_read_more (C_response_len h) ch
      else if conn_closed c \<and> conn_read_bytes c < 4 then Some (Inr (Break, ch))
      else case fetch_len c of Inl e \<Rightarrow> Some (Inl e)
        | Inr (None, c') \<Rightarrow> Some (Inr (Goto C_header_len, put_conn c' ch))
        | Inr (Some len, c') \<Rightarrow> Some (Inr (Goto (C_response h len), put_conn c' ch)))"
| "client_step parse_hd (C_response h response_len) ch =
     (let c = chan_conn ch in
      if conn_read_bytes c < ucast response_len \<and> \<not> conn_closed c then client_read_more (C_response h response_len) ch
      else if conn_closed c \<and> conn_read_bytes c < ucast response_len then Some (Inr (Break, ch))
      else case id2session ch (request_id h) of None \<Rightarrow> Some (Inr (Goto C_header_len, ch))
        | Some call \<Rightarrow>
          (let ch1 = ch\<lparr>id2session := (id2session ch)(request_id h := None)\<rparr> in
           ro_bind (parse_from_stream (parse_response call) (push_limit (read_buf c) (sint response_len))) (\<lambda>(r, ib).
             case r of None \<Rightarrow> Some (Inr (Goto C_header_len, put_conn (c\<lparr>read_buf := ib\<rparr>) ch1))
             | Some m \<Rightarrow> Some (Inr (Goto C_header_len,
                 (put_conn (c\<lparr>read_buf := pop_limit ib\<rparr>) ch1)\<lparr>effects := effects ch1 @ [handle_response call m]\<rparr>)))))"

declare client_step.simps [simp del]

definition client_finish :: "'m client_channel \<Rightarrow> 'm client_channel" where
  "client_finish ch = (if \<not> conn_closed (chan_conn ch) then channel_close ch else ch)"

definition client_recv_run :: "(byte list \<Rightarrow> header option) \<Rightarrow> client_pc \<Rightarrow> 'm client_channel \<Rightarrow>
    (client_pc option \<times> 'm client_channel) res option" where
  "client_recv_run parse_hd = run_coroutine (client_step parse_hd) client_finish"

definition client_recv_fn :: "(byte list \<Rightarrow> header option) \<Rightarrow> 'm client_channel \<Rightarrow>
    (client_pc option \<times> 'm client_channel) res option" where
  "client_recv_fn parse_hd ch = client_recv_run parse_hd C_header_len (put_conn (RegisterRead_suspend (chan_conn ch)) ch)"

text \<open>
  The constructor connects the socket (\<open>client_connect\<close> in theory \<open>Endpoint\<close>), makes the connection and spawns both
  coroutines; this is the channel after both have started.
\<close>

definition ClientChannel :: "connection \<Rightarrow> 'm client_channel" where
  "ClientChannel c = \<lparr>chan_conn = c, id2session = (\<lambda>_. None), next_request_id = 0, effects = []\<rparr>"

definition start_channel :: "(byte list \<Rightarrow> header option) \<Rightarrow> connection \<Rightarrow>
    (client_pc option \<times> 'm client_channel) res option" where
  "start_channel parse_hd c = ro_bind (send_fn S_loop c) (\<lambda>c'. client_recv_fn parse_hd (ClientChannel c'))"

subsection \<open>Specification\<close>

text \<open>
  What the client makes of the bytes it receives, given the calls that wait: the effects the
  callers see, and how it stands at the end of the input. A response to an unknown call is not
  skipped: its body is taken for the next header.
\<close>

fun client_rank :: "client_pc \<Rightarrow> nat" where
  "client_rank C_header_len = 0"
| "client_rank (C_header _) = 1"
| "client_rank (C_response_len _) = 0"
| "client_rank (C_response _ _) = 1"

function client_spec :: "(byte list \<Rightarrow> header option) \<Rightarrow> client_pc \<Rightarrow> (int \<Rightarrow> 'm call option) \<Rightarrow> int \<Rightarrow>
    byte list \<Rightarrow> 'm effect list \<times> client_pc outcome" where
  "client_spec parse_hd C_header_len calls pos bs =
     (if length bs < 4 then ([], Waiting C_header_len pos bs)
      else if \<not> aligned pos then ([], Crashed OutOfBounds)
      else client_spec parse_hd (C_header (bytes_u32 (take 4 bs))) calls ((pos + 4) mod kBlockSize) (drop 4 bs))"
| "client_spec parse_hd (C_header len) calls pos bs =
     (if length bs < unat len then ([], Waiting (C_header len) pos bs)
      else case parse_hd (take (unat len) bs) of None \<Rightarrow> ([], Stopped)
        | Some h \<Rightarrow> client_spec parse_hd (C_response_len h) calls ((pos + int (unat len)) mod kBlockSize) (drop (unat len) bs))"
| "client_spec parse_hd (C_response_len h) calls pos bs =
     (if length bs < 4 then ([], Waiting (C_response_len h) pos bs)
      else if \<not> aligned pos then ([], Crashed OutOfBounds)
      else client_spec parse_hd (C_response h (bytes_u32 (take 4 bs))) calls ((pos + 4) mod kBlockSize) (drop 4 bs))"
| "client_spec parse_hd (C_response h len) calls pos bs =
     (if length bs < unat len then ([], Waiting (C_response h len) pos bs)
      else case calls (request_id h) of None \<Rightarrow> client_spec parse_hd C_header_len calls pos bs
        | Some call \<Rightarrow>
          let (out, r) = client_spec parse_hd C_header_len (calls(request_id h := None))
                ((pos + int (unat len)) mod kBlockSize) (drop (unat len) bs)
          in (case parse_response call (take (unat len) bs) of None \<Rightarrow> (out, r)
              | Some m \<Rightarrow> (handle_response call m # out, r)))"
  by pat_completeness auto
termination
  by (relation "measure (\<lambda>(p, pc, calls, pos, bs). 3 * length bs + client_rank pc)") auto

declare client_spec.simps [simp del]

subsection \<open>Refinement\<close>

abbreviation client_matches :: "(byte list \<Rightarrow> header option) \<Rightarrow> client_pc \<Rightarrow> 'm client_channel \<Rightarrow>
    'm effect list \<Rightarrow> client_pc outcome \<Rightarrow> bool" where
  "client_matches ph \<equiv> step_match (client_step ph) chan_conn put_conn (client_spec ph) id2session effects
     (\<lambda>_ _. True) client_rank"

lemmas client_more = step_match_more [where step = "client_step ph" and conn = chan_conn and put = put_conn
    and spec = "client_spec ph" and ghost = id2session and out_of = effects
    and fits = "\<lambda>_ _. True" and rank = client_rank] for ph

lemmas client_goto = step_match_goto [where step = "client_step ph" and conn = chan_conn and put = put_conn
    and spec = "client_spec ph" and ghost = id2session and out_of = effects
    and fits = "\<lambda>_ _. True" and rank = client_rank] for ph

lemmas client_break = step_match_break [where step = "client_step ph" and conn = chan_conn and put = put_conn
    and spec = "client_spec ph" and ghost = id2session and out_of = effects
    and fits = "\<lambda>_ _. True" and rank = client_rank] for ph

lemmas client_fault = step_match_fault [where step = "client_step ph" and conn = chan_conn and put = put_conn
    and spec = "client_spec ph" and ghost = id2session and out_of = effects
    and fits = "\<lambda>_ _. True" and rank = client_rank] for ph

lemma put_conn_simps [simp]:
  "chan_conn (put_conn c ch) = c" "id2session (put_conn c ch) = id2session ch"
  "effects (put_conn c ch) = effects ch" "next_request_id (put_conn c ch) = next_request_id ch"
  by (simp_all add: put_conn_def)

text \<open>The two length loops, which differ only in where they go on.\<close>

lemma length_loop_matches:
  assumes sv: "serving (chan_conn ch)"
    and spec: "client_spec ph pc (id2session ch) (ib_pos (read_buf (chan_conn ch))) (input_left (chan_conn ch)) = (out, r)"
    and pc: "pc = C_header_len \<and> f = C_header \<or> (\<exists>h. pc = C_response_len h \<and> f = C_response h)"
  shows "client_matches ph pc ch out r"
proof -
  note rb = serving_read_bytes [OF sv]
  let ?c = "chan_conn ch"
  show ?thesis
  proof (cases "length (ib_unread (read_buf ?c)) < 4")
    case True
    show ?thesis
      by (rule client_more) (use True pc rb in \<open>auto simp: client_step.simps client_spec.simps client_read_more_def\<close>)
  next
    case False
    then have len: "4 \<le> length (ib_unread (read_buf ?c))" by simp
    show ?thesis
    proof (cases "aligned (ib_pos (read_buf ?c))")
      case True
      let ?n = "bytes_u32 (take 4 (input_left ?c))"
      from fetch_len_ok(1) [OF sv len True] obtain c1 where c1: "fetch_len ?c = Inr (Some ?n, c1)" "serving c1"
        "input_left c1 = drop 4 (input_left ?c)" "ib_pos (read_buf c1) = (ib_pos (read_buf ?c) + 4) mod kBlockSize"
        "kern c1 = kern ?c" by blast
      have st: "client_step ph pc ch = Some (Inr (Goto (f ?n), put_conn c1 ch))"
        using False pc rb c1(1) by (auto simp: client_step.simps)
      have "client_spec ph (f ?n) (id2session ch) ((ib_pos (read_buf ?c) + 4) mod kBlockSize) (drop 4 (input_left ?c)) = (out, r)"
        using spec pc len True by (auto simp: client_spec.simps(1,3))
      then show ?thesis
        by (intro client_goto [OF st, of out _ "[]"])
          (unfold put_conn_simps c1(3,4), use c1(2,5) pc len in auto)
    next
      case un: False
      show ?thesis
        by (rule client_fault [of _ _ _ OutOfBounds])
          (use fetch_len_ok(2) [OF sv len un] pc rb len un spec in \<open>auto simp: client_step.simps client_spec.simps(1,3)\<close>)
    qed
  qed
qed

lemma client_header_matches:
  assumes sv: "serving (chan_conn ch)"
    and spec: "client_spec ph (C_header len) (id2session ch) (ib_pos (read_buf (chan_conn ch))) (input_left (chan_conn ch)) = (out, r)"
  shows "client_matches ph (C_header len) ch out r"
proof -
  note rb = serving_read_bytes [OF sv]
  let ?c = "chan_conn ch"
  let ?m = "take (unat len) (input_left ?c)"
  show ?thesis
  proof (cases "length (ib_unread (read_buf ?c)) < unat len")
    case True
    show ?thesis
      by (rule client_more) (use True rb in \<open>simp_all add: client_step.simps client_spec.simps client_read_more_def\<close>)
  next
    case False
    then have len: "unat len \<le> length (ib_unread (read_buf ?c))" by simp
    then have len': "\<not> length (input_left ?c) < unat len" by simp
    obtain ib where ib: "parse_from_stream ph (push_limit (read_buf ?c) (sint len)) = Some (Inr (ph ?m, ib))"
      and ok: "\<forall>ib' \<in> {ib, pop_limit ib}. serving (?c\<lparr>read_buf := ib'\<rparr>) \<and>
        input_left (?c\<lparr>read_buf := ib'\<rparr>) = drop (unat len) (input_left ?c) \<and>
        ib_pos ib' = (ib_pos (read_buf ?c) + int (unat len)) mod kBlockSize"
      by (rule parse_run [OF sv len])
    have st: "client_step ph (C_header len) ch = (case ph ?m of
        None \<Rightarrow> Some (Inr (Break, put_conn (?c\<lparr>read_buf := ib\<rparr>) ch))
      | Some h \<Rightarrow> Some (Inr (Goto (C_response_len h), put_conn (?c\<lparr>read_buf := pop_limit ib\<rparr>) ch)))"
      using False rb ib by (simp add: client_step.simps Let_def)
    show ?thesis
    proof (cases "ph ?m")
      case None
      show ?thesis
        by (rule client_break [of _ _ _ "put_conn (?c\<lparr>read_buf := ib\<rparr>) ch"])
          (use None st spec len' in \<open>simp_all add: client_spec.simps(2)\<close>)
    next
      case (Some h)
      define c1 where "c1 = ?c\<lparr>read_buf := pop_limit ib\<rparr>"
      have c1: "serving c1" "input_left c1 = drop (unat len) (input_left ?c)" "kern c1 = kern ?c"
        "ib_pos (read_buf c1) = (ib_pos (read_buf ?c) + int (unat len)) mod kBlockSize"
        using ok by (simp_all add: c1_def)
      have st': "client_step ph (C_header len) ch = Some (Inr (Goto (C_response_len h), put_conn c1 ch))"
        using st Some by (simp add: c1_def)
      show ?thesis
        by (rule client_goto [OF st', of out _ "[]"])
          (unfold put_conn_simps c1(2,4), use c1(1,3) spec Some len' in \<open>auto simp: client_spec.simps(2)\<close>)
    qed
  qed
qed

lemma client_response_matches:
  assumes sv: "serving (chan_conn ch)"
    and spec: "client_spec ph (C_response h len) (id2session ch) (ib_pos (read_buf (chan_conn ch))) (input_left (chan_conn ch)) = (out, r)"
  shows "client_matches ph (C_response h len) ch out r"
proof -
  note rb = serving_read_bytes [OF sv]
  let ?c = "chan_conn ch"
  let ?m = "take (unat len) (input_left ?c)"
  show ?thesis
  proof (cases "length (ib_unread (read_buf ?c)) < unat len")
    case True
    show ?thesis
      by (rule client_more) (use True rb in \<open>simp_all add: client_step.simps client_spec.simps client_read_more_def\<close>)
  next
    case False
    then have len: "unat len \<le> length (ib_unread (read_buf ?c))" by simp
    then have len': "\<not> length (input_left ?c) < unat len" by simp
    show ?thesis
    proof (cases "id2session ch (request_id h)")
      case None
      have st: "client_step ph (C_response h len) ch = Some (Inr (Goto C_header_len, ch))"
        using False rb None by (simp add: client_step.simps Let_def)
      have "client_spec ph C_header_len (id2session ch) (ib_pos (read_buf ?c)) (input_left ?c) = (out, r)"
        using spec None len' by (simp add: client_spec.simps(4))
      then show ?thesis
        using client_goto [OF st sv, of out r "[]" out] by simp
    next
      case (Some call)
      obtain ib where ib: "parse_from_stream (parse_response call) (push_limit (read_buf ?c) (sint len))
          = Some (Inr (parse_response call ?m, ib))"
        and ok: "\<forall>ib' \<in> {ib, pop_limit ib}. serving (?c\<lparr>read_buf := ib'\<rparr>) \<and>
          input_left (?c\<lparr>read_buf := ib'\<rparr>) = drop (unat len) (input_left ?c) \<and>
          ib_pos ib' = (ib_pos (read_buf ?c) + int (unat len)) mod kBlockSize"
        by (rule parse_run [OF sv len])
      define c1 where "c1 = ?c\<lparr>read_buf := (if parse_response call ?m = None then ib else pop_limit ib)\<rparr>"
      define eff where "eff = (case parse_response call ?m of None \<Rightarrow> [] | Some m \<Rightarrow> [handle_response call m])"
      define ch1 where "ch1 = (put_conn c1 (ch\<lparr>id2session := (id2session ch)(request_id h := None)\<rparr>))
          \<lparr>effects := effects ch @ eff\<rparr>"
      have c1: "serving c1" "input_left c1 = drop (unat len) (input_left ?c)" "kern c1 = kern ?c"
        "ib_pos (read_buf c1) = (ib_pos (read_buf ?c) + int (unat len)) mod kBlockSize"
        using ok by (simp_all add: c1_def)
      have ch1: "chan_conn ch1 = c1" "id2session ch1 = (id2session ch)(request_id h := None)" "effects ch1 = effects ch @ eff"
        by (simp_all add: ch1_def)
      have st: "client_step ph (C_response h len) ch = Some (Inr (Goto C_header_len, ch1))"
        using False rb Some ib
        by (simp add: client_step.simps Let_def ch1_def c1_def eff_def put_conn_def split: option.splits)
      from spec Some len' obtain out1 where out: "out = eff @ out1"
        and spec1: "client_spec ph C_header_len (id2session ch1) (ib_pos (read_buf c1)) (input_left c1) = (out1, r)"
        by (auto simp: client_spec.simps(4) ch1(2) c1(2,4) eff_def split: prod.splits option.splits)
      show ?thesis
        by (rule client_goto [OF st, of out1 _ eff]) (unfold ch1, unfold c1(2), use c1(1,3) spec1 out ch1(2) c1(2) in \<open>simp_all\<close>)
    qed
  qed
qed

lemma client_step_matches:
  assumes "serving (chan_conn ch)"
    and "client_spec ph pc (id2session ch) (ib_pos (read_buf (chan_conn ch))) (input_left (chan_conn ch)) = (out, r)"
  shows "client_matches ph pc ch out r"
  using assms by (cases pc)
    (auto intro: length_loop_matches client_header_matches client_response_matches)

interpretation client: recv_machine "client_step ph" client_finish chan_conn put_conn
  "client_spec ph" id2session effects "\<lambda>_ _. True" client_rank for ph
  by unfold_locales
    (auto simp: client_finish_def channel_close_def conn_close_def conn_closed_def intro: client_step_matches)

subsection \<open>Calls\<close>

text \<open>The calls that wait have numbers below the next one.\<close>

definition channel_ok :: "'m client_channel \<Rightarrow> bool" where
  "channel_ok ch \<longleftrightarrow> serving (chan_conn ch) \<and>
     (\<forall>i. id2session ch i \<noteq> None \<longrightarrow> 0 \<le> i \<and> i < next_request_id ch) \<and> 0 \<le> next_request_id ch"

lemma send_request_ok:
  assumes ok: "channel_ok ch"
    and out: "out = frame (ser (request_header ch call)) @ frame (request_bytes call)"
    and q: "length (ob_pending (write_buf (chan_conn ch))) + length out < 1023 * 8192"
  shows "\<exists>ch'. send_request ser call ch = Some (Inr ch') \<and> channel_ok ch' \<and>
    id2session ch' = (id2session ch)(next_request_id ch \<mapsto> call) \<and> next_request_id ch' = next_request_id ch + 1 \<and>
    output_of (chan_conn ch') = output_of (chan_conn ch) @ out \<and>
    effects ch' = effects ch @ [DeleteController (controller_obj call), DeleteRequest (request_obj call)] \<and>
    read_buf (chan_conn ch') = read_buf (chan_conn ch) \<and> rx (kern (chan_conn ch')) = rx (kern (chan_conn ch)) \<and>
    length (ob_pending (write_buf (chan_conn ch'))) \<le> length (ob_pending (write_buf (chan_conn ch))) + length out"
proof -
  let ?c = "chan_conn ch" and ?hb = "ser (request_header ch call)" and ?qb = "request_bytes call"
  have inv: "conn_inv ?c" and st: "tx_steady (tx (kern ?c))" using ok by (simp_all add: channel_ok_def serving_def)
  have "small_queue (ob_pending (write_buf ?c) @ out)" using q by simp
  then obtain ob1 ob2 c where wm: "write_message (write_buf ?c) ?hb = Some (Inr ob1)" "write_message ob1 ?qb = Some (Inr ob2)"
    and rw: "resume_write (?c\<lparr>write_buf := ob2\<rparr>) = Some (Inr c)" and we: "writer_effect (?c\<lparr>write_buf := ob2\<rparr>) c"
    and pend: "ob_pending ob2 = ob_pending (write_buf ?c) @ out"
    by (rule write_pair_ok [OF inv st out])
  have id: "request_id (request_header ch call) = next_request_id ch" by (simp add: request_header_def)
  define ch' where "ch' = ch\<lparr>next_request_id := next_request_id ch + 1,
      effects := effects ch @ [DeleteController (controller_obj call), DeleteRequest (request_obj call)],
      id2session := (id2session ch)(next_request_id ch \<mapsto> call), chan_conn := c\<rparr>"
  have run: "send_request ser call ch = Some (Inr ch')"
    using wm rw by (simp add: send_request_def Let_def id ch'_def)
  have f: "chan_conn ch' = c" "id2session ch' = (id2session ch)(next_request_id ch \<mapsto> call)"
    "next_request_id ch' = next_request_id ch + 1"
    "effects ch' = effects ch @ [DeleteController (controller_obj call), DeleteRequest (request_obj call)]"
    by (simp_all add: ch'_def)
  have e: "conn_inv c" "tx_steady (tx (kern c))" "output_of c = output_of ?c @ out" "read_buf c = read_buf ?c"
    "rx (kern c) = rx (kern ?c)" "length (ob_pending (write_buf c)) \<le> length (ob_pending (write_buf ?c)) + length out"
    using we pend by (simp_all add: writer_effect_def output_of_def)
  have "serving c" using ok e by (simp add: channel_ok_def serving_def)
  then have "channel_ok ch'" using ok by (auto simp: channel_ok_def f)
  with run f e show ?thesis by auto
qed

subsection \<open>Responses\<close>

text \<open>
  The effects of a sequence of responses, given as the bytes of their headers and bodies, each
  of which answers a call that waits.
\<close>

fun completions :: "(byte list \<Rightarrow> header option) \<Rightarrow> (int \<Rightarrow> 'm call option) \<Rightarrow> (byte list \<times> byte list) list \<Rightarrow>
    'm effect list option" where
  "completions ph calls [] = Some []"
| "completions ph calls ((hb, rb) # rs) =
     (case ph hb of None \<Rightarrow> None
      | Some h \<Rightarrow> (case calls (request_id h) of None \<Rightarrow> None
         | Some call \<Rightarrow> (case parse_response call rb of None \<Rightarrow> None
            | Some m \<Rightarrow> map_option ((#) (handle_response call m)) (completions ph (calls(request_id h := None)) rs))))"

lemma client_spec_response:
  assumes h: "ph hb = Some h" "calls (request_id h) = Some call" "parse_response call rb = Some m"
    and len: "length hb < 2 ^ 32" "length rb < 2 ^ 32"
    and al: "aligned pos" "aligned (pos + 4 + int (length hb))"
  shows "client_spec ph C_header_len calls pos (frame hb @ frame rb @ rest) =
    (let (out, r) = client_spec ph C_header_len (calls(request_id h := None))
        ((pos + 8 + int (length hb) + int (length rb)) mod kBlockSize) rest
     in (handle_response call m # out, r))"
proof -
  let ?p1 = "(pos + 4) mod kBlockSize"
  let ?p2 = "(?p1 + int (length hb)) mod kBlockSize"
  have p2: "aligned ?p2" using al(2) by (simp add: aligned_def mod_simps algebra_simps)
  have p4: "((?p2 + 4) mod kBlockSize + int (length rb)) mod kBlockSize
      = (pos + 8 + int (length hb) + int (length rb)) mod kBlockSize"
    by (simp add: mod_simps algebra_simps)
  have "client_spec ph C_header_len calls pos (frame hb @ frame rb @ rest)
      = client_spec ph (C_header (of_nat (length hb))) calls ?p1 (hb @ frame rb @ rest)"
    using al(1) by (subst client_spec.simps(1)) (simp add: frame_split)
  also have "\<dots> = client_spec ph (C_response_len h) calls ?p2 (frame rb @ rest)"
    using h len(1) by (subst client_spec.simps(2)) (simp add: unat_of_nat_u32)
  also have "\<dots> = client_spec ph (C_response h (of_nat (length rb))) calls ((?p2 + 4) mod kBlockSize) (rb @ rest)"
    using p2 by (subst client_spec.simps(3)) (simp add: frame_split)
  also have "\<dots> = (let (out, r) = client_spec ph C_header_len (calls(request_id h := None))
        ((pos + 8 + int (length hb) + int (length rb)) mod kBlockSize) rest
     in (handle_response call m # out, r))"
    using h len(2) by (subst client_spec.simps(4)) (simp add: unat_of_nat_u32 p4 split: prod.splits)
  finally show ?thesis .
qed

text \<open>Responses that complete calls, and whatever follows them.\<close>

lemma client_spec_responses_then:
  assumes "completions ph calls rs = Some effs"
    and "\<forall>(hb, rb) \<in> set rs. length hb < 2 ^ 32 \<and> length rb < 2 ^ 32"
    and "lengths_aligned pos rs" and "0 \<le> pos" and "pos < kBlockSize"
    and "\<And>calls'. client_spec ph C_header_len calls' ((pos + int (length (pairs_bytes rs))) mod kBlockSize) rest = (out, r)"
  shows "client_spec ph C_header_len calls pos (pairs_bytes rs @ rest) = (effs @ out, r)"
  using assms
proof (induction rs arbitrary: pos calls effs)
  case Nil
  from Nil.prems(6) [of calls] Nil.prems show ?case by simp
next
  case (Cons x rs)
  obtain hb rb where x: "x = (hb, rb)" by fastforce
  from Cons.prems(1) x obtain h call m effs' where
    h: "ph hb = Some h" "calls (request_id h) = Some call" "parse_response call rb = Some m"
    and rest: "completions ph (calls(request_id h := None)) rs = Some effs'"
    and effs: "effs = handle_response call m # effs'"
    by (auto split: option.splits)
  have len: "length hb < 2 ^ 32" "length rb < 2 ^ 32" using Cons.prems(2) x by auto
  let ?p = "(pos + 8 + int (length hb) + int (length rb)) mod kBlockSize"
  have al: "aligned pos" "aligned (pos + 4 + int (length hb))" "lengths_aligned ?p rs"
    using Cons.prems(3) x by (simp_all add: lengths_aligned_mod)
  have p: "(?p + int (length (pairs_bytes rs))) mod kBlockSize
      = (pos + int (length (pairs_bytes (x # rs)))) mod kBlockSize"
    by (simp add: x frame_split(3) mod_simps algebra_simps)
  have "client_spec ph C_header_len (calls(request_id h := None)) ?p (pairs_bytes rs @ rest) = (effs' @ out, r)"
    using Cons.prems(2,6) al(3) by (intro Cons.IH [OF rest], unfold p) (auto simp: kBlockSize_def)
  then show ?case
    using client_spec_response [of ph hb h calls call rb m pos "pairs_bytes rs @ rest", OF h len al(1,2)] by (simp add: x effs)
qed

lemma client_spec_responses:
  assumes "completions ph calls rs = Some effs"
    and "\<forall>(hb, rb) \<in> set rs. length hb < 2 ^ 32 \<and> length rb < 2 ^ 32"
    and "lengths_aligned pos rs" and "0 \<le> pos" and "pos < kBlockSize"
  shows "client_spec ph C_header_len calls pos (pairs_bytes rs) =
    (effs, Waiting C_header_len ((pos + int (length (pairs_bytes rs))) mod kBlockSize) [])"
  using client_spec_responses_then [OF assms, of "[]" "[]"] by (simp add: client_spec.simps)


text \<open>Running the coroutine from a resume point, and resuming it \<open>n\<close> times.\<close>

definition client_session :: "(byte list \<Rightarrow> header option) \<Rightarrow> nat \<Rightarrow> client_pc \<Rightarrow> 'm client_channel \<Rightarrow>
    (client_pc option \<times> 'm client_channel) res option" where
  "client_session ph n pc ch = ro_bind (client_recv_run ph pc ch) (\<lambda>(fr, ch').
     resume_times (client_step ph) client_finish chan_conn n fr ch')"

definition client_session_ok :: "'m effect list \<Rightarrow> client_pc outcome \<Rightarrow>
    (client_pc option \<times> 'm client_channel) res option \<Rightarrow> bool" where
  "client_session_ok effs r res \<longleftrightarrow> (case r of
     Waiting pc pos rest \<Rightarrow> (\<exists>ch'. res = Some (Inr (Some pc, ch')) \<and> \<not> conn_closed (chan_conn ch') \<and>
        ib_unread (read_buf (chan_conn ch')) = rest \<and> effects ch' = effs)
   | Stopped \<Rightarrow> (\<exists>ch'. res = Some (Inr (None, ch')) \<and> conn_closed (chan_conn ch') \<and> effects ch' = effs)
   | Crashed f \<Rightarrow> res = Some (Inl f))"

lemma client_session_refines:
  assumes "serving (chan_conn ch)"
    and "client_spec ph pc (id2session ch) (ib_pos (read_buf (chan_conn ch))) (input_left (chan_conn ch)) = (out, r)"
    and "rx_pauses (rx (kern (chan_conn ch))) \<le> n"
  shows "client_session_ok (effects ch @ out) r (client_session ph n pc ch)"
proof -
  have "client.run_ok ph ch out r (client.run ph pc ch)"
    by (rule client.run_refines [OF assms(1) _ assms(2)]) simp
  from client.run_ok_resume_times [OF this assms(3)] show ?thesis
    by (auto simp: client_session_def client_session_ok_def client.session_ok_def client_recv_run_def)
qed

subsection \<open>Properties\<close>

text \<open>A channel for the witnesses, with one call that waits under the number 0.\<close>

definition example_call :: "byte list call" where
  "example_call = \<lparr>controller_obj = 1, request_obj = 2, request_bytes = [5], call_service = ''EchoService'',
     call_method_name = ''Echo'', response_obj = 3, parse_response = Some, done_closure = Some 9\<rparr>"

definition example_channel :: "rx_event list \<Rightarrow> byte list client_channel" where
  "example_channel es = \<lparr>chan_conn = live_conn es [] [], id2session = [0 \<mapsto> example_call],
     next_request_id = 1, effects = []\<rparr>"

definition example_parse_header :: "byte list \<Rightarrow> header option" where
  "example_parse_header bs = (if bs = [7] then Some \<lparr>magic = MAGIC_NUM, version = VERSION, message_type = RESPONSE,
     request_id = 0, service_name = None, method_name = None\<rparr> else None)"

lemma example_channel_ok:
  "rx_live es \<Longrightarrow> length (rx_stream es) < 2 ^ 31 - 1 \<Longrightarrow> channel_ok (example_channel es)"
  by (simp add: channel_ok_def example_channel_def serving_def live_conn_inv)
    (simp add: live_conn_simps InputBuffer_unread)

lemma example_channel_pos: "ib_pos (read_buf (chan_conn (example_channel es))) = 0"
  by (simp add: example_channel_def live_conn_simps ib_pos_def InputBuffer_def new_block_def load_def upd_def)

lemma example_channel_input:
  "ib_unread (read_buf (chan_conn (example_channel es))) = []" "rx (kern (chan_conn (example_channel es))) = es"
  by (simp_all add: example_channel_def live_conn_simps InputBuffer_unread)

text \<open>
  Sending a call: the task queues exactly the header and the request, both with their
  lengths, behind what is queued; the call waits under a number no other call that waits has,
  the numbers stay below the next one, and the request and the controller are deleted.
\<close>

theorem call_sends_request:
  assumes "channel_ok ch"
    and "out = frame (ser (request_header ch call)) @ frame (request_bytes call)"
    and "length (ob_pending (write_buf (chan_conn ch))) + length out < 1023 * 8192"
  shows "id2session ch (next_request_id ch) = None \<and>
    (\<exists>ch'. send_request ser call ch = Some (Inr ch') \<and> channel_ok ch' \<and>
      id2session ch' = (id2session ch)(next_request_id ch \<mapsto> call) \<and>
      wire (kern (chan_conn ch')) @ ob_pending (write_buf (chan_conn ch'))
        = wire (kern (chan_conn ch)) @ ob_pending (write_buf (chan_conn ch)) @ out \<and>
      effects ch' = effects ch @ [DeleteController (controller_obj call), DeleteRequest (request_obj call)])"
proof -
  have "id2session ch (next_request_id ch) = None"
    using assms(1) unfolding channel_ok_def by (metis less_irrefl)
  with send_request_ok [of ch out ser call, OF assms] show ?thesis by (auto simp: output_of_def)
qed

theorem call_sends_request_witness:
  "\<exists>ch'. send_request (\<lambda>h. [word_of_int (request_id h)]) example_call (example_channel []) = Some (Inr ch') \<and>
     id2session ch' = [0 \<mapsto> example_call, 1 \<mapsto> example_call] \<and>
     wire (kern (chan_conn ch')) @ ob_pending (write_buf (chan_conn ch')) = frame [1] @ frame [5]"
proof -
  have c: "ob_pending (write_buf (chan_conn (example_channel []))) = []" "wire (kern (chan_conn (example_channel []))) = []"
    "id2session (example_channel []) = [0 \<mapsto> example_call]" "next_request_id (example_channel []) = 1"
    by (simp_all add: example_channel_def live_conn_simps output_with_facts)
  show ?thesis
    using call_sends_request [of "example_channel []" _ "\<lambda>h. [word_of_int (request_id h)]" example_call,
        OF example_channel_ok refl]
    by (auto simp: c request_header_def example_call_def frame_def)
qed

text \<open>
  C8. The client implements its specification: for every way the server's bytes arrive, the
  receiving coroutine, resumed often enough, has had exactly the effects \<open>client_spec\<close> says
  and is waiting with the unused bytes buffered, or has closed the channel, or, exactly if a
  length field straddles two blocks of the buffer, is in undefined behaviour.
\<close>

theorem client_implements_spec:
  assumes "channel_ok ch"
    and "client_spec ph pc (id2session ch) (ib_pos (read_buf (chan_conn ch))) (input_left (chan_conn ch)) = (effs, r)"
    and "rx_pauses (rx (kern (chan_conn ch))) \<le> n"
  shows "client_session_ok (effects ch @ effs) r (client_session ph n pc ch)"
  using assms by (auto simp: channel_ok_def intro: client_session_refines)

lemma example_completions:
  "completions example_parse_header [0 \<mapsto> example_call] [([7], [8, 8])] = Some [RunDone 9 3 [8, 8]]"
  by (simp add: example_parse_header_def example_call_def handle_response_def)

theorem client_implements_spec_witness:
  "client_session_ok [RunDone 9 3 [8, 8]] (Waiting C_header_len 11 [])
     (client_session example_parse_header 1 C_header_len
       (example_channel [RxData [1, 0, 0, 0, 7, 2], RxErrno EAGAIN, RxData [0, 0, 0, 8, 8]]))"
proof -
  let ?es = "[RxData [1, 0, 0, 0, 7, 2], RxErrno EAGAIN, RxData [0, 0, 0, 8, 8]]"
  have "client_spec example_parse_header C_header_len [0 \<mapsto> example_call] 0 (pairs_bytes [([7], [8, 8])])
      = ([RunDone 9 3 [8, 8]], Waiting C_header_len ((0 + int (length (pairs_bytes [([7] :: byte list, [8, 8 :: byte])]))) mod kBlockSize) [])"
    by (rule client_spec_responses [OF example_completions]) (auto simp: aligned_def kBlockSize_def)
  moreover have "pairs_bytes [([7], [8, 8])] = rx_stream ?es"
    by (simp add: frame_def u32_bytes_def)
  ultimately have "client_spec example_parse_header C_header_len (id2session (example_channel ?es))
      (ib_pos (read_buf (chan_conn (example_channel ?es)))) (input_left (chan_conn (example_channel ?es)))
      = ([RunDone 9 3 [8, 8]], Waiting C_header_len 11 [])"
    unfolding example_channel_pos example_channel_input
    by (simp add: example_channel_def kBlockSize_def frame_def u32_bytes_def)
  from client_implements_spec [OF example_channel_ok this, of 1] show ?thesis
    by (simp add: example_channel_input, simp add: example_channel_def)
qed

text \<open>
  Responses complete their calls: for any sequence of responses that answer calls that
  wait, in any order, each call's closure runs exactly once (its response is deleted if it has
  none), in the order of the responses, on the message its response holds; the client then
  waits for the next header.
\<close>

theorem responses_complete_calls:
  assumes "channel_ok ch" and "ib_pos (read_buf (chan_conn ch)) = pos"
    and "input_left (chan_conn ch) = pairs_bytes rs"
    and "completions ph (id2session ch) rs = Some effs"
    and "\<forall>(hb, rb) \<in> set rs. length hb < 2 ^ 32 \<and> length rb < 2 ^ 32" and "lengths_aligned pos rs"
    and "rx_pauses (rx (kern (chan_conn ch))) \<le> n"
  shows "\<exists>ch'. client_session ph n C_header_len ch = Some (Inr (Some C_header_len, ch')) \<and>
    effects ch' = effects ch @ effs \<and> ib_unread (read_buf (chan_conn ch')) = []"
proof -
  have sv: "serving (chan_conn ch)" using assms(1) by (simp add: channel_ok_def)
  then have "0 \<le> pos" "pos < kBlockSize"
    using ib_pos_facts(1,2) [of "read_buf (chan_conn ch)"] assms(2) by (auto simp: serving_def conn_inv_def)
  from client_spec_responses [OF assms(4-6) this] assms(2,3)
  have "client_spec ph C_header_len (id2session ch) (ib_pos (read_buf (chan_conn ch))) (input_left (chan_conn ch))
      = (effs, Waiting C_header_len ((pos + int (length (pairs_bytes rs))) mod kBlockSize) [])" by simp
  from client_session_refines [OF sv this assms(7)] show ?thesis
    by (auto simp: client_session_ok_def)
qed

theorem responses_complete_calls_witness:
  "\<exists>ch'. client_session example_parse_header 0 C_header_len (example_channel [RxData (pairs_bytes [([7], [8, 8])])])
       = Some (Inr (Some C_header_len, ch')) \<and> effects ch' = [RunDone 9 3 [8, 8]]"
proof -
  let ?es = "[RxData (pairs_bytes [([7], [8, 8])])]"
  have ok: "channel_ok (example_channel ?es)"
    by (rule example_channel_ok) (simp_all add: frame_def)
  have f: "id2session (example_channel ?es) = [0 \<mapsto> example_call]" "effects (example_channel ?es) = []"
    by (simp_all add: example_channel_def)
  have i: "input_left (chan_conn (example_channel ?es)) = pairs_bytes [([7], [8, 8])]"
    unfolding example_channel_input by simp
  show ?thesis
    using responses_complete_calls [OF ok example_channel_pos i, of example_parse_header "[RunDone 9 3 [8, 8]]" 0]
    unfolding f example_channel_input example_completions by (auto simp: aligned_def kBlockSize_def)
qed

text \<open>
  The specification at a response to an unknown call: the rest of the stream is taken to begin
  with the body of that response.
\<close>

lemma client_spec_unknown:
  assumes "length hb < 2 ^ 32" and "length rb < 2 ^ 32" and "ph hb = Some h" and "calls (request_id h) = None"
    and "aligned pos" and "aligned (pos + 4 + int (length hb))"
  shows "client_spec ph C_header_len calls pos (frame hb @ frame rb @ rest)
    = client_spec ph C_header_len calls ((pos + 8 + int (length hb)) mod kBlockSize) (rb @ rest)"
proof -
  let ?p1 = "(pos + 4) mod kBlockSize"
  let ?p2 = "(?p1 + int (length hb)) mod kBlockSize"
  have p2: "aligned ?p2" using assms(6) by (simp add: aligned_def mod_simps algebra_simps)
  have p3: "(?p2 + 4) mod kBlockSize = (pos + 8 + int (length hb)) mod kBlockSize" by (simp add: mod_simps algebra_simps)
  have "client_spec ph C_header_len calls pos (frame hb @ frame rb @ rest)
      = client_spec ph (C_header (of_nat (length hb))) calls ?p1 (hb @ frame rb @ rest)"
    using assms(5) by (subst client_spec.simps(1)) (simp add: frame_split)
  also have "\<dots> = client_spec ph (C_response_len h) calls ?p2 (frame rb @ rest)"
    using assms(1,3) by (subst client_spec.simps(2)) (simp add: unat_of_nat_u32)
  also have "\<dots> = client_spec ph (C_response h (of_nat (length rb))) calls ((?p2 + 4) mod kBlockSize) (rb @ rest)"
    using p2 by (subst client_spec.simps(3)) (simp add: frame_split)
  also have "\<dots> = client_spec ph C_header_len calls ((pos + 8 + int (length hb)) mod kBlockSize) (rb @ rest)"
    using assms(2,4) by (subst client_spec.simps(4)) (simp add: unat_of_nat_u32 p3)
  finally show ?thesis .
qed

text \<open>
  C33. The body of a response to an unknown call is not skipped. However the bytes arrive, after
  such a response the client behaves as if the body itself began with the length of a header;
  and when the first four bytes of the body, read as a length, are more than all that follows,
  the client waits for a header of that length: no closure runs any more, whatever responses to
  waiting calls follow.
\<close>

theorem unknown_response_not_skipped:
  assumes "channel_ok ch" and "ib_pos (read_buf (chan_conn ch)) = pos" and "input_left (chan_conn ch) = frame hb @ frame rb @ rest"
    and "length hb < 2 ^ 32" and "length rb < 2 ^ 32" and "ph hb = Some h" and "id2session ch (request_id h) = None"
    and "aligned pos" and "aligned (pos + 4 + int (length hb))" and "rx_pauses (rx (kern (chan_conn ch))) \<le> n"
    and "p = (pos + 8 + int (length hb)) mod kBlockSize" and "client_spec ph C_header_len (id2session ch) p (rb @ rest) = (effs, r)"
  shows "client_session_ok (effects ch @ effs) r (client_session ph n C_header_len ch) \<and>
    (4 \<le> length rb \<and> aligned p \<and> length (rb @ rest) < 4 + unat (bytes_u32 (take 4 rb)) \<longrightarrow>
      (\<exists>ch'. client_session ph n C_header_len ch = Some (Inr (Some (C_header (bytes_u32 (take 4 rb))), ch')) \<and>
         \<not> conn_closed (chan_conn ch') \<and> ib_unread (read_buf (chan_conn ch')) = drop 4 rb @ rest \<and> effects ch' = effects ch))"
proof -
  have sv: "serving (chan_conn ch)" using assms(1) by (simp add: channel_ok_def)
  have "client_spec ph C_header_len (id2session ch) (ib_pos (read_buf (chan_conn ch))) (input_left (chan_conn ch)) = (effs, r)"
    unfolding assms(2,3) using client_spec_unknown [where rest = rest and ph = ph and calls = "id2session ch" and h = h, OF assms(4-9)] assms(11,12) by simp
  from client_session_refines [OF sv this assms(10)] have ok: "client_session_ok (effects ch @ effs) r (client_session ph n C_header_len ch)" .
  moreover have "effs = [] \<and> r = Waiting (C_header (bytes_u32 (take 4 rb))) ((p + 4) mod kBlockSize) (drop 4 rb @ rest)"
    if "4 \<le> length rb" "aligned p" "length (rb @ rest) < 4 + unat (bytes_u32 (take 4 rb))"
  proof -
    have "length rb + length rest - 4 < unat (bytes_u32 (take 4 rb))" using that(1,3) by simp
    with that(1,2) assms(12) show ?thesis by (simp add: client_spec.simps(1) client_spec.simps(2))
  qed
  ultimately show ?thesis by (auto simp: client_session_ok_def)
qed

text \<open>A response to call 5, which nobody made, in front of the response to call 0, which waits.\<close>

definition two_calls_parse_header :: "byte list \<Rightarrow> header option" where
  "two_calls_parse_header bs = (case bs of [n] \<Rightarrow> Some \<lparr>magic = MAGIC_NUM, version = VERSION, message_type = RESPONSE,
     request_id = uint n, service_name = None, method_name = None\<rparr> | _ \<Rightarrow> None)"

theorem unknown_response_not_skipped_witness:
  "\<exists>ch'. client_session two_calls_parse_header 0 C_header_len (example_channel [RxData (pairs_bytes [([5], [1, 1, 1, 1]), ([0], [8, 8])])])
      = Some (Inr (Some (C_header 16843009), ch')) \<and> effects ch' = []"
proof -
  let ?ch = "example_channel [RxData (pairs_bytes [([5], [1, 1, 1, 1]), ([0], [8, 8])])]"
  let ?h = "\<lparr>magic = MAGIC_NUM, version = VERSION, message_type = RESPONSE, request_id = 5, service_name = None, method_name = None\<rparr>"
  have ok: "channel_ok ?ch" by (rule example_channel_ok) (simp_all add: frame_def)
  have i: "input_left (chan_conn ?ch) = frame [5] @ frame [1, 1, 1, 1] @ pairs_bytes [([0], [8, 8])]"
    unfolding example_channel_input by simp
  have l: "bytes_u32 [1, 1, 1, 1] = 16843009" by simp
  have n: "id2session ?ch (request_id ?h) = None" "effects ?ch = []" by (simp_all add: example_channel_def)
  obtain effs r where sp: "client_spec two_calls_parse_header C_header_len (id2session ?ch) ((0 + 8 + int (length [5 :: byte])) mod kBlockSize)
      ([1, 1, 1, 1] @ pairs_bytes [([0], [8, 8])]) = (effs, r)" by fastforce
  from unknown_response_not_skipped [OF ok example_channel_pos i _ _ _ n(1) _ _ _ refl sp, of 0] show ?thesis
    using n(2) by (auto simp: two_calls_parse_header_def example_channel_input aligned_def kBlockSize_def frame_def l)
qed

end
