(* ===== verification/EndToEnd.thy ===== *)
theory EndToEnd
  imports RpcServer ClientChannel
begin

section \<open>A client and a server\<close>

text \<open>
  Calls made on a channel, the messages that carry them to a server and back, and what becomes
  of them there. The lemmas here compose the contracts of theories \<open>ClientChannel\<close> and
  \<open>RpcServer\<close>.
\<close>

subsection \<open>Messages of a sequence of calls\<close>

text \<open>The tasks of several calls, run in order on the executor's thread.\<close>

fun send_requests :: "(header \<Rightarrow> byte list) \<Rightarrow> 'm call list \<Rightarrow> 'm client_channel \<Rightarrow> 'm client_channel res option" where
  "send_requests ser [] ch = Some (Inr ch)"
| "send_requests ser (call # calls) ch = ro_bind (send_request ser call ch) (\<lambda>ch'. send_requests ser calls ch')"

text \<open>The headers of calls numbered from \<open>n\<close>, and the messages that carry the calls.\<close>

fun call_headers :: "int \<Rightarrow> 'm call list \<Rightarrow> header list" where
  "call_headers n [] = []"
| "call_headers n (call # calls) = \<lparr>magic = MAGIC_NUM, version = VERSION, message_type = REQUEST,
     request_id = n, service_name = Some (call_service call), method_name = Some (call_method_name call)\<rparr>
     # call_headers (n + 1) calls"

fun request_messages :: "(header \<Rightarrow> byte list) \<Rightarrow> header list \<Rightarrow> 'm call list \<Rightarrow> (byte list \<times> byte list) list" where
  "request_messages ser (h # hs) (call # calls) = (ser h, request_bytes call) # request_messages ser hs calls"
| "request_messages ser _ _ = []"

text \<open>What a server with this table of services answers to a call, if it can serve it.\<close>

definition reply_bytes :: "'s rpc_server \<Rightarrow> 'm call \<Rightarrow> byte list option" where
  "reply_bytes srv call = (case name2service srv (call_service call) of None \<Rightarrow> None
     | Some service \<Rightarrow> let m = call_method_name call in
        if has_method service m
        then map_option (\<lambda>q. serialize_response service (call_method service m q)) (parse_request service m (request_bytes call))
        else None)"

fun response_messages :: "'s rpc_server \<Rightarrow> header list \<Rightarrow> 'm call list \<Rightarrow> (byte list \<times> byte list) list" where
  "response_messages srv (h # hs) (call # calls)
     = (serialize_header srv (response_header h), the (reply_bytes srv call)) # response_messages srv hs calls"
| "response_messages srv _ _ = []"

text \<open>The message a caller gets back, and the effect of the call.\<close>

definition call_outcome :: "'s rpc_server \<Rightarrow> 'm call \<Rightarrow> 'm option" where
  "call_outcome srv call = Option.bind (reply_bytes srv call) (parse_response call)"

definition call_effect :: "'s rpc_server \<Rightarrow> 'm call \<Rightarrow> 'm effect" where
  "call_effect srv call = handle_response call (the (call_outcome srv call))"

text \<open>The messages of calls made on a channel, and of the responses to them.\<close>

abbreviation requests_of :: "(header \<Rightarrow> byte list) \<Rightarrow> 'm client_channel \<Rightarrow> 'm call list \<Rightarrow> (byte list \<times> byte list) list" where
  "requests_of ser ch calls \<equiv> request_messages ser (call_headers (next_request_id ch) calls) calls"

abbreviation responses_of :: "'s rpc_server \<Rightarrow> 'm client_channel \<Rightarrow> 'm call list \<Rightarrow> (byte list \<times> byte list) list" where
  "responses_of srv ch calls \<equiv> response_messages srv (call_headers (next_request_id ch) calls) calls"

text \<open>The calls that wait after \<open>calls\<close> were sent with numbers from \<open>n\<close>.\<close>

fun waiting_calls :: "(int \<Rightarrow> 'm call option) \<Rightarrow> int \<Rightarrow> 'm call list \<Rightarrow> int \<Rightarrow> 'm call option" where
  "waiting_calls s n [] = s"
| "waiting_calls s n (call # calls) = waiting_calls (s(n \<mapsto> call)) (n + 1) calls"

lemma waiting_calls_below: "i < n \<Longrightarrow> waiting_calls s n calls i = s i"
  by (induction calls arbitrary: s n) auto

lemma waiting_calls_erase:
  "i < n \<Longrightarrow> (waiting_calls s n calls)(i := None) = waiting_calls (s(i := None)) n calls"
  by (induction calls arbitrary: s n) (auto simp: fun_upd_twist)

subsection \<open>Composition\<close>

lemma send_requests_ok:
  assumes "channel_ok ch"
    and "length (ob_pending (write_buf (chan_conn ch)))
      + length (pairs_bytes (request_messages ser (call_headers (next_request_id ch) calls) calls)) < 1023 * 8192"
  shows "\<exists>ch'. send_requests ser calls ch = Some (Inr ch') \<and> channel_ok ch' \<and>
    id2session ch' = waiting_calls (id2session ch) (next_request_id ch) calls \<and>
    output_of (chan_conn ch') = output_of (chan_conn ch)
      @ pairs_bytes (request_messages ser (call_headers (next_request_id ch) calls) calls) \<and>
    read_buf (chan_conn ch') = read_buf (chan_conn ch) \<and> rx (kern (chan_conn ch')) = rx (kern (chan_conn ch))"
  using assms
proof (induction calls arbitrary: ch)
  case Nil
  then show ?case by simp
next
  case (Cons call calls)
  let ?n = "next_request_id ch"
  let ?out = "frame (ser (request_header ch call)) @ frame (request_bytes call)"
  let ?rest = "pairs_bytes (request_messages ser (call_headers (?n + 1) calls) calls)"
  have all: "pairs_bytes (request_messages ser (call_headers ?n (call # calls)) (call # calls)) = ?out @ ?rest"
    by (simp add: request_header_def)
  from send_request_ok [of ch ?out ser call, OF Cons.prems(1) refl] Cons.prems(2) obtain ch1 where
    c1: "send_request ser call ch = Some (Inr ch1)" "channel_ok ch1"
      "id2session ch1 = (id2session ch)(?n \<mapsto> call)" "next_request_id ch1 = ?n + 1"
      "output_of (chan_conn ch1) = output_of (chan_conn ch) @ ?out"
      "read_buf (chan_conn ch1) = read_buf (chan_conn ch)" "rx (kern (chan_conn ch1)) = rx (kern (chan_conn ch))"
      "length (ob_pending (write_buf (chan_conn ch1))) \<le> length (ob_pending (write_buf (chan_conn ch))) + length ?out"
    unfolding all by auto
  have "length (ob_pending (write_buf (chan_conn ch1))) + length ?rest < 1023 * 8192"
    using Cons.prems(2) c1(8) unfolding all by simp
  with Cons.IH [OF c1(2)] show ?case
    unfolding c1(3-7) all using c1(1) by (auto simp: fun_upd_def)
qed

text \<open>The server's answers to the requests of servable calls are the response messages.\<close>

lemma answers_are_responses:
  assumes "\<forall>call \<in> set calls. reply_bytes srv call \<noteq> None"
    and "\<forall>h \<in> set (call_headers n calls). parse_header srv (ser h) = Some h"
  shows "(\<forall>(hb, qb) \<in> set (request_messages ser (call_headers n calls) calls). answer srv hb qb \<noteq> None) \<and>
    answers_bytes srv (request_messages ser (call_headers n calls) calls)
      = pairs_bytes (response_messages srv (call_headers n calls) calls)"
  using assms
proof (induction calls arbitrary: n)
  case (Cons call calls)
  let ?h = "\<lparr>magic = MAGIC_NUM, version = VERSION, message_type = REQUEST,
     request_id = n, service_name = Some (call_service call), method_name = Some (call_method_name call)\<rparr>"
  from Cons.prems(1) obtain rb where rb: "reply_bytes srv call = Some rb" by auto
  have "answer srv (ser ?h) (request_bytes call)
      = Some (frame (serialize_header srv (response_header ?h)) @ frame rb)"
    using rb Cons.prems(2)
    by (auto simp: answer_def reply_bytes_def get_string_def Let_def split: option.splits if_splits)
  with Cons.IH [of "n + 1"] Cons.prems rb show ?case by simp
qed simp

text \<open>The response messages complete the calls.\<close>

lemma responses_complete:
  assumes "\<forall>call \<in> set calls. call_outcome srv call \<noteq> None"
    and "\<forall>h \<in> set (call_headers n calls). ph (serialize_header srv (response_header h)) = Some (response_header h)"
  shows "completions ph (waiting_calls s n calls) (response_messages srv (call_headers n calls) calls)
    = Some (map (call_effect srv) calls)"
  using assms
proof (induction calls arbitrary: n s)
  case (Cons call calls)
  from Cons.prems(1) obtain rb m where o: "reply_bytes srv call = Some rb" "parse_response call rb = Some m"
    by (auto simp: call_outcome_def bind_eq_Some_conv)
  have "completions ph ((waiting_calls (s(n \<mapsto> call)) (n + 1) calls)(n := None))
      (response_messages srv (call_headers (n + 1) calls) calls) = Some (map (call_effect srv) calls)"
    unfolding waiting_calls_erase [of n "n + 1", simplified] using Cons.prems by (intro Cons.IH) auto
  with Cons.prems(2) o show ?case
    by (simp add: response_header_def waiting_calls_below call_effect_def call_outcome_def)
qed simp

lemma pairs_bytes_bound:
  "(hb, qb) \<in> set ms \<Longrightarrow> length hb \<le> length (pairs_bytes ms) \<and> length qb \<le> length (pairs_bytes ms)"
  by (induction ms) (auto simp: frame_def)

lemma pairs_bytes_small:
  assumes "length (pairs_bytes ms) < 1023 * 8192"
  shows "\<forall>(hb, qb) \<in> set ms. length hb < 2 ^ 32 \<and> length qb < 2 ^ 32"
  using pairs_bytes_bound [of _ _ ms] assms by fastforce

lemma call_outcome_reply: "call_outcome srv call \<noteq> None \<Longrightarrow> reply_bytes srv call \<noteq> None"
  by (auto simp: call_outcome_def bind_eq_Some_conv)

text \<open>The server's side: a fresh connection that receives these requests answers all of them.\<close>

lemma server_answers_requests:
  assumes "fresh_conn c" and "rx_live (rx (kern c))" and "tx_steady (tx (kern c))"
    and "rx_stream (rx (kern c)) = pairs_bytes (request_messages ser (call_headers n calls) calls)"
    and "\<forall>call \<in> set calls. reply_bytes srv call \<noteq> None"
    and "\<forall>h \<in> set (call_headers n calls). parse_header srv (ser h) = Some h"
    and "lengths_aligned 0 (request_messages ser (call_headers n calls) calls)"
    and "length (pairs_bytes (request_messages ser (call_headers n calls) calls)) < 1023 * 8192"
    and "length (pairs_bytes (response_messages srv (call_headers n calls) calls)) < 1023 * 8192"
  shows "\<exists>c'. session srv (rx_pauses (rx (kern c))) c = Some (Inr (Some R_header_len, c')) \<and>
    output_of c' = pairs_bytes (response_messages srv (call_headers n calls) calls)"
proof -
  let ?ms = "request_messages ser (call_headers n calls) calls"
  note ans = answers_are_responses [OF assms(5,6)]
  have served: "\<forall>(hb, qb) \<in> set ?ms. answer srv hb qb \<noteq> None \<and> length hb < 2 ^ 32 \<and> length qb < 2 ^ 32"
    using conjunct1 [OF ans] pairs_bytes_small [OF assms(8)] by fast
  have "server_spec srv R_header_len 0 (rx_stream (rx (kern c)))
      = (answers_bytes srv ?ms, Waiting R_header_len ((0 + int (length (pairs_bytes ?ms))) mod kBlockSize) [])"
    unfolding assms(4) by (rule server_spec_requests [OF served assms(7)]) (simp_all add: kBlockSize_def)
  from session_refines [OF assms(1-3) _ order_refl this] ans assms(4,8,9) show ?thesis
    by (auto simp: session_ok_def has_sent_def output_of_def)
qed

text \<open>The client's side: a channel that waits for these calls and receives the responses completes all of them.\<close>

lemma client_completes_calls:
  assumes ok: "channel_ok ch" "id2session ch = waiting_calls s n calls"
    and input: "ib_unread (read_buf (chan_conn ch)) = []"
      "rx_stream (rx (kern (chan_conn ch))) = pairs_bytes (response_messages srv (call_headers n calls) calls)"
    and calls: "\<forall>call \<in> set calls. call_outcome srv call \<noteq> None"
      "\<forall>h \<in> set (call_headers n calls). ph (serialize_header srv (response_header h)) = Some (response_header h)"
    and sizes: "lengths_aligned (ib_pos (read_buf (chan_conn ch))) (response_messages srv (call_headers n calls) calls)"
      "length (pairs_bytes (response_messages srv (call_headers n calls) calls)) < 1023 * 8192"
  shows "\<exists>ch'. client_session ph (rx_pauses (rx (kern (chan_conn ch)))) C_header_len ch = Some (Inr (Some C_header_len, ch')) \<and>
    effects ch' = effects ch @ map (call_effect srv) calls"
proof -
  have sv: "serving (chan_conn ch)" using ok(1) by (simp add: channel_ok_def)
  have pos: "0 \<le> ib_pos (read_buf (chan_conn ch))" "ib_pos (read_buf (chan_conn ch)) < kBlockSize"
    using ib_pos_facts(1,2) [of "read_buf (chan_conn ch)"] sv by (auto simp: serving_def conn_inv_def)
  note spec = client_spec_responses [OF responses_complete [OF calls, of s] pairs_bytes_small [OF sizes(2)] sizes(1) pos]
  show ?thesis
    using client_session_refines [of ch ph C_header_len, OF sv _ order_refl] spec unfolding ok(2) input
    by (auto simp: client_session_ok_def)
qed

subsection \<open>An example\<close>

text \<open>
  A codec that keeps the number of a call in one byte, a server with an echo service behind it,
  and two calls to it, the second without a closure.
\<close>

definition id_header :: "header \<Rightarrow> byte list" where
  "id_header h = [word_of_int (request_id h)]"

definition parse_id_header :: "message_type \<Rightarrow> byte list \<Rightarrow> header option" where
  "parse_id_header t bs = (case bs of
     [b] \<Rightarrow> Some (if t = REQUEST then echo_header\<lparr>request_id := uint b\<rparr>
       else response_header (echo_header\<lparr>request_id := uint b\<rparr>))
   | _ \<Rightarrow> None)"

definition id_server :: "byte list rpc_server" where
  "id_server = echo_server\<lparr>parse_header := parse_id_header REQUEST, serialize_header := id_header\<rparr>"

definition two_calls :: "byte list call list" where
  "two_calls = [example_call, example_call\<lparr>request_bytes := [6, 6], response_obj := 4, done_closure := None\<rparr>]"

definition two_requests :: "(byte list \<times> byte list) list" where
  "two_requests = [([0], [5]), ([1], [6, 6])]"

definition two_responses :: "(byte list \<times> byte list) list" where
  "two_responses = [([0], [0, 5]), ([1], [0, 6, 6])]"

lemmas id_codec_defs = id_header_def parse_id_header_def id_server_def echo_server_def register_service_def
  echo_header_def response_header_def

lemma two_calls_headers:
  "\<forall>h \<in> set (call_headers 0 two_calls). parse_header id_server (id_header h) = Some h"
  "\<forall>h \<in> set (call_headers 0 two_calls).
     parse_id_header RESPONSE (serialize_header id_server (response_header h)) = Some (response_header h)"
  by (simp_all add: two_calls_def id_codec_defs example_call_def)

lemma two_calls_reply:
  "call \<in> set two_calls \<Longrightarrow> reply_bytes id_server call = Some (0 # request_bytes call)"
  by (auto simp: two_calls_def reply_bytes_def id_codec_defs example_call_def)

lemma two_calls_outcome:
  "call \<in> set two_calls \<Longrightarrow> call_outcome id_server call = Some (0 # request_bytes call)"
  by (auto simp: call_outcome_def two_calls_reply, auto simp: two_calls_def example_call_def)

lemma two_calls_effects: "map (call_effect id_server) two_calls = [RunDone 9 3 [0, 5], DeleteResponse 4]"
  using two_calls_outcome
  by (simp add: two_calls_def call_effect_def, simp add: example_call_def handle_response_def)

lemma two_calls_messages:
  "request_messages id_header (call_headers 0 two_calls) two_calls = two_requests"
  "response_messages id_server (call_headers 0 two_calls) two_calls = two_responses"
  using two_calls_reply
  by (simp_all add: two_calls_def two_requests_def two_responses_def id_server_def)
    (simp_all add: id_header_def response_header_def example_call_def)

lemma two_calls_sizes [simp]:
  "lengths_aligned 0 two_requests" "lengths_aligned 0 two_responses"
  "length (pairs_bytes two_requests) = 21" "length (pairs_bytes two_responses) = 23"
  by (simp_all add: two_requests_def two_responses_def aligned_def kBlockSize_def frame_def)

text \<open>A new channel on an open connection.\<close>

lemma example_client_facts:
  fixes es :: "rx_event list"
  defines "ch \<equiv> ClientChannel (live_conn es [] []) :: 'm client_channel"
  shows "rx_live es \<Longrightarrow> length (rx_stream es) < 2 ^ 31 - 1 \<Longrightarrow> channel_ok ch"
    and "output_of (chan_conn ch) = []" and "ib_unread (read_buf (chan_conn ch)) = []"
    and "ib_pos (read_buf (chan_conn ch)) = 0" and "rx (kern (chan_conn ch)) = es" and "next_request_id ch = 0"
  using example_channel_ok [of es] example_channel_pos [of es] example_channel_input [of es]
  by (simp_all add: ch_def example_channel_def ClientChannel_def channel_ok_def output_of_def
      live_conn_simps output_with_facts)

end
