(* ===== verification/CallSide.thy ===== *)
theory CallSide
  imports ServerInput Epoll EndToEnd
begin

section \<open>The two ends of a poll connection\<close>

text \<open>
  What client and server have in common. Either end of a connection is registered with the
  executor of its process, and its coroutines ask for write events when they leave bytes in the
  queue. \<open>live_side\<close> says so of a connection and an interest list, and the lemmas show that it is
  kept when a coroutine runs, when the kernel has room again and when bytes arrive.
\<close>

subsection \<open>A registered connection\<close>

text \<open>
  One end of a connection, as its executor keeps it: open, served, and registered for
  edge-triggered input, and for output as long as bytes are queued. Its input comes in pieces
  without interruptions.
\<close>

definition live_side :: "connection \<Rightarrow> interest \<Rightarrow> bool" where
  "live_side c I \<longleftrightarrow> kind c = PollConnection \<and> \<not> is_dummy c \<and> serving c \<and> rx_pauses (rx (kern c)) = 0 \<and>
     (\<exists>m. I (sockfd (sock c)) = Some (this_ptr c, m) \<and> ep_in m \<and> ep_et m \<and> (ob_pending (write_buf c) \<noteq> [] \<longrightarrow> ep_out m))"

text \<open>Whether the kernel may report the connection writable, and readable.\<close>

definition wants_out :: "connection \<Rightarrow> interest \<Rightarrow> bool" where
  "wants_out c I \<longleftrightarrow> (case I (sockfd (sock c)) of None \<Rightarrow> False | Some (p, m) \<Rightarrow> ep_out m)"

definition wants_in :: "connection \<Rightarrow> interest \<Rightarrow> bool" where
  "wants_in c I \<longleftrightarrow> (case I (sockfd (sock c)) of None \<Rightarrow> False | Some (p, m) \<Rightarrow> ep_in m)"

lemma live_side_in: "live_side c I \<Longrightarrow> wants_in c I"
  by (auto simp: live_side_def wants_in_def)

lemma live_side_out: "live_side c I \<Longrightarrow> ob_pending (write_buf c) \<noteq> [] \<Longrightarrow> wants_out c I"
  by (auto simp: live_side_def wants_out_def)

text \<open>What a coroutine that ran on the connection leaves.\<close>

abbreviation new_events :: "connection \<Rightarrow> connection \<Rightarrow> event_type list" where
  "new_events c c' \<equiv> drop (length (events c)) (events c')"

lemma live_side_after:
  assumes ev: "evolves_to c c'" and sv: "serving c'" "rx_pauses (rx (kern c')) = 0" and k: "kind c = PollConnection" "\<not> is_dummy c"
    and m: "I (sockfd (sock c)) = Some (this_ptr c, m)" "ep_in m" "ep_et m"
    and left: "ob_pending (write_buf c') \<noteq> [] \<Longrightarrow> ep_out m \<or> EV_WRITE \<in> set (new_events c c')"
  shows "live_side c' (apply_events c' (new_events c c') I)"
proof -
  have nc: "\<not> conn_closed c'" using sv(1) by (simp add: serving_def conn_inv_def)
  from ev obtain es where es: "events c' = events c @ es" "set es \<subseteq> {EV_WRITE}" using nc by (auto simp: evolves_to_def asks_for_def)
  have id: "kind c' = kind c" "is_dummy c' = is_dummy c" "sockfd (sock c') = sockfd (sock c)" "this_ptr c' = this_ptr c"
    using ev by (simp_all add: evolves_to_def)
  have m': "I (sockfd (sock c')) = Some (this_ptr c', m)" using m(1) id by simp
  from apply_writes [where I = I and c = c' and m = m, OF es(2) m' m(2,3)] show ?thesis
    using sv es(1) id k left by (auto simp: live_side_def)
qed

lemma serving_empty: "serving c \<Longrightarrow> ob_bytes (write_buf c) = 0 \<longleftrightarrow> ob_pending (write_buf c) = []"
  by (auto simp: serving_def conn_inv_def ob_inv_def ob_bytes_def word_unat_eq_iff)

lemma live_side_commit:
  assumes live: "live_side c I" and asks: "asks_if_left c c'" and sv: "serving c'" "rx_pauses (rx (kern c')) = 0"
  shows "live_side c' (apply_events c' (new_events c c') I)"
proof -
  from live obtain m where m: "I (sockfd (sock c)) = Some (this_ptr c, m)" "ep_in m" "ep_et m" "ob_pending (write_buf c) \<noteq> [] \<longrightarrow> ep_out m"
    by (auto simp: live_side_def)
  show ?thesis
  proof (rule live_side_after [where c = c and I = I and m = m, OF _ sv _ _ m(1-3)])
    show "ob_pending (write_buf c') \<noteq> [] \<Longrightarrow> ep_out m \<or> EV_WRITE \<in> set (new_events c c')"
      using asks m(4) serving_empty [OF sv(1)] sv(1) by (auto simp: asks_if_left_def serving_def conn_inv_def)
  qed (use live asks in \<open>simp_all add: live_side_def asks_if_left_def\<close>)
qed

lemma live_side_flush:
  assumes live: "live_side c I" and rw: "resume_write c = Some (Inr c')" and sv: "serving c'" "rx_pauses (rx (kern c')) = 0"
  shows "live_side c' (apply_events c' (new_events c c') (I(sockfd (sock c) \<mapsto> (this_ptr c, \<lparr>ep_in = True, ep_out = False, ep_et = True\<rparr>))))"
proof (rule live_side_after [OF resume_write_evolves [OF rw] sv])
  show "(I(sockfd (sock c) \<mapsto> (this_ptr c, \<lparr>ep_in = True, ep_out = False, ep_et = True\<rparr>))) (sockfd (sock c))
    = Some (this_ptr c, \<lparr>ep_in = True, ep_out = False, ep_et = True\<rparr>)" by simp
  show "ob_pending (write_buf c') \<noteq> [] \<Longrightarrow> ep_out \<lparr>ep_in = True, ep_out = False, ep_et = True\<rparr> \<or> EV_WRITE \<in> set (new_events c c')"
    using resume_write_left [OF rw] serving_empty [OF sv(1)] sv(1) by (auto simp: serving_def conn_inv_def)
qed (use live in \<open>simp_all add: live_side_def\<close>)

lemma apply_new_events_other: "fd \<noteq> sockfd (sock c') \<Longrightarrow> apply_events c' (new_events c c') I fd = I fd"
  by (rule apply_events_other)

subsection \<open>Room in the socket, and bytes that arrive\<close>

definition with_room :: "tx_event list \<Rightarrow> connection \<Rightarrow> connection" where
  "with_room ts c = c\<lparr>sock := (sock c)\<lparr>os := (kern c)\<lparr>tx := ts\<rparr>\<rparr>\<rparr>"

definition deliver :: "byte list \<Rightarrow> connection \<Rightarrow> connection" where
  "deliver bs c = c\<lparr>sock := (sock c)\<lparr>os := (kern c)\<lparr>rx := rx (kern c) @ [RxData bs]\<rparr>\<rparr>\<rparr>"

lemma with_room_simps [simp]:
  "kind (with_room ts c) = kind c" "is_dummy (with_room ts c) = is_dummy c" "this_ptr (with_room ts c) = this_ptr c"
  "read_buf (with_room ts c) = read_buf c" "write_buf (with_room ts c) = write_buf c" "events (with_room ts c) = events c"
  "sockfd (sock (with_room ts c)) = sockfd (sock c)" "rx (kern (with_room ts c)) = rx (kern c)"
  "wire (kern (with_room ts c)) = wire (kern c)" "tx (kern (with_room ts c)) = ts" "conn_closed (with_room ts c) = conn_closed c"
  "conn_inv (with_room ts c) = conn_inv c" "output_of (with_room ts c) = output_of c" "write_handle (with_room ts c) = write_handle c"
  "read_handle (with_room ts c) = read_handle c" "send_frame (with_room ts c) = send_frame c" "shut_wr (kern (with_room ts c)) = shut_wr (kern c)"
  by (simp_all add: with_room_def conn_closed_def conn_inv_def ring_ok_def output_of_def)

lemma deliver_simps [simp]:
  "kind (deliver bs c) = kind c" "is_dummy (deliver bs c) = is_dummy c" "this_ptr (deliver bs c) = this_ptr c"
  "read_buf (deliver bs c) = read_buf c" "write_buf (deliver bs c) = write_buf c" "events (deliver bs c) = events c"
  "sockfd (sock (deliver bs c)) = sockfd (sock c)" "rx (kern (deliver bs c)) = rx (kern c) @ [RxData bs]"
  "wire (kern (deliver bs c)) = wire (kern c)" "tx (kern (deliver bs c)) = tx (kern c)" "conn_closed (deliver bs c) = conn_closed c"
  "output_of (deliver bs c) = output_of c"
  by (simp_all add: deliver_def conn_closed_def output_of_def)

lemma rx_append: "rx_stream (es @ fs) = rx_stream es @ rx_stream fs" "rx_live (es @ fs) \<longleftrightarrow> rx_live es \<and> rx_live fs"
  "rx_pauses (es @ fs) = rx_pauses es + rx_pauses fs"
  by (induction es rule: rx_stream.induct) auto

lemma live_side_room: "tx_steady ts \<Longrightarrow> live_side c I \<Longrightarrow> live_side (with_room ts c) I"
  by (simp add: live_side_def serving_def)

lemma live_side_deliver:
  assumes "live_side c I" and "length (input_left c) + length bs < 2 ^ 31 - 1"
  shows "live_side (deliver bs c) I"
  using assms by (simp add: live_side_def serving_def rx_append conn_inv_def) (simp add: deliver_def)

subsection \<open>Write events\<close>

text \<open>A kernel that reports the socket writable has room for at least one byte.\<close>

definition has_room :: "tx_event list \<Rightarrow> bool" where
  "has_room ts \<longleftrightarrow> tx_steady ts \<and> (\<exists>n ts'. ts = TxTake (Suc n) # ts')"

text \<open>
  The kernel reports the connection readable, writable or both. Of \<open>e\<close> arrivals of bytes that it
  has to report, \<open>e'\<close> are left afterwards: it may report several at once, or report one after its
  bytes were already read. \<open>room\<close> is what the socket takes while the event is handled.
\<close>

definition reported :: "bool \<Rightarrow> bool \<Rightarrow> connection \<Rightarrow> interest \<Rightarrow> nat \<Rightarrow> nat \<Rightarrow> tx_event list \<Rightarrow> bool" where
  "reported i out c I e e' room \<longleftrightarrow> (i \<or> out) \<and> tx_steady room \<and> (if i then wants_in c I \<and> e' < e else e' = e) \<and>
     (out \<longrightarrow> wants_out c I \<and> has_room room)"

lemma write_loop_progress:
  assumes "ob_inv ob" and "small_queue (ob_pending ob)" and "ob_pending ob \<noteq> []" and "\<not> shut_wr k" and "tx k = TxTake (Suc n) # ts"
    and "need = int (length (ob_pending ob))" and "write_loop ob k need 0 = Inr (m, k')"
  shows "length (wire k) < length (wire k')"
proof -
  let ?j = "min (Suc n) (length (ob_pending ob))"
  let ?k = "k\<lparr>tx := ts, wire := wire k @ take ?j (ob_pending ob)\<rparr>"
  have "os_writev k (ob_pending ob) = (Inr ?j, ?k)" using assms(4,5) by (simp add: os_writev_def Let_def)
  moreover have "0 < need" using assms(3,6) by simp
  ultimately have "write_loop ob ?k need (int ?j) = Inr (m, k')"
    using write_loop_turn [OF assms(1,2), of 0 need k] assms(7) by simp
  from write_loop_wire [OF this] have "length (wire ?k) \<le> length (wire k')" by (rule prefix_length_le)
  then show ?thesis using assms(3) by (cases "ob_pending ob") (auto simp: min_def split: if_splits)
qed

lemma send_fn_wire: "send_fn pc c = Some (Inr c') \<Longrightarrow> prefix (wire (kern c)) (wire (kern c'))"
  using send_fn_evolves [of pc c c'] by (simp add: evolves_to_def)

lemma resume_write_progress:
  assumes sv: "serving c" and poll: "kind c = PollConnection" and q: "small_queue (ob_pending (write_buf c))" "ob_pending (write_buf c) \<noteq> []"
    and room: "has_room (tx (kern c))" and rw: "resume_write c = Some (Inr c')"
  shows "length (wire (kern c)) < length (wire (kern c'))"
proof -
  note ci = conn_inv_facts [of c] and sf = sv [unfolded serving_def]
  have inv: "conn_inv c" using sf by simp
  have wr: "WaitWrite_ready c" "\<not> conn_closed c"
    using inv q(2) serving_empty [OF sv] by (auto simp: WaitWrite_ready_def conn_write_bytes_def conn_inv_def word_gt_0)
  have fn: "send_fn S_write c = Some (Inr c')"
    using rw wr inv by (cases "send_frame c") (auto simp: resume_write_def send_fn.simps [of S_loop] conn_inv_def)
  then obtain b c1 where c1: "poll_async_write c = Some (Inr (b, c1))" and pre: "prefix (wire (kern c1)) (wire (kern c'))"
    using poll by (auto simp: send_fn.simps [of S_write] async_write_def Write_suspend_def add_event_def
        split: option.splits sum.splits if_splits dest!: send_fn_wire)
  have need: "to_int32 (ob_bytes (write_buf c)) = int (length (ob_pending (write_buf c)))"
    using ci(2) [OF inv] q(1) by (simp add: ob_bytes_def ob_inv_def to_int32_small)
  from c1 obtain m where wl: "write_loop (write_buf c) (kern c) (to_int32 (ob_bytes (write_buf c))) 0 = Inr (m, kern c1)"
    by (auto simp: poll_async_write_def Let_def ro_bind_eq_Inr case_res_eq_Inr)
  from room obtain n ts where "tx (kern c) = TxTake (Suc n) # ts" by (auto simp: has_room_def)
  from write_loop_progress [OF ci(2) [OF inv] q ci(4) [OF inv] this need wl] prefix_length_le [OF pre] show ?thesis by simp
qed

text \<open>What a writable event does to a registered connection: its output is no longer asked for, unless the writer asks again.\<close>

abbreviation flushed :: "connection \<Rightarrow> connection \<Rightarrow> interest \<Rightarrow> interest" where
  "flushed c c' I \<equiv> apply_events c' (new_events c c') (I(sockfd (sock c) \<mapsto> (this_ptr c, \<lparr>ep_in = True, ep_out = False, ep_et = True\<rparr>)))"

lemma live_side_writes:
  assumes live: "live_side c I" and q: "small_queue (ob_pending (write_buf c))"
  obtains c' where "resume_write c = Some (Inr c')" and "evolves_to c c'" and "output_of c' = output_of c" and "read_buf c' = read_buf c"
    and "rx (kern c') = rx (kern c)" and "live_side c' (flushed c c' I)"
    and "has_room (tx (kern c)) \<Longrightarrow> length (wire (kern c)) < length (wire (kern c')) \<or> \<not> wants_out c' (flushed c c' I)"
proof -
  have sv: "serving c" and p0: "rx_pauses (rx (kern c)) = 0" and k: "kind c = PollConnection" using live by (simp_all add: live_side_def)
  with resume_write_live [of c] q obtain c' where c': "resume_write c = Some (Inr c')" "writer_effect c c'" by (auto simp: serving_def)
  note w = c'(2) [unfolded writer_effect_def] and ev = resume_write_evolves [OF c'(1)]
  have sv': "serving c'" using sv w by (simp add: serving_def)
  have "length (wire (kern c)) < length (wire (kern c')) \<or> \<not> wants_out c' (flushed c c' I)" if room: "has_room (tx (kern c))"
  proof (cases "ob_pending (write_buf c) = []")
    case True
    then have "new_events c c' = []" using w by simp
    moreover have "sockfd (sock c') = sockfd (sock c)" using ev by (simp add: evolves_to_def)
    ultimately show ?thesis by (simp add: wants_out_def)
  next
    case False
    with resume_write_progress [OF sv k q _ room c'(1)] show ?thesis by simp
  qed
  then show thesis using that c'(1) ev w live_side_flush [OF live c'(1) sv'] p0 by (simp add: output_of_def)
qed

end
