(* ===== verification/CallEnds.thy ===== *)
theory CallEnds
  imports CallSide
begin

section \<open>The server's end of a connection\<close>

text \<open>
  The invariants of the two ends. \<open>server_inv\<close>: the session has answered what the specification
  of the server demands for the bytes it was given, and waits where that waits. \<open>reading\<close>: the
  client has completed some of the calls it sent, in order, and stands in the response to the
  next one.
\<close>

definition server_inv :: "'m rpc_server \<Rightarrow> byte list \<Rightarrow> 'm recv_pc session \<Rightarrow> interest \<Rightarrow> bool \<Rightarrow> nat \<Rightarrow> bool" where
  "server_inv srv req s I ready u \<longleftrightarrow> (\<exists>pc fed. live_side (s_conn s) I \<and> s_frame s = Some pc \<and> u \<le> length req \<and>
     take u req = fed @ rx_stream (rx (kern (s_conn s))) \<and> (\<not> ready \<longrightarrow> rx (kern (s_conn s)) = []) \<and>
     server_spec srv R_header_len 0 fed
       = (output_of (s_conn s), Waiting pc (ib_pos (read_buf (s_conn s))) (ib_unread (read_buf (s_conn s)))))"

text \<open>The requests that may come, and the answers to all of them.\<close>

definition answers_to :: "'m rpc_server \<Rightarrow> byte list \<Rightarrow> byte list \<Rightarrow> bool" where
  "answers_to srv req out \<longleftrightarrow> length req < 1023 * 8192 \<and> length out < 1023 * 8192 \<and>
     (\<exists>pc pos rest. server_spec srv R_header_len 0 req = (out, Waiting pc pos rest))"

lemma answers_to_prefix:
  assumes "answers_to srv req out" and "prefix xs req"
  obtains out1 pc pos rest where "server_spec srv R_header_len 0 xs = (out1, Waiting pc pos rest)" and "prefix out1 out"
proof -
  from assms obtain pc pos rest where "server_spec srv R_header_len 0 req = (out, Waiting pc pos rest)" by (auto simp: answers_to_def)
  moreover from assms(2) obtain ys where "req = xs @ ys" by (auto simp: prefix_def)
  ultimately have "server_spec srv R_header_len 0 (xs @ ys) = (out, Waiting pc pos rest)" by simp
  then obtain out1 out2 pc1 pos1 rest1 where "server_spec srv R_header_len 0 xs = (out1, Waiting pc1 pos1 rest1)" "out = out1 @ out2"
    by (rule server_spec_prefix)
  then show thesis by (intro that [of out1 pc1 pos1 rest1]) simp_all
qed

lemma server_inv_output:
  assumes "server_inv srv req s I ready u" and "answers_to srv whole out" and "prefix req whole"
  shows "prefix (output_of (s_conn s)) out"
proof -
  from assms(1) obtain pc fed where f: "take u req = fed @ rx_stream (rx (kern (s_conn s)))"
    and spec: "server_spec srv R_header_len 0 fed = (output_of (s_conn s), Waiting pc (ib_pos (read_buf (s_conn s))) (ib_unread (read_buf (s_conn s))))"
    unfolding server_inv_def by blast
  have "prefix fed (take u req)" by (simp add: f)
  then have "prefix fed whole" using assms(3) take_is_prefix [of u req] by (meson prefix_order.order_trans)
  from answers_to_prefix [OF assms(2) this] show ?thesis using spec by (metis Pair_inject)
qed

text \<open>The client's kernel took more.\<close>

lemma server_inv_mono: "server_inv srv req s I ready u \<Longrightarrow> prefix req req' \<Longrightarrow> server_inv srv req' s I ready u"
  by (auto simp: server_inv_def prefix_def)

lemma server_inv_interest:
  "server_inv srv req s I ready u \<Longrightarrow> I' (sockfd (sock (s_conn s))) = I (sockfd (sock (s_conn s))) \<Longrightarrow> server_inv srv req s I' ready u"
  by (simp add: server_inv_def live_side_def)

text \<open>Bytes arrive.\<close>

lemma server_inv_deliver:
  assumes inv: "server_inv srv req s I ready u" and u: "u + n \<le> length req" and small: "length req < 1023 * 8192"
  shows "server_inv srv req (s\<lparr>s_conn := deliver (take n (drop u req)) (s_conn s)\<rparr>) I True (u + n)"
proof -
  from inv obtain pc fed where f: "live_side (s_conn s) I" "s_frame s = Some pc" "take u req = fed @ rx_stream (rx (kern (s_conn s)))"
    and spec: "server_spec srv R_header_len 0 fed = (output_of (s_conn s), Waiting pc (ib_pos (read_buf (s_conn s))) (ib_unread (read_buf (s_conn s))))"
    unfolding server_inv_def by blast
  have "length (take u req) = u" using u by simp
  then have "length (input_left (s_conn s)) \<le> u" unfolding f(3) using server_spec_rest [OF spec] by simp
  then have "live_side (deliver (take n (drop u req)) (s_conn s)) I"
    using u small by (intro live_side_deliver [OF f(1)]) auto
  moreover have "take (u + n) req = fed @ rx_stream (rx (kern (s_conn s))) @ take n (drop u req)"
    using f(3) by (simp add: take_add)
  ultimately show ?thesis using f(2) spec u by (auto simp: server_inv_def rx_append)
qed

text \<open>A readable event: the coroutine reads all of it and answers.\<close>

lemma server_reads:
  assumes inv: "server_inv srv req s I ready u" and ans: "answers_to srv whole out" and pre: "prefix req whole"
  shows "\<exists>pc c'. resume_read srv (s_frame s) (s_conn s) = Some (Inr (Some pc, c')) \<and> evolves_to (s_conn s) c' \<and>
    server_inv srv req \<lparr>s_conn = c', s_frame = Some pc\<rparr> (apply_events c' (new_events (s_conn s) c') I) False u"
proof -
  let ?c = "s_conn s"
  from inv obtain pc fed where live: "live_side ?c I" and fr: "s_frame s = Some pc" and u: "u \<le> length req"
    and fed: "take u req = fed @ rx_stream (rx (kern ?c))"
    and spec: "server_spec srv R_header_len 0 fed = (output_of ?c, Waiting pc (ib_pos (read_buf ?c)) (ib_unread (read_buf ?c)))"
    unfolding server_inv_def by blast
  have sv: "serving ?c" and p0: "rx_pauses (rx (kern ?c)) = 0" using live by (simp_all add: live_side_def)
  have "prefix (take u req) whole" using pre take_is_prefix [of u req] by (rule prefix_order.order_trans [rotated])
  with answers_to_prefix [OF ans] obtain o1 pc1 pos1 rest1 where
    o1: "server_spec srv R_header_len 0 (take u req) = (o1, Waiting pc1 pos1 rest1)" "prefix o1 out" by blast
  obtain o2 r where o2: "server_spec srv pc (ib_pos (read_buf ?c)) (input_left ?c) = (o2, r)" by fastforce
  with o1(1) server_spec_append [OF spec, of "rx_stream (rx (kern ?c))"] fed have r: "o1 = output_of ?c @ o2" "r = Waiting pc1 pos1 rest1" by auto
  have "length o1 < 1023 * 8192" using prefix_length_le [OF o1(2)] ans by (simp add: answers_to_def)
  then have "length (ob_pending (write_buf ?c)) + length o2 < 1023 * 8192" by (simp add: r(1) output_of_def)
  then have "server.run_ok srv False False ?c o2 r (recv_run srv pc ?c)"
    unfolding recv_run_def using o2 by (intro server.run_refines [OF sv]) (simp_all add: out_fits_def)
  then obtain c' where c': "recv_run srv pc ?c = Some (Inr (Some pc1, c'))" "serving c'" "output_of c' = o1"
    "pos1 = ib_pos (read_buf c')" "rest1 = ib_unread (read_buf c')" "rx (kern c') = []"
    using p0 r by (auto simp: server.run_ok_def)
  have "resume_read srv (s_frame s) ?c = recv_run srv pc ?c"
    using server.serving_resume [OF sv, of srv pc] by (simp add: resume_read_def fr recv_run_def)
  moreover have "live_side c' (apply_events c' (new_events ?c c') I)"
    using live recv_run_asks [OF c'(1)] c'(2,6) by (intro live_side_commit) auto
  ultimately show ?thesis
    using c' o1(1) u recv_run_evolves [OF c'(1)] by (auto simp: server_inv_def)
qed

text \<open>A writable event.\<close>

lemma server_writes:
  assumes inv: "server_inv srv req s I ready u" and ans: "answers_to srv whole out" and pre: "prefix req whole"
  obtains c' where "resume_write (s_conn s) = Some (Inr c')" and "evolves_to (s_conn s) c'" and "rx (kern c') = rx (kern (s_conn s))"
    and "server_inv srv req (s\<lparr>s_conn := c'\<rparr>) (flushed (s_conn s) c' I) ready u"
    and "has_room (tx (kern (s_conn s))) \<Longrightarrow>
      length (wire (kern (s_conn s))) < length (wire (kern c')) \<or> \<not> wants_out c' (flushed (s_conn s) c' I)"
proof -
  let ?c = "s_conn s"
  from inv have live: "live_side ?c I" by (auto simp: server_inv_def)
  have "length (output_of ?c) < 1023 * 8192" using prefix_length_le [OF server_inv_output [OF assms]] ans by (simp add: answers_to_def)
  then have "small_queue (ob_pending (write_buf ?c))" by (simp add: output_of_def)
  from live_side_writes [OF live this] obtain c' where
    c': "resume_write ?c = Some (Inr c')" "evolves_to ?c c'" "output_of c' = output_of ?c" "read_buf c' = read_buf ?c" "rx (kern c') = rx (kern ?c)"
      "live_side c' (flushed ?c c' I)" "has_room (tx (kern ?c)) \<Longrightarrow> length (wire (kern ?c)) < length (wire (kern c')) \<or> \<not> wants_out c' (flushed ?c c' I)"
    by blast
  moreover have "server_inv srv req (s\<lparr>s_conn := c'\<rparr>) (flushed ?c c' I) ready u" using inv c'(3-6) by (auto simp: server_inv_def)
  ultimately show thesis using that by blast
qed

lemma server_inv_room: "tx_steady ts \<Longrightarrow> server_inv srv req s I ready u \<Longrightarrow> server_inv srv req (s\<lparr>s_conn := with_room ts (s_conn s)\<rparr>) I ready u"
  by (auto simp: server_inv_def live_side_room)

section \<open>The client's end of a connection\<close>

subsection \<open>Messages by number\<close>

abbreviation requests :: "(header \<Rightarrow> byte list) \<Rightarrow> 'm call list \<Rightarrow> (byte list \<times> byte list) list" where
  "requests ser calls \<equiv> request_messages ser (call_headers 0 calls) calls"

abbreviation responses :: "'s rpc_server \<Rightarrow> 'm call list \<Rightarrow> (byte list \<times> byte list) list" where
  "responses srv calls \<equiv> response_messages srv (call_headers 0 calls) calls"

lemma call_headers_append: "call_headers n (xs @ ys) = call_headers n xs @ call_headers (n + int (length xs)) ys"
  by (induction xs arbitrary: n) (simp_all add: algebra_simps)

lemma length_call_headers [simp]: "length (call_headers n calls) = length calls"
  by (induction calls arbitrary: n) simp_all

lemma messages_append:
  "length hs = length xs \<Longrightarrow> request_messages ser (hs @ hs') (xs @ ys) = request_messages ser hs xs @ request_messages ser hs' ys"
  "length hs = length xs \<Longrightarrow> response_messages srv (hs @ hs') (xs @ ys) = response_messages srv hs xs @ response_messages srv hs' ys"
  by (induction hs xs rule: list_induct2) simp_all

lemma requests_append: "requests ser (xs @ ys) = requests ser xs @ request_messages ser (call_headers (int (length xs)) ys) ys"
  by (simp add: call_headers_append messages_append)

lemma responses_append: "responses srv (xs @ ys) = responses srv xs @ response_messages srv (call_headers (int (length xs)) ys) ys"
  by (simp add: call_headers_append messages_append)

lemma length_responses [simp]: "length hs = length xs \<Longrightarrow> length (response_messages srv hs xs) = length xs"
  by (induction hs xs rule: list_induct2) simp_all

lemma pairs_bytes_append [simp]: "pairs_bytes (xs @ ys) = pairs_bytes xs @ pairs_bytes ys"
  by (induction xs rule: pairs_bytes.induct) simp_all

lemma lengths_aligned_append: "lengths_aligned pos (xs @ ys) \<longleftrightarrow> lengths_aligned pos xs \<and> lengths_aligned (pos + int (length (pairs_bytes xs))) ys"
  by (induction pos xs rule: lengths_aligned.induct) (simp_all add: frame_split(3) algebra_simps)

lemma call_headers_nth: "k < length calls \<Longrightarrow> call_headers n calls ! k = \<lparr>magic = MAGIC_NUM, version = VERSION, message_type = REQUEST,
     request_id = n + int k, service_name = Some (call_service (calls ! k)), method_name = Some (call_method_name (calls ! k))\<rparr>"
proof (induction calls arbitrary: n k)
  case (Cons c cs)
  then show ?case by (cases k) simp_all
qed simp

lemma response_messages_nth: "length hs = length xs \<Longrightarrow> k < length xs \<Longrightarrow>
    response_messages srv hs xs ! k = (serialize_header srv (response_header (hs ! k)), the (reply_bytes srv (xs ! k)))"
proof (induction hs xs arbitrary: k rule: list_induct2)
  case (Cons h hs x xs)
  then show ?case by (cases k) simp_all
qed simp

subsection \<open>Where the client stands in its responses\<close>

text \<open>
  At the resume point \<open>pc\<close>, the bytes still to be consumed belong to the messages \<open>ms\<close>, the first
  of which starts at \<open>start\<close> in the stream.
\<close>

fun client_at :: "(byte list \<Rightarrow> header option) \<Rightarrow> client_pc \<Rightarrow> int \<Rightarrow> nat \<Rightarrow> byte list \<Rightarrow> (byte list \<times> byte list) list \<Rightarrow> bool" where
  "client_at ph C_header_len pos start bs ms \<longleftrightarrow> pos = int start mod kBlockSize \<and> bs = pairs_bytes ms"
| "client_at ph (C_header len) pos start bs ms \<longleftrightarrow> (\<exists>hb rb ms'. ms = (hb, rb) # ms' \<and> len = of_nat (length hb) \<and>
     bs = hb @ frame rb @ pairs_bytes ms' \<and> pos = (int start + 4) mod kBlockSize)"
| "client_at ph (C_response_len h) pos start bs ms \<longleftrightarrow> (\<exists>hb rb ms'. ms = (hb, rb) # ms' \<and> ph hb = Some h \<and>
     bs = frame rb @ pairs_bytes ms' \<and> pos = (int start + 4 + int (length hb)) mod kBlockSize)"
| "client_at ph (C_response h len) pos start bs ms \<longleftrightarrow> (\<exists>hb rb ms'. ms = (hb, rb) # ms' \<and> ph hb = Some h \<and>
     len = of_nat (length rb) \<and> bs = rb @ pairs_bytes ms' \<and> pos = (int start + 8 + int (length hb)) mod kBlockSize)"

lemma client_at_append: "client_at ph pc pos start bs ms \<Longrightarrow> client_at ph pc pos start (bs @ pairs_bytes ms') (ms @ ms')"
  by (cases pc) fastforce+

lemma client_at_length: "client_at ph pc pos start bs ms \<Longrightarrow> length bs \<le> length (pairs_bytes ms)"
  by (cases pc) (auto simp: frame_split(3))

lemma frame_not_Nil [simp]: "frame bs \<noteq> []"
  using frame_split(3) [of bs] by auto

lemma pairs_bytes_Nil [simp]: "pairs_bytes ms = [] \<longleftrightarrow> ms = []"
  by (cases ms rule: pairs_bytes.cases) simp_all

text \<open>How many bytes a resume point waits for.\<close>

fun client_need :: "client_pc \<Rightarrow> nat" where
  "client_need C_header_len = 4"
| "client_need (C_header len) = unat len"
| "client_need (C_response_len h) = 4"
| "client_need (C_response h len) = unat len"

lemma client_at_end: "client_at ph pc pos start bs ms \<Longrightarrow> length bs < client_need pc \<Longrightarrow> ms = []"
proof -
  assume at: "client_at ph pc pos start bs ms" and less: "length bs < client_need pc"
  have "\<not> length rb + n < unat (of_nat (length rb) :: u32)" for rb :: "byte list" and n
    using take_bit_nat_less_eq_self [of 32 "length rb"] by (simp add: unat_of_nat)
  with at less show "ms = []"
    by (cases pc; cases ms rule: pairs_bytes.cases) (auto simp: frame_split(3))
qed

text \<open>The effects that complete a call.\<close>

fun completes :: "'m effect \<Rightarrow> bool" where
  "completes (RunDone d r m) \<longleftrightarrow> True"
| "completes (DeleteResponse r) \<longleftrightarrow> True"
| "completes (DeleteController c) \<longleftrightarrow> False"
| "completes (DeleteRequest q) \<longleftrightarrow> False"

lemma completes_handle_response [simp]: "completes (handle_response call m)"
  by (simp add: handle_response_def split: option.splits)

lemma completes_call_effect [simp]: "completes (call_effect srv call)"
  by (simp add: call_effect_def)

text \<open>Calls whose responses the client can handle.\<close>

definition answerable :: "'s rpc_server \<Rightarrow> (byte list \<Rightarrow> header option) \<Rightarrow> 'm call list \<Rightarrow> bool" where
  "answerable srv ph calls \<longleftrightarrow> (\<forall>call \<in> set calls. call_outcome srv call \<noteq> None) \<and>
     (\<forall>h \<in> set (call_headers 0 calls). ph (serialize_header srv (response_header h)) = Some (response_header h)) \<and>
     lengths_aligned 0 (responses srv calls) \<and> length (pairs_bytes (responses srv calls)) < 1023 * 8192"

lemma answerable_prefix: "answerable srv ph (xs @ ys) \<Longrightarrow> answerable srv ph xs"
  by (auto simp: answerable_def call_headers_append messages_append lengths_aligned_append)

lemma answerable_response:
  assumes "answerable srv ph calls" and "k < length calls" and "drop k (responses srv calls) = (hb, rb) # ms"
  obtains h m where "ph hb = Some h" and "request_id h = int k" and "parse_response (calls ! k) rb = Some m"
    and "call_effect srv (calls ! k) = handle_response (calls ! k) m" and "ms = drop (Suc k) (responses srv calls)"
    and "length hb < 2 ^ 32" and "length rb < 2 ^ 32"
    and "aligned (int (length (pairs_bytes (take k (responses srv calls)))))"
    and "aligned (int (length (pairs_bytes (take k (responses srv calls)))) + 4 + int (length hb))"
proof -
  let ?rs = "responses srv calls" and ?h = "call_headers 0 calls ! k"
  have k: "k < length ?rs" using assms(2) by simp
  have hd: "?rs ! k = (hb, rb)" and ms: "ms = drop (Suc k) ?rs" using assms(3) Cons_nth_drop_Suc [OF k] by simp_all
  have "?h \<in> set (call_headers 0 calls)" using assms(2) by (intro nth_mem) simp
  then have "ph hb = Some (response_header ?h)" using assms(1,2) hd by (auto simp: answerable_def response_messages_nth)
  moreover have "request_id (response_header ?h) = int k" using assms(2) by (simp add: call_headers_nth response_header_def)
  moreover have "call_outcome srv (calls ! k) \<noteq> None" using assms(1,2) by (simp add: answerable_def)
  then obtain m where "parse_response (calls ! k) rb = Some m" "call_effect srv (calls ! k) = handle_response (calls ! k) m"
    using hd assms(2) by (auto simp: call_outcome_def bind_eq_Some_conv response_messages_nth call_effect_def)
  moreover have "length hb < 2 ^ 32" "length rb < 2 ^ 32"
    using pairs_bytes_small [of ?rs] assms(1) hd nth_mem [OF k] by (auto simp: answerable_def)
  moreover have "lengths_aligned 0 (take k ?rs @ (hb, rb) # ms)"
    using assms(1,3) by (metis answerable_def append_take_drop_id)
  then have "aligned (int (length (pairs_bytes (take k ?rs))))" "aligned (int (length (pairs_bytes (take k ?rs))) + 4 + int (length hb))"
    by (simp_all add: lengths_aligned_append)
  ultimately show thesis using that ms by blast
qed

lemma waiting_calls_head: "waiting_calls s n (call # calls) n = Some call"
  by (simp add: waiting_calls_below)

lemma waiting_calls_done: "(waiting_calls Map.empty n (call # calls))(n := None) = waiting_calls Map.empty (n + 1) calls"
  by (simp add: waiting_calls_erase)

lemma waiting_calls_append: "waiting_calls s n (xs @ ys) = waiting_calls (waiting_calls s n xs) (n + int (length xs)) ys"
  by (induction xs arbitrary: s n) (simp_all add: algebra_simps)

subsection \<open>The reading coroutine\<close>

text \<open>
  The connection was only read from: its queue and what was sent are as they were.
\<close>

definition only_read :: "connection \<Rightarrow> connection \<Rightarrow> bool" where
  "only_read c c' \<longleftrightarrow> evolves_to c c' \<and> write_buf c' = write_buf c \<and> wire (kern c') = wire (kern c)"

lemma only_read_refl [simp]: "only_read c c"
  by (simp add: only_read_def)

lemma only_read_trans: "only_read a b \<Longrightarrow> only_read b c \<Longrightarrow> only_read a c"
  using evolves_to_trans [of a b c] by (simp add: only_read_def)

lemma only_read_read_buf [simp]: "only_read c (c'\<lparr>read_buf := ib\<rparr>) = only_read c c'"
  by (simp add: only_read_def)

text \<open>
  The calls \<open>sent\<close> are on their way or answered, \<open>k\<close> of them answered; the responses to the others
  are buffered, in the socket, or the bytes \<open>later\<close>.
\<close>

definition reading :: "'s rpc_server \<Rightarrow> (byte list \<Rightarrow> header option) \<Rightarrow> 'm call list \<Rightarrow> byte list \<Rightarrow> client_pc \<Rightarrow> 'm client_channel \<Rightarrow> bool" where
  "reading srv ph sent later pc ch \<longleftrightarrow> serving (chan_conn ch) \<and> next_request_id ch = int (length sent) \<and> (\<exists>k \<le> length sent.
     client_at ph pc (ib_pos (read_buf (chan_conn ch))) (length (pairs_bytes (take k (responses srv sent))))
       (input_left (chan_conn ch) @ later) (drop k (responses srv sent)) \<and>
     id2session ch = waiting_calls Map.empty (int k) (drop k sent) \<and>
     filter completes (effects ch) = map (call_effect srv) (take k sent))"

lemma client_waits:
  assumes rd: "reading srv ph sent later pc ch" and st: "client_step ph pc ch = client_read_more pc ch"
  shows "\<exists>ctl ch1. client_step ph pc ch = Some (Inr (ctl, ch1)) \<and> ctl \<in> {Goto pc, Suspend pc} \<and> reading srv ph sent later pc ch1 \<and>
    only_read (chan_conn ch) (chan_conn ch1)"
proof -
  let ?c = "chan_conn ch"
  have sv: "serving ?c" using rd by (simp add: reading_def)
  obtain bs :: "byte list" and c1 where aw: "await_read ?c = Some (Inr (bs = [], c1))" and c1: "serving c1"
    "input_left c1 = input_left ?c" "ib_pos (read_buf c1) = ib_pos (read_buf ?c)" "wire (kern c1) = wire (kern ?c)" "write_buf c1 = write_buf ?c"
    by (rule await_read_serving [OF sv]) (auto simp: same_output_def)
  have "client_step ph pc ch = Some (Inr (if bs = [] then Suspend pc else Goto pc, put_conn c1 ch))"
    by (simp add: st client_read_more_def read_more_def aw)
  moreover have "only_read ?c c1" using await_read_evolves [OF aw] c1(4,5) by (simp add: only_read_def)
  moreover have "reading srv ph sent later pc (put_conn c1 ch)" using rd c1(1-3) by (simp add: reading_def)
  ultimately show ?thesis by auto
qed

lemma client_length_step:
  assumes rd: "reading srv ph sent later pc ch" and ok: "answerable srv ph sent"
    and pc: "pc = C_header_len \<and> f = C_header \<or> (\<exists>h. pc = C_response_len h \<and> f = C_response h)"
  shows "\<exists>ctl pc1 ch1. client_step ph pc ch = Some (Inr (ctl, ch1)) \<and> ctl \<in> {Goto pc1, Suspend pc1} \<and> reading srv ph sent later pc1 ch1 \<and>
    only_read (chan_conn ch) (chan_conn ch1)"
proof (cases "length (ib_unread (read_buf (chan_conn ch))) < 4")
  case True
  have sv: "serving (chan_conn ch)" using rd by (simp add: reading_def)
  have "client_step ph pc ch = client_read_more pc ch"
    using True pc serving_read_bytes [OF sv] by (auto simp: client_step.simps)
  from client_waits [OF rd this] show ?thesis by blast
next
  case False
  let ?c = "chan_conn ch" and ?rs = "responses srv sent"
  have sv: "serving ?c" using rd by (simp add: reading_def)
  have len: "4 \<le> length (ib_unread (read_buf ?c))" using False by simp
  from rd obtain k where k: "k \<le> length sent" "id2session ch = waiting_calls Map.empty (int k) (drop k sent)"
    "filter completes (effects ch) = map (call_effect srv) (take k sent)"
    and at: "client_at ph pc (ib_pos (read_buf ?c)) (length (pairs_bytes (take k ?rs))) (input_left ?c @ later) (drop k ?rs)"
    by (auto simp: reading_def)
  have "drop k ?rs \<noteq> []" using at pc len by auto
  then have kl: "k < length sent" by simp
  obtain hb rb ms where dr: "drop k ?rs = (hb, rb) # ms" using \<open>drop k ?rs \<noteq> []\<close> by (metis list.exhaust surj_pair)
  from answerable_response [OF ok kl dr] obtain h where h: "ph hb = Some h" "length hb < 2 ^ 32" "length rb < 2 ^ 32"
    "aligned (int (length (pairs_bytes (take k ?rs))))" "aligned (int (length (pairs_bytes (take k ?rs))) + 4 + int (length hb))" by blast
  have al: "aligned (ib_pos (read_buf ?c))" using at pc dr h(4,5) by auto
  from fetch_len_ok(1) [OF sv len al] obtain c1 where c1: "fetch_len ?c = Inr (Some (bytes_u32 (take 4 (input_left ?c))), c1)" "serving c1"
    "input_left c1 = drop 4 (input_left ?c)" "ib_pos (read_buf c1) = (ib_pos (read_buf ?c) + 4) mod kBlockSize" "kern c1 = kern ?c" "write_buf c1 = write_buf ?c"
    by blast
  define n :: u32 where "n = bytes_u32 (take 4 (input_left ?c))"
  have st: "client_step ph pc ch = Some (Inr (Goto (f n), put_conn c1 ch))"
    using False pc serving_read_bytes [OF sv] c1(1) by (auto simp: client_step.simps n_def)
  have or: "only_read ?c c1" using fetch_len_evolves [OF c1(1)] c1(5,6) by (simp add: only_read_def)
  define X where "X = input_left ?c @ later"
  have n: "n = bytes_u32 (take 4 X)" and left: "input_left c1 @ later = drop 4 X" using len c1(3) by (simp_all add: n_def X_def)
  have "client_at ph (f n) (ib_pos (read_buf c1)) (length (pairs_bytes (take k ?rs))) (input_left c1 @ later) (drop k ?rs)"
    unfolding left n c1(4) using at [folded X_def] pc dr by (auto simp: frame_split mod_simps algebra_simps)
  then have "reading srv ph sent later (f n) (put_conn c1 ch)" using k c1(2) rd by (auto simp: reading_def)
  with st or show ?thesis by auto
qed

text \<open>Parsing a message that is buffered in full.\<close>

lemma client_parses:
  fixes len :: u32
  assumes sv: "serving c" and len: "unat len \<le> length (ib_unread (read_buf c))" and l: "unat len = length bs"
    and left: "input_left c @ later = bs @ rest"
  obtains ib c1 where "parse_from_stream parse (push_limit (read_buf c) (sint len)) = Some (Inr (parse bs, ib))"
    and "c1 = c\<lparr>read_buf := pop_limit ib\<rparr>" and "serving c1" and "only_read c c1" and "input_left c1 @ later = rest"
    and "ib_pos (read_buf c1) = (ib_pos (read_buf c) + int (length bs)) mod kBlockSize"
proof -
  obtain ib where ib: "parse_from_stream parse (push_limit (read_buf c) (sint len)) = Some (Inr (parse (take (unat len) (input_left c)), ib))"
    and ok: "\<forall>ib' \<in> {ib, pop_limit ib}. serving (c\<lparr>read_buf := ib'\<rparr>) \<and>
      input_left (c\<lparr>read_buf := ib'\<rparr>) = drop (unat len) (input_left c) \<and>
      ib_pos ib' = (ib_pos (read_buf c) + int (unat len)) mod kBlockSize"
    by (rule parse_run [OF sv len])
  let ?c1 = "c\<lparr>read_buf := pop_limit ib\<rparr>"
  have n: "unat len \<le> length (input_left c)" using len by simp
  have t: "take (unat len) (input_left c @ later) = take (unat len) (input_left c)" "drop (unat len) (input_left c @ later) = drop (unat len) (input_left c) @ later"
    using n by simp_all
  have "take (unat len) (input_left c) = bs" unfolding t(1) [symmetric] left by (simp add: l)
  moreover have "input_left ?c1 @ later = drop (unat len) (input_left c @ later)" unfolding t(2) using ok by simp
  then have "input_left ?c1 @ later = rest" unfolding left by (simp add: l)
  ultimately show thesis using that [OF _ refl, of ib] ib ok l by simp
qed

lemma client_header_step:
  assumes rd: "reading srv ph sent later (C_header len) ch" and ok: "answerable srv ph sent"
  shows "\<exists>ctl pc1 ch1. client_step ph (C_header len) ch = Some (Inr (ctl, ch1)) \<and> ctl \<in> {Goto pc1, Suspend pc1} \<and> reading srv ph sent later pc1 ch1 \<and>
    only_read (chan_conn ch) (chan_conn ch1)"
proof -
  let ?c = "chan_conn ch" and ?rs = "responses srv sent"
  have sv: "serving ?c" using rd by (simp add: reading_def)
  note rb = serving_read_bytes [OF sv]
  show ?thesis
  proof (cases "length (ib_unread (read_buf ?c)) < unat len")
    case True
    then have "client_step ph (C_header len) ch = client_read_more (C_header len) ch" using rb by (simp add: client_step.simps Let_def)
    from client_waits [OF rd this] show ?thesis by blast
  next
    case False
    from rd obtain k hb r ms where k: "k \<le> length sent" "id2session ch = waiting_calls Map.empty (int k) (drop k sent)"
      "filter completes (effects ch) = map (call_effect srv) (take k sent)"
      and dr: "drop k ?rs = (hb, r) # ms" and len: "len = of_nat (length hb)" and left: "input_left ?c @ later = hb @ frame r @ pairs_bytes ms"
      and pos: "ib_pos (read_buf ?c) = (int (length (pairs_bytes (take k ?rs))) + 4) mod kBlockSize"
      by (auto simp: reading_def)
    have kl: "k < length sent" using dr by (metis k(1) le_neq_implies_less length_responses length_call_headers drop_all list.distinct(1) order_refl)
    from answerable_response [OF ok kl dr] obtain h where h: "ph hb = Some h" "length hb < 2 ^ 32" by blast
    have n: "unat len = length hb" using h(2) len by (simp add: unat_of_nat_u32)
    have nl: "unat len \<le> length (ib_unread (read_buf ?c))" using False by simp
    obtain ib c1 where p: "parse_from_stream ph (push_limit (read_buf ?c) (sint len)) = Some (Inr (ph hb, ib))" and c1: "c1 = ?c\<lparr>read_buf := pop_limit ib\<rparr>"
      "serving c1" "only_read ?c c1" "input_left c1 @ later = frame r @ pairs_bytes ms" "ib_pos (read_buf c1) = (ib_pos (read_buf ?c) + int (length hb)) mod kBlockSize"
      by (rule client_parses [OF sv nl n left])
    have st: "client_step ph (C_header len) ch = Some (Inr (Goto (C_response_len h), put_conn c1 ch))"
      using False rb p h(1) c1(1) by (simp add: client_step.simps Let_def)
    have "reading srv ph sent later (C_response_len h) (put_conn c1 ch)"
      using rd k c1(2,4,5) dr h(1) pos by (auto simp: reading_def mod_simps algebra_simps intro!: exI [of _ k])
    with st c1(3) show ?thesis by auto
  qed
qed

lemma client_response_step:
  assumes rd: "reading srv ph sent later (C_response h len) ch" and ok: "answerable srv ph sent"
  shows "\<exists>ctl pc1 ch1. client_step ph (C_response h len) ch = Some (Inr (ctl, ch1)) \<and> ctl \<in> {Goto pc1, Suspend pc1} \<and> reading srv ph sent later pc1 ch1 \<and>
    only_read (chan_conn ch) (chan_conn ch1)"
proof -
  let ?c = "chan_conn ch" and ?rs = "responses srv sent"
  have sv: "serving ?c" using rd by (simp add: reading_def)
  note rb = serving_read_bytes [OF sv]
  show ?thesis
  proof (cases "length (ib_unread (read_buf ?c)) < unat len")
    case True
    then have "client_step ph (C_response h len) ch = client_read_more (C_response h len) ch" using rb by (simp add: client_step.simps Let_def)
    from client_waits [OF rd this] show ?thesis by blast
  next
    case False
    from rd obtain k hb r ms where k: "k \<le> length sent" "id2session ch = waiting_calls Map.empty (int k) (drop k sent)"
      "filter completes (effects ch) = map (call_effect srv) (take k sent)"
      and dr: "drop k ?rs = (hb, r) # ms" and ph: "ph hb = Some h" and len: "len = of_nat (length r)" and left: "input_left ?c @ later = r @ pairs_bytes ms"
      and pos: "ib_pos (read_buf ?c) = (int (length (pairs_bytes (take k ?rs))) + 8 + int (length hb)) mod kBlockSize"
      by (auto simp: reading_def)
    have kl: "k < length sent" using dr by (metis k(1) le_neq_implies_less length_responses length_call_headers drop_all list.distinct(1) order_refl)
    from answerable_response [OF ok kl dr] ph obtain m where h: "request_id h = int k" "parse_response (sent ! k) r = Some m"
      "call_effect srv (sent ! k) = handle_response (sent ! k) m" "ms = drop (Suc k) ?rs" "length r < 2 ^ 32" by (metis option.inject)
    have n: "unat len = length r" using h(5) len by (simp add: unat_of_nat_u32)
    have nl: "unat len \<le> length (ib_unread (read_buf ?c))" using False by simp
    obtain ib c1 where p: "parse_from_stream (parse_response (sent ! k)) (push_limit (read_buf ?c) (sint len)) = Some (Inr (parse_response (sent ! k) r, ib))" and c1: "c1 = ?c\<lparr>read_buf := pop_limit ib\<rparr>"
      "serving c1" "only_read ?c c1" "input_left c1 @ later = pairs_bytes ms" "ib_pos (read_buf c1) = (ib_pos (read_buf ?c) + int (length r)) mod kBlockSize"
      by (rule client_parses [OF sv nl n left])
    have dk: "drop k sent = sent ! k # drop (Suc k) sent" using Cons_nth_drop_Suc [OF kl] by simp
    have call: "id2session ch (request_id h) = Some (sent ! k)" unfolding k(2) h(1) dk by (rule waiting_calls_head)
    have erase: "(id2session ch)(request_id h := None) = waiting_calls Map.empty (int (Suc k)) (drop (Suc k) sent)"
      unfolding k(2) h(1) dk waiting_calls_done by (simp add: add.commute)
    let ?ch1 = "(put_conn c1 (ch\<lparr>id2session := waiting_calls Map.empty (int (Suc k)) (drop (Suc k) sent)\<rparr>))\<lparr>effects := effects ch @ [handle_response (sent ! k) m]\<rparr>"
    have st: "client_step ph (C_response h len) ch = Some (Inr (Goto C_header_len, ?ch1))"
      using False rb p call h(2) c1(1) erase by (simp add: client_step.simps Let_def)
    have tk: "take (Suc k) sent = take k sent @ [sent ! k]" "take (Suc k) ?rs = take k ?rs @ [(hb, r)]"
      using kl dr take_Suc_conv_app_nth [of k sent] take_Suc_conv_app_nth [of k ?rs] nth_via_drop [OF dr] by simp_all
    have "reading srv ph sent later C_header_len ?ch1"
      unfolding reading_def
    proof (intro conjI exI [of _ "Suc k"])
      show "filter completes (effects ?ch1) = map (call_effect srv) (take (Suc k) sent)" using k(3) h(3) tk(1) by simp
      show "client_at ph C_header_len (ib_pos (read_buf (chan_conn ?ch1))) (length (pairs_bytes (take (Suc k) ?rs))) (input_left (chan_conn ?ch1) @ later) (drop (Suc k) ?rs)"
        using c1(4,5) h(4) pos by (simp add: tk(2) frame_split(3) mod_simps algebra_simps)
    qed (use rd c1(2) kl in \<open>simp_all add: reading_def\<close>)
    with st c1(3) show ?thesis by (intro exI [of _ "Goto C_header_len"] exI [of _ C_header_len] exI [of _ ?ch1]) simp
  qed
qed

lemma client_step_reading:
  assumes "reading srv ph sent later pc ch" and "answerable srv ph sent"
  shows "\<exists>ctl pc1 ch1. client_step ph pc ch = Some (Inr (ctl, ch1)) \<and> ctl \<in> {Goto pc1, Suspend pc1} \<and> reading srv ph sent later pc1 ch1 \<and>
    only_read (chan_conn ch) (chan_conn ch1)"
proof (cases pc)
  case C_header_len
  with client_length_step [OF assms, of C_header] show ?thesis by simp
next
  case (C_response_len h)
  with client_length_step [OF assms, of "C_response h"] show ?thesis by simp
qed (use assms client_header_step client_response_step in blast)+

lemma client_run_reading:
  assumes "run_coroutine (client_step ph) client_finish pc ch = Some r" and "reading srv ph sent later pc ch" and "answerable srv ph sent"
  shows "\<exists>pc' ch'. r = Inr (Some pc', ch') \<and> reading srv ph sent later pc' ch' \<and> only_read (chan_conn ch) (chan_conn ch')"
proof (rule run_coroutine.raw_induct [where P = "\<lambda>st fin pc ch r. st = client_step ph \<longrightarrow> reading srv ph sent later pc ch \<longrightarrow>
      (\<exists>pc' ch'. r = Inr (Some pc', ch') \<and> reading srv ph sent later pc' ch' \<and> only_read (chan_conn ch) (chan_conn ch'))",
      OF _ assms(1), THEN mp, THEN mp], intro impI, goal_cases)
  case (1 f st fin pc ch r)
  from client_step_reading [OF 1(4) assms(3)] obtain ctl pc1 ch1 where
    st: "client_step ph pc ch = Some (Inr (ctl, ch1))" and ctl: "ctl = Goto pc1 \<or> ctl = Suspend pc1"
    and rd: "reading srv ph sent later pc1 ch1" and or: "only_read (chan_conn ch) (chan_conn ch1)" by auto
  from ctl show ?case
  proof
    assume "ctl = Goto pc1"
    with 1(1) [of st fin pc1 ch1 r] 1(2,3) st rd obtain pc' ch' where
      "r = Inr (Some pc', ch')" "reading srv ph sent later pc' ch'" "only_read (chan_conn ch1) (chan_conn ch')" by auto
    with only_read_trans [OF or] show ?thesis by blast
  qed (use 1(2,3) st rd or in auto)
qed (use assms(2) in simp_all)

lemma client_spec_waiting: "client_spec ph pc calls pos bs = (out, Waiting pc' pos' rest) \<Longrightarrow> length rest < client_need pc'"
proof (induction ph pc calls pos bs arbitrary: out rule: client_spec.induct)
  case (1 ph calls pos bs)
  then show ?case by (cases "length bs < 4") (auto simp: client_spec.simps(1) split: if_splits)
next
  case (2 ph l calls pos bs)
  then show ?case by (cases "length bs < unat l") (auto simp: client_spec.simps(2) split: option.splits)
next
  case (3 ph h' calls pos bs)
  then show ?case by (cases "length bs < 4") (auto simp: client_spec.simps(3) split: if_splits)
next
  case (4 ph h' l calls pos bs)
  then show ?case by (cases "length bs < unat l") (auto simp: client_spec.simps(4) fun_upd_def split: option.splits prod.splits)
qed

text \<open>A readable event: the coroutine handles all responses that have arrived in full.\<close>

lemma client_reads:
  assumes rd: "reading srv ph sent later pc ch" and ok: "answerable srv ph sent" and p0: "rx_pauses (rx (kern (chan_conn ch))) = 0"
  shows "\<exists>pc' ch'. resume_coroutine (client_step ph) client_finish chan_conn (Some pc) ch = Some (Inr (Some pc', ch')) \<and>
    reading srv ph sent later pc' ch' \<and> only_read (chan_conn ch) (chan_conn ch') \<and> rx (kern (chan_conn ch')) = [] \<and> length (ib_unread (read_buf (chan_conn ch'))) < client_need pc'"
proof -
  have sv: "serving (chan_conn ch)" using rd by (simp add: reading_def)
  obtain out r where spec: "client_spec ph pc (id2session ch) (ib_pos (read_buf (chan_conn ch))) (input_left (chan_conn ch)) = (out, r)" by fastforce
  have "client.run_ok ph ch out r (client.run ph pc ch)" by (rule client.run_refines [OF sv _ spec]) simp
  moreover from this obtain res where res: "client.run ph pc ch = Some res" unfolding client.run_ok_def by blast
  from client_run_reading [OF res rd ok] obtain pc' ch' where
    c: "res = Inr (Some pc', ch')" "reading srv ph sent later pc' ch'" "only_read (chan_conn ch) (chan_conn ch')" by blast
  ultimately have "rx (kern (chan_conn ch')) = [] \<and> length (ib_unread (read_buf (chan_conn ch'))) < client_need pc'"
    using res p0 by (auto simp: client.run_ok_def dest: client_spec_waiting)
  with c res client.serving_resume [OF sv] show ?thesis by auto
qed

end
