(* ===== verification/CallSystem.thy ===== *)
theory CallSystem
  imports CallEnds
begin

section \<open>Clients and a server as one system\<close>

text \<open>
  The processes that make up a deployment: one server on an epoll executor, and any number of
  clients, each with one channel on an epoll executor of its own. A step is one of these: an
  application makes its next call, an executor runs a task or handles an event its kernel
  reports, or bytes that were written at one end arrive at the other.
\<close>

subsection \<open>The client's executor\<close>

text \<open>
  A client process: the calls its application has still to make, the tasks on the queue of its
  executor (one for each call that was made), its channel with the frame of the reading
  coroutine, the interest list of its epoll instance, and the number of arrivals the kernel has
  still to report. The coroutine's wishes are applied when it stops, and an event is handled as
  in \<open>epoll_handle\<close> of theory \<open>Epoll\<close>, over the state of a channel instead of a session.
\<close>

record 'm client_side =
  todo :: "'m call list"
  tasks :: "'m call list"
  channel :: "'m client_channel"
  c_frame :: "client_pc option"
  c_interest :: interest
  c_edges :: nat

definition client_commit :: "'m client_channel \<Rightarrow> client_pc option \<Rightarrow> 'm client_side \<Rightarrow> 'm client_side" where
  "client_commit ch' fr c = c\<lparr>channel := ch', c_frame := fr,
     c_interest := apply_events (chan_conn ch') (new_events (chan_conn (channel c)) (chan_conn ch')) (c_interest c)\<rparr>"

definition client_run_task :: "(header \<Rightarrow> byte list) \<Rightarrow> 'm call \<Rightarrow> 'm client_side \<Rightarrow> 'm client_side res option" where
  "client_run_task ser call c = ro_bind (send_request ser call (channel c)) (\<lambda>ch'. Some (Inr (client_commit ch' (c_frame c) c)))"

definition client_writable :: "'m client_side \<Rightarrow> (bool \<times> 'm client_side) res option" where
  "client_writable c =
     (let conn = chan_conn (channel c) in
      case epoll_ctl False EPOLL_CTL_MOD (sockfd (sock conn)) (this_ptr conn) \<lparr>ep_in = True, ep_out = False, ep_et = True\<rparr> (c_interest c) of
        (False, I) \<Rightarrow> Some (Inr (False, c))
      | (True, I) \<Rightarrow> ro_bind (resume_write conn) (\<lambda>conn'.
          Some (Inr (True, client_commit (put_conn conn' (channel c)) (c_frame c) (c\<lparr>c_interest := I\<rparr>)))))"

definition client_readable :: "(byte list \<Rightarrow> header option) \<Rightarrow> 'm client_side \<Rightarrow> 'm client_side res option" where
  "client_readable ph c = ro_bind (resume_coroutine (client_step ph) client_finish chan_conn (c_frame c) (channel c)) (\<lambda>(fr, ch').
     Some (Inr (client_commit ch' fr c)))"

definition client_handle :: "(byte list \<Rightarrow> header option) \<Rightarrow> bool \<Rightarrow> bool \<Rightarrow> 'm client_side \<Rightarrow> 'm client_side res option" where
  "client_handle ph i out c = ro_bind (if out then client_writable c else Some (Inr (True, c))) (\<lambda>(go_on, c1).
     if go_on \<and> i then client_readable ph c1 else Some (Inr c1))"

subsection \<open>Steps\<close>

text \<open>
  The whole: the clients and the server's sessions by the address of the server's connection
  object, the arrivals the server's kernel has still to report, and how many bytes of what each
  side has put on the wire have arrived at the other.
\<close>

record ('m, 's) call_world =
  clients :: "64 word \<Rightarrow> 'm client_side"
  server_ex :: "('s recv_pc, server_task) epoll_executor"
  s_edges :: "64 word \<Rightarrow> nat"
  up :: "64 word \<Rightarrow> nat"
  down :: "64 word \<Rightarrow> nat"

definition client_room :: "tx_event list \<Rightarrow> 'm client_side \<Rightarrow> 'm client_side" where
  "client_room ts c = c\<lparr>channel := put_conn (with_room ts (chan_conn (channel c))) (channel c)\<rparr>"

definition change_conn :: "64 word \<Rightarrow> (connection \<Rightarrow> connection) \<Rightarrow> ('pc, 't) epoll_executor \<Rightarrow> ('pc, 't) epoll_executor" where
  "change_conn p f ex = ex\<lparr>sessions := (sessions ex)(p := map_option (\<lambda>s. s\<lparr>s_conn := f (s_conn s)\<rparr>) (sessions ex p))\<rparr>"

abbreviation client_sock :: "('m, 's) call_world \<Rightarrow> 64 word \<Rightarrow> connection" where
  "client_sock w p \<equiv> chan_conn (channel (clients w p))"

inductive call_step :: "64 word set \<Rightarrow> (header \<Rightarrow> byte list) \<Rightarrow> (byte list \<Rightarrow> header option) \<Rightarrow> 's rpc_server \<Rightarrow>
    ('m, 's) call_world \<Rightarrow> ('m, 's) call_world \<Rightarrow> bool" for P ser ph srv where
  app_call: "p \<in> P \<Longrightarrow> c = clients w p \<Longrightarrow> todo c = call # cs \<Longrightarrow>
    call_step P ser ph srv w (w\<lparr>clients := (clients w)(p := c\<lparr>todo := cs, tasks := CallMethod call (tasks c)\<rparr>)\<rparr>)"
| client_task: "p \<in> P \<Longrightarrow> c = clients w p \<Longrightarrow> tasks c = call # ts \<Longrightarrow> tx_steady room \<Longrightarrow>
    client_run_task ser call (client_room room (c\<lparr>tasks := ts\<rparr>)) = Some (Inr c') \<Longrightarrow>
    call_step P ser ph srv w (w\<lparr>clients := (clients w)(p := c')\<rparr>)"
| client_event: "p \<in> P \<Longrightarrow> c = clients w p \<Longrightarrow> reported i out (chan_conn (channel c)) (c_interest c) (c_edges c) e room \<Longrightarrow>
    client_handle ph i out (client_room room (c\<lparr>c_edges := e\<rparr>)) = Some (Inr c') \<Longrightarrow>
    call_step P ser ph srv w (w\<lparr>clients := (clients w)(p := c')\<rparr>)"
| server_event: "p \<in> P \<Longrightarrow> sessions (server_ex w) p = Some s \<Longrightarrow> reported i out (s_conn s) (interest (server_ex w)) (s_edges w p) e room \<Longrightarrow>
    epoll_handle (resume_read srv) \<lparr>ev_ptr = p, ev_in = i, ev_out = out, ev_hup = False, ev_rdhup = False\<rparr>
      (change_conn p (with_room room) (server_ex w)) = Some (Inr ex') \<Longrightarrow>
    call_step P ser ph srv w (w\<lparr>server_ex := ex', s_edges := (s_edges w)(p := e)\<rparr>)"
| request_bytes_arrive: "p \<in> P \<Longrightarrow> 0 < n \<Longrightarrow> up w p + n \<le> length (wire (kern (client_sock w p))) \<Longrightarrow>
    call_step P ser ph srv w (w\<lparr>server_ex := change_conn p (deliver (take n (drop (up w p) (wire (kern (client_sock w p)))))) (server_ex w),
      s_edges := (s_edges w)(p := s_edges w p + 1), up := (up w)(p := up w p + n)\<rparr>)"
| response_bytes_arrive: "p \<in> P \<Longrightarrow> sessions (server_ex w) p = Some s \<Longrightarrow> 0 < n \<Longrightarrow> down w p + n \<le> length (wire (kern (s_conn s))) \<Longrightarrow>
    c = clients w p \<Longrightarrow> bs = take n (drop (down w p) (wire (kern (s_conn s)))) \<Longrightarrow>
    call_step P ser ph srv w (w\<lparr>clients := (clients w)(p := c\<lparr>channel := put_conn (deliver bs (chan_conn (channel c))) (channel c), c_edges := c_edges c + 1\<rparr>),
      down := (down w)(p := down w p + n)\<rparr>)"

text \<open>A task or an event that is due faults or does not return.\<close>

definition client_faults :: "(header \<Rightarrow> byte list) \<Rightarrow> (byte list \<Rightarrow> header option) \<Rightarrow> 'm client_side \<Rightarrow> bool" where
  "client_faults ser ph c \<longleftrightarrow>
     (\<exists>call ts room. tasks c = call # ts \<and> tx_steady room \<and> (\<nexists>c'. client_run_task ser call (client_room room (c\<lparr>tasks := ts\<rparr>)) = Some (Inr c'))) \<or>
     (\<exists>i out e room. reported i out (chan_conn (channel c)) (c_interest c) (c_edges c) e room \<and>
        (\<nexists>c'. client_handle ph i out (client_room room (c\<lparr>c_edges := e\<rparr>)) = Some (Inr c')))"

definition server_faults :: "'s rpc_server \<Rightarrow> 64 word \<Rightarrow> ('m, 's) call_world \<Rightarrow> bool" where
  "server_faults srv p w \<longleftrightarrow> (\<exists>s i out e room. sessions (server_ex w) p = Some s \<and>
     reported i out (s_conn s) (interest (server_ex w)) (s_edges w p) e room \<and>
     (\<nexists>ex'. epoll_handle (resume_read srv) \<lparr>ev_ptr = p, ev_in = i, ev_out = out, ev_hup = False, ev_rdhup = False\<rparr>
        (change_conn p (with_room room) (server_ex w)) = Some (Inr ex')))"

definition call_faults :: "64 word set \<Rightarrow> (header \<Rightarrow> byte list) \<Rightarrow> (byte list \<Rightarrow> header option) \<Rightarrow> 's rpc_server \<Rightarrow> ('m, 's) call_world \<Rightarrow> bool" where
  "call_faults P ser ph srv w \<longleftrightarrow> (\<exists>p \<in> P. client_faults ser ph (clients w p) \<or> server_faults srv p w)"

subsection \<open>The client's invariant\<close>

text \<open>The reading coroutine has taken all that arrived, and what it has is not enough to go on.\<close>

definition settled :: "'m client_side \<Rightarrow> bool" where
  "settled c \<longleftrightarrow> rx (kern (chan_conn (channel c))) = [] \<and>
     (\<forall>pc. c_frame c = Some pc \<longrightarrow> length (ib_unread (read_buf (chan_conn (channel c)))) < client_need pc)"

definition client_inv :: "'s rpc_server \<Rightarrow> (header \<Rightarrow> byte list) \<Rightarrow> (byte list \<Rightarrow> header option) \<Rightarrow> 'm call list \<Rightarrow> 'm client_side \<Rightarrow> nat \<Rightarrow> bool" where
  "client_inv srv ser ph calls c d \<longleftrightarrow> (\<exists>sent pc. calls = sent @ tasks c @ todo c \<and> c_frame c = Some pc \<and>
     live_side (chan_conn (channel c)) (c_interest c) \<and> d \<le> length (pairs_bytes (responses srv sent)) \<and>
     reading srv ph sent (drop d (pairs_bytes (responses srv sent))) pc (channel c) \<and>
     output_of (chan_conn (channel c)) = pairs_bytes (requests ser sent) \<and> (c_edges c = 0 \<longrightarrow> settled c))"

lemma waiting_calls_range: "waiting_calls Map.empty n calls i \<noteq> None \<Longrightarrow> n \<le> i \<and> i < n + int (length calls)"
proof -
  have "waiting_calls s n calls i \<noteq> None \<Longrightarrow> s i \<noteq> None \<or> n \<le> i \<and> i < n + int (length calls)" for s
    by (induction calls arbitrary: s n) (fastforce simp: fun_upd_def split: if_splits)+
  then show "waiting_calls Map.empty n calls i \<noteq> None \<Longrightarrow> n \<le> i \<and> i < n + int (length calls)" by blast
qed

lemma reading_channel_ok: "reading srv ph sent later pc ch \<Longrightarrow> channel_ok ch"
  unfolding reading_def channel_ok_def using waiting_calls_range by fastforce

end
