(* ===== verification/CallClient.thy ===== *)
theory CallClient
  imports CallSystem
begin

section \<open>The client keeps its invariant\<close>

text \<open>
  What each step of a client does to its invariant: sending a request, flushing the queue, reading
  responses, and bytes that arrive.
\<close>

text \<open>What is required of the calls of one client.\<close>

definition calls_ok :: "'s rpc_server \<Rightarrow> (header \<Rightarrow> byte list) \<Rightarrow> (byte list \<Rightarrow> header option) \<Rightarrow> 'm call list \<Rightarrow> bool" where
  "calls_ok srv ser ph calls \<longleftrightarrow> answerable srv ph calls \<and> (\<forall>h \<in> set (call_headers 0 calls). parse_header srv (ser h) = Some h) \<and>
     lengths_aligned 0 (requests ser calls) \<and> length (pairs_bytes (requests ser calls)) < 1023 * 8192"

lemma calls_ok_prefix: "calls_ok srv ser ph (xs @ ys) \<Longrightarrow> calls_ok srv ser ph xs"
  by (auto simp: calls_ok_def answerable_prefix call_headers_append messages_append lengths_aligned_append)

lemma calls_ok_answers:
  assumes "calls_ok srv ser ph calls"
  shows "answers_to srv (pairs_bytes (requests ser calls)) (pairs_bytes (responses srv calls))"
proof -
  let ?ms = "requests ser calls"
  have rb: "\<forall>call \<in> set calls. reply_bytes srv call \<noteq> None"
    using assms by (simp add: calls_ok_def answerable_def call_outcome_reply del: not_None_eq)
  have ans: "(\<forall>(hb, qb) \<in> set ?ms. answer srv hb qb \<noteq> None) \<and> answers_bytes srv ?ms = pairs_bytes (responses srv calls)"
    by (rule answers_are_responses [OF rb]) (use assms in \<open>simp add: calls_ok_def\<close>)
  have "\<forall>(hb, qb) \<in> set ?ms. answer srv hb qb \<noteq> None \<and> length hb < 2 ^ 32 \<and> length qb < 2 ^ 32"
    using conjunct1 [OF ans] pairs_bytes_small [of ?ms] assms unfolding calls_ok_def by fast
  from server_spec_requests [OF this, of 0] ans assms show ?thesis
    by (auto simp: answers_to_def calls_ok_def answerable_def kBlockSize_def)
qed

lemma prefix_pairs_bytes: "prefix (pairs_bytes xs) (pairs_bytes (xs @ ys))"
  by simp

lemma client_inv_parts:
  assumes "client_inv srv ser ph calls c d"
  obtains sent pc where "calls = sent @ tasks c @ todo c" and "c_frame c = Some pc"
    and "live_side (chan_conn (channel c)) (c_interest c)" and "d \<le> length (pairs_bytes (responses srv sent))"
    and "reading srv ph sent (drop d (pairs_bytes (responses srv sent))) pc (channel c)"
    and "output_of (chan_conn (channel c)) = pairs_bytes (requests ser sent)"
    and "c_edges c = 0 \<longrightarrow> settled c"
  using assms unfolding client_inv_def by (elim exE conjE) (rule that)

text \<open>The part of the invariant that does not depend on what the kernel has still to report.\<close>

abbreviation client_core :: "'s rpc_server \<Rightarrow> (header \<Rightarrow> byte list) \<Rightarrow> (byte list \<Rightarrow> header option) \<Rightarrow> 'm call list \<Rightarrow> 'm client_side \<Rightarrow> nat \<Rightarrow> bool" where
  "client_core srv ser ph calls c d \<equiv> client_inv srv ser ph calls (c\<lparr>c_edges := 1\<rparr>) d"

lemma client_inv_core: "client_inv srv ser ph calls c d \<longleftrightarrow>
    client_core srv ser ph calls c d \<and> (c_edges c = 0 \<longrightarrow> settled c)"
  by (auto simp: client_inv_def)

lemma client_inv_sent:
  assumes "client_inv srv ser ph calls c d"
  obtains ys sent where "calls = sent @ ys" and "output_of (chan_conn (channel c)) = pairs_bytes (requests ser sent)"
    and "d \<le> length (pairs_bytes (responses srv sent))"
  using assms unfolding client_inv_def by blast

subsection \<open>New calls\<close>

lemma reading_more:
  assumes rd: "reading srv ph sent (drop d (pairs_bytes (responses srv sent))) pc ch" and d: "d \<le> length (pairs_bytes (responses srv sent))"
    and ch': "serving (chan_conn ch')" "next_request_id ch' = next_request_id ch + 1" "id2session ch' = (id2session ch)(next_request_id ch \<mapsto> call)"
      "filter completes (effects ch') = filter completes (effects ch)" "read_buf (chan_conn ch') = read_buf (chan_conn ch)"
      "rx (kern (chan_conn ch')) = rx (kern (chan_conn ch))"
  shows "reading srv ph (sent @ [call]) (drop d (pairs_bytes (responses srv (sent @ [call])))) pc ch'"
proof -
  let ?rs = "responses srv sent" and ?m = "response_messages srv (call_headers (int (length sent)) [call]) [call]" and ?c = "chan_conn ch"
  from rd obtain k where n: "next_request_id ch = int (length sent)" and k: "k \<le> length sent" "id2session ch = waiting_calls Map.empty (int k) (drop k sent)"
    "filter completes (effects ch) = map (call_effect srv) (take k sent)"
    and at: "client_at ph pc (ib_pos (read_buf ?c)) (length (pairs_bytes (take k ?rs))) (input_left ?c @ drop d (pairs_bytes ?rs)) (drop k ?rs)"
    by (auto simp: reading_def)
  have r: "responses srv (sent @ [call]) = ?rs @ ?m" by (rule responses_append)
  have dr: "drop d (pairs_bytes (responses srv (sent @ [call]))) = drop d (pairs_bytes ?rs) @ pairs_bytes ?m" using d by (simp add: r)
  show ?thesis
    unfolding reading_def
  proof (intro conjI exI [of _ k])
    show "client_at ph pc (ib_pos (read_buf (chan_conn ch'))) (length (pairs_bytes (take k (responses srv (sent @ [call])))))
        (input_left (chan_conn ch') @ drop d (pairs_bytes (responses srv (sent @ [call])))) (drop k (responses srv (sent @ [call])))"
      using client_at_append [OF at, of ?m] k(1) unfolding dr unfolding r ch'(5,6) by simp
    show "id2session ch' = waiting_calls Map.empty (int k) (drop k (sent @ [call]))"
      using k(1) by (simp add: ch'(3) k(2) n waiting_calls_append)
  qed (use k ch' n in simp_all)
qed

lemma send_request_side:
  assumes send: "send_request ser call ch = Some (Inr ch')" and live: "live_side (chan_conn ch) I"
    and sv: "serving (chan_conn ch')" "rx_pauses (rx (kern (chan_conn ch'))) = 0"
  shows "evolves_to (chan_conn ch) (chan_conn ch')" and "live_side (chan_conn ch') (apply_events (chan_conn ch') (new_events (chan_conn ch) (chan_conn ch')) I)"
proof -
  from send obtain ob2 where rw: "resume_write ((chan_conn ch)\<lparr>write_buf := ob2\<rparr>) = Some (Inr (chan_conn ch'))"
    by (auto simp: send_request_def ro_bind_eq_Inr Let_def)
  show ev: "evolves_to (chan_conn ch) (chan_conn ch')" using resume_write_evolves [OF rw] by simp
  from live obtain m where "I (sockfd (sock (chan_conn ch))) = Some (this_ptr (chan_conn ch), m)" "ep_in m" "ep_et m"
    by (auto simp: live_side_def)
  then show "live_side (chan_conn ch') (apply_events (chan_conn ch') (new_events (chan_conn ch) (chan_conn ch')) I)"
    using live resume_write_left [OF rw] serving_empty [OF sv(1)] sv
    by (intro live_side_after [OF ev sv]) (auto simp: live_side_def serving_def conn_inv_def)
qed

lemma client_room_simps [simp]:
  "chan_conn (channel (client_room ts c)) = with_room ts (chan_conn (channel c))" "todo (client_room ts c) = todo c" "tasks (client_room ts c) = tasks c"
  "c_frame (client_room ts c) = c_frame c" "c_interest (client_room ts c) = c_interest c" "c_edges (client_room ts c) = c_edges c"
  by (simp_all add: client_room_def)

lemma reading_same: "reading srv ph sent later pc ch \<Longrightarrow> serving c \<Longrightarrow> read_buf c = read_buf (chan_conn ch) \<Longrightarrow>
    rx (kern c) = rx (kern (chan_conn ch)) \<Longrightarrow> reading srv ph sent later pc (put_conn c ch)"
  by (simp add: reading_def)

lemma client_inv_room: "tx_steady ts \<Longrightarrow> client_inv srv ser ph calls c d \<Longrightarrow> client_inv srv ser ph calls (client_room ts c) d"
  unfolding client_inv_def
  by (auto simp: live_side_room client_room_def live_side_def serving_def settled_def intro!: reading_same)

lemma client_commit_simps [simp]:
  "channel (client_commit ch fr c) = ch" "c_frame (client_commit ch fr c) = fr" "todo (client_commit ch fr c) = todo c" "tasks (client_commit ch fr c) = tasks c"
  "c_edges (client_commit ch fr c) = c_edges c"
  "c_interest (client_commit ch fr c) = apply_events (chan_conn ch) (new_events (chan_conn (channel c)) (chan_conn ch)) (c_interest c)"
  by (simp_all add: client_commit_def)

lemma client_runs_task:
  assumes inv: "client_inv srv ser ph calls (c\<lparr>tasks := call # ts\<rparr>) d" and ok: "calls_ok srv ser ph calls"
  shows "\<exists>c'. client_run_task ser call (c\<lparr>tasks := ts\<rparr>) = Some (Inr c') \<and> client_inv srv ser ph calls c' d \<and>
    todo c' = todo c \<and> tasks c' = ts \<and> c_edges c' = c_edges c \<and> evolves_to (chan_conn (channel c)) (chan_conn (channel c'))"
proof -
  let ?ch = "channel c"
  from inv obtain sent pc where s: "calls = sent @ call # ts @ todo c" "c_frame c = Some pc"
    and live: "live_side (chan_conn ?ch) (c_interest c)" and d: "d \<le> length (pairs_bytes (responses srv sent))"
    and rd: "reading srv ph sent (drop d (pairs_bytes (responses srv sent))) pc ?ch"
    and out: "output_of (chan_conn ?ch) = pairs_bytes (requests ser sent)" and rdy: "c_edges c = 0 \<longrightarrow> settled c"
    by (rule client_inv_parts) (simp add: settled_def)
  have n: "next_request_id ?ch = int (length sent)" using rd by (simp add: reading_def)
  let ?out = "frame (ser (request_header ?ch call)) @ frame (request_bytes call)"
  have req: "pairs_bytes (requests ser (sent @ [call])) = pairs_bytes (requests ser sent) @ ?out"
    by (simp add: requests_append n request_header_def)
  have "calls_ok srv ser ph (sent @ [call])" using ok s(1) calls_ok_prefix [of srv ser ph "sent @ [call]" "ts @ todo c"] by simp
  then have "length (pairs_bytes (requests ser (sent @ [call]))) < 1023 * 8192" by (simp add: calls_ok_def)
  then have "length (ob_pending (write_buf (chan_conn ?ch))) + length ?out < 1023 * 8192"
    unfolding req out [symmetric] by (simp add: output_of_def)
  from send_request_ok [where ser = ser and call = call, OF reading_channel_ok [OF rd] refl this] obtain ch' where
    ch': "send_request ser call ?ch = Some (Inr ch')" "serving (chan_conn ch')" "id2session ch' = (id2session ?ch)(next_request_id ?ch \<mapsto> call)"
      "next_request_id ch' = next_request_id ?ch + 1" "output_of (chan_conn ch') = output_of (chan_conn ?ch) @ ?out"
      "effects ch' = effects ?ch @ [DeleteController (controller_obj call), DeleteRequest (request_obj call)]"
      "read_buf (chan_conn ch') = read_buf (chan_conn ?ch)" "rx (kern (chan_conn ch')) = rx (kern (chan_conn ?ch))"
    by (auto simp: channel_ok_def)
  have p0: "rx_pauses (rx (kern (chan_conn ch'))) = 0" using live ch'(8) by (simp add: live_side_def)
  have "reading srv ph (sent @ [call]) (drop d (pairs_bytes (responses srv (sent @ [call])))) pc ch'"
    by (rule reading_more [OF rd d ch'(2,4,3) _ ch'(7,8)]) (simp add: ch'(6))
  moreover have "d \<le> length (pairs_bytes (responses srv (sent @ [call])))" using d by (simp add: responses_append)
  moreover note send_request_side [OF ch'(1) live ch'(2) p0]
  ultimately have "client_inv srv ser ph calls (client_commit ch' (c_frame c) (c\<lparr>tasks := ts\<rparr>)) d"
    unfolding client_inv_def using s ch'(5,7,8) out req rdy by (intro exI [of _ "sent @ [call]"] exI [of _ pc]) (simp add: settled_def)
  then show ?thesis
    using ch'(1) send_request_side(1) [OF ch'(1) live ch'(2) p0] by (simp add: client_run_task_def)
qed

subsection \<open>Events\<close>

lemma client_inv_small:
  assumes "client_core srv ser ph calls c d" and "calls_ok srv ser ph calls"
  shows "length (output_of (chan_conn (channel c))) \<le> length (pairs_bytes (requests ser calls))"
    and "small_queue (ob_pending (write_buf (chan_conn (channel c))))"
proof -
  from client_inv_sent [OF assms(1)] obtain sent ys where "calls = sent @ ys" "output_of (chan_conn (channel c)) = pairs_bytes (requests ser sent)" by (metis client_side.select_convs(3) client_side.update_convs(6) client_side.surjective)
  then show "length (output_of (chan_conn (channel c))) \<le> length (pairs_bytes (requests ser calls))" by (simp add: requests_append)
  then show "small_queue (ob_pending (write_buf (chan_conn (channel c))))" using assms(2) by (simp add: calls_ok_def output_of_def)
qed

text \<open>What an event leaves of the client's part.\<close>

definition client_moves :: "'m client_side \<Rightarrow> 'm client_side \<Rightarrow> bool" where
  "client_moves c c' \<longleftrightarrow> todo c' = todo c \<and> tasks c' = tasks c \<and> c_edges c' = c_edges c \<and>
     evolves_to (chan_conn (channel c)) (chan_conn (channel c'))"

lemma client_moves_trans: "client_moves a b \<Longrightarrow> client_moves b c \<Longrightarrow> client_moves a c"
  using evolves_to_trans unfolding client_moves_def by metis

lemma client_writes:
  assumes inv: "client_core srv ser ph calls c d" and ok: "calls_ok srv ser ph calls"
  obtains c' where "client_writable c = Some (Inr (True, c'))" and "client_core srv ser ph calls c' d" and "client_moves c c'"
    and "settled c' = settled c"
    and "has_room (tx (kern (chan_conn (channel c)))) \<Longrightarrow>
      length (wire (kern (chan_conn (channel c)))) < length (wire (kern (chan_conn (channel c')))) \<or> \<not> wants_out (chan_conn (channel c')) (c_interest c')"
proof -
  let ?c = "chan_conn (channel c)"
  from inv obtain sent pc where i: "calls = sent @ tasks c @ todo c" "c_frame c = Some pc"
    "live_side ?c (c_interest c)" "d \<le> length (pairs_bytes (responses srv sent))" "reading srv ph sent (drop d (pairs_bytes (responses srv sent))) pc (channel c)"
    "output_of ?c = pairs_bytes (requests ser sent)"
    by (rule client_inv_parts) simp
  from live_side_writes [OF i(3) client_inv_small(2) [OF inv ok]] obtain c1 where
    c1: "resume_write ?c = Some (Inr c1)" "evolves_to ?c c1" "output_of c1 = output_of ?c" "read_buf c1 = read_buf ?c" "rx (kern c1) = rx (kern ?c)"
      "live_side c1 (flushed ?c c1 (c_interest c))"
      "has_room (tx (kern ?c)) \<Longrightarrow> length (wire (kern ?c)) < length (wire (kern c1)) \<or> \<not> wants_out c1 (flushed ?c c1 (c_interest c))"
    by blast
  define c' where "c' = client_commit (put_conn c1 (channel c)) (c_frame c) (c\<lparr>c_interest := (c_interest c)(sockfd (sock ?c) \<mapsto> (this_ptr ?c, \<lparr>ep_in = True, ep_out = False, ep_et = True\<rparr>))\<rparr>)"
  have f [simp]: "channel c' = put_conn c1 (channel c)" "c_interest c' = flushed ?c c1 (c_interest c)" "todo c' = todo c" "tasks c' = tasks c" "c_edges c' = c_edges c"
    "c_frame c' = c_frame c" by (simp_all add: c'_def)
  have "client_writable c = Some (Inr (True, c'))"
    using i(3) c1(1) by (auto simp: client_writable_def c'_def Let_def epoll_ctl_def live_side_def)
  moreover have "client_core srv ser ph calls c' d"
    unfolding client_inv_def using i c1(3,4,5,6) by (intro exI [of _ sent] exI [of _ pc]) (simp add: reading_same live_side_def)
  moreover have "client_moves c c'" using c1(2) by (simp add: client_moves_def)
  ultimately show thesis using that c1(4,5,7) by (simp add: settled_def)
qed

lemma client_reads_event:
  assumes inv: "client_core srv ser ph calls c d" and ok: "calls_ok srv ser ph calls"
  obtains c' where "client_readable ph c = Some (Inr c')" and "client_inv srv ser ph calls c' d" and "client_moves c c'"
proof -
  let ?c = "chan_conn (channel c)"
  from inv obtain sent pc where i: "calls = sent @ tasks c @ todo c" "c_frame c = Some pc"
    "live_side ?c (c_interest c)" "d \<le> length (pairs_bytes (responses srv sent))" and rd: "reading srv ph sent (drop d (pairs_bytes (responses srv sent))) pc (channel c)"
    and out: "output_of ?c = pairs_bytes (requests ser sent)"
    by (rule client_inv_parts) simp
  have "answerable srv ph sent" using ok i(1) calls_ok_prefix [of srv ser ph sent] by (simp add: calls_ok_def)
  from client_reads [OF rd this] i(3) obtain pc' ch' where
    r: "resume_coroutine (client_step ph) client_finish chan_conn (Some pc) (channel c) = Some (Inr (Some pc', ch'))"
    and rd': "reading srv ph sent (drop d (pairs_bytes (responses srv sent))) pc' ch'" and or: "only_read ?c (chan_conn ch')"
    and e: "rx (kern (chan_conn ch')) = []" "length (ib_unread (read_buf (chan_conn ch'))) < client_need pc'" by (auto simp: live_side_def)
  have "live_side (chan_conn ch') (apply_events (chan_conn ch') (new_events ?c (chan_conn ch')) (c_interest c))"
    using or rd' e(1) by (intro live_side_commit [OF i(3)]) (simp_all add: asks_if_left_def only_read_def reading_def)
  then have "client_inv srv ser ph calls (client_commit ch' (Some pc') c) d"
    unfolding client_inv_def using i(1,4) rd' e out or by (intro exI [of _ sent] exI [of _ pc']) (simp add: only_read_def output_of_def settled_def)
  moreover have "client_moves c (client_commit ch' (Some pc') c)" using or by (simp add: client_moves_def only_read_def)
  ultimately show thesis using that r i(2) by (simp add: client_readable_def)
qed

lemma client_handles:
  assumes inv: "client_core srv ser ph calls c d" and ok: "calls_ok srv ser ph calls" and ev: "i \<or> out"
    and rdy: "\<not> i \<Longrightarrow> c_edges c = 0 \<Longrightarrow> settled c"
  obtains c' where "client_handle ph i out c = Some (Inr c')" and "client_inv srv ser ph calls c' d" and "client_moves c c'"
    and "\<not> i \<Longrightarrow> has_room (tx (kern (chan_conn (channel c)))) \<Longrightarrow>
      length (wire (kern (chan_conn (channel c)))) < length (wire (kern (chan_conn (channel c')))) \<or> \<not> wants_out (chan_conn (channel c')) (c_interest c')"
proof (cases out)
  case False
  from client_reads_event [OF inv ok] obtain c' where
    "client_readable ph c = Some (Inr c')" "client_inv srv ser ph calls c' d" "client_moves c c'" by blast
  with that False ev show thesis by (simp add: client_handle_def)
next
  case True
  from client_writes [OF inv ok] obtain c1 where
    w: "client_writable c = Some (Inr (True, c1))" "client_core srv ser ph calls c1 d" "client_moves c c1" "settled c1 = settled c"
    "has_room (tx (kern (chan_conn (channel c)))) \<Longrightarrow>
      length (wire (kern (chan_conn (channel c)))) < length (wire (kern (chan_conn (channel c1)))) \<or> \<not> wants_out (chan_conn (channel c1)) (c_interest c1)" by blast
  show thesis
  proof (cases i)
    case True
    from client_reads_event [OF w(2) ok] obtain c' where
      "client_readable ph c1 = Some (Inr c')" "client_inv srv ser ph calls c' d" "client_moves c1 c'" by blast
    with that \<open>out\<close> True w(1) client_moves_trans [OF w(3)] show thesis by (simp add: client_handle_def)
  next
    case False
    have "client_inv srv ser ph calls c1 d"
      by (subst client_inv_core) (use w(2-4) rdy False in \<open>simp add: client_moves_def\<close>)
    with that [of c1] w(1,3,5) True False show thesis by (simp add: client_handle_def)
  qed
qed

subsection \<open>Responses arrive\<close>

lemma client_inv_deliver:
  assumes inv: "client_inv srv ser ph calls c d" and ok: "calls_ok srv ser ph calls"
    and bs: "\<And>sent ys. calls = sent @ ys \<Longrightarrow> output_of (chan_conn (channel c)) = pairs_bytes (requests ser sent) \<Longrightarrow>
      d + n \<le> length (pairs_bytes (responses srv sent)) \<and> bs = take n (drop d (pairs_bytes (responses srv sent)))"
  shows "client_inv srv ser ph calls (c\<lparr>channel := put_conn (deliver bs (chan_conn (channel c))) (channel c), c_edges := c_edges c + 1\<rparr>) (d + n)"
proof -
  let ?c = "chan_conn (channel c)"
  from inv obtain sent pc where i: "calls = sent @ tasks c @ todo c" "c_frame c = Some pc"
    "live_side ?c (c_interest c)" "d \<le> length (pairs_bytes (responses srv sent))" and rd: "reading srv ph sent (drop d (pairs_bytes (responses srv sent))) pc (channel c)"
    and out: "output_of ?c = pairs_bytes (requests ser sent)"
    by (rule client_inv_parts)
  have n: "d + n \<le> length (pairs_bytes (responses srv sent))" and b: "bs = take n (drop d (pairs_bytes (responses srv sent)))" using bs [OF i(1) out] by simp_all
  have "answerable srv ph sent" using ok i(1) calls_ok_prefix [of srv ser ph sent] by (simp add: calls_ok_def)
  then have small: "length (pairs_bytes (responses srv sent)) < 1023 * 8192" by (simp add: answerable_def)
  have later: "drop d (pairs_bytes (responses srv sent)) = bs @ drop (d + n) (pairs_bytes (responses srv sent))"
    unfolding b by (metis append_take_drop_id drop_drop add.commute)
  from rd obtain k where at: "client_at ph pc (ib_pos (read_buf ?c)) (length (pairs_bytes (take k (responses srv sent))))
      (input_left ?c @ drop d (pairs_bytes (responses srv sent))) (drop k (responses srv sent))" unfolding reading_def by blast
  have "pairs_bytes (responses srv sent) = pairs_bytes (take k (responses srv sent)) @ pairs_bytes (drop k (responses srv sent))"
    unfolding pairs_bytes_append [symmetric] by simp
  then have "length (pairs_bytes (drop k (responses srv sent))) \<le> length (pairs_bytes (responses srv sent))" by simp
  with client_at_length [OF at] small have "length (input_left ?c) + length bs < 2 ^ 31 - 1" unfolding later by simp
  from live_side_deliver [OF i(3) this] have live: "live_side (deliver bs ?c) (c_interest c)" .
  moreover have "reading srv ph sent (drop (d + n) (pairs_bytes (responses srv sent))) pc (put_conn (deliver bs ?c) (channel c))"
    using rd live unfolding reading_def later by (auto simp: rx_append live_side_def)
  ultimately show ?thesis
    unfolding client_inv_def using i n out by (intro exI [of _ sent] exI [of _ pc]) simp
qed

lemma client_inv_call: "client_inv srv ser ph calls c d \<Longrightarrow> todo c = call # cs \<Longrightarrow>
    client_inv srv ser ph calls (c\<lparr>todo := cs, tasks := CallMethod call (tasks c)\<rparr>) d"
  by (simp add: client_inv_def CallMethod_def settled_def)

end
