(* ===== verification/CallServer.thy ===== *)
theory CallServer
  imports CallClient
begin

section \<open>The server handles an event\<close>

text \<open>
  An event at one connection of the server: the executor handles it without a fault, keeps the
  invariant of the session and leaves all other sessions and their registrations alone.
\<close>

lemma server_inv_core: "server_inv srv req s I ready u \<longleftrightarrow> server_inv srv req s I True u \<and> (\<not> ready \<longrightarrow> rx (kern (s_conn s)) = [])"
  by (auto simp: server_inv_def)

lemma server_readable:
  assumes "server_inv srv req s (interest ex) True u" and "answers_to srv whole out" and "prefix req whole"
  obtains s' J where "epoll_readable (resume_read srv) p s ex = Some (Inr (ex\<lparr>sessions := (sessions ex)(p \<mapsto> s'), interest := J\<rparr>))"
    and "server_inv srv req s' J False u" and "evolves_to (s_conn s) (s_conn s')" and "\<And>fd. fd \<noteq> fd_of s \<Longrightarrow> J fd = interest ex fd"
proof -
  let ?c = "s_conn s"
  from server_reads [OF assms] obtain pc c' where
    r: "resume_read srv (s_frame s) ?c = Some (Inr (Some pc, c'))" "evolves_to ?c c'"
      "server_inv srv req \<lparr>s_conn = c', s_frame = Some pc\<rparr> (apply_events c' (new_events ?c c') (interest ex)) False u" by blast
  have "sockfd (sock c') = fd_of s" using r(2) by (simp add: evolves_to_def)
  with r that [of "apply_events c' (new_events ?c c') (interest ex)" "\<lparr>s_conn = c', s_frame = Some pc\<rparr>"] show thesis
    by (simp add: epoll_readable_def epoll_commit_def apply_events_other)
qed

lemma server_writable:
  assumes inv: "server_inv srv req s (interest ex) True u" and ans: "answers_to srv whole out" "prefix req whole" and p: "this_ptr (s_conn s) = p"
  obtains s' J where "epoll_writable p s ex = Some (Inr (True, ex\<lparr>sessions := (sessions ex)(p \<mapsto> s'), interest := J\<rparr>))"
    and "server_inv srv req s' J True u" and "rx (kern (s_conn s')) = rx (kern (s_conn s))"
    and "evolves_to (s_conn s) (s_conn s')" and "\<And>fd. fd \<noteq> fd_of s \<Longrightarrow> J fd = interest ex fd"
    and "has_room (tx (kern (s_conn s))) \<Longrightarrow> length (wire (kern (s_conn s))) < length (wire (kern (s_conn s'))) \<or> \<not> wants_out (s_conn s') J"
proof -
  let ?c = "s_conn s"
  from server_writes [OF inv ans] obtain c' where
    r: "resume_write ?c = Some (Inr c')" "evolves_to ?c c'" "rx (kern c') = rx (kern ?c)"
      "server_inv srv req (s\<lparr>s_conn := c'\<rparr>) (flushed ?c c' (interest ex)) True u"
      "has_room (tx (kern ?c)) \<Longrightarrow> length (wire (kern ?c)) < length (wire (kern c')) \<or> \<not> wants_out c' (flushed ?c c' (interest ex))" by blast
  have fd: "sockfd (sock c') = fd_of s" using r(2) by (simp add: evolves_to_def)
  have reg: "\<exists>m. interest ex (fd_of s) = Some (p, m)" using inv p by (auto simp: server_inv_def live_side_def)
  have s': "s\<lparr>s_conn := c'\<rparr> = \<lparr>s_conn = c', s_frame = s_frame s\<rparr>" by simp
  have "epoll_writable p s ex = Some (Inr (True, ex\<lparr>sessions := (sessions ex)(p \<mapsto> s\<lparr>s_conn := c'\<rparr>), interest := flushed ?c c' (interest ex)\<rparr>))"
    unfolding s' using reg r(1) p by (auto simp: epoll_writable_def epoll_commit_def epoll_ctl_def Let_def)
  from that [OF this r(4)] show thesis using r fd by (simp add: apply_events_other)
qed

abbreviation io_event :: "64 word \<Rightarrow> bool \<Rightarrow> bool \<Rightarrow> ep_event" where
  "io_event p i out \<equiv> \<lparr>ev_ptr = p, ev_in = i, ev_out = out, ev_hup = False, ev_rdhup = False\<rparr>"

lemma server_handles:
  assumes s: "sessions ex p = Some s" and p: "p \<noteq> 0" "this_ptr (s_conn s) = p" and ev: "i \<or> out"
    and inv: "server_inv srv req s (interest ex) ready u" and keep: "i \<or> ready' = ready" and ans: "answers_to srv whole outp" "prefix req whole"
  obtains s' J where "epoll_handle (resume_read srv) (io_event p i out) ex = Some (Inr (ex\<lparr>sessions := (sessions ex)(p \<mapsto> s'), interest := J\<rparr>))"
    and "server_inv srv req s' J ready' u" and "evolves_to (s_conn s) (s_conn s')" and "\<And>fd. fd \<noteq> fd_of s \<Longrightarrow> J fd = interest ex fd"
    and "\<not> i \<Longrightarrow> has_room (tx (kern (s_conn s))) \<Longrightarrow> length (wire (kern (s_conn s))) < length (wire (kern (s_conn s'))) \<or> \<not> wants_out (s_conn s') J"
proof -
  have inv1: "server_inv srv req s (interest ex) True u" and rdy: "\<not> ready \<longrightarrow> rx (kern (s_conn s)) = []"
    using inv server_inv_core by blast+
  have read: "server_inv srv req s' J False u \<Longrightarrow> server_inv srv req s' J ready' u" for s' J by (auto simp: server_inv_def)
  have nd: "\<not> is_dummy (s_conn s)" using inv by (auto simp: server_inv_def live_side_def)
  show thesis
  proof (cases out)
    case False
    obtain s' J where
      "epoll_readable (resume_read srv) p s ex = Some (Inr (ex\<lparr>sessions := (sessions ex)(p \<mapsto> s'), interest := J\<rparr>))"
      "server_inv srv req s' J False u" "evolves_to (s_conn s) (s_conn s')" "\<And>fd. fd \<noteq> fd_of s \<Longrightarrow> J fd = interest ex fd"
      by (rule server_readable [OF inv1 ans, where p = p]) (rule that; (assumption | simp))
    with read that [of J s'] False ev s p nd show thesis by (simp add: epoll_handle_def)
  next
    case True
    obtain s1 J where
      w: "epoll_writable p s ex = Some (Inr (True, ex\<lparr>sessions := (sessions ex)(p \<mapsto> s1), interest := J\<rparr>))"
        "server_inv srv req s1 J True u" "rx (kern (s_conn s1)) = rx (kern (s_conn s))" "evolves_to (s_conn s) (s_conn s1)"
        "\<And>fd. fd \<noteq> fd_of s \<Longrightarrow> J fd = interest ex fd"
        "has_room (tx (kern (s_conn s))) \<Longrightarrow> length (wire (kern (s_conn s))) < length (wire (kern (s_conn s1))) \<or> \<not> wants_out (s_conn s1) J"
      by (rule server_writable [OF inv1 ans p(2)]) (rule that; (assumption | simp))
    show thesis
    proof (cases i)
      case False
      have "server_inv srv req s1 J ready' u" unfolding keep [simplified False simp_thms] by (subst server_inv_core) (use w(2,3) rdy in simp)
      with that [of J s1] w False True s p nd show thesis by (simp add: epoll_handle_def)
    next
      case i: True
      let ?ex1 = "ex\<lparr>sessions := (sessions ex)(p \<mapsto> s1), interest := J\<rparr>"
      have "server_inv srv req s1 (interest ?ex1) True u" using w(2) by simp
      then obtain s' J' where
        r: "epoll_readable (resume_read srv) p s1 ?ex1 = Some (Inr (?ex1\<lparr>sessions := (sessions ?ex1)(p \<mapsto> s'), interest := J'\<rparr>))"
          "server_inv srv req s' J' False u" "evolves_to (s_conn s1) (s_conn s')" "\<And>fd. fd \<noteq> fd_of s1 \<Longrightarrow> J' fd = interest ?ex1 fd"
      by (rule server_readable [OF _ ans, where p = p]) (rule that; (assumption | simp))
      have "fd_of s1 = fd_of s" using w(4) by (simp add: evolves_to_def)
      with read [OF r(2)] that [of J' s'] r evolves_to_trans [OF w(4) r(3)] w(1,5) i True s p nd show thesis by (simp add: epoll_handle_def)
    qed
  qed
qed

end
