(* ===== verification/CallPair.thy ===== *)
theory CallPair
  imports CallServer
begin

section \<open>A client and its session\<close>

text \<open>
  A client with the session that serves it. Every step keeps \<open>pair_inv\<close> and makes \<open>pair_work\<close>
  smaller; when nothing is left to do, all calls are completed.
\<close>

definition pair_inv :: "'s rpc_server \<Rightarrow> (header \<Rightarrow> byte list) \<Rightarrow> (byte list \<Rightarrow> header option) \<Rightarrow> 'm call list \<Rightarrow>
    'm client_side \<Rightarrow> 's recv_pc session \<Rightarrow> interest \<Rightarrow> nat \<Rightarrow> nat \<Rightarrow> nat \<Rightarrow> bool" where
  "pair_inv srv ser ph calls c s I edges u d \<longleftrightarrow> client_inv srv ser ph calls c d \<and>
     server_inv srv (wire (kern (chan_conn (channel c)))) s I (0 < edges) u \<and> d \<le> length (wire (kern (s_conn s)))"

text \<open>What is left to do: calls, bytes to write and to deliver, and events to report.\<close>

definition pair_work :: "nat \<Rightarrow> nat \<Rightarrow> 'm client_side \<Rightarrow> 's recv_pc session \<Rightarrow> interest \<Rightarrow> nat \<Rightarrow> nat \<Rightarrow> nat \<Rightarrow> nat" where
  "pair_work rq rs c s I edges u d = 3 * length (todo c) + 2 * length (tasks c)
     + (rq - length (wire (kern (chan_conn (channel c))))) + 3 * (rq - u) + 2 * edges + of_bool (wants_out (s_conn s) I)
     + (rs - length (wire (kern (s_conn s)))) + 3 * (rs - d) + 2 * c_edges c + of_bool (wants_out (chan_conn (channel c)) (c_interest c))"

lemma pair_interest:
  "I' (fd_of s) = I (fd_of s) \<Longrightarrow> pair_inv srv ser ph calls c s I' edges u d = pair_inv srv ser ph calls c s I edges u d"
  "I' (fd_of s) = I (fd_of s) \<Longrightarrow> pair_work rq rs c s I' edges u d = pair_work rq rs c s I edges u d"
  by (auto simp: pair_inv_def pair_work_def wants_out_def server_inv_interest)

lemma pair_inv_answers:
  assumes inv: "pair_inv srv ser ph calls c s I edges u d" and ok: "calls_ok srv ser ph calls"
    and sent: "calls = sent @ ys" "output_of (chan_conn (channel c)) = pairs_bytes (requests ser sent)"
  shows "answers_to srv (pairs_bytes (requests ser sent)) (pairs_bytes (responses srv sent))"
    and "prefix (wire (kern (chan_conn (channel c)))) (pairs_bytes (requests ser sent))"
    and "prefix (output_of (s_conn s)) (pairs_bytes (responses srv sent))"
proof -
  show ans: "answers_to srv (pairs_bytes (requests ser sent)) (pairs_bytes (responses srv sent))"
    by (rule calls_ok_answers [OF calls_ok_prefix [OF ok [unfolded sent(1)]]])
  show pre: "prefix (wire (kern (chan_conn (channel c)))) (pairs_bytes (requests ser sent))"
    unfolding sent(2) [symmetric] by (simp add: output_of_def)
  show "prefix (output_of (s_conn s)) (pairs_bytes (responses srv sent))"
    using inv server_inv_output [OF _ ans pre] by (auto simp: pair_inv_def)
qed

lemma pair_inv_bounds:
  assumes inv: "pair_inv srv ser ph calls c s I edges u d" and ok: "calls_ok srv ser ph calls"
  shows "length (wire (kern (chan_conn (channel c)))) \<le> length (pairs_bytes (requests ser calls))"
    and "length (wire (kern (s_conn s))) \<le> length (pairs_bytes (responses srv calls))"
    and "u \<le> length (wire (kern (chan_conn (channel c))))" and "d \<le> length (wire (kern (s_conn s)))"
proof -
  from inv have ci: "client_inv srv ser ph calls c d" by (simp add: pair_inv_def)
  obtain sent ys where s: "calls = sent @ ys" "output_of (chan_conn (channel c)) = pairs_bytes (requests ser sent)"
    using client_inv_sent [OF ci] by metis
  show "length (wire (kern (chan_conn (channel c)))) \<le> length (pairs_bytes (requests ser calls))"
    using prefix_length_le [OF pair_inv_answers(2) [OF inv ok s]] unfolding s(1) requests_append by simp
  show "length (wire (kern (s_conn s))) \<le> length (pairs_bytes (responses srv calls))"
    using prefix_length_le [OF pair_inv_answers(3) [OF inv ok s]] unfolding s(1) responses_append by (simp add: output_of_def)
  show "u \<le> length (wire (kern (chan_conn (channel c))))" "d \<le> length (wire (kern (s_conn s)))"
    using inv by (auto simp: pair_inv_def server_inv_def)
qed

subsection \<open>Steps of the client\<close>

lemma pair_client:
  assumes "pair_inv srv ser ph calls c s I edges u d" and "client_inv srv ser ph calls c' d"
    and "evolves_to (chan_conn (channel c)) (chan_conn (channel c'))"
  shows "pair_inv srv ser ph calls c' s I edges u d"
  using assms by (auto simp: pair_inv_def evolves_to_def intro: server_inv_mono)

abbreviation pair_steps :: "'s rpc_server \<Rightarrow> (header \<Rightarrow> byte list) \<Rightarrow> (byte list \<Rightarrow> header option) \<Rightarrow> 'm call list \<Rightarrow>
    'm client_side \<Rightarrow> 's recv_pc session \<Rightarrow> interest \<Rightarrow> nat \<Rightarrow> nat \<Rightarrow> nat \<Rightarrow>
    'm client_side \<Rightarrow> 's recv_pc session \<Rightarrow> interest \<Rightarrow> nat \<Rightarrow> nat \<Rightarrow> nat \<Rightarrow> bool" where
  "pair_steps srv ser ph calls c s I edges u d c' s' I' edges' u' d' \<equiv> pair_inv srv ser ph calls c' s' I' edges' u' d' \<and>
     pair_work (length (pairs_bytes (requests ser calls))) (length (pairs_bytes (responses srv calls))) c' s' I' edges' u' d'
       < pair_work (length (pairs_bytes (requests ser calls))) (length (pairs_bytes (responses srv calls))) c s I edges u d"

lemma of_bool_le_1: "of_bool b \<le> (1 :: nat)"
  by simp

text \<open>An event uses up an arrival, or its write makes progress.\<close>

lemma less_work:
  assumes "reported i out c I e e' room" and "\<not> i \<Longrightarrow> has_room room \<Longrightarrow> length (wire (kern c)) < length (wire (kern c')) \<or> \<not> wants_out c' J"
    and "length (wire (kern c)) \<le> length (wire (kern c'))" and "length (wire (kern c')) \<le> n"
  shows "(n - length (wire (kern c'))) + 2 * e' + of_bool (wants_out c' J) < (n - length (wire (kern c))) + 2 * e + of_bool (wants_out c I)"
proof (cases i)
  case True
  then have "e' < e" using assms(1) by (simp add: reported_def)
  with assms(3) of_bool_le_1 [of "wants_out c' J"] show ?thesis by linarith
next
  case False
  then have out: "wants_out c I" "e' = e" and "length (wire (kern c)) < length (wire (kern c')) \<or> \<not> wants_out c' J"
    using assms(1,2) by (simp_all add: reported_def)
  from this(3) show ?thesis
  proof
    assume "length (wire (kern c)) < length (wire (kern c'))"
    with assms(4) out of_bool_le_1 [of "wants_out c' J"] show ?thesis by simp
  next
    assume "\<not> wants_out c' J"
    with assms(3) out show ?thesis by simp
  qed
qed

lemma pair_call:
  assumes "pair_inv srv ser ph calls c s I edges u d" and "todo c = call # cs"
  shows "pair_steps srv ser ph calls c s I edges u d (c\<lparr>todo := cs, tasks := CallMethod call (tasks c)\<rparr>) s I edges u d"
  using assms client_inv_call [of srv ser ph calls c d call cs]
  by (auto simp: pair_inv_def pair_work_def CallMethod_def)

lemma pair_task:
  assumes inv: "pair_inv srv ser ph calls c s I edges u d" and ok: "calls_ok srv ser ph calls"
    and t: "tasks c = call # ts" and room: "tx_steady room"
  obtains c' where "client_run_task ser call (client_room room (c\<lparr>tasks := ts\<rparr>)) = Some (Inr c')"
    and "pair_steps srv ser ph calls c s I edges u d c' s I edges u d"
proof -
  have ci: "client_inv srv ser ph calls c d" using inv by (simp add: pair_inv_def)
  have "(client_room room c)\<lparr>tasks := call # ts\<rparr> = client_room room c" using t by (simp add: client_room_def)
  then have "client_inv srv ser ph calls ((client_room room c)\<lparr>tasks := call # ts\<rparr>) d" using client_inv_room [OF room ci] by simp
  from client_runs_task [OF this ok] obtain c' where
    c': "client_run_task ser call ((client_room room c)\<lparr>tasks := ts\<rparr>) = Some (Inr c')" "client_inv srv ser ph calls c' d" "todo c' = todo c"
      "tasks c' = ts" "c_edges c' = c_edges c" and ev: "evolves_to (with_room room (chan_conn (channel c))) (chan_conn (channel c'))" by auto
  have "evolves_to (chan_conn (channel c)) (with_room room (chan_conn (channel c)))" by (simp add: evolves_to_def asks_for_def)
  note ev = evolves_to_trans [OF this ev]
  have inv': "pair_inv srv ser ph calls c' s I edges u d" by (rule pair_client [OF inv c'(2) ev])
  have "length (wire (kern (chan_conn (channel c)))) \<le> length (wire (kern (chan_conn (channel c'))))"
    using ev by (simp add: evolves_to_def prefix_length_le)
  then have "pair_steps srv ser ph calls c s I edges u d c' s I edges u d"
    using inv' c'(3-5) t of_bool_le_1 [of "wants_out (chan_conn (channel c')) (c_interest c')"] by (simp add: pair_work_def)
  moreover have "(client_room room c)\<lparr>tasks := ts\<rparr> = client_room room (c\<lparr>tasks := ts\<rparr>)" by (simp add: client_room_def)
  ultimately show thesis using that c'(1) by simp
qed

lemma pair_client_event:
  assumes inv: "pair_inv srv ser ph calls c s I edges u d" and ok: "calls_ok srv ser ph calls"
    and ev: "reported i out (chan_conn (channel c)) (c_interest c) (c_edges c) e room"
  obtains c' where "client_handle ph i out (client_room room (c\<lparr>c_edges := e\<rparr>)) = Some (Inr c')"
    and "pair_steps srv ser ph calls c s I edges u d c' s I edges u d"
proof -
  let ?c = "client_room room (c\<lparr>c_edges := e\<rparr>)"
  have io: "i \<or> out" and room: "tx_steady room" using ev by (simp_all add: reported_def)
  have ci: "client_inv srv ser ph calls c d" using inv by (simp add: pair_inv_def)
  have "client_core srv ser ph calls (client_room room c) d" using client_inv_core [THEN iffD1, OF client_inv_room [OF room ci]] by simp
  then have core: "client_core srv ser ph calls ?c d" by (simp add: client_room_def)
  have st: "\<not> i \<Longrightarrow> c_edges ?c = 0 \<Longrightarrow> settled ?c"
    using client_inv_core [THEN iffD1, OF ci] ev by (simp add: settled_def reported_def)
  from client_handles [OF core ok io st] obtain c' where
    c': "client_handle ph i out ?c = Some (Inr c')" "client_inv srv ser ph calls c' d" "client_moves ?c c'"
      and pr: "\<not> i \<Longrightarrow> has_room (tx (kern (chan_conn (channel ?c)))) \<Longrightarrow>
        length (wire (kern (chan_conn (channel ?c)))) < length (wire (kern (chan_conn (channel c')))) \<or> \<not> wants_out (chan_conn (channel c')) (c_interest c')"
    by blast
  have m: "todo c' = todo c" "tasks c' = tasks c" "c_edges c' = e" and e: "evolves_to (with_room room (chan_conn (channel c))) (chan_conn (channel c'))"
    using c'(3) by (simp_all add: client_moves_def)
  have "evolves_to (chan_conn (channel c)) (with_room room (chan_conn (channel c)))" by (simp add: evolves_to_def asks_for_def)
  note e = evolves_to_trans [OF this e]
  have inv': "pair_inv srv ser ph calls c' s I edges u d" by (rule pair_client [OF inv c'(2) e])
  have len: "length (wire (kern (chan_conn (channel c)))) \<le> length (wire (kern (chan_conn (channel c'))))"
    using e by (simp add: evolves_to_def prefix_length_le)
  have "pair_steps srv ser ph calls c s I edges u d c' s I edges u d"
    using inv' less_work [OF ev _ len pair_inv_bounds(1) [OF inv' ok], of "c_interest c'"] pr unfolding pair_work_def m by simp
  then show thesis using that c'(1) by simp
qed

subsection \<open>Steps of the server and of the network\<close>

lemma pair_sent:
  assumes "pair_inv srv ser ph calls c s I edges u d" and "calls_ok srv ser ph calls"
  obtains whole out where "answers_to srv whole out" and "prefix (wire (kern (chan_conn (channel c)))) whole"
proof -
  from assms(1) have "client_inv srv ser ph calls c d" by (simp add: pair_inv_def)
  then obtain sent ys where s: "calls = sent @ ys" "output_of (chan_conn (channel c)) = pairs_bytes (requests ser sent)"
    using client_inv_sent by metis
  from that [OF pair_inv_answers(1,2) [OF assms s]] show thesis .
qed

lemma pair_server_event:
  assumes s: "sessions ex p = Some s" and p: "p \<noteq> 0" "this_ptr (s_conn s) = p"
    and inv: "pair_inv srv ser ph calls c s (interest ex) edges u d" and ok: "calls_ok srv ser ph calls"
    and ev: "reported i out (s_conn s) (interest ex) edges edges' room"
  obtains s' J where "epoll_handle (resume_read srv) (io_event p i out) (change_conn p (with_room room) ex)
      = Some (Inr (ex\<lparr>sessions := (sessions ex)(p \<mapsto> s'), interest := J\<rparr>))"
    and "pair_steps srv ser ph calls c s (interest ex) edges u d c s' J edges' u d"
    and "evolves_to (s_conn s) (s_conn s')" and "\<And>fd. fd \<noteq> fd_of s \<Longrightarrow> J fd = interest ex fd"
proof -
  let ?ex = "change_conn p (with_room room) ex" and ?s = "s\<lparr>s_conn := with_room room (s_conn s)\<rparr>"
  let ?req = "wire (kern (chan_conn (channel c)))"
  have io: "i \<or> out" and room: "tx_steady room" and keep: "i \<or> (0 < edges') = (0 < edges)" using ev by (auto simp: reported_def)
  from pair_sent [OF inv ok] obtain whole outp where ans: "answers_to srv whole outp" "prefix ?req whole" by blast
  have ex: "sessions ?ex p = Some ?s" "interest ?ex = interest ex" using s by (simp_all add: change_conn_def)
  have p': "this_ptr (s_conn ?s) = p" using p(2) by simp
  have si: "server_inv srv ?req ?s (interest ?ex) (0 < edges) u" using inv by (simp add: pair_inv_def ex(2) server_inv_room [OF room])
  obtain s' J where
    h: "epoll_handle (resume_read srv) (io_event p i out) ?ex = Some (Inr (?ex\<lparr>sessions := (sessions ?ex)(p \<mapsto> s'), interest := J\<rparr>))"
      "server_inv srv ?req s' J (0 < edges') u" "evolves_to (s_conn ?s) (s_conn s')" "\<And>fd. fd \<noteq> fd_of ?s \<Longrightarrow> J fd = interest ?ex fd"
    and pr: "\<not> i \<Longrightarrow> has_room (tx (kern (s_conn ?s))) \<Longrightarrow>
      length (wire (kern (s_conn ?s))) < length (wire (kern (s_conn s'))) \<or> \<not> wants_out (s_conn s') J"
      by (rule server_handles [OF ex(1) p(1) p' io si keep ans]) (rule that; (assumption | simp))
  have "evolves_to (s_conn s) (s_conn ?s)" by (simp add: evolves_to_def asks_for_def)
  note e = evolves_to_trans [OF this h(3)]
  have len: "length (wire (kern (s_conn s))) \<le> length (wire (kern (s_conn s')))" using e by (simp add: evolves_to_def prefix_length_le)
  have inv': "pair_inv srv ser ph calls c s' J edges' u d" using inv h(2) len by (simp add: pair_inv_def)
  have "pair_steps srv ser ph calls c s (interest ex) edges u d c s' J edges' u d"
    using inv' less_work [OF ev _ len pair_inv_bounds(2) [OF inv' ok], of J] pr unfolding pair_work_def by simp
  moreover have "?ex\<lparr>sessions := (sessions ?ex)(p \<mapsto> s'), interest := J\<rparr> = ex\<lparr>sessions := (sessions ex)(p \<mapsto> s'), interest := J\<rparr>"
    by (simp add: change_conn_def)
  ultimately show thesis using that h(1,4) e ex(2) by simp
qed

lemma pair_request:
  assumes inv: "pair_inv srv ser ph calls c s I edges u d" and ok: "calls_ok srv ser ph calls"
    and n: "0 < n" "u + n \<le> length (wire (kern (chan_conn (channel c))))"
  shows "pair_steps srv ser ph calls c s I edges u d c (s\<lparr>s_conn := deliver (take n (drop u (wire (kern (chan_conn (channel c)))))) (s_conn s)\<rparr>) I (edges + 1) (u + n) d"
proof -
  let ?s = "s\<lparr>s_conn := deliver (take n (drop u (wire (kern (chan_conn (channel c)))))) (s_conn s)\<rparr>"
  have le: "length (wire (kern (chan_conn (channel c)))) \<le> length (pairs_bytes (requests ser calls))" by (rule pair_inv_bounds(1) [OF inv ok])
  have "length (wire (kern (chan_conn (channel c)))) < 1023 * 8192" using le ok by (simp add: calls_ok_def)
  from server_inv_deliver [OF _ n(2) this] inv have "pair_inv srv ser ph calls c ?s I (edges + 1) (u + n) d" by (auto simp: pair_inv_def)
  moreover have "wants_out (s_conn ?s) I = wants_out (s_conn s) I" by (simp add: wants_out_def)
  ultimately show ?thesis using n le by (simp add: pair_work_def)
qed

lemma pair_response:
  assumes inv: "pair_inv srv ser ph calls c s I edges u d" and ok: "calls_ok srv ser ph calls"
    and n: "0 < n" "d + n \<le> length (wire (kern (s_conn s)))" and bs: "bs = take n (drop d (wire (kern (s_conn s))))"
  shows "pair_steps srv ser ph calls c s I edges u d
    (c\<lparr>channel := put_conn (deliver bs (chan_conn (channel c))) (channel c), c_edges := c_edges c + 1\<rparr>) s I edges u (d + n)"
proof -
  let ?c = "c\<lparr>channel := put_conn (deliver bs (chan_conn (channel c))) (channel c), c_edges := c_edges c + 1\<rparr>"
  have ci: "client_inv srv ser ph calls c d" using inv by (simp add: pair_inv_def)
  have "client_inv srv ser ph calls ?c (d + n)"
  proof (rule client_inv_deliver [OF ci ok])
    fix sent ys
    assume "calls = sent @ ys" "output_of (chan_conn (channel c)) = pairs_bytes (requests ser sent)"
    from pair_inv_answers(3) [OF inv ok this] obtain zs where z: "pairs_bytes (responses srv sent) = wire (kern (s_conn s)) @ zs"
      by (auto simp: output_of_def prefix_def)
    show "d + n \<le> length (pairs_bytes (responses srv sent)) \<and> bs = take n (drop d (pairs_bytes (responses srv sent)))"
      using n(2) unfolding z bs by simp
  qed
  then have "pair_inv srv ser ph calls ?c s I edges u (d + n)" using inv n(2) by (simp add: pair_inv_def)
  moreover have "wants_out (chan_conn (channel ?c)) (c_interest ?c) = wants_out (chan_conn (channel c)) (c_interest c)" by (simp add: wants_out_def)
  ultimately show ?thesis using n pair_inv_bounds(2) [OF inv ok] by (simp add: pair_work_def)
qed

subsection \<open>Nothing left to do\<close>

lemma live_side_drained: "live_side c I \<Longrightarrow> \<not> wants_out c I \<Longrightarrow> wire (kern c) = output_of c"
  using live_side_out by (fastforce simp: output_of_def)

lemma pair_done:
  assumes inv: "pair_inv srv ser ph calls c s I edges u d" and ok: "calls_ok srv ser ph calls"
    and c: "todo c = []" "tasks c = []" "c_edges c = 0" "\<not> wants_out (chan_conn (channel c)) (c_interest c)"
    and s: "edges = 0" "\<not> wants_out (s_conn s) I"
    and ud: "u = length (wire (kern (chan_conn (channel c))))" "d = length (wire (kern (s_conn s)))"
  shows "filter completes (effects (channel c)) = map (call_effect srv) calls" and "id2session (channel c) = Map.empty"
proof -
  let ?c = "chan_conn (channel c)" and ?rs = "responses srv calls"
  from inv have ci: "client_inv srv ser ph calls c d" and si: "server_inv srv (wire (kern ?c)) s I (0 < edges) u" by (simp_all add: pair_inv_def)
  from ci c(1,2) obtain pc where pc: "c_frame c = Some pc" "live_side ?c (c_interest c)" "reading srv ph calls (drop d (pairs_bytes ?rs)) pc (channel c)"
    "output_of ?c = pairs_bytes (requests ser calls)" and st: "settled c" using c(3) by (elim client_inv_parts) simp
  have wc: "wire (kern ?c) = pairs_bytes (requests ser calls)" using live_side_drained [OF pc(2) c(4)] pc(4) by simp
  from si s(1) ud(1) obtain pc' where sp: "live_side (s_conn s) I"
    "server_spec srv R_header_len 0 (wire (kern ?c)) = (output_of (s_conn s), Waiting pc' (ib_pos (read_buf (s_conn s))) (ib_unread (read_buf (s_conn s))))"
    by (auto simp: server_inv_def)
  have "wire (kern (s_conn s)) = pairs_bytes ?rs"
    using live_side_drained [OF sp(1) s(2)] sp(2) calls_ok_answers [OF ok] by (auto simp: wc answers_to_def)
  then have later: "drop d (pairs_bytes ?rs) = []" by (simp add: ud(2))
  from pc(3) obtain k where k: "k \<le> length calls" "id2session (channel c) = waiting_calls Map.empty (int k) (drop k calls)"
    "filter completes (effects (channel c)) = map (call_effect srv) (take k calls)"
    and at: "client_at ph pc (ib_pos (read_buf ?c)) (length (pairs_bytes (take k ?rs))) (input_left ?c @ drop d (pairs_bytes ?rs)) (drop k ?rs)"
    by (auto simp: reading_def)
  have "length (input_left ?c @ drop d (pairs_bytes ?rs)) < client_need pc" using st pc(1) later by (simp add: settled_def)
  from client_at_end [OF at this] have "k = length calls" using k(1) by simp
  then show "filter completes (effects (channel c)) = map (call_effect srv) calls" "id2session (channel c) = Map.empty" using k by simp_all
qed

text \<open>What has been completed at any time.\<close>

lemma pair_completed:
  assumes "pair_inv srv ser ph calls c s I edges u d"
  shows "\<exists>k. filter completes (effects (channel c)) = map (call_effect srv) (take k calls)"
proof -
  from assms have ci: "client_inv srv ser ph calls c d" by (simp add: pair_inv_def)
  then obtain sent pc ys where "calls = sent @ ys" "reading srv ph sent (drop d (pairs_bytes (responses srv sent))) pc (channel c)"
    using client_inv_parts [OF ci] by metis
  then obtain k where "k \<le> length sent" "calls = sent @ ys" "filter completes (effects (channel c)) = map (call_effect srv) (take k sent)"
    by (auto simp: reading_def)
  then show ?thesis by (intro exI [of _ k]) simp
qed

end
