(* ===== verification/Progress.thy ===== *)
theory Progress
  imports Main
begin

section \<open>Systems that come to an end\<close>

text \<open>
  Several parts of the program are step relations in which only a bounded amount of work can be
  done: the benchmark, an executor that was told to stop, the server over a ring, and clients
  with their server. What follows from an invariant and a measure of the work left is proved
  once, here; each of these theories interprets the locale on its own steps.
\<close>

locale ranked_system =
  fixes step :: "'w \<Rightarrow> 'w \<Rightarrow> bool" and inv :: "'w \<Rightarrow> bool" and work :: "'w \<Rightarrow> nat"
  assumes step_inv: "inv w \<Longrightarrow> step w w' \<Longrightarrow> inv w'"
    and step_work: "inv w \<Longrightarrow> step w w' \<Longrightarrow> work w' < work w"
begin

lemma steps_inv: "step\<^sup>*\<^sup>* w w' \<Longrightarrow> inv w \<Longrightarrow> inv w'"
  by (induction rule: rtranclp_induct) (use step_inv in blast)+

lemma no_infinite_run:
  assumes "inv w"
  shows "\<nexists>run. run 0 = w \<and> (\<forall>i. step (run i) (run (Suc i)))"
proof
  assume "\<exists>run. run 0 = w \<and> (\<forall>i. step (run i) (run (Suc i)))"
  then obtain run where run: "run 0 = w" "\<And>i. step (run i) (run (Suc i))" by blast
  have "inv (run i)" for i by (induction i) (use run assms step_inv in auto)
  then have "(run (Suc i), run i) \<in> measure work" for i using step_work run(2) by simp
  then show False using wf_measure [of work] unfolding wf_iff_no_infinite_down_chain by blast
qed

lemma reaches_end: "inv w \<Longrightarrow> \<exists>w'. step\<^sup>*\<^sup>* w w' \<and> \<not> (\<exists>w''. step w' w'')"
proof (induction "work w" arbitrary: w rule: less_induct)
  case less
  show ?case
  proof (cases "\<exists>u. step w u")
    case True
    then obtain u where u: "step w u" by blast
    with less.hyps [OF step_work [OF less.prems u]] step_inv [OF less.prems u] show ?thesis
      by (meson converse_rtranclp_into_rtranclp)
  qed blast
qed

end

end
