(* ===== verification/CallInvariant.thy ===== *)
theory CallInvariant
  imports CallPair Progress
begin

section \<open>All clients\<close>

text \<open>
  The invariant and the work left of the whole system, as a \<open>ranked_system\<close>, and what they give
  for every state that can be reached.
\<close>

definition at_pair :: "('m client_side \<Rightarrow> 's recv_pc session \<Rightarrow> interest \<Rightarrow> nat \<Rightarrow> nat \<Rightarrow> nat \<Rightarrow> 'r) \<Rightarrow> ('m, 's) call_world \<Rightarrow> 64 word \<Rightarrow> 'r" where
  "at_pair f w p = f (clients w p) (the (sessions (server_ex w) p)) (interest (server_ex w)) (s_edges w p) (up w p) (down w p)"

definition call_inv :: "64 word set \<Rightarrow> (header \<Rightarrow> byte list) \<Rightarrow> (byte list \<Rightarrow> header option) \<Rightarrow> 's rpc_server \<Rightarrow> (64 word \<Rightarrow> 'm call list) \<Rightarrow>
    ('m, 's) call_world \<Rightarrow> bool" where
  "call_inv P ser ph srv calls w \<longleftrightarrow> inj_on (\<lambda>p. fd_of (the (sessions (server_ex w) p))) P \<and>
     (\<forall>p \<in> P. p \<noteq> 0 \<and> calls_ok srv ser ph (calls p) \<and> sessions (server_ex w) p \<noteq> None \<and> this_ptr (s_conn (the (sessions (server_ex w) p))) = p \<and>
       at_pair (pair_inv srv ser ph (calls p)) w p)"

abbreviation work_at :: "(header \<Rightarrow> byte list) \<Rightarrow> 's rpc_server \<Rightarrow> (64 word \<Rightarrow> 'm call list) \<Rightarrow> ('m, 's) call_world \<Rightarrow> 64 word \<Rightarrow> nat" where
  "work_at ser srv calls w p \<equiv> at_pair (pair_work (length (pairs_bytes (requests ser (calls p)))) (length (pairs_bytes (responses srv (calls p))))) w p"

definition call_work :: "64 word set \<Rightarrow> (header \<Rightarrow> byte list) \<Rightarrow> 's rpc_server \<Rightarrow> (64 word \<Rightarrow> 'm call list) \<Rightarrow> ('m, 's) call_world \<Rightarrow> nat" where
  "call_work P ser srv calls w = (\<Sum>p \<in> P. work_at ser srv calls w p)"

text \<open>A step at \<open>p\<close> leaves the other clients and sessions as they are.\<close>

definition only_at :: "64 word \<Rightarrow> ('m, 's) call_world \<Rightarrow> ('m, 's) call_world \<Rightarrow> bool" where
  "only_at p w w' \<longleftrightarrow> (\<forall>q. q \<noteq> p \<longrightarrow> clients w' q = clients w q \<and> sessions (server_ex w') q = sessions (server_ex w) q \<and>
       s_edges w' q = s_edges w q \<and> up w' q = up w q \<and> down w' q = down w q) \<and>
     (\<forall>fd. fd \<noteq> fd_of (the (sessions (server_ex w) p)) \<longrightarrow> interest (server_ex w') fd = interest (server_ex w) fd) \<and>
     sessions (server_ex w') p \<noteq> None \<and> fd_of (the (sessions (server_ex w') p)) = fd_of (the (sessions (server_ex w) p)) \<and>
     this_ptr (s_conn (the (sessions (server_ex w') p))) = this_ptr (s_conn (the (sessions (server_ex w) p)))"

lemma call_step_at:
  assumes inv: "call_inv P ser ph srv calls w" and P: "finite P" "p \<in> P" and o: "only_at p w w'"
    and st: "at_pair (pair_inv srv ser ph (calls p)) w' p" "work_at ser srv calls w' p < work_at ser srv calls w p"
  shows "call_inv P ser ph srv calls w' \<and> call_work P ser srv calls w' < call_work P ser srv calls w"
proof -
  have same: "at_pair (pair_inv srv ser ph (calls q)) w' q = at_pair (pair_inv srv ser ph (calls q)) w q \<and> work_at ser srv calls w' q = work_at ser srv calls w q"
    if q: "q \<in> P" "q \<noteq> p" for q
  proof -
    have "fd_of (the (sessions (server_ex w) q)) \<noteq> fd_of (the (sessions (server_ex w) p))"
      using inv P(2) q by (auto simp: call_inv_def dest: inj_onD)
    then have "interest (server_ex w') (fd_of (the (sessions (server_ex w) q))) = interest (server_ex w) (fd_of (the (sessions (server_ex w) q)))"
      using o by (simp add: only_at_def)
    note eq = pair_interest [where I' = "interest (server_ex w')" and I = "interest (server_ex w)" and s = "the (sessions (server_ex w) q)", OF this]
    show ?thesis using o q(2) by (simp add: at_pair_def only_at_def eq)
  qed
  have fds: "fd_of (the (sessions (server_ex w') q)) = fd_of (the (sessions (server_ex w) q))" for q
    using o by (cases "q = p") (simp_all add: only_at_def)
  have "q \<noteq> 0 \<and> calls_ok srv ser ph (calls q) \<and> sessions (server_ex w') q \<noteq> None \<and> this_ptr (s_conn (the (sessions (server_ex w') q))) = q \<and>
      at_pair (pair_inv srv ser ph (calls q)) w' q" if q: "q \<in> P" for q
  proof (cases "q = p")
    case True
    then show ?thesis using inv o st(1) q by (simp add: call_inv_def only_at_def)
  next
    case False
    have "sessions (server_ex w') q = sessions (server_ex w) q" using o False by (simp add: only_at_def)
    then show ?thesis using inv same [OF q False] q by (simp add: call_inv_def)
  qed
  then have "call_inv P ser ph srv calls w'" using inv by (simp add: call_inv_def fds)
  moreover have "call_work P ser srv calls w' < call_work P ser srv calls w"
    unfolding call_work_def by (rule sum_strict_mono_ex1) (use P st(2) same in \<open>force+\<close>)
  ultimately show ?thesis by simp
qed

lemma call_invD:
  assumes "call_inv P ser ph srv calls w" and "p \<in> P"
  obtains s where "sessions (server_ex w) p = Some s" and "p \<noteq> 0" and "this_ptr (s_conn s) = p" and "calls_ok srv ser ph (calls p)"
    and "pair_inv srv ser ph (calls p) (clients w p) s (interest (server_ex w)) (s_edges w p) (up w p) (down w p)"
  using assms by (auto simp: call_inv_def at_pair_def)

lemma call_client_step:
  assumes "call_inv P ser ph srv calls w" and "finite P" "p \<in> P" and s: "sessions (server_ex w) p = Some s"
    and "pair_steps srv ser ph (calls p) (clients w p) s (interest (server_ex w)) (s_edges w p) (up w p) (down w p)
      c' s (interest (server_ex w)) (s_edges w p) (up w p) d'"
    and w': "w' = w\<lparr>clients := (clients w)(p := c'), down := (down w)(p := d')\<rparr>"
  shows "call_inv P ser ph srv calls w' \<and> call_work P ser srv calls w' < call_work P ser srv calls w"
  by (rule call_step_at [OF assms(1-3)]) (use assms(4-6) in \<open>simp_all add: only_at_def at_pair_def\<close>)

lemma call_server_step:
  assumes "call_inv P ser ph srv calls w" and "finite P" "p \<in> P" and s: "sessions (server_ex w) p = Some s"
    and "pair_steps srv ser ph (calls p) (clients w p) s (interest (server_ex w)) (s_edges w p) (up w p) (down w p)
      (clients w p) s' (interest ex') r' u' (down w p)"
    and ex': "sessions ex' = (sessions (server_ex w))(p \<mapsto> s')" "\<And>fd. fd \<noteq> fd_of s \<Longrightarrow> interest ex' fd = interest (server_ex w) fd"
    and id: "fd_of s' = fd_of s" "this_ptr (s_conn s') = this_ptr (s_conn s)"
    and w': "w' = w\<lparr>server_ex := ex', s_edges := (s_edges w)(p := r'), up := (up w)(p := u')\<rparr>"
  shows "call_inv P ser ph srv calls w' \<and> call_work P ser srv calls w' < call_work P ser srv calls w"
  by (rule call_step_at [OF assms(1-3)]) (use assms(4-10) in \<open>simp_all add: only_at_def at_pair_def\<close>)

lemma call_step_ok:
  assumes "call_step P ser ph srv w w'" and inv: "call_inv P ser ph srv calls w" and fin: "finite P"
  shows "call_inv P ser ph srv calls w' \<and> call_work P ser srv calls w' < call_work P ser srv calls w"
  using assms(1)
proof cases
  case (app_call p c call cs)
  from call_invD [OF inv app_call(2)] obtain s where s: "sessions (server_ex w) p = Some s"
    "pair_inv srv ser ph (calls p) (clients w p) s (interest (server_ex w)) (s_edges w p) (up w p) (down w p)" by blast
  from call_client_step [OF inv fin app_call(2) s(1) pair_call [OF s(2)]] app_call show ?thesis by simp
next
  case (client_task p c call ts room c')
  from call_invD [OF inv client_task(2)] obtain s where s: "sessions (server_ex w) p = Some s" "calls_ok srv ser ph (calls p)"
    "pair_inv srv ser ph (calls p) (clients w p) s (interest (server_ex w)) (s_edges w p) (up w p) (down w p)" by blast
  have t: "tasks (clients w p) = call # ts" using client_task by simp
  from pair_task [OF s(3,2) t client_task(5)] client_task(3,6)
  have "pair_steps srv ser ph (calls p) (clients w p) s (interest (server_ex w)) (s_edges w p) (up w p) (down w p)
      c' s (interest (server_ex w)) (s_edges w p) (up w p) (down w p)" by auto
  from call_client_step [OF inv fin client_task(2) s(1) this] client_task(1) show ?thesis by simp
next
  case (client_event p c i out e room c')
  from call_invD [OF inv client_event(2)] obtain s where s: "sessions (server_ex w) p = Some s" "calls_ok srv ser ph (calls p)"
    "pair_inv srv ser ph (calls p) (clients w p) s (interest (server_ex w)) (s_edges w p) (up w p) (down w p)" by blast
  from pair_client_event [OF s(3,2) client_event(4) [unfolded client_event(3)]] client_event(3,5)
  have "pair_steps srv ser ph (calls p) (clients w p) s (interest (server_ex w)) (s_edges w p) (up w p) (down w p)
      c' s (interest (server_ex w)) (s_edges w p) (up w p) (down w p)" by auto
  from call_client_step [OF inv fin client_event(2) s(1) this] client_event(1) show ?thesis by simp
next
  case (server_event p s i out e room ex')
  from call_invD [OF inv server_event(2)] server_event(3) have s: "p \<noteq> 0" "this_ptr (s_conn s) = p" "calls_ok srv ser ph (calls p)"
    "pair_inv srv ser ph (calls p) (clients w p) s (interest (server_ex w)) (s_edges w p) (up w p) (down w p)" by auto
  obtain s' J where
    h0: "epoll_handle (resume_read srv) (io_event p i out) (change_conn p (with_room room) (server_ex w))
      = Some (Inr ((server_ex w)\<lparr>sessions := (sessions (server_ex w))(p \<mapsto> s'), interest := J\<rparr>))"
    and h: "pair_steps srv ser ph (calls p) (clients w p) s (interest (server_ex w)) (s_edges w p) (up w p) (down w p)
        (clients w p) s' J e (up w p) (down w p)"
      "evolves_to (s_conn s) (s_conn s')" "\<And>fd. fd \<noteq> fd_of s \<Longrightarrow> J fd = interest (server_ex w) fd"
      by (rule pair_server_event [OF server_event(3) s(1,2,4,3) server_event(4)]) (rule that; (assumption | simp))
  have ex': "ex' = (server_ex w)\<lparr>sessions := (sessions (server_ex w))(p \<mapsto> s'), interest := J\<rparr>" using h0 server_event(5) by simp
  show ?thesis
    by (rule call_server_step [OF inv fin server_event(2,3), where s' = s' and ex' = ex' and r' = e and u' = "up w p"])
      (use h ex' server_event(1) in \<open>simp_all add: evolves_to_def\<close>)
next
  case (request_bytes_arrive p n)
  from call_invD [OF inv request_bytes_arrive(2)] obtain s where s: "sessions (server_ex w) p = Some s" "calls_ok srv ser ph (calls p)"
    "pair_inv srv ser ph (calls p) (clients w p) s (interest (server_ex w)) (s_edges w p) (up w p) (down w p)" by blast
  show ?thesis
    by (rule call_server_step [OF inv fin request_bytes_arrive(2) s(1), where r' = "s_edges w p + 1" and u' = "up w p + n" and
        s' = "s\<lparr>s_conn := deliver (take n (drop (up w p) (wire (kern (client_sock w p))))) (s_conn s)\<rparr>"])
      (use pair_request [OF s(3,2) request_bytes_arrive(3,4)] request_bytes_arrive(1) s(1) in \<open>simp_all add: change_conn_def\<close>)
next
  case (response_bytes_arrive p s n c bs)
  from call_invD [OF inv response_bytes_arrive(2)] response_bytes_arrive(3) have s: "calls_ok srv ser ph (calls p)"
    "pair_inv srv ser ph (calls p) (clients w p) s (interest (server_ex w)) (s_edges w p) (up w p) (down w p)" by auto
  from call_client_step [OF inv fin response_bytes_arrive(2,3) pair_response [OF s(2,1) response_bytes_arrive(4,5,7)]] response_bytes_arrive(1,6)
  show ?thesis by simp
qed

interpretation call_run: ranked_system "call_step P ser ph srv" "\<lambda>w. finite P \<and> call_inv P ser ph srv calls w" "call_work P ser srv calls"
  for P ser ph srv calls
  by unfold_locales (use call_step_ok in blast)+

text \<open>No task and no event that is due in such a state faults or hangs.\<close>

lemma call_no_fault:
  assumes inv: "call_inv P ser ph srv calls w"
  shows "\<not> call_faults P ser ph srv w"
proof
  assume "call_faults P ser ph srv w"
  then obtain p where p: "p \<in> P" and f: "client_faults ser ph (clients w p) \<or> server_faults srv p w" by (auto simp: call_faults_def)
  from call_invD [OF inv p] obtain s where s: "sessions (server_ex w) p = Some s" "p \<noteq> 0" "this_ptr (s_conn s) = p" and ok: "calls_ok srv ser ph (calls p)"
    and pi: "pair_inv srv ser ph (calls p) (clients w p) s (interest (server_ex w)) (s_edges w p) (up w p) (down w p)" by blast
  from f show False
  proof
    assume "client_faults ser ph (clients w p)"
    then show False unfolding client_faults_def
      using pair_task [OF pi ok] pair_client_event [OF pi ok] by metis
  next
    assume "server_faults srv p w"
    then obtain i out e room where ev: "reported i out (s_conn s) (interest (server_ex w)) (s_edges w p) e room"
      and no: "\<And>ex'. epoll_handle (resume_read srv) (io_event p i out) (change_conn p (with_room room) (server_ex w)) \<noteq> Some (Inr ex')"
      using s(1) by (auto simp: server_faults_def)
    from pair_server_event [OF s pi ok ev] no show False by blast
  qed
qed

lemma call_progress:
  assumes inv: "call_inv P ser ph srv calls w" and p: "p \<in> P"
  shows "\<exists>k s. filter completes (effects (channel (clients w p))) = map (call_effect srv) (take k (calls p)) \<and>
    prefix (wire (kern (client_sock w p))) (pairs_bytes (requests ser (calls p))) \<and>
    sessions (server_ex w) p = Some s \<and> prefix (wire (kern (s_conn s))) (pairs_bytes (responses srv (calls p)))"
proof -
  from call_invD [OF inv p] obtain s where s: "sessions (server_ex w) p = Some s" and ok: "calls_ok srv ser ph (calls p)"
    and pi: "pair_inv srv ser ph (calls p) (clients w p) s (interest (server_ex w)) (s_edges w p) (up w p) (down w p)" by blast
  have "client_inv srv ser ph (calls p) (clients w p) (down w p)" using pi by (simp add: pair_inv_def)
  then obtain sent ys where c: "calls p = sent @ ys" "output_of (client_sock w p) = pairs_bytes (requests ser sent)" using client_inv_sent by metis
  note a = pair_inv_answers [OF pi ok c]
  have "prefix (wire (kern (client_sock w p))) (pairs_bytes (requests ser (calls p)))"
    unfolding c(1) requests_append pairs_bytes_append using a(2) by (rule prefix_prefix)
  moreover have "prefix (wire (kern (s_conn s))) (pairs_bytes (responses srv (calls p)))"
    unfolding c(1) responses_append pairs_bytes_append using a(3) by (intro prefix_prefix) (auto simp: output_of_def prefix_def)
  ultimately show ?thesis using pair_completed [OF pi] s by blast
qed

lemma call_stuck:
  assumes inv: "call_inv P ser ph srv calls w" and p: "p \<in> P" and stuck: "\<And>w'. \<not> call_step P ser ph srv w w'"
  shows "filter completes (effects (channel (clients w p))) = map (call_effect srv) (calls p)" and "id2session (channel (clients w p)) = Map.empty"
proof -
  let ?c = "clients w p"
  from call_invD [OF inv p] obtain s where s: "sessions (server_ex w) p = Some s" "p \<noteq> 0" "this_ptr (s_conn s) = p" and ok: "calls_ok srv ser ph (calls p)"
    and pi: "pair_inv srv ser ph (calls p) ?c s (interest (server_ex w)) (s_edges w p) (up w p) (down w p)" by blast
  have room: "has_room [TxTake 1]" "tx_steady [TxTake 1]" by (simp_all add: has_room_def)
  have todo: "todo ?c = []"
  proof (cases "todo ?c")
    case (Cons call cs)
    from call_step.app_call [where ser = ser and ph = ph and srv = srv, OF p refl Cons] stuck show ?thesis by blast
  qed
  have tasks: "tasks ?c = []"
  proof (cases "tasks ?c")
    case (Cons call ts)
    from pair_task [OF pi ok Cons room(2)] call_step.client_task [OF p refl Cons room(2)] stuck show ?thesis by metis
  qed
  have client: False if ev: "reported i out (chan_conn (channel ?c)) (c_interest ?c) (c_edges ?c) e [TxTake 1]" for i out e
  proof -
    from pair_client_event [OF pi ok ev] obtain c' where "client_handle ph i out (client_room [TxTake 1] (?c\<lparr>c_edges := e\<rparr>)) = Some (Inr c')" by blast
    from call_step.client_event [where ser = ser and srv = srv, OF p refl ev this] stuck show False by blast
  qed
  have server: False if ev: "reported i out (s_conn s) (interest (server_ex w)) (s_edges w p) e [TxTake 1]" for i out e
  proof -
    from pair_server_event [OF s pi ok ev] obtain ex' where
      "epoll_handle (resume_read srv) (io_event p i out) (change_conn p (with_room [TxTake 1]) (server_ex w)) = Some (Inr ex')" by blast
    from call_step.server_event [where ser = ser and ph = ph, OF p s(1) ev this] stuck show False by blast
  qed
  have "wants_in (chan_conn (channel ?c)) (c_interest ?c)" "wants_in (s_conn s) (interest (server_ex w))"
    using pi live_side_in by (auto simp: pair_inv_def client_inv_def server_inv_def)
  then have "c_edges ?c = 0" "\<not> wants_out (chan_conn (channel ?c)) (c_interest ?c)" "s_edges w p = 0" "\<not> wants_out (s_conn s) (interest (server_ex w))"
    using client [of True False 0] client [of False True "c_edges ?c"] server [of True False 0] server [of False True "s_edges w p"] room
    by (auto simp: reported_def)
  moreover have "up w p = length (wire (kern (chan_conn (channel ?c))))"
    using stuck call_step.request_bytes_arrive [OF p, of "length (wire (kern (chan_conn (channel ?c)))) - up w p" w] pair_inv_bounds(3) [OF pi ok] by force
  moreover have "down w p = length (wire (kern (s_conn s)))"
    using stuck call_step.response_bytes_arrive [OF p s(1), of "length (wire (kern (s_conn s))) - down w p"] pair_inv_bounds(4) [OF pi ok] by force
  ultimately show "filter completes (effects (channel ?c)) = map (call_effect srv) (calls p)" "id2session (channel ?c) = Map.empty"
    using pair_done [OF pi ok todo tasks] by blast+
qed

end
