(* ===== verification/CallStart.thy ===== *)
theory CallStart
  imports CallInvariant
begin

section \<open>How it starts\<close>

text \<open>
  The first run of the coroutines on either side, from new connections, leaves a state with the
  invariant. An example of two clients, for the witnesses.
\<close>

subsection \<open>The first run of the coroutines\<close>

definition fresh_link :: "connection \<Rightarrow> bool" where
  "fresh_link c \<longleftrightarrow> fresh_conn c \<and> \<not> is_dummy c \<and> rx (kern c) = [] \<and> tx_steady (tx (kern c))"

lemma fresh_link_starts:
  assumes "fresh_link c"
  obtains c1 where "send_fn S_loop c = Some (Inr c1)" and "events c1 = []" and "events c = []" and "serving (RegisterRead_suspend c1)"
    and "output_of (RegisterRead_suspend c1) = []" and "ib_unread (read_buf (RegisterRead_suspend c1)) = []"
    and "ib_pos (read_buf (RegisterRead_suspend c1)) = 0" and "rx (kern (RegisterRead_suspend c1)) = []"
    and "kind c1 = PollConnection" and "is_dummy c1 = is_dummy c" and "this_ptr c1 = this_ptr c" and "sockfd (sock c1) = sockfd (sock c)"
proof -
  from assms obtain s dummy this rg j where c: "c = Connection PollConnection s dummy this rg j"
    and s: "\<not> sock_closed s" "\<not> shut_wr (os s)" "wire (os s) = []" by (auto simp: fresh_link_def fresh_conn_def)
  let ?c1 = "c\<lparr>write_handle := True, send_frame := S_write\<rparr>"
  have "to_write_bytes (OutputBuffer j) = 0" by (simp add: OutputBuffer_def new_block_def)
  then have "send_fn S_loop c = Some (Inr ?c1)"
    using s by (simp add: send_fn.simps c Connection_def conn_closed_def WaitWrite_ready_def
        conn_write_bytes_def ob_bytes_def WaitWrite_suspend_def)
  moreover have "serving (RegisterRead_suspend ?c1)"
    using s assms InputBuffer_inv [of j] OutputBuffer_inv [of j] InputBuffer_unread [of j]
    by (simp add: serving_def conn_inv_def RegisterRead_suspend_def add_event_def c Connection_def conn_closed_def fresh_link_def)
  moreover have "ib_pos (InputBuffer j) = 0"
    by (simp add: ib_pos_def InputBuffer_def new_block_def load_def upd_def)
  ultimately show thesis
    using that [of ?c1] assms s OutputBuffer_pending [of j] InputBuffer_unread [of j]
    by (simp add: RegisterRead_suspend_def add_event_def c Connection_def output_of_def fresh_link_def)
qed

lemma started_side:
  assumes k: "kind c1 = PollConnection" "\<not> is_dummy c1" "I (sockfd (sock c1)) = None"
    and ev: "evolves_to (RegisterRead_suspend c1) c'" and sv: "serving c'" "rx (kern c') = []" "output_of c' = []"
  shows "live_side c' (apply_events c' (new_events c1 c') I)"
proof -
  let ?c2 = "RegisterRead_suspend c1" and ?m = "\<lparr>ep_in = True, ep_out = False, ep_et = True\<rparr>"
  have c2: "events ?c2 = events c1 @ [EV_READ]" "sockfd (sock ?c2) = sockfd (sock c1)" "this_ptr ?c2 = this_ptr c1" "kind ?c2 = kind c1" "is_dummy ?c2 = is_dummy c1"
    by (simp_all add: RegisterRead_suspend_def add_event_def)
  have id: "sockfd (sock c') = sockfd (sock c1)" "this_ptr c' = this_ptr c1" using ev c2 by (simp_all add: evolves_to_def)
  from ev obtain es where "events c' = events ?c2 @ es" by (auto simp: evolves_to_def asks_for_def)
  then have n: "new_events c1 c' = EV_READ # new_events ?c2 c'" by (simp add: c2(1))
  have "snd (epoll_add_event False EV_READ c' I) = I(sockfd (sock ?c2) \<mapsto> (this_ptr ?c2, ?m))"
    using k(3) by (simp add: epoll_add_event_def epoll_ctl_def Let_def id c2)
  moreover have "live_side c' (apply_events c' (new_events ?c2 c') (I(sockfd (sock ?c2) \<mapsto> (this_ptr ?c2, ?m))))"
    by (rule live_side_after [where m = ?m, OF ev sv(1)]) (use k c2 sv in \<open>simp_all add: output_of_def\<close>)
  ultimately show ?thesis by (simp add: n)
qed

subsection \<open>The client\<close>

definition client_start :: "(byte list \<Rightarrow> header option) \<Rightarrow> connection \<Rightarrow> 'm call list \<Rightarrow> 'm client_side res option" where
  "client_start ph c calls = ro_bind (start_channel ph c) (\<lambda>(fr, ch).
     Some (Inr \<lparr>todo = calls, tasks = [], channel = ch, c_frame = fr,
       c_interest = apply_events (chan_conn ch) (new_events c (chan_conn ch)) (\<lambda>_. None), c_edges = 0\<rparr>))"

lemma client_starts:
  assumes "fresh_link c"
  shows "\<exists>c'. client_start ph c calls = Some (Inr c') \<and> client_inv srv ser ph calls c' 0 \<and> wire (kern (chan_conn (channel c'))) = []"
proof -
  from assms obtain c1 where c1: "send_fn S_loop c = Some (Inr c1)" "events c1 = []" "events c = []" "serving (RegisterRead_suspend c1)"
    "output_of (RegisterRead_suspend c1) = []" "ib_unread (read_buf (RegisterRead_suspend c1)) = []"
    "ib_pos (read_buf (RegisterRead_suspend c1)) = 0" "rx (kern (RegisterRead_suspend c1)) = []" "kind c1 = PollConnection" "is_dummy c1 = is_dummy c"
    by (rule fresh_link_starts)
  let ?ch = "put_conn (RegisterRead_suspend c1) (ClientChannel c1) :: 'a client_channel"
  have ok: "answerable srv ph ([] :: 'a call list)" by (simp add: answerable_def)
  have rd: "reading srv ph [] [] C_header_len ?ch" using c1 by (simp add: reading_def ClientChannel_def)
  have "rx_pauses (rx (kern (chan_conn ?ch))) = 0" using c1(8) by simp
  from client_reads [OF rd ok this] obtain pc' ch' where
    r: "resume_coroutine (client_step ph) client_finish chan_conn (Some C_header_len) ?ch = Some (Inr (Some pc', ch'))"
    and rd': "reading srv ph [] [] pc' ch'" and or: "only_read (RegisterRead_suspend c1) (chan_conn ch')"
    and st: "rx (kern (chan_conn ch')) = []" "length (ib_unread (read_buf (chan_conn ch'))) < client_need pc'" by auto
  have "start_channel ph c = Some (Inr (Some pc', ch'))"
    using r c1(1) client.serving_resume [of ?ch ph C_header_len] c1(4)
    by (simp add: start_channel_def client_recv_fn_def client_recv_run_def ClientChannel_def)
  moreover have out: "output_of (chan_conn ch') = []" using or c1(5) by (simp add: only_read_def output_of_def)
  moreover have "live_side (chan_conn ch') (apply_events (chan_conn ch') (new_events c1 (chan_conn ch')) (\<lambda>_. None))"
    using assms c1(9,10) or rd' st(1) out by (intro started_side) (simp_all add: fresh_link_def only_read_def reading_def)
  ultimately show ?thesis
    using rd' st c1(2,3) by (auto simp: client_start_def client_inv_def settled_def output_of_def)
qed

subsection \<open>The server\<close>

lemma session_starts:
  assumes "fresh_link c" and I: "I (sockfd (sock c)) = None"
  obtains c1 c' where "send_fn S_loop c = Some (Inr c1)" and "new_events c c1 = []" and "recv_fn srv c1 = Some (Inr (Some R_header_len, c'))"
    and "server_inv srv req \<lparr>s_conn = c', s_frame = Some R_header_len\<rparr> (apply_events c' (new_events c1 c') I) False 0"
    and "sockfd (sock c') = sockfd (sock c)" and "this_ptr c' = this_ptr c"
proof -
  from assms(1) obtain c1 where c1: "send_fn S_loop c = Some (Inr c1)" "events c1 = []" "events c = []" "serving (RegisterRead_suspend c1)"
    "output_of (RegisterRead_suspend c1) = []" "ib_unread (read_buf (RegisterRead_suspend c1)) = []"
    "ib_pos (read_buf (RegisterRead_suspend c1)) = 0" "rx (kern (RegisterRead_suspend c1)) = []" "kind c1 = PollConnection" "is_dummy c1 = is_dummy c"
    "this_ptr c1 = this_ptr c" "sockfd (sock c1) = sockfd (sock c)"
    by (rule fresh_link_starts)
  let ?c2 = "RegisterRead_suspend c1"
  have spec: "server_spec srv R_header_len 0 [] = ([], Waiting R_header_len 0 [])" by (simp add: server_spec.simps)
  have "server.run_ok srv False False ?c2 [] (Waiting R_header_len 0 []) (recv_run srv R_header_len ?c2)"
    unfolding recv_run_def using c1 spec by (intro server.run_refines) (simp_all add: out_fits_def output_of_def)
  then obtain c' where c': "recv_run srv R_header_len ?c2 = Some (Inr (Some R_header_len, c'))" "serving c'" "output_of c' = []"
    "ib_pos (read_buf c') = 0" "ib_unread (read_buf c') = []" "rx (kern c') = []"
    using c1(5,8) by (auto simp: server.run_ok_def)
  have ev: "evolves_to ?c2 c'" by (rule recv_run_evolves [OF c'(1)])
  have "live_side c' (apply_events c' (new_events c1 c') I)"
    using assms c1(9,10,12) c'(2,3,6) by (intro started_side [OF _ _ _ ev]) (simp_all add: fresh_link_def)
  then have "server_inv srv req \<lparr>s_conn = c', s_frame = Some R_header_len\<rparr> (apply_events c' (new_events c1 c') I) False 0"
    using c' spec by (auto simp: server_inv_def)
  moreover have "sockfd (sock c') = sockfd (sock c)" "this_ptr c' = this_ptr c"
    using ev c1(11,12) by (simp_all add: evolves_to_def RegisterRead_suspend_def add_event_def)
  ultimately show thesis using that [of c1 c'] c1(1,2,3) c'(1) by (simp add: recv_fn_def)
qed

lemma drain_starts_sessions:
  assumes "task_queue ex = start_tasks ps" and "distinct ps" and "inj_on (\<lambda>p. sockfd (sock (c p))) (set ps)"
    and "\<And>p. p \<in> set ps \<Longrightarrow> sessions ex p = Some \<lparr>s_conn = c p, s_frame = None\<rparr> \<and> fresh_link (c p) \<and> interest ex (sockfd (sock (c p))) = None"
  shows "\<exists>ex'. drain (run_server_task epoll_commit srv) ex = Some (Inr ex') \<and>
    (\<forall>p \<in> set ps. \<exists>s. sessions ex' p = Some s \<and> server_inv srv req s (interest ex') False 0 \<and>
      fd_of s = sockfd (sock (c p)) \<and> this_ptr (s_conn s) = this_ptr (c p)) \<and>
    (\<forall>q. q \<notin> set ps \<longrightarrow> sessions ex' q = sessions ex q) \<and>
    (\<forall>fd. fd \<notin> (\<lambda>p. sockfd (sock (c p))) ` set ps \<longrightarrow> interest ex' fd = interest ex fd)"
  using assms
proof (induction ps arbitrary: ex)
  case (Cons p ps)
  let ?run = "run_server_task epoll_commit srv" and ?fd = "\<lambda>p. sockfd (sock (c p))"
  have p: "sessions ex p = Some \<lparr>s_conn = c p, s_frame = None\<rparr>" "fresh_link (c p)" "interest ex (?fd p) = None" using Cons.prems(4) [of p] by auto
  from session_starts [where I = "interest ex" and c = "c p" and srv = srv and req = req, OF p(2,3)] obtain c1 c' where
    c1: "send_fn S_loop (c p) = Some (Inr c1)" "new_events (c p) c1 = []" "recv_fn srv c1 = Some (Inr (Some R_header_len, c'))"
      "server_inv srv req \<lparr>s_conn = c', s_frame = Some R_header_len\<rparr> (apply_events c' (new_events c1 c') (interest ex)) False 0"
      "sockfd (sock c') = ?fd p" "this_ptr c' = this_ptr (c p)" by blast
  let ?ex1 = "epoll_commit p (c p) c1 None (ex\<lparr>task_queue := RunRecv p # start_tasks ps\<rparr>)"
  let ?ex2 = "epoll_commit p c1 c' (Some R_header_len) (?ex1\<lparr>task_queue := start_tasks ps\<rparr>)"
  have "drain ?run ex = drain ?run ?ex1"
    by (rule drain_Cons [where t = "RunSend p" and ts = "RunRecv p # start_tasks ps"]) (use Cons.prems(1) p(1) c1(1) in simp_all)
  also have "\<dots> = drain ?run ?ex2"
    by (rule drain_Cons [where t = "RunRecv p" and ts = "start_tasks ps"]) (use c1(3) in simp_all)
  finally have d: "drain ?run ex = drain ?run ?ex2" .
  have i2: "interest ?ex2 = apply_events c' (new_events c1 c') (interest ex)" by (simp add: epoll_commit_def c1(2))
  have other: "fd \<noteq> ?fd p \<Longrightarrow> interest ?ex2 fd = interest ex fd" for fd unfolding i2 using apply_events_other [of fd c'] c1(5) by simp
  have ps: "p \<notin> set ps" "distinct ps" "inj_on ?fd (set ps)" "?fd p \<notin> ?fd ` set ps" using Cons.prems(2,3) by (auto simp: inj_on_def)
  have "sessions ?ex2 q = Some \<lparr>s_conn = c q, s_frame = None\<rparr> \<and> fresh_link (c q) \<and> interest ?ex2 (?fd q) = None" if "q \<in> set ps" for q
  proof -
    have "?fd q \<noteq> ?fd p" "q \<noteq> p" using that ps(1,4) by (metis image_eqI, auto)
    then show ?thesis using Cons.prems(4) [of q] that other [of "?fd q"] by simp
  qed
  from Cons.IH [OF _ ps(2,3) this] obtain ex' where
    ih: "drain ?run ?ex2 = Some (Inr ex')" "\<forall>p \<in> set ps. \<exists>s. sessions ex' p = Some s \<and> server_inv srv req s (interest ex') False 0 \<and>
      fd_of s = ?fd p \<and> this_ptr (s_conn s) = this_ptr (c p)" "\<forall>q. q \<notin> set ps \<longrightarrow> sessions ex' q = sessions ?ex2 q"
      "\<forall>fd. fd \<notin> ?fd ` set ps \<longrightarrow> interest ex' fd = interest ?ex2 fd" by auto
  have "sessions ex' p = Some \<lparr>s_conn = c', s_frame = Some R_header_len\<rparr>" using ih(3) ps(1) by simp
  moreover have "interest ex' (?fd p) = apply_events c' (new_events c1 c') (interest ex) (?fd p)" using ih(4) ps(4) i2 by simp
  then have "server_inv srv req \<lparr>s_conn = c', s_frame = Some R_header_len\<rparr> (interest ex') False 0"
    by (intro server_inv_interest [OF c1(4)]) (simp add: c1(5))
  ultimately show ?case using d ih other c1(5,6) by (intro exI [of _ ex']) auto
qed (simp add: drain_Nil)

subsection \<open>The system\<close>

text \<open>
  The server accepted the connections \<open>as\<close> (descriptor and address), and its executor went through
  its first turn, in which the coroutines of all of them start; the channels of the clients have
  started too, and no bytes have been sent.
\<close>

definition call_start :: "(byte list \<Rightarrow> header option) \<Rightarrow> 's rpc_server \<Rightarrow> (int \<Rightarrow> 64 word \<Rightarrow> connection) \<Rightarrow> (64 word \<Rightarrow> connection) \<Rightarrow>
    (64 word \<Rightarrow> 'm call list) \<Rightarrow> (int \<times> 64 word) list \<Rightarrow> ('s recv_pc, server_task) epoll_executor \<Rightarrow> ('m, 's) call_world \<Rightarrow> bool" where
  "call_start ph srv mk link calls as ex w \<longleftrightarrow>
     poll_turn (epoll_handle (resume_read srv)) (run_server_task epoll_commit srv) None (server_accepts epoll_spawn mk as ex) = Some (Inr (server_ex w)) \<and>
     (\<forall>p \<in> snd ` set as. client_start ph (link p) (calls p) = Some (Inr (clients w p))) \<and>
     s_edges w = (\<lambda>_. 0) \<and> up w = (\<lambda>_. 0) \<and> down w = (\<lambda>_. 0)"

definition call_setup :: "(header \<Rightarrow> byte list) \<Rightarrow> (byte list \<Rightarrow> header option) \<Rightarrow> 's rpc_server \<Rightarrow> (int \<Rightarrow> 64 word \<Rightarrow> connection) \<Rightarrow> (64 word \<Rightarrow> connection) \<Rightarrow>
    (64 word \<Rightarrow> 'm call list) \<Rightarrow> (int \<times> 64 word) list \<Rightarrow> ('s recv_pc, server_task) epoll_executor \<Rightarrow> bool" where
  "call_setup ser ph srv mk link calls as ex \<longleftrightarrow> task_queue ex = [] \<and> distinct (map fst as) \<and> distinct (map snd as) \<and>
     (\<forall>(fd, p) \<in> set as. fd \<noteq> -1 \<and> p \<noteq> 0 \<and> interest ex fd = None \<and> fresh_link (mk fd p) \<and> sockfd (sock (mk fd p)) = fd \<and> this_ptr (mk fd p) = p \<and>
        fresh_link (link p) \<and> calls_ok srv ser ph (calls p))"

lemma server_accepts_interest: "interest (server_accepts epoll_spawn mk as ex) = interest ex"
  by (induction as arbitrary: ex) (simp_all add: server_accept_def epoll_spawn_def Let_def)

lemma call_start_server:
  assumes su: "call_setup ser ph srv mk link calls as ex"
  shows "\<exists>ex'. poll_turn (epoll_handle (resume_read srv)) (run_server_task epoll_commit srv) None (server_accepts epoll_spawn mk as ex) = Some (Inr ex') \<and>
    (\<forall>(fd, p) \<in> set as. \<exists>s. sessions ex' p = Some s \<and> server_inv srv [] s (interest ex') False 0 \<and> fd_of s = fd \<and> this_ptr (s_conn s) = p)"
proof -
  let ?ex = "server_accepts epoll_spawn mk as ex" and ?run = "run_server_task epoll_commit srv"
  define c where "c p = mk (the (map_of (map prod.swap as) p)) p" for p
  have d: "distinct (map snd as)" "distinct (map fst as)" using su by (simp_all add: call_setup_def)
  have c: "c p = mk fd p" "map_of (map prod.swap as) p = Some fd" if "(fd, p) \<in> set as" for fd p
    using accepted_fd [OF d(1) that] by (simp_all add: c_def)
  have a: "(fd, p) \<in> set as \<Longrightarrow> fd \<noteq> -1 \<and> interest ex fd = None \<and> fresh_link (mk fd p) \<and> sockfd (sock (mk fd p)) = fd \<and> this_ptr (mk fd p) = p" for fd p
    using su by (auto simp: call_setup_def)
  have "\<forall>a \<in> set as. fst a \<noteq> -1" using a by force
  from epoll.server_accepts_effect [OF this d(1), of mk ex] su
  have eff: "task_queue ?ex = start_tasks (map snd as)" "\<And>p. sessions ?ex p = (case map_of (map prod.swap as) p of None \<Rightarrow> sessions ex p
       | Some fd \<Rightarrow> Some \<lparr>s_conn = mk fd p, s_frame = None\<rparr>)" by (simp_all add: call_setup_def)
  have inj: "inj_on (\<lambda>p. sockfd (sock (c p))) (set (map snd as))"
  proof (rule inj_onI)
    fix p q assume "p \<in> set (map snd as)" "q \<in> set (map snd as)" and eq: "sockfd (sock (c p)) = sockfd (sock (c q))"
    then obtain fd fd' where m: "(fd, p) \<in> set as" "(fd', q) \<in> set as" by auto
    then have "fd = fd'" using eq c(1) [OF m(1)] c(1) [OF m(2)] a by simp
    then show "p = q" using m d(2) by (metis eq_key_imp_eq_value)
  qed
  have "sessions ?ex p = Some \<lparr>s_conn = c p, s_frame = None\<rparr> \<and> fresh_link (c p) \<and> interest ?ex (sockfd (sock (c p))) = None"
    if p: "p \<in> set (map snd as)" for p
  proof -
    from p obtain fd where "(fd, p) \<in> set as" by auto
    with c [OF this] a [OF this] show ?thesis by (simp add: eff(2) server_accepts_interest)
  qed
  from drain_starts_sessions [where req = "[]" and srv = srv, OF eff(1) _ inj this] d(1) obtain ex' where
    ex': "drain ?run ?ex = Some (Inr ex')" "\<forall>p \<in> set (map snd as). \<exists>s. sessions ex' p = Some s \<and> server_inv srv [] s (interest ex') False 0 \<and>
      fd_of s = sockfd (sock (c p)) \<and> this_ptr (s_conn s) = this_ptr (c p)" by auto
  have "\<exists>s. sessions ex' p = Some s \<and> server_inv srv [] s (interest ex') False 0 \<and> fd_of s = fd \<and> this_ptr (s_conn s) = p"
    if m: "(fd, p) \<in> set as" for fd p
    using ex'(2) c(1) [OF m] a [OF m] m by force
  then show ?thesis using ex'(1) by (auto simp: poll_turn_def Let_def)
qed

lemma call_start_exists:
  assumes "call_setup ser ph srv mk link calls as ex"
  shows "\<exists>w. call_start ph srv mk link calls as ex w"
proof -
  have "\<exists>c'. client_start ph (link p) (calls p) = Some (Inr c')" if "p \<in> snd ` set as" for p
  proof -
    have "fresh_link (link p)" using assms that by (auto simp: call_setup_def)
    from client_starts [OF this, where srv = srv and ser = ser] show ?thesis by blast
  qed
  then obtain cs where "\<And>p. p \<in> snd ` set as \<Longrightarrow> client_start ph (link p) (calls p) = Some (Inr (cs p))" by metis
  moreover obtain ex' where "poll_turn (epoll_handle (resume_read srv)) (run_server_task epoll_commit srv) None (server_accepts epoll_spawn mk as ex) = Some (Inr ex')"
    using call_start_server [OF assms] by blast
  ultimately show ?thesis
    by (intro exI [of _ "\<lparr>clients = cs, server_ex = ex', s_edges = (\<lambda>_. 0), up = (\<lambda>_. 0), down = (\<lambda>_. 0)\<rparr>"]) (simp add: call_start_def)
qed

lemma call_start_inv:
  assumes su: "call_setup ser ph srv mk link calls as ex" and w: "call_start ph srv mk link calls as ex w"
  shows "call_inv (snd ` set as) ser ph srv calls w"
proof -
  have d: "distinct (map fst as)" using su by (simp add: call_setup_def)
  from call_start_server [OF su] w have s: "\<exists>s. sessions (server_ex w) p = Some s \<and> server_inv srv [] s (interest (server_ex w)) False 0 \<and> fd_of s = fd \<and> this_ptr (s_conn s) = p"
    if "(fd, p) \<in> set as" for fd p using that by (auto simp: call_start_def)
  have "inj_on (\<lambda>p. fd_of (the (sessions (server_ex w) p))) (snd ` set as)"
  proof (rule inj_onI)
    fix p q assume "p \<in> snd ` set as" "q \<in> snd ` set as" and eq: "fd_of (the (sessions (server_ex w) p)) = fd_of (the (sessions (server_ex w) q))"
    then obtain fd fd' where m: "(fd, p) \<in> set as" "(fd', q) \<in> set as" by auto
    then have "fd = fd'" using eq s [OF m(1)] s [OF m(2)] by auto
    then show "p = q" using m d by (metis eq_key_imp_eq_value)
  qed
  moreover have "p \<noteq> 0 \<and> calls_ok srv ser ph (calls p) \<and> sessions (server_ex w) p \<noteq> None \<and> this_ptr (s_conn (the (sessions (server_ex w) p))) = p \<and>
       at_pair (pair_inv srv ser ph (calls p)) w p" if "p \<in> snd ` set as" for p
  proof -
    from that obtain fd where m: "(fd, p) \<in> set as" by auto
    with su have st: "p \<noteq> 0" "calls_ok srv ser ph (calls p)" "fresh_link (link p)" by (auto simp: call_setup_def)
    from client_starts [OF st(3), where ph = ph and calls = "calls p" and srv = srv and ser = ser] w that
    have "client_inv srv ser ph (calls p) (clients w p) 0" "wire (kern (client_sock w p)) = []" by (auto simp: call_start_def)
    with s [OF m] st(1,2) w show ?thesis by (auto simp: at_pair_def pair_inv_def call_start_def)
  qed
  ultimately show ?thesis by (simp add: call_inv_def)
qed

subsection \<open>Two clients\<close>

text \<open>For the witnesses: two clients with two calls each.\<close>

definition call_link :: "int \<Rightarrow> 64 word \<Rightarrow> connection" where
  "call_link fd p = Connection PollConnection
     (Socket (\<lambda>_. (0, 0)) (\<lambda>_. (0, 0)) (\<lambda>_. []) \<lparr>rx = [], tx = [], wire = [], shut_wr = False\<rparr> fd)
     False p \<lparr>sq_entries = 16384, sq = [], submitted = []\<rparr> (\<lambda>_ _. 0)"

definition call_executor :: "(byte list recv_pc, server_task) epoll_executor" where
  "call_executor = EpollExecutor False False 2 ((call_link 3 2)\<lparr>is_dummy := True\<rparr>)"

lemma call_link_fresh: "fresh_link (call_link fd p)" "sockfd (sock (call_link fd p)) = fd" "this_ptr (call_link fd p) = p"
proof -
  have "fresh_conn (call_link fd p)" by (auto simp: call_link_def fresh_conn_def Connection_def Socket_def Let_def)
  then show "fresh_link (call_link fd p)" by (simp add: fresh_link_def call_link_def Connection_def Socket_def Let_def)
qed (simp_all add: call_link_def Connection_def Socket_def Let_def)

lemma two_calls_ok: "calls_ok id_server id_header (parse_id_header RESPONSE) two_calls"
  using two_calls_headers by (simp add: calls_ok_def answerable_def two_calls_messages two_calls_outcome)

lemma two_clients_setup: "call_setup id_header (parse_id_header RESPONSE) id_server call_link (call_link 9) (\<lambda>_. two_calls) [(5, 4), (6, 8)] call_executor"
  by (simp add: call_setup_def two_calls_ok call_link_fresh call_executor_def EpollExecutor_def epoll_ctl_def)

end
