(* ===== verification/ClientClose.thy ===== *)
theory ClientClose
  imports CallEnds
begin

section \<open>A channel whose server has closed the connection\<close>

text \<open>
  What becomes of a channel and of its calls when the stream of responses ends. Nothing tells
  the callers, and the writing coroutine that every later call resumes is gone: its frame is
  destroyed when it ends, as \<open>final_suspend\<close> does not suspend (src/scheduler/task.h).
\<close>

lemma client_read_bytes:
  assumes "ib_inv (read_buf c)" and "length (ib_unread (read_buf c)) < client_need pc"
  shows "pc = C_header_len \<Longrightarrow> conn_read_bytes c < 4" "pc = C_response_len h \<Longrightarrow> conn_read_bytes c < 4"
    and "pc = C_header len \<Longrightarrow> conn_read_bytes c < ucast len" "pc = C_response h len \<Longrightarrow> conn_read_bytes c < ucast len"
  using assms by (simp_all add: word_less_nat_alt unat_ucast_len ib_inv_def conn_read_bytes_def ib_bytes_def)

lemma client_ends:
  assumes idle: "idle_conn (chan_conn ch)" and fin: "rx (kern (chan_conn ch)) = RxFin # es"
    and short: "length (ib_unread (read_buf (chan_conn ch))) < client_need pc"
    and c1: "c1 = add_event EV_DELETE ((chan_conn ch)\<lparr>sock := socket_close (sock (chan_conn ch)), send_frame := S_done\<rparr>)"
  shows "client_recv_run ph pc ch = Some (Inr (None, put_conn c1 ch))"
proof -
  let ?c = "chan_conn ch"
  have inv: "ib_inv (read_buf ?c)" and nc: "\<not> conn_closed ?c" using idle by (simp_all add: idle_conn_def)
  have "await_read ?c = Some (Inr (False, c1))" using await_read_fin [of ?c es] idle fin by (simp add: idle_conn_def c1)
  then have rm: "client_read_more pc ch = Some (Inr (Goto pc, put_conn c1 ch))" by (simp add: client_read_more_def read_more_def)
  have closed: "conn_closed c1" and same: "conn_read_bytes c1 = conn_read_bytes ?c" by (simp_all add: c1 conn_closed_def add_event_def conn_read_bytes_def)
  have "client_step ph pc ch = Some (Inr (Goto pc, put_conn c1 ch))"
    using client_read_bytes [OF inv short] nc rm by (cases pc) (simp_all add: client_step.simps Let_def)
  moreover have "client_step ph pc (put_conn c1 ch) = Some (Inr (Break, put_conn c1 ch))"
    using client_read_bytes [OF inv short] closed by (cases pc) (simp_all add: client_step.simps Let_def same)
  moreover have "client_finish (put_conn c1 ch) = put_conn c1 ch" using closed by (simp add: client_finish_def)
  ultimately show ?thesis
    by (simp add: client_recv_run_def run_coroutine.simps [of _ _ pc ch] run_coroutine.simps [of _ _ pc "put_conn c1 ch"])
qed

lemma dead_writer:
  assumes "ob_inv (write_buf (chan_conn ch))" and "ob_pending (write_buf (chan_conn ch)) = []" and "write_handle (chan_conn ch)" and "send_frame (chan_conn ch) = S_done"
    and "length (ser (request_header ch call)) + length (request_bytes call) < 2 ^ 32"
  shows "send_request ser call ch = Some (Inl UseAfterFree)"
proof -
  let ?hb = "ser (request_header ch call)"
  from write_message_ok [OF assms(1), of ?hb] assms(2,5) obtain ob1 where
    1: "write_message (write_buf (chan_conn ch)) ?hb = Some (Inr ob1)" "ob_inv ob1" "ob_pending ob1 = frame ?hb" by auto
  from write_message_ok [OF 1(2), of "request_bytes call"] 1(3) assms(5) obtain ob2 where
    2: "write_message ob1 (request_bytes call) = Some (Inr ob2)" by (auto simp: frame_split(3))
  show ?thesis
    using 1(1) 2 assms(3,4) by (simp add: send_request_def Let_def resume_write_def send_fn.simps [of S_done] request_header_def)
qed

subsection \<open>Properties\<close>

text \<open>
  C34. When the server closes the connection, be it between responses or inside one, the calls that
  wait are stranded: the reading coroutine ends, none of their closures runs and they stay in
  the table; and the next call on the channel resumes the destroyed writing coroutine.
\<close>

theorem closed_channel_strands_calls:
  assumes "idle_conn (chan_conn ch)" and "rx (kern (chan_conn ch)) = RxFin # es"
    and "length (ib_unread (read_buf (chan_conn ch))) < client_need pc"
  shows "\<exists>ch'. client_recv_run ph pc ch = Some (Inr (None, ch')) \<and> conn_closed (chan_conn ch') \<and>
    effects ch' = effects ch \<and> id2session ch' = id2session ch \<and>
    (\<forall>ser call. length (ser (request_header ch call)) + length (request_bytes call) < 2 ^ 32 \<longrightarrow> send_request ser call ch' = Some (Inl UseAfterFree))"
proof -
  let ?c1 = "add_event EV_DELETE ((chan_conn ch)\<lparr>sock := socket_close (sock (chan_conn ch)), send_frame := S_done\<rparr>)"
  have "send_request ser call (put_conn ?c1 ch) = Some (Inl UseAfterFree)"
    if "length (ser (request_header ch call)) + length (request_bytes call) < 2 ^ 32" for ser call
    by (rule dead_writer) (use that assms(1) in \<open>simp_all add: idle_conn_def add_event_def request_header_def\<close>)
  then show ?thesis
    using client_ends [OF assms refl, of ph] by (auto simp: conn_closed_def add_event_def)
qed

theorem closed_channel_strands_calls_witness:
  "\<exists>ch'. client_recv_run example_parse_header C_header_len (example_channel [RxFin]) = Some (Inr (None, ch')) \<and>
     effects ch' = [] \<and> id2session ch' = [0 \<mapsto> example_call] \<and> send_request (\<lambda>h. [1]) example_call ch' = Some (Inl UseAfterFree)"
proof -
  have ch: "chan_conn (example_channel [RxFin]) = live_conn [RxFin] [] []" "effects (example_channel [RxFin]) = []"
    "id2session (example_channel [RxFin]) = [0 \<mapsto> example_call]" by (simp_all add: example_channel_def)
  have "idle_conn (chan_conn (example_channel [RxFin]))" unfolding ch by (rule idle_example)
  from closed_channel_strands_calls [OF this, of "[]" C_header_len example_parse_header] obtain ch' where
    "client_recv_run example_parse_header C_header_len (example_channel [RxFin]) = Some (Inr (None, ch'))" "effects ch' = []"
    "id2session ch' = [0 \<mapsto> example_call]"
    "\<forall>ser call. length (ser (request_header (example_channel [RxFin]) call)) + length (request_bytes call) < 2 ^ 32 \<longrightarrow> send_request ser call ch' = Some (Inl UseAfterFree)"
    by (auto simp: ch live_conn_simps InputBuffer_unread)
  then show ?thesis by (auto simp: example_call_def)
qed

end
