(* ===== verification/MpmcQueue.thy ===== *)
theory MpmcQueue
  imports Prelude
begin

section \<open>The queue of tasks (src/util/mpmc_queue.h, src/util/mpmc_queue.inl.h)\<close>

text \<open>
  An unbounded queue for many producers and many consumers: a list of chunks of 4096 slots,
  with a counter at each end. An operation takes a ticket by advancing a counter with a
  compare-and-swap, walks from the chunk the queue points at to the chunk that holds its
  ticket, and writes or reads the slot there. Consumers delete the chunks they have emptied.

  The model has one step per atomic access. A step of an operation is a function of its
  program counter (with the local variables that are live there) and of the queue; the steps
  of all operations interleave. Accesses are sequentially consistent. An access to a deleted
  chunk is a fault, and so is a slot index outside the array. The counters of the code have
  64 bits, those of the model do not wrap: they agree for the first \<open>2\<^sup>6\<^sup>4\<close> operations.
  A slot without a value holds \<open>T\<close>'s default or a moved-from object.
\<close>

definition CHUNK_SIZE :: nat where
  "CHUNK_SIZE = 4096"

record 'v slot =
  slot_value :: "'v option"
  ready :: bool

record 'v chunk =
  slots :: "nat \<Rightarrow> 'v slot"
  begin_index :: nat
  next_chunk :: ptr
  read_count :: int
  ref_count :: int

record 'v mpmc = "'v chunk heap" +
  head_chunk :: ptr
  head_index :: nat
  tail_chunk :: ptr
  tail_index :: nat

definition Chunk :: "nat \<Rightarrow> 'v chunk" where
  "Chunk n = \<lparr>slots = (\<lambda>_. \<lparr>slot_value = None, ready = False\<rparr>), begin_index = n, next_chunk = None,
     read_count = 0, ref_count = 0\<rparr>"

definition new_chunk :: "nat \<Rightarrow> 'v mpmc \<Rightarrow> ptr \<times> 'v mpmc" where
  "new_chunk n q = (Some (brk q), (upd q (brk q) (Chunk n))\<lparr>brk := Suc (brk q)\<rparr>)"

definition MPMCQueue :: "'v mpmc" where
  "MPMCQueue = (let (init_chunk, q) = new_chunk 0 \<lparr>cells = (\<lambda>_. None), brk = 0, head_chunk = None, head_index = 0,
       tail_chunk = None, tail_index = 0\<rparr>
     in q\<lparr>head_chunk := init_chunk, tail_chunk := init_chunk, head_index := 0, tail_index := 0\<rparr>)"

text \<open>\<open>chunk->slots[idx - chunk->begin_index]\<close>, the index of a slot of a chunk; unsigned, so it must not be below.\<close>

definition slot_index :: "'v chunk \<Rightarrow> nat \<Rightarrow> nat res" where
  "slot_index c idx = (if begin_index c \<le> idx \<and> idx - begin_index c < CHUNK_SIZE
     then Inr (idx - begin_index c) else Inl OutOfBounds)"

definition set_slot :: "nat \<Rightarrow> ('v slot \<Rightarrow> 'v slot) \<Rightarrow> 'v chunk \<Rightarrow> 'v chunk" where
  "set_slot i f c = c\<lparr>slots := (slots c)(i := f (slots c i))\<rparr>"

subsection \<open>Steps\<close>

text \<open>
  The program counters of \<open>push\<close> (\<open>P_\<close>) and \<open>pop\<close> (\<open>C_\<close>). The arguments of \<open>push\<close>'s are the
  chunk it stands at and its ticket; of \<open>pop\<close>'s the chunk it started from, the chunk it stands
  at, its ticket and the value it took.
\<close>

datatype push_pc =
    P_start
  | P_index ptr
  | P_cas ptr nat
  | P_check ptr nat
  | P_alloc ptr nat
  | P_install ptr nat ptr
  | P_link ptr nat ptr
  | P_discard ptr nat ptr
  | P_walk ptr nat
  | P_wait ptr nat
  | P_next ptr nat
  | P_write ptr nat
  | P_ready ptr nat
  | P_done nat

datatype 'v pop_pc =
    C_start
  | C_index ptr
  | C_empty ptr nat
  | C_read_count ptr nat
  | C_ref_count ptr nat
  | C_has_next ptr
  | C_load_next ptr
  | C_advance ptr ptr
  | C_delete ptr
  | C_acquire ptr nat
  | C_cas ptr nat
  | C_walk ptr ptr nat
  | C_wait ptr ptr nat
  | C_next ptr ptr nat
  | C_unref ptr ptr nat
  | C_ready ptr ptr nat
  | C_take ptr ptr nat
  | C_count ptr ptr nat "'v option"
  | C_release ptr ptr nat "'v option"
  | C_done nat "'v option"
  | C_none

text \<open>
  One step. The first argument says whether a weak compare-and-swap fails spuriously in this
  step.
\<close>

fun push_step :: "bool \<Rightarrow> 'v \<Rightarrow> push_pc \<Rightarrow> 'v mpmc \<Rightarrow> (push_pc \<times> 'v mpmc) res" where
  "push_step sp v P_start q = Inr (P_index (tail_chunk q), q)"
| "push_step sp v (P_index tail) q = Inr (P_cas tail (tail_index q), q)"
| "push_step sp v (P_cas tail idx) q =
     (if tail_index q = idx \<and> \<not> sp then Inr (P_check tail idx, q\<lparr>tail_index := idx + 1\<rparr>) else Inr (P_start, q))"
| "push_step sp v (P_check tail idx) q = res_bind (load q tail) (\<lambda>c.
     Inr (if begin_index c + CHUNK_SIZE \<le> idx then P_alloc tail idx else P_write tail idx, q))"
| "push_step sp v (P_alloc tail idx) q = res_bind (load q tail) (\<lambda>c.
     let (n, q') = new_chunk (begin_index c + CHUNK_SIZE) q in Inr (P_install tail idx n, q'))"
| "push_step sp v (P_install tail idx n) q =
     (if tail_chunk q = tail then Inr (P_link tail idx n, q\<lparr>tail_chunk := n\<rparr>) else Inr (P_discard tail idx n, q))"
| "push_step sp v (P_link tail idx n) q = res_bind (modify q tail (\<lambda>c. c\<lparr>next_chunk := n\<rparr>)) (\<lambda>q'.
     Inr (P_walk tail idx, q'))"
| "push_step sp v (P_discard tail idx n) q = res_bind (free q n) (\<lambda>q'. Inr (P_walk tail idx, q'))"
| "push_step sp v (P_walk ck idx) q = res_bind (load q ck) (\<lambda>c.
     Inr (if begin_index c + CHUNK_SIZE \<le> idx then P_wait ck idx else P_write ck idx, q))"
| "push_step sp v (P_wait ck idx) q = res_bind (load q ck) (\<lambda>c.
     Inr (if next_chunk c = None then P_wait ck idx else P_next ck idx, q))"
| "push_step sp v (P_next ck idx) q = res_bind (load q ck) (\<lambda>c. Inr (P_walk (next_chunk c) idx, q))"
| "push_step sp v (P_write ck idx) q = res_bind (load q ck) (\<lambda>c. res_bind (slot_index c idx) (\<lambda>i.
     res_bind (modify q ck (set_slot i (\<lambda>s. s\<lparr>slot_value := Some v\<rparr>))) (\<lambda>q'. Inr (P_ready ck idx, q'))))"
| "push_step sp v (P_ready ck idx) q = res_bind (load q ck) (\<lambda>c. res_bind (slot_index c idx) (\<lambda>i.
     res_bind (modify q ck (set_slot i (\<lambda>s. s\<lparr>ready := True\<rparr>))) (\<lambda>q'. Inr (P_done idx, q'))))"
| "push_step sp v (P_done idx) q = Inr (P_done idx, q)"

fun pop_step :: "bool \<Rightarrow> 'v pop_pc \<Rightarrow> 'v mpmc \<Rightarrow> ('v pop_pc \<times> 'v mpmc) res" where
  "pop_step sp C_start q = Inr (C_index (head_chunk q), q)"
| "pop_step sp (C_index hd_ck) q = Inr (C_empty hd_ck (head_index q), q)"
| "pop_step sp (C_empty hd_ck idx) q = Inr (if idx = tail_index q then C_none else C_read_count hd_ck idx, q)"
| "pop_step sp (C_read_count hd_ck idx) q = res_bind (load q hd_ck) (\<lambda>c.
     Inr (if read_count c = int CHUNK_SIZE then C_ref_count hd_ck idx else C_acquire hd_ck idx, q))"
| "pop_step sp (C_ref_count hd_ck idx) q = res_bind (load q hd_ck) (\<lambda>c.
     Inr (if ref_count c = 0 then C_has_next hd_ck else C_acquire hd_ck idx, q))"
| "pop_step sp (C_has_next hd_ck) q = res_bind (load q hd_ck) (\<lambda>c.
     Inr (if next_chunk c = None then C_start else C_load_next hd_ck, q))"
| "pop_step sp (C_load_next hd_ck) q = res_bind (load q hd_ck) (\<lambda>c. Inr (C_advance hd_ck (next_chunk c), q))"
| "pop_step sp (C_advance hd_ck n) q =
     (if head_chunk q = hd_ck \<and> \<not> sp then Inr (C_delete hd_ck, q\<lparr>head_chunk := n\<rparr>) else Inr (C_start, q))"
| "pop_step sp (C_delete hd_ck) q = res_bind (free q hd_ck) (\<lambda>q'. Inr (C_start, q'))"
| "pop_step sp (C_acquire hd_ck idx) q = res_bind (modify q hd_ck (\<lambda>c. c\<lparr>ref_count := ref_count c + 1\<rparr>)) (\<lambda>q'.
     Inr (C_cas hd_ck idx, q'))"
| "pop_step sp (C_cas hd_ck idx) q =
     (if head_index q = idx \<and> \<not> sp then Inr (C_walk hd_ck hd_ck idx, q\<lparr>head_index := idx + 1\<rparr>) else Inr (C_start, q))"
| "pop_step sp (C_walk hd_ck ck idx) q = res_bind (load q ck) (\<lambda>c.
     Inr (if begin_index c + CHUNK_SIZE \<le> idx then C_wait hd_ck ck idx else C_unref hd_ck ck idx, q))"
| "pop_step sp (C_wait hd_ck ck idx) q = res_bind (load q ck) (\<lambda>c.
     Inr (if next_chunk c = None then C_wait hd_ck ck idx else C_next hd_ck ck idx, q))"
| "pop_step sp (C_next hd_ck ck idx) q = res_bind (load q ck) (\<lambda>c. Inr (C_walk hd_ck (next_chunk c) idx, q))"
| "pop_step sp (C_unref hd_ck ck idx) q =
     (if ck \<noteq> hd_ck
      then res_bind (modify q hd_ck (\<lambda>c. c\<lparr>ref_count := ref_count c - 1\<rparr>)) (\<lambda>q'. Inr (C_ready hd_ck ck idx, q'))
      else Inr (C_ready hd_ck ck idx, q))"
| "pop_step sp (C_ready hd_ck ck idx) q = res_bind (load q ck) (\<lambda>c. res_bind (slot_index c idx) (\<lambda>i.
     Inr (if ready (slots c i) then C_take hd_ck ck idx else C_ready hd_ck ck idx, q)))"
| "pop_step sp (C_take hd_ck ck idx) q = res_bind (load q ck) (\<lambda>c. res_bind (slot_index c idx) (\<lambda>i.
     res_bind (modify q ck (set_slot i (\<lambda>s. s\<lparr>slot_value := None\<rparr>))) (\<lambda>q'.
       Inr (C_count hd_ck ck idx (slot_value (slots c i)), q'))))"
| "pop_step sp (C_count hd_ck ck idx v) q = res_bind (modify q ck (\<lambda>c. c\<lparr>read_count := read_count c + 1\<rparr>)) (\<lambda>q'.
     Inr (C_release hd_ck ck idx v, q'))"
| "pop_step sp (C_release hd_ck ck idx v) q =
     (if ck = hd_ck
      then res_bind (modify q hd_ck (\<lambda>c. c\<lparr>ref_count := ref_count c - 1\<rparr>)) (\<lambda>q'. Inr (C_done idx v, q'))
      else Inr (C_done idx v, q))"
| "pop_step sp (C_done idx v) q = Inr (C_done idx v, q)"
| "pop_step sp C_none q = Inr (C_none, q)"

datatype 'v op = Push 'v push_pc | Pop "'v pop_pc"

fun op_step :: "bool \<Rightarrow> 'v op \<Rightarrow> 'v mpmc \<Rightarrow> ('v op \<times> 'v mpmc) res" where
  "op_step sp (Push v pc) q = res_bind (push_step sp v pc q) (\<lambda>(pc', q'). Inr (Push v pc', q'))"
| "op_step sp (Pop pc) q = res_bind (pop_step sp pc q) (\<lambda>(pc', q'). Inr (Pop pc', q'))"

text \<open>
  Operations in parallel: any number of calls, numbered, each of which is a \<open>push\<close> or a \<open>pop\<close>;
  a step of the system is a step of one of them. Calls of one thread one after the other are
  among the interleavings.
\<close>

record 'v sys =
  shared :: "'v mpmc"
  ops :: "nat \<Rightarrow> 'v op"

inductive sys_step :: "'v sys \<Rightarrow> 'v sys \<Rightarrow> bool" where
  step: "op_step sp (ops s i) (shared s) = Inr (p, q) \<Longrightarrow> sys_step s \<lparr>shared = q, ops = (ops s)(i := p)\<rparr>"

fun starting :: "'v op \<Rightarrow> bool" where
  "starting (Push v pc) \<longleftrightarrow> pc = P_start"
| "starting (Pop pc) \<longleftrightarrow> pc = C_start"

inductive reachable :: "'v sys \<Rightarrow> bool" where
  init: "\<forall>i. starting (ops s i) \<Longrightarrow> shared s = MPMCQueue \<Longrightarrow> reachable s"
| continue: "reachable s \<Longrightarrow> sys_step s t \<Longrightarrow> reachable t"

subsection \<open>Inversion of the accesses\<close>

lemma load_eq_Inr: "load h p = Inr b \<longleftrightarrow> (\<exists>a. p = Some a \<and> cells h a = Some b)"
  by (auto simp: load_def split: option.splits)

lemma modify_eq_Inr: "modify h p f = Inr h' \<longleftrightarrow> (\<exists>a b. p = Some a \<and> cells h a = Some b \<and> h' = upd h a (f b))"
  by (auto simp: modify_def res_bind_eq_Inr load_eq_Inr)

lemma free_eq_Inr: "free h p = Inr h' \<longleftrightarrow> (p = None \<and> h' = h) \<or>
    (\<exists>a b. p = Some a \<and> cells h a = Some b \<and> h' = h\<lparr>cells := (cells h)(a := None)\<rparr>)"
  by (auto simp: free_def split: option.splits)

lemma slot_index_eq_Inr:
  "slot_index c idx = Inr i \<longleftrightarrow> idx = begin_index c + i \<and> i < CHUNK_SIZE"
  by (auto simp: slot_index_def)

lemmas access_simps = res_bind_eq_Inr load_eq_Inr modify_eq_Inr free_eq_Inr slot_index_eq_Inr

lemma upd_queue_fields [simp]:
  "head_chunk (upd q a c) = head_chunk q" "head_index (upd q a c) = head_index q"
  "tail_chunk (upd q a c) = tail_chunk q" "tail_index (upd q a c) = tail_index q"
  by (simp_all add: upd_def)

lemma set_slot_fields [simp]:
  "begin_index (set_slot i f c) = begin_index c" "next_chunk (set_slot i f c) = next_chunk c"
  "slots (set_slot i f c) = (slots c)(i := f (slots c i))"
  by (simp_all add: set_slot_def)

subsection \<open>Tickets\<close>

fun push_ticket :: "push_pc \<Rightarrow> nat option" where
  "push_ticket (P_check _ t) = Some t"
| "push_ticket (P_alloc _ t) = Some t"
| "push_ticket (P_install _ t _) = Some t"
| "push_ticket (P_link _ t _) = Some t"
| "push_ticket (P_discard _ t _) = Some t"
| "push_ticket (P_walk _ t) = Some t"
| "push_ticket (P_wait _ t) = Some t"
| "push_ticket (P_next _ t) = Some t"
| "push_ticket (P_write _ t) = Some t"
| "push_ticket (P_ready _ t) = Some t"
| "push_ticket (P_done t) = Some t"
| "push_ticket _ = None"

fun pop_ticket :: "'v pop_pc \<Rightarrow> nat option" where
  "pop_ticket (C_walk _ _ t) = Some t"
| "pop_ticket (C_wait _ _ t) = Some t"
| "pop_ticket (C_next _ _ t) = Some t"
| "pop_ticket (C_unref _ _ t) = Some t"
| "pop_ticket (C_ready _ _ t) = Some t"
| "pop_ticket (C_take _ _ t) = Some t"
| "pop_ticket (C_count _ _ t _) = Some t"
| "pop_ticket (C_release _ _ t _) = Some t"
| "pop_ticket (C_done t _) = Some t"
| "pop_ticket _ = None"

text \<open>The tickets of an operation as a producer and as a consumer.\<close>

fun enq_ticket :: "'v op \<Rightarrow> nat option" where
  "enq_ticket (Push v pc) = push_ticket pc"
| "enq_ticket (Pop pc) = None"

fun deq_ticket :: "'v op \<Rightarrow> nat option" where
  "deq_ticket (Push v pc) = None"
| "deq_ticket (Pop pc) = pop_ticket pc"

text \<open>What a consumer knows of the index it read: it is at most, then below, the tail.\<close>

fun pop_bound :: "'v pop_pc \<Rightarrow> nat \<Rightarrow> bool" where
  "pop_bound (C_empty _ i) n \<longleftrightarrow> i \<le> n"
| "pop_bound (C_read_count _ i) n \<longleftrightarrow> i < n"
| "pop_bound (C_ref_count _ i) n \<longleftrightarrow> i < n"
| "pop_bound (C_acquire _ i) n \<longleftrightarrow> i < n"
| "pop_bound (C_cas _ i) n \<longleftrightarrow> i < n"
| "pop_bound _ n \<longleftrightarrow> True"

lemma pop_bound_Suc: "pop_bound pc n \<Longrightarrow> pop_bound pc (Suc n)"
  by (cases pc) auto

lemma push_step_tickets:
  assumes "push_step sp v pc q = Inr (pc', q')"
  shows "head_index q' = head_index q \<and>
    (tail_index q' = tail_index q \<and> push_ticket pc' = push_ticket pc \<or>
     tail_index q' = Suc (tail_index q) \<and> push_ticket pc = None \<and> push_ticket pc' = Some (tail_index q))"
  using assms by (cases pc) (auto simp: access_simps new_chunk_def split: if_splits)

lemma pop_step_tickets:
  assumes "pop_step sp pc q = Inr (pc', q')" and "pop_bound pc (tail_index q)" and "head_index q \<le> tail_index q"
  shows "tail_index q' = tail_index q \<and> pop_bound pc' (tail_index q') \<and>
    (head_index q' = head_index q \<and> pop_ticket pc' = pop_ticket pc \<or>
     head_index q' = Suc (head_index q) \<and> head_index q < tail_index q \<and> pop_ticket pc = None \<and>
     pop_ticket pc' = Some (head_index q))"
  using assms by (cases pc) (auto simp: access_simps split: if_splits prod.splits)

text \<open>The tickets handed out by a counter: those below it, each to one operation.\<close>

definition handed_out :: "(nat \<Rightarrow> nat option) \<Rightarrow> nat \<Rightarrow> bool" where
  "handed_out f n \<longleftrightarrow> (\<forall>t. (\<exists>i. f i = Some t) \<longleftrightarrow> t < n) \<and> (\<forall>i j t. f i = Some t \<longrightarrow> f j = Some t \<longrightarrow> i = j)"

lemma handed_out_update:
  assumes "handed_out f n" and "m = n \<and> x = f i \<or> m = Suc n \<and> f i = None \<and> x = Some n"
  shows "handed_out (f(i := x)) m"
  using assms(2)
proof
  assume "m = n \<and> x = f i"
  then show ?thesis using assms(1) by simp
next
  assume m: "m = Suc n \<and> f i = None \<and> x = Some n"
  have n: "f j \<noteq> Some n" for j
    using assms(1) unfolding handed_out_def by blast
  have "(\<exists>j. (f(i := x)) j = Some t) \<longleftrightarrow> t = n \<or> (\<exists>j. f j = Some t)" for t
    using m by (metis fun_upd_apply option.distinct(1) option.inject)
  then have "(\<exists>j. (f(i := x)) j = Some t) \<longleftrightarrow> t < m" for t
    using assms(1) m by (auto simp: handed_out_def)
  moreover have "k = j" if "(f(i := x)) k = Some t" "(f(i := x)) j = Some t" for k j t
    using that m n assms(1) unfolding handed_out_def by (cases "k = i"; cases "j = i") auto
  ultimately show ?thesis unfolding handed_out_def by blast
qed

definition tickets_inv :: "'v sys \<Rightarrow> bool" where
  "tickets_inv s \<longleftrightarrow> head_index (shared s) \<le> tail_index (shared s) \<and>
     handed_out (\<lambda>i. enq_ticket (ops s i)) (tail_index (shared s)) \<and>
     handed_out (\<lambda>i. deq_ticket (ops s i)) (head_index (shared s)) \<and>
     (\<forall>i pc. ops s i = Pop pc \<longrightarrow> pop_bound pc (tail_index (shared s)))"

lemma tickets_inv_step:
  assumes "tickets_inv s" and "sys_step s t"
  shows "tickets_inv t"
proof -
  from assms(2) obtain sp i p q where st: "op_step sp (ops s i) (shared s) = Inr (p, q)"
    and t: "t = \<lparr>shared = q, ops = (ops s)(i := p)\<rparr>" by (cases rule: sys_step.cases) auto
  show ?thesis
  proof (cases "ops s i")
    case (Push v pc)
    with st obtain pc' where p: "p = Push v pc'" and st': "push_step sp v pc (shared s) = Inr (pc', q)"
      by (auto simp: res_bind_eq_Inr)
    note eff = push_step_tickets [OF st']
    have deq: "(\<lambda>j. deq_ticket (ops t j)) = (\<lambda>j. deq_ticket (ops s j))"
      by (auto simp: t p Push fun_eq_iff)
    have enq: "(\<lambda>j. enq_ticket (ops t j)) = (\<lambda>j. enq_ticket (ops s j))(i := push_ticket pc')"
      by (auto simp: t p fun_eq_iff)
    have "handed_out (\<lambda>j. enq_ticket (ops t j)) (tail_index q)"
      unfolding enq by (rule handed_out_update) (use eff assms(1) Push in \<open>auto simp: tickets_inv_def\<close>)
    moreover have "pop_bound pc2 (tail_index q)" if "ops s j = Pop pc2" for j pc2
    proof -
      have "pop_bound pc2 (tail_index (shared s))" using that assms(1) by (simp add: tickets_inv_def)
      with eff show ?thesis using pop_bound_Suc [of pc2] by auto
    qed
    ultimately show ?thesis using assms(1) eff deq
      by (auto simp: tickets_inv_def t p Push)
  next
    case (Pop pc)
    with st obtain pc' where p: "p = Pop pc'" and st': "pop_step sp pc (shared s) = Inr (pc', q)"
      by (auto simp: res_bind_eq_Inr)
    have eff: "tail_index q = tail_index (shared s)" "pop_bound pc' (tail_index q)"
      "head_index q = head_index (shared s) \<and> pop_ticket pc' = pop_ticket pc \<or>
       head_index q = Suc (head_index (shared s)) \<and> head_index (shared s) < tail_index (shared s) \<and>
         pop_ticket pc = None \<and> pop_ticket pc' = Some (head_index (shared s))"
      using pop_step_tickets [OF st'] assms(1) Pop by (auto simp: tickets_inv_def)
    have enq: "(\<lambda>j. enq_ticket (ops t j)) = (\<lambda>j. enq_ticket (ops s j))"
      by (auto simp: t p Pop fun_eq_iff)
    have deq: "(\<lambda>j. deq_ticket (ops t j)) = (\<lambda>j. deq_ticket (ops s j))(i := pop_ticket pc')"
      by (auto simp: t p fun_eq_iff)
    have "handed_out (\<lambda>j. deq_ticket (ops t j)) (head_index q)"
      unfolding deq by (rule handed_out_update) (use eff assms(1) Pop in \<open>auto simp: tickets_inv_def\<close>)
    then show ?thesis using assms(1) eff enq
      by (auto simp: tickets_inv_def t p Pop)
  qed
qed

lemma tickets_inv_reachable: "reachable s \<Longrightarrow> tickets_inv s"
proof (induction rule: reachable.induct)
  case (init s)
  have op: "enq_ticket p = None \<and> deq_ticket p = None \<and> (\<forall>pc n. p = Pop pc \<longrightarrow> pop_bound pc n)" if "starting p" for p :: "'a op"
    using that by (cases p) auto
  from init op show ?case
    by (auto simp: tickets_inv_def handed_out_def MPMCQueue_def Let_def split: prod.splits)
qed (rule tickets_inv_step)

end
