(* ===== verification/MpmcInvariant.thy ===== *)
theory MpmcInvariant
  imports MpmcQueue
begin

section \<open>Invariants of the queue of tasks under interleaving\<close>

text \<open>
  What every interleaving of pushes and pops keeps, in the style of Owicki and Gries: an
  assertion per program counter (\<open>push_local\<close>, \<open>pop_local\<close>), a relation that bounds what a step
  does to the queue (\<open>evolves\<close>), the stability of every assertion under it, and the invariants
  of the slots (\<open>slots_inv\<close>). The consequences are stated at the end.
\<close>

subsection \<open>The chain of chunks\<close>

text \<open>
  All chunks that were ever linked, in order: the \<open>k\<close>-th holds the tickets from \<open>CHUNK_SIZE * k\<close>.
  Those that are not deleted yet have the right start and successor. Each operation stands at
  one of them; a chunk that is allocated and not installed is private to its operation.
\<close>

definition in_chain :: "addr list \<Rightarrow> ptr \<Rightarrow> nat \<Rightarrow> bool" where
  "in_chain C p k \<longleftrightarrow> k < length C \<and> p = Some (C ! k)"

definition chain_inv :: "addr list \<Rightarrow> 'v mpmc \<Rightarrow> bool" where
  "chain_inv C q \<longleftrightarrow> distinct C \<and> C \<noteq> [] \<and> (\<forall>a \<in> set C. a < brk q) \<and> tail_chunk q = Some (last C) \<and>
     (\<exists>k. in_chain C (head_chunk q) k) \<and> CHUNK_SIZE * (length C - 1) \<le> tail_index q \<and>
     (\<forall>k c. k < length C \<longrightarrow> cells q (C ! k) = Some c \<longrightarrow> begin_index c = CHUNK_SIZE * k \<and>
        (next_chunk c = None \<or> in_chain C (next_chunk c) (Suc k)))"

definition linked :: "'v mpmc \<Rightarrow> ptr \<Rightarrow> bool" where
  "linked q p \<longleftrightarrow> (\<forall>a c. p = Some a \<longrightarrow> cells q a = Some c \<longrightarrow> next_chunk c \<noteq> None)"

definition private_chunk :: "addr list \<Rightarrow> 'v mpmc \<Rightarrow> ptr \<Rightarrow> nat \<Rightarrow> bool" where
  "private_chunk C q p n \<longleftrightarrow> (\<exists>a. p = Some a \<and> a \<notin> set C \<and> a < brk q \<and> (\<forall>c. cells q a = Some c \<longrightarrow> c = Chunk n))"

fun push_local :: "addr list \<Rightarrow> 'v mpmc \<Rightarrow> push_pc \<Rightarrow> bool" where
  "push_local C q P_start \<longleftrightarrow> True"
| "push_local C q (P_index p) \<longleftrightarrow> (\<exists>k. in_chain C p k \<and> CHUNK_SIZE * k \<le> tail_index q)"
| "push_local C q (P_cas p t) \<longleftrightarrow> (\<exists>k. in_chain C p k \<and> CHUNK_SIZE * k \<le> t)"
| "push_local C q (P_check p t) \<longleftrightarrow> (\<exists>k. in_chain C p k \<and> CHUNK_SIZE * k \<le> t \<and> t < tail_index q)"
| "push_local C q (P_alloc p t) \<longleftrightarrow> (\<exists>k. in_chain C p k \<and> CHUNK_SIZE * Suc k \<le> t \<and> t < tail_index q)"
| "push_local C q (P_install p t n) \<longleftrightarrow> (\<exists>k. in_chain C p k \<and> CHUNK_SIZE * Suc k \<le> t \<and> t < tail_index q \<and>
     private_chunk C q n (CHUNK_SIZE * Suc k))"
| "push_local C q (P_link p t n) \<longleftrightarrow> (\<exists>k. in_chain C p k \<and> in_chain C n (Suc k) \<and> CHUNK_SIZE * Suc k \<le> t)"
| "push_local C q (P_discard p t n) \<longleftrightarrow> (\<exists>k m. in_chain C p k \<and> CHUNK_SIZE * k \<le> t \<and> private_chunk C q n m)"
| "push_local C q (P_walk p t) \<longleftrightarrow> (\<exists>k. in_chain C p k \<and> CHUNK_SIZE * k \<le> t)"
| "push_local C q (P_wait p t) \<longleftrightarrow> (\<exists>k. in_chain C p k \<and> CHUNK_SIZE * Suc k \<le> t)"
| "push_local C q (P_next p t) \<longleftrightarrow> (\<exists>k. in_chain C p k \<and> CHUNK_SIZE * Suc k \<le> t) \<and> linked q p"
| "push_local C q (P_write p t) \<longleftrightarrow> (\<exists>k. in_chain C p k \<and> CHUNK_SIZE * k \<le> t \<and> t < CHUNK_SIZE * Suc k)"
| "push_local C q (P_ready p t) \<longleftrightarrow> (\<exists>k. in_chain C p k \<and> CHUNK_SIZE * k \<le> t \<and> t < CHUNK_SIZE * Suc k)"
| "push_local C q (P_done t) \<longleftrightarrow> True"

definition chunk_ptr :: "addr list \<Rightarrow> ptr \<Rightarrow> bool" where
  "chunk_ptr C p \<longleftrightarrow> (\<exists>k. in_chain C p k)"

text \<open>A consumer that saw its slot ready stands at the chunk of its ticket.\<close>

definition slot_seen :: "addr list \<Rightarrow> 'v mpmc \<Rightarrow> ptr \<Rightarrow> nat \<Rightarrow> bool" where
  "slot_seen C q p t \<longleftrightarrow> (\<exists>k i. in_chain C p k \<and> t = CHUNK_SIZE * k + i \<and> i < CHUNK_SIZE \<and>
     (\<forall>c. cells q (C ! k) = Some c \<longrightarrow> ready (slots c i)))"

fun pop_local :: "addr list \<Rightarrow> 'v mpmc \<Rightarrow> 'v pop_pc \<Rightarrow> bool" where
  "pop_local C q C_start \<longleftrightarrow> True"
| "pop_local C q (C_index h) \<longleftrightarrow> chunk_ptr C h"
| "pop_local C q (C_empty h t) \<longleftrightarrow> chunk_ptr C h"
| "pop_local C q (C_read_count h t) \<longleftrightarrow> chunk_ptr C h"
| "pop_local C q (C_ref_count h t) \<longleftrightarrow> chunk_ptr C h"
| "pop_local C q (C_has_next h) \<longleftrightarrow> chunk_ptr C h"
| "pop_local C q (C_load_next h) \<longleftrightarrow> chunk_ptr C h \<and> linked q h"
| "pop_local C q (C_advance h n) \<longleftrightarrow> chunk_ptr C h \<and> chunk_ptr C n"
| "pop_local C q (C_delete h) \<longleftrightarrow> chunk_ptr C h"
| "pop_local C q (C_acquire h t) \<longleftrightarrow> chunk_ptr C h"
| "pop_local C q (C_cas h t) \<longleftrightarrow> chunk_ptr C h"
| "pop_local C q (C_walk h p t) \<longleftrightarrow> chunk_ptr C h \<and> chunk_ptr C p"
| "pop_local C q (C_wait h p t) \<longleftrightarrow> chunk_ptr C h \<and> chunk_ptr C p"
| "pop_local C q (C_next h p t) \<longleftrightarrow> chunk_ptr C h \<and> chunk_ptr C p \<and> linked q p"
| "pop_local C q (C_unref h p t) \<longleftrightarrow> chunk_ptr C h \<and> chunk_ptr C p"
| "pop_local C q (C_ready h p t) \<longleftrightarrow> chunk_ptr C h \<and> chunk_ptr C p"
| "pop_local C q (C_take h p t) \<longleftrightarrow> chunk_ptr C h \<and> slot_seen C q p t"
| "pop_local C q (C_count h p t v) \<longleftrightarrow> chunk_ptr C h \<and> chunk_ptr C p"
| "pop_local C q (C_release h p t v) \<longleftrightarrow> chunk_ptr C h \<and> chunk_ptr C p"
| "pop_local C q (C_done t v) \<longleftrightarrow> True"
| "pop_local C q C_none \<longleftrightarrow> True"

fun op_local :: "addr list \<Rightarrow> 'v mpmc \<Rightarrow> 'v op \<Rightarrow> bool" where
  "op_local C q (Push v pc) = push_local C q pc"
| "op_local C q (Pop pc) = pop_local C q pc"

fun owned :: "'v op \<Rightarrow> addr set" where
  "owned (Push v (P_install p t n)) = set_option n"
| "owned (Push v (P_discard p t n)) = set_option n"
| "owned _ = {}"

text \<open>
  How a step of an operation with the private chunks \<open>X\<close> may change the queue: what the other
  operations rely on.
\<close>

definition evolves :: "addr set \<Rightarrow> addr list \<Rightarrow> 'v mpmc \<Rightarrow> addr list \<Rightarrow> 'v mpmc \<Rightarrow> bool" where
  "evolves X C q C' q' \<longleftrightarrow> (\<exists>ys. C' = C @ ys \<and> set ys \<subseteq> X) \<and> tail_index q \<le> tail_index q' \<and> brk q \<le> brk q' \<and>
     (\<forall>a. a < brk q \<longrightarrow> a \<notin> set C \<longrightarrow> a \<notin> X \<longrightarrow> cells q' a = cells q a \<and> a \<notin> set C') \<and>
     (\<forall>a c'. a \<in> set C \<longrightarrow> cells q' a = Some c' \<longrightarrow> (\<exists>c. cells q a = Some c \<and>
        (next_chunk c \<noteq> None \<longrightarrow> next_chunk c' = next_chunk c) \<and> (\<forall>i. ready (slots c i) \<longrightarrow> ready (slots c' i))))"

lemma in_chain_append: "in_chain C p k \<Longrightarrow> in_chain (C @ ys) p k"
  by (auto simp: in_chain_def nth_append)

lemma in_chain_set: "in_chain C (Some a) k \<Longrightarrow> a \<in> set C"
  by (auto simp: in_chain_def)

lemma evolves_in_chain: "evolves X C q C' q' \<Longrightarrow> in_chain C p k \<Longrightarrow> in_chain C' p k"
  by (auto simp: evolves_def intro: in_chain_append)

lemma evolves_chunk_ptr: "evolves X C q C' q' \<Longrightarrow> chunk_ptr C p \<Longrightarrow> chunk_ptr C' p"
  by (auto simp: chunk_ptr_def intro: evolves_in_chain)

lemma evolves_tail: "evolves X C q C' q' \<Longrightarrow> tail_index q \<le> tail_index q'"
  by (simp add: evolves_def)

lemma evolves_linked:
  assumes "evolves X C q C' q'" and "linked q p" and "chunk_ptr C p"
  shows "linked q' p"
  unfolding linked_def
proof (intro allI impI)
  fix a c' assume a: "p = Some a" "cells q' a = Some c'"
  with assms(3) have "a \<in> set C" by (auto simp: chunk_ptr_def intro: in_chain_set)
  with assms(1) a(2) obtain c where "cells q a = Some c" "next_chunk c \<noteq> None \<longrightarrow> next_chunk c' = next_chunk c"
    unfolding evolves_def by blast
  with assms(2) a(1) show "next_chunk c' \<noteq> None" by (auto simp: linked_def)
qed

lemma evolves_private:
  assumes "evolves X C q C' q'" and "private_chunk C q p n" and "set_option p \<inter> X = {}"
  shows "private_chunk C' q' p n"
proof -
  from assms(2) obtain a where a: "p = Some a" "a \<notin> set C" "a < brk q" "\<forall>c. cells q a = Some c \<longrightarrow> c = Chunk n"
    by (auto simp: private_chunk_def)
  with assms(1,3) have "cells q' a = cells q a" "a \<notin> set C'" "brk q \<le> brk q'" by (auto simp: evolves_def)
  with a show ?thesis by (auto simp: private_chunk_def)
qed

lemma evolves_slot_seen:
  assumes ev: "evolves X C q C' q'" and "slot_seen C q p t"
  shows "slot_seen C' q' p t"
proof -
  from assms(2) obtain k i where k: "in_chain C p k" "t = CHUNK_SIZE * k + i" "i < CHUNK_SIZE"
    "\<And>c. cells q (C ! k) = Some c \<Longrightarrow> ready (slots c i)" by (auto simp: slot_seen_def)
  from ev k(1) have eq: "C' ! k = C ! k" "C ! k \<in> set C" by (auto simp: evolves_def in_chain_def nth_append)
  have "ready (slots c' i)" if "cells q' (C' ! k) = Some c'" for c'
  proof -
    from that ev eq obtain c where "cells q (C ! k) = Some c" "\<forall>i. ready (slots c i) \<longrightarrow> ready (slots c' i)"
      unfolding evolves_def eq(1) by blast
    with k(4) show ?thesis by blast
  qed
  with k evolves_in_chain [OF ev k(1)] show ?thesis unfolding slot_seen_def by blast
qed

lemma push_local_stable:
  assumes ev: "evolves X C q C' q'" and "push_local C q pc" and "owned (Push v pc) \<inter> X = {}"
  shows "push_local C' q' pc"
proof -
  note ic = evolves_in_chain [OF ev] and tl = evolves_tail [OF ev] and pr = evolves_private [OF ev]
  have lk: "linked q' p" if "linked q p" "in_chain C p k" for p k
    using evolves_linked [OF ev that(1)] that(2) by (auto simp: chunk_ptr_def)
  have stand: "\<exists>k. in_chain C' p k \<and> Q k" if "\<exists>k. in_chain C p k \<and> P k" "\<And>k. in_chain C p k \<Longrightarrow> P k \<Longrightarrow> Q k" for p P Q
    using that ic by blast
  show ?thesis
  proof (cases pc)
    case (P_link p t n)
    with assms(2) show ?thesis by (auto intro: ic)
  next
    case (P_discard p t n)
    with assms(2,3) show ?thesis by (auto intro: ic pr)
  next
    case (P_next p t)
    with assms(2) show ?thesis by (auto intro: ic lk)
  qed (use assms(2,3) tl pr lk in \<open>auto elim!: stand\<close>)
qed

lemma pop_local_stable:
  assumes ev: "evolves X C q C' q'" and "pop_local C q pc"
  shows "pop_local C' q' pc"
  using assms(2)
  by (cases pc) (auto intro: evolves_chunk_ptr [OF ev] evolves_linked [OF ev] evolves_slot_seen [OF ev])

text \<open>The changes the steps make.\<close>

lemma chain_invD:
  assumes "chain_inv C q"
  shows "distinct C" "C \<noteq> []" "\<And>a. a \<in> set C \<Longrightarrow> a < brk q" "tail_chunk q = Some (last C)"
    "\<exists>k. in_chain C (head_chunk q) k" "CHUNK_SIZE * (length C - 1) \<le> tail_index q"
    "\<And>k c. k < length C \<Longrightarrow> cells q (C ! k) = Some c \<Longrightarrow> begin_index c = CHUNK_SIZE * k"
    "\<And>k c. k < length C \<Longrightarrow> cells q (C ! k) = Some c \<Longrightarrow> next_chunk c = None \<or> in_chain C (next_chunk c) (Suc k)"
  using assms unfolding chain_inv_def by blast+

lemma evolves_refl: "evolves X C q C q"
  by (auto simp: evolves_def)

lemma begin_at:
  "chain_inv C q \<Longrightarrow> in_chain C (Some a) k \<Longrightarrow> cells q a = Some c \<Longrightarrow> begin_index c = CHUNK_SIZE * k"
  by (auto simp: in_chain_def chain_invD)

lemma next_at:
  "chain_inv C q \<Longrightarrow> in_chain C (Some a) k \<Longrightarrow> cells q a = Some c \<Longrightarrow>
    next_chunk c = None \<or> in_chain C (next_chunk c) (Suc k)"
  unfolding in_chain_def [of C "Some a"] using chain_invD(8) [of C q k c] by simp

text \<open>A field of a chunk of the chain.\<close>

lemma update_chunk:
  assumes inv: "chain_inv C q" and k: "in_chain C (Some a) k" and c: "cells q a = Some c"
    and same: "begin_index c' = begin_index c" "next_chunk c' = next_chunk c \<or> next_chunk c = None \<and> in_chain C (next_chunk c') (Suc k)"
    and rdy: "\<And>i. ready (slots c i) \<Longrightarrow> ready (slots c' i)"
  shows "chain_inv C (upd q a c')" and "evolves X C q C (upd q a c')"
proof -
  have a: "a = C ! k" "k < length C" using k by (auto simp: in_chain_def)
  have at: "C ! k' = a \<longleftrightarrow> k' = k" if "k' < length C" for k'
    using chain_invD(1) [OF inv] that a by (simp add: nth_eq_iff_index_eq)
  have "begin_index d = CHUNK_SIZE * k' \<and> (next_chunk d = None \<or> in_chain C (next_chunk d) (Suc k'))"
    if "k' < length C" "cells (upd q a c') (C ! k') = Some d" for k' d
    using that at [OF that(1)] same begin_at [OF inv k c] next_at [OF inv k c] chain_invD(7,8) [OF inv that(1)]
    by (auto split: if_splits)
  then show "chain_inv C (upd q a c')"
    using inv unfolding chain_inv_def by simp
  show "evolves X C q C (upd q a c')"
    using a c same rdy by (auto simp: evolves_def)
qed

text \<open>Counters and pointers of the queue itself.\<close>

lemma update_fields:
  assumes inv: "chain_inv C q" and same: "cells q' = cells q" "brk q' = brk q" "tail_chunk q' = tail_chunk q"
    and "tail_index q \<le> tail_index q'" and "\<exists>k. in_chain C (head_chunk q') k"
  shows "chain_inv C q'" and "evolves X C q C q'"
  using assms unfolding chain_inv_def evolves_def by auto

text \<open>A deleted chunk.\<close>

lemma delete_chunk:
  assumes inv: "chain_inv C q" and a: "a \<in> set C \<or> a \<in> X"
  shows "chain_inv C (q\<lparr>cells := (cells q)(a := None)\<rparr>)" and "evolves X C q C (q\<lparr>cells := (cells q)(a := None)\<rparr>)"
proof -
  show "chain_inv C (q\<lparr>cells := (cells q)(a := None)\<rparr>)"
    using inv unfolding chain_inv_def by auto
  show "evolves X C q C (q\<lparr>cells := (cells q)(a := None)\<rparr>)"
    using a by (auto simp: evolves_def)
qed

text \<open>A new chunk.\<close>

lemma allocate_chunk:
  assumes inv: "chain_inv C q" and "new_chunk n q = (p, q')"
  shows "chain_inv C q'" and "evolves X C q C q'" and "private_chunk C q' p n"
    and "p = Some (brk q)" and "brk q' = Suc (brk q)" and "tail_index q' = tail_index q"
proof -
  have q': "cells q' = (cells q)(brk q := Some (Chunk n))" "brk q' = Suc (brk q)" "head_chunk q' = head_chunk q"
    "tail_chunk q' = tail_chunk q" "tail_index q' = tail_index q" "p = Some (brk q)"
    using assms(2) by (auto simp: new_chunk_def upd_def)
  have fresh: "brk q \<notin> set C" using chain_invD(3) [OF inv] by blast
  then have nth: "C ! k \<noteq> brk q" if "k < length C" for k using that nth_mem by metis
  show "chain_inv C q'"
    using inv nth unfolding chain_inv_def q' by (auto simp: less_Suc_eq)
  show "evolves X C q C q'"
    using fresh by (auto simp: evolves_def q')
  show "private_chunk C q' p n"
    using fresh by (auto simp: private_chunk_def q')
  show "p = Some (brk q)" "brk q' = Suc (brk q)" "tail_index q' = tail_index q" by (fact q')+
qed

text \<open>A new end of the chain.\<close>

lemma install_chunk:
  assumes inv: "chain_inv C q" and k: "in_chain C p k" and t: "CHUNK_SIZE * Suc k \<le> t" "t < tail_index q"
    and pr: "private_chunk C q n (CHUNK_SIZE * Suc k)" and tail: "tail_chunk q = p"
  shows "\<exists>C'. chain_inv C' (q\<lparr>tail_chunk := n\<rparr>) \<and> evolves (set_option n) C q C' (q\<lparr>tail_chunk := n\<rparr>) \<and>
    in_chain C' p k \<and> in_chain C' n (Suc k)"
proof -
  from pr obtain a where a: "n = Some a" "a \<notin> set C" "a < brk q" "\<And>c. cells q a = Some c \<Longrightarrow> c = Chunk (CHUNK_SIZE * Suc k)"
    by (auto simp: private_chunk_def)
  note cI = chain_invD [OF inv]
  have "C ! k = last C" "k < length C" using k tail cI(4) by (auto simp: in_chain_def)
  then have "C ! k = C ! (length C - 1)" using cI(2) by (simp add: last_conv_nth)
  then have "k = length C - 1"
    using cI(1) \<open>k < length C\<close> by (subst (asm) nth_eq_iff_index_eq) auto
  then have len: "length C = Suc k" using \<open>k < length C\<close> by simp
  let ?C' = "C @ [a]"
  have new: "begin_index d = CHUNK_SIZE * k' \<and> (next_chunk d = None \<or> in_chain ?C' (next_chunk d) (Suc k'))"
    if "k' < length ?C'" "cells q (?C' ! k') = Some d" for k' d
  proof (cases "k' < length C")
    case True
    then show ?thesis using that cI(7,8) [OF True] by (auto simp: nth_append intro: in_chain_append)
  next
    case False
    then have "k' = Suc k" using that(1) len by simp
    then show ?thesis using that(2) a(4) len by (simp add: nth_append Chunk_def)
  qed
  have "chain_inv ?C' (q\<lparr>tail_chunk := n\<rparr>)"
    unfolding chain_inv_def
  proof (intro conjI)
    show "\<exists>k. in_chain ?C' (head_chunk (q\<lparr>tail_chunk := n\<rparr>)) k"
      using cI(5) by (auto intro: in_chain_append)
    show "CHUNK_SIZE * (length ?C' - 1) \<le> tail_index (q\<lparr>tail_chunk := n\<rparr>)"
      using t len by simp
    show "\<forall>k c. k < length ?C' \<longrightarrow> cells (q\<lparr>tail_chunk := n\<rparr>) (?C' ! k) = Some c \<longrightarrow> begin_index c = CHUNK_SIZE * k \<and>
        (next_chunk c = None \<or> in_chain ?C' (next_chunk c) (Suc k))"
      using new by simp
  qed (use cI(1,3) a in auto)
  moreover have "evolves (set_option n) C q ?C' (q\<lparr>tail_chunk := n\<rparr>)"
    using a by (auto simp: evolves_def)
  moreover have "in_chain ?C' p k" "in_chain ?C' n (Suc k)"
    using k a len by (auto simp: in_chain_append, simp add: in_chain_def nth_append)
  ultimately show ?thesis by blast
qed

lemma push_step_chain:
  assumes inv: "chain_inv C q" and loc: "push_local C q pc" and st: "push_step sp v pc q = Inr (pc', q')"
  shows "\<exists>C'. chain_inv C' q' \<and> push_local C' q' pc' \<and> evolves (owned (Push v pc)) C q C' q' \<and>
    owned (Push v pc') \<subseteq> owned (Push v pc) \<union> {brk q..<brk q'}"
proof -
  have same: ?thesis if "q' = q" "push_local C q pc'" "owned (Push v pc') \<subseteq> owned (Push v pc)"
    using that inv evolves_refl by blast
  show ?thesis
  proof (cases pc)
    case P_start
    with st inv chain_invD(2,4,6) [OF inv] show ?thesis
      by (intro same) (auto simp: in_chain_def last_conv_nth intro!: exI [of _ "length C - 1"])
  next
    case (P_cas p t)
    show ?thesis
    proof (cases "tail_index q = t \<and> \<not> sp")
      case True
      with st P_cas have "pc' = P_check p t" "q' = q\<lparr>tail_index := t + 1\<rparr>" by auto
      moreover have "chain_inv C (q\<lparr>tail_index := t + 1\<rparr>)" "evolves {} C q C (q\<lparr>tail_index := t + 1\<rparr>)"
        using update_fields [OF inv, of "q\<lparr>tail_index := t + 1\<rparr>"] True chain_invD(5) [OF inv] by simp_all
      ultimately show ?thesis using loc P_cas by auto
    next
      case False
      with st P_cas have "pc' = P_start" "q' = q" by auto
      then show ?thesis by (intro same) auto
    qed
  next
    case (P_check p t)
    with loc obtain k where k: "in_chain C p k" "CHUNK_SIZE * k \<le> t" "t < tail_index q" by auto
    from st P_check obtain a c where a: "p = Some a" "cells q a = Some c" "q' = q"
      and pc': "pc' = (if begin_index c + CHUNK_SIZE \<le> t then P_alloc p t else P_write p t)" by (auto simp: access_simps)
    have "begin_index c = CHUNK_SIZE * k" using begin_at [OF inv _ a(2)] k(1) a(1) by simp
    with k a(3) pc' show ?thesis by (intro same) (auto simp: add.commute)
  next
    case (P_alloc p t)
    from P_alloc loc obtain k where k: "in_chain C p k" "CHUNK_SIZE * Suc k \<le> t" "t < tail_index q" by auto
    from st P_alloc obtain a c n where a: "p = Some a" "cells q a = Some c"
      "new_chunk (begin_index c + CHUNK_SIZE) q = (n, q')" "pc' = P_install p t n"
      by (auto simp: access_simps case_prod_beta prod_eq_iff)
    have "begin_index c + CHUNK_SIZE = CHUNK_SIZE * Suc k" using begin_at [OF inv _ a(2)] k(1) a(1) by simp
    with a(3) allocate_chunk [OF inv, of "CHUNK_SIZE * Suc k" n q'] k a(4) P_alloc show ?thesis by auto
  next
    case (P_install p t n)
    with loc obtain k where k: "in_chain C p k" "CHUNK_SIZE * Suc k \<le> t" "t < tail_index q"
      "private_chunk C q n (CHUNK_SIZE * Suc k)" by auto
    show ?thesis
    proof (cases "tail_chunk q = p")
      case True
      with st P_install have "pc' = P_link p t n" "q' = q\<lparr>tail_chunk := n\<rparr>" by auto
      with install_chunk [OF inv k True] P_install k(2) show ?thesis by auto
    next
      case False
      with st P_install have "pc' = P_discard p t n" "q' = q" by auto
      moreover have "CHUNK_SIZE * k \<le> t" using k(2) by simp
      ultimately show ?thesis using k P_install by (intro same) auto
    qed
  next
    case (P_link p t n)
    with loc obtain k where k: "in_chain C p k" "in_chain C n (Suc k)" "CHUNK_SIZE * Suc k \<le> t" by auto
    from st P_link obtain a c where a: "p = Some a" "cells q a = Some c" "q' = upd q a (c\<lparr>next_chunk := n\<rparr>)" "pc' = P_walk p t"
      by (auto simp: access_simps)
    have nx: "next_chunk c = None \<or> next_chunk c = n"
      using next_at [OF inv _ a(2), of k] k a(1) by (auto simp: in_chain_def)
    have "chain_inv C q'" "evolves {} C q C q'"
      using update_chunk [OF inv _ a(2), of k "c\<lparr>next_chunk := n\<rparr>"] k a nx by auto
    moreover have "CHUNK_SIZE * k \<le> t" using k(3) by simp
    ultimately show ?thesis using P_link a k(1) by auto
  next
    case (P_discard p t n)
    from loc P_discard obtain k a where k: "in_chain C p k" "CHUNK_SIZE * k \<le> t" "n = Some a"
      by (auto simp: private_chunk_def)
    with st P_discard have "pc' = P_walk p t" "q' = q\<lparr>cells := (cells q)(a := None)\<rparr>" by (auto simp: access_simps)
    with delete_chunk [OF inv, of a "{a}"] P_discard k show ?thesis by auto
  next
    case (P_walk p t)
    with loc obtain k where k: "in_chain C p k" "CHUNK_SIZE * k \<le> t" by auto
    from st P_walk obtain a c where a: "p = Some a" "cells q a = Some c" "q' = q"
      and pc': "pc' = (if begin_index c + CHUNK_SIZE \<le> t then P_wait p t else P_write p t)" by (auto simp: access_simps)
    have "begin_index c = CHUNK_SIZE * k" using begin_at [OF inv _ a(2)] k(1) a(1) by simp
    with k a(3) pc' show ?thesis by (intro same) (auto simp: add.commute)
  next
    case (P_wait p t)
    with st loc show ?thesis
      by (intro same) (auto simp: access_simps linked_def split: if_splits)
  next
    case (P_next p t)
    with loc obtain k where k: "in_chain C p k" "CHUNK_SIZE * Suc k \<le> t" and ln: "linked q p" by auto
    from st P_next obtain a c where a: "p = Some a" "cells q a = Some c" "q' = q" "pc' = P_walk (next_chunk c) t"
      by (auto simp: access_simps)
    have "in_chain C (next_chunk c) (Suc k)" using next_at [OF inv _ a(2)] k(1) ln a(1,2) by (auto simp: linked_def)
    with k a(3,4) show ?thesis by (intro same) auto
  next
    case (P_write p t)
    with loc obtain k where k: "in_chain C p k" "CHUNK_SIZE * k \<le> t" "t < CHUNK_SIZE * Suc k" by auto
    from st P_write obtain a c i where a: "p = Some a" "cells q a = Some c"
      "q' = upd q a (set_slot i (\<lambda>s. s\<lparr>slot_value := Some v\<rparr>) c)" "pc' = P_ready p t"
      by (auto simp: access_simps)
    have "chain_inv C q'" "evolves {} C q C q'"
      unfolding a(3) by (rule update_chunk [OF inv k(1) [unfolded a(1)] a(2)]; auto)+
    with a(4) k P_write show ?thesis by auto
  next
    case (P_ready p t)
    with loc obtain k where k: "in_chain C p k" by auto
    from st P_ready obtain a c i where a: "p = Some a" "cells q a = Some c"
      "q' = upd q a (set_slot i (\<lambda>s. s\<lparr>ready := True\<rparr>) c)" "pc' = P_done t"
      by (auto simp: access_simps)
    have "chain_inv C q'" "evolves {} C q C q'"
      unfolding a(3) by (rule update_chunk [OF inv k(1) [unfolded a(1)] a(2)]; auto)+
    with a(4) k P_ready show ?thesis by auto
  next
    case (P_index p)
    with st have "pc' = P_cas p (tail_index q)" "q' = q" by auto
    with loc P_index show ?thesis by (intro same) auto
  next
    case (P_done t)
    with st have "pc' = P_done t" "q' = q" by auto
    then show ?thesis by (intro same) auto
  qed
qed

lemma chunk_ptrI [intro]: "in_chain C p k \<Longrightarrow> chunk_ptr C p"
  by (auto simp: chunk_ptr_def)

lemma pop_step_chain:
  assumes inv: "chain_inv C q" and loc: "pop_local C q pc" and st: "pop_step sp pc q = Inr (pc', q')"
  shows "chain_inv C q' \<and> pop_local C q' pc' \<and> evolves {} C q C q'"
proof -
  note [simp] = evolves_refl
  have succ: "chunk_ptr C (next_chunk c)" if "chunk_ptr C (Some a)" "cells q a = Some c" "linked q (Some a)" for a c
    using that next_at [OF inv _ that(2)] unfolding chunk_ptr_def linked_def by blast
  have count: "chain_inv C (upd q a c')" "evolves {} C q C (upd q a c')"
    if "chunk_ptr C (Some a)" "cells q a = Some c" "begin_index c' = begin_index c" "next_chunk c' = next_chunk c"
      "\<And>i. ready (slots c' i) = ready (slots c i)" for a c c'
    using that update_chunk [OF inv _ that(2)] by (auto simp: chunk_ptr_def)
  have head: "chain_inv C (q\<lparr>head_chunk := n\<rparr>) \<and> evolves {} C q C (q\<lparr>head_chunk := n\<rparr>)" if "chunk_ptr C n" for n
    using that update_fields [OF inv, of "q\<lparr>head_chunk := n\<rparr>"] by (simp add: chunk_ptr_def)
  have index: "chain_inv C (q\<lparr>head_index := n\<rparr>) \<and> evolves {} C q C (q\<lparr>head_index := n\<rparr>)" for n
    using update_fields [OF inv, of "q\<lparr>head_index := n\<rparr>"] chain_invD(5) [OF inv] by simp
  have seen: "slot_seen C q (Some a) (begin_index c + i)"
    if "chunk_ptr C (Some a)" "cells q a = Some c" "i < CHUNK_SIZE" "ready (slots c i)" for a c i
    using that begin_at [OF inv _ that(2)] unfolding chunk_ptr_def slot_seen_def by (fastforce simp: in_chain_def)
  show ?thesis
  proof (cases pc)
    case C_start
    with st have "pc' = C_index (head_chunk q)" "q' = q" by auto
    with inv chain_invD(5) [OF inv] show ?thesis by auto
  next
    case (C_delete h)
    with st loc delete_chunk [OF inv, of _ "{}"] show ?thesis
      by (auto simp: access_simps chunk_ptr_def in_chain_def)
  next
    case (C_take h p t)
    with loc have "chunk_ptr C p" by (auto simp: slot_seen_def)
    with st C_take loc show ?thesis
      by (auto simp: access_simps intro!: count split: if_splits)
  next
    case (C_unref h p t)
    with inv st loc show ?thesis by (cases "p = h") (auto simp: access_simps intro!: count)
  next
    case (C_release h p t v)
    with inv st loc show ?thesis by (cases "p = h") (auto simp: access_simps intro!: count)
  next
    case (C_load_next h)
    with st obtain a c where "h = Some a" "cells q a = Some c" and [simp]: "q' = q" "pc' = C_advance h (next_chunk c)"
      by (auto simp: access_simps)
    with loc C_load_next inv succ [of a c] show ?thesis by simp
  next
    case (C_next h p t)
    with st obtain a c where "p = Some a" "cells q a = Some c" and [simp]: "q' = q" "pc' = C_walk h (next_chunk c) t"
      by (auto simp: access_simps)
    with loc C_next inv succ [of a c] show ?thesis by simp
  next
    case (C_ready h p t)
    with st obtain a c i where a: "p = Some a" "cells q a = Some c" "t = begin_index c + i" "i < CHUNK_SIZE" and
      [simp]: "q' = q" "pc' = (if ready (slots c i) then C_take h p t else C_ready h p t)"
      by (auto simp: access_simps)
    with loc C_ready inv seen [of a c i] show ?thesis by simp
  qed (use inv st loc in \<open>auto simp: access_simps linked_def head index split: if_splits intro: count\<close>)
qed

text \<open>The system: the chain, where the operations stand, and that private chunks are private.\<close>

definition heap_inv :: "addr list \<Rightarrow> 'v sys \<Rightarrow> bool" where
  "heap_inv C s \<longleftrightarrow> chain_inv C (shared s) \<and> (\<forall>i. op_local C (shared s) (ops s i)) \<and>
     (\<forall>i j. i \<noteq> j \<longrightarrow> owned (ops s i) \<inter> owned (ops s j) = {})"

lemma op_step_chain:
  assumes "chain_inv C q" and "op_local C q p" and "op_step sp p q = Inr (p', q')"
  shows "\<exists>C'. chain_inv C' q' \<and> op_local C' q' p' \<and> evolves (owned p) C q C' q' \<and>
    owned p' \<subseteq> owned p \<union> {brk q..<brk q'}"
proof (cases p)
  case (Push v pc)
  with assms(3) obtain pc' where "push_step sp v pc q = Inr (pc', q')" "p' = Push v pc'"
    by (auto simp: res_bind_eq_Inr)
  with push_step_chain [OF assms(1), of pc sp v pc' q'] assms(2) Push show ?thesis by auto
next
  case (Pop pc)
  with assms(3) obtain pc' where "pop_step sp pc q = Inr (pc', q')" "p' = Pop pc'"
    by (auto simp: res_bind_eq_Inr)
  with pop_step_chain [OF assms(1), of pc sp pc' q'] assms(2) Pop show ?thesis by auto
qed

lemma op_local_stable:
  assumes "evolves X C q C' q'" and "op_local C q p" and "owned p \<inter> X = {}"
  shows "op_local C' q' p"
  using assms push_local_stable [OF assms(1)] pop_local_stable [OF assms(1)] by (cases p) auto

lemma owned_below: "op_local C q p \<Longrightarrow> a \<in> owned p \<Longrightarrow> a < brk q"
  by (induction p rule: owned.induct) (auto simp: private_chunk_def)

lemma heap_inv_step:
  assumes inv: "heap_inv C s" and st: "op_step sp (ops s i) (shared s) = Inr (p, q)"
  shows "\<exists>C'. heap_inv C' \<lparr>shared = q, ops = (ops s)(i := p)\<rparr> \<and> evolves (owned (ops s i)) C (shared s) C' q"
proof -
  from inv have loc: "\<And>j. op_local C (shared s) (ops s j)" and ci: "chain_inv C (shared s)"
    and dis: "\<And>j k. j \<noteq> k \<Longrightarrow> owned (ops s j) \<inter> owned (ops s k) = {}" by (auto simp: heap_inv_def)
  from op_step_chain [OF ci loc st] obtain C' where C': "chain_inv C' q" "op_local C' q p"
    "evolves (owned (ops s i)) C (shared s) C' q" "owned p \<subseteq> owned (ops s i) \<union> {brk (shared s)..<brk q}" by blast
  have "op_local C' q (ops s j)" if "j \<noteq> i" for j
    using op_local_stable [OF C'(3) loc] dis [OF that] by blast
  moreover have "owned p \<inter> owned (ops s j) = {}" if "j \<noteq> i" for j
    using C'(4) dis [OF that] owned_below [OF loc [of j]] by fastforce
  ultimately have "heap_inv C' \<lparr>shared = q, ops = (ops s)(i := p)\<rparr>"
    using C' dis by (auto simp: heap_inv_def)
  with C'(3) show ?thesis by blast
qed

subsection \<open>The slots\<close>

text \<open>
  What an operation says about the slot of its ticket: a producer wrote its value, or has also
  published it; a consumer took a value.
\<close>

fun wrote :: "'v op \<Rightarrow> (nat \<times> 'v) option" where
  "wrote (Push v (P_ready p t)) = Some (t, v)"
| "wrote _ = None"

fun published :: "'v op \<Rightarrow> (nat \<times> 'v) option" where
  "published (Push v (P_done t)) = Some (t, v)"
| "published _ = None"

fun took :: "'v op \<Rightarrow> (nat \<times> 'v option) option" where
  "took (Pop (C_count h p t v)) = Some (t, v)"
| "took (Pop (C_release h p t v)) = Some (t, v)"
| "took (Pop (C_done t v)) = Some (t, v)"
| "took _ = None"

text \<open>The slot of a ticket, if its chunk is not deleted.\<close>

definition slot_of :: "addr list \<Rightarrow> 'v mpmc \<Rightarrow> nat \<Rightarrow> 'v slot option" where
  "slot_of C q t = (if t div CHUNK_SIZE < length C
     then map_option (\<lambda>c. slots c (t mod CHUNK_SIZE)) (cells q (C ! (t div CHUNK_SIZE))) else None)"

definition slots_inv :: "addr list \<Rightarrow> 'v sys \<Rightarrow> bool" where
  "slots_inv C s \<longleftrightarrow>
     (\<forall>t x. slot_of C (shared s) t = Some x \<longrightarrow> ready x \<longrightarrow> (\<exists>j v. published (ops s j) = Some (t, v) \<and>
        (slot_value x = Some v \<or> (\<exists>j' w. took (ops s j') = Some (t, w))))) \<and>
     (\<forall>t x j v. slot_of C (shared s) t = Some x \<longrightarrow> wrote (ops s j) = Some (t, v) \<longrightarrow> slot_value x = Some v) \<and>
     (\<forall>j t w. took (ops s j) = Some (t, w) \<longrightarrow> (\<exists>j' v. published (ops s j') = Some (t, v) \<and> w = Some v))"

text \<open>The tickets behind these facts.\<close>

lemma wrote_ticket: "wrote p = Some (t, v) \<Longrightarrow> enq_ticket p = Some t"
  by (induction p rule: wrote.induct) auto

lemma published_ticket: "published p = Some (t, v) \<Longrightarrow> enq_ticket p = Some t"
  by (induction p rule: published.induct) auto

lemma took_ticket: "took p = Some (t, w) \<Longrightarrow> deq_ticket p = Some t"
  by (induction p rule: took.induct) auto

text \<open>The ticket a chunk position stands for.\<close>

lemma ticket_position:
  assumes "t = CHUNK_SIZE * k + i" and "i < CHUNK_SIZE"
  shows "t div CHUNK_SIZE = k" "t mod CHUNK_SIZE = i"
  using assms by (simp_all add: CHUNK_SIZE_def)

lemma slot_of_in_chain:
  assumes "in_chain C (Some a) k" and "cells q a = Some c" and "t = CHUNK_SIZE * k + i" and "i < CHUNK_SIZE"
  shows "slot_of C q t = Some (slots c i)"
  using assms(1,2) ticket_position [OF assms(3,4)] by (simp add: slot_of_def in_chain_def)

text \<open>An update of one slot.\<close>

lemma slot_of_upd:
  assumes inv: "chain_inv C q" and k: "in_chain C (Some a) k" and c: "cells q a = Some c" and i: "i < CHUNK_SIZE"
  shows "slot_of C (upd q a (set_slot i f c)) t =
    (if t = CHUNK_SIZE * k + i then Some (f (slots c i)) else slot_of C q t)"
proof (cases "t div CHUNK_SIZE < length C")
  case True
  have a: "C ! (t div CHUNK_SIZE) = a \<longleftrightarrow> t div CHUNK_SIZE = k"
    using k True chain_invD(1) [OF inv] by (auto simp: in_chain_def nth_eq_iff_index_eq)
  have "t = CHUNK_SIZE * k + i \<longleftrightarrow> t div CHUNK_SIZE = k \<and> t mod CHUNK_SIZE = i"
    using ticket_position [of t k i] i by (metis mult_div_mod_eq)
  with True a c show ?thesis by (auto simp: slot_of_def)
next
  case False
  with ticket_position [of t k i] i k show ?thesis by (auto simp: slot_of_def in_chain_def)
qed

text \<open>
  All other steps: the slots of the chunks that live on are the same, a new chunk has empty
  slots, and what operations say about slots does not change.
\<close>

definition same_slots :: "addr list \<Rightarrow> 'v mpmc \<Rightarrow> addr list \<Rightarrow> 'v mpmc \<Rightarrow> bool" where
  "same_slots C q C' q' \<longleftrightarrow> (\<forall>t x. slot_of C' q' t = Some x \<longrightarrow> slot_of C q t = Some x \<or>
     length C \<le> t div CHUNK_SIZE \<and> x = \<lparr>slot_value = None, ready = False\<rparr>)"

lemma slots_inv_same:
  assumes "slots_inv C s" and "same_slots C (shared s) C' (shared s')"
    and "\<And>j. wrote (ops s' j) = wrote (ops s j)" "\<And>j. published (ops s' j) = published (ops s j)"
      "\<And>j. took (ops s' j) = took (ops s j)"
    and wr: "\<And>j t v. wrote (ops s j) = Some (t, v) \<Longrightarrow> t div CHUNK_SIZE < length C"
  shows "slots_inv C' s'"
proof -
  note inv = assms(1) [unfolded slots_inv_def]
  have old: "slot_of C (shared s) t = Some x \<or> length C \<le> t div CHUNK_SIZE \<and> \<not> ready x"
    if "slot_of C' (shared s') t = Some x" for t x
    using assms(2) that unfolding same_slots_def by (metis slot.select_convs(2))
  have "slot_value x = Some v" if "slot_of C' (shared s') t = Some x" "wrote (ops s' j) = Some (t, v)" for t x j v
    using inv old [OF that(1)] that(2) wr [of j t v] assms(3) by (metis leD)
  moreover have "\<exists>j v. published (ops s' j) = Some (t, v) \<and> (slot_value x = Some v \<or> (\<exists>j' w. took (ops s' j') = Some (t, w)))"
    if "slot_of C' (shared s') t = Some x" "ready x" for t x
    using inv old [OF that(1)] that(2) unfolding assms(4,5) by blast
  ultimately show ?thesis
    using assms(1) unfolding slots_inv_def assms(3-5) by blast
qed

fun slot_access :: "'v op \<Rightarrow> bool" where
  "slot_access (Push v (P_write p t)) = True"
| "slot_access (Push v (P_ready p t)) = True"
| "slot_access (Pop (C_take h p t)) = True"
| "slot_access _ = False"

lemma other_step_slots:
  assumes "op_step sp p q = Inr (p', q')" and "\<not> slot_access p"
  shows "cells q' a = Some c' \<Longrightarrow> (\<exists>c. cells q a = Some c \<and> slots c' = slots c) \<or>
      a = brk q \<and> slots c' = (\<lambda>_. \<lparr>slot_value = None, ready = False\<rparr>)"
    and "wrote p' = wrote p" and "published p' = published p" and "took p' = took p"
proof -
  have "(cells q' a = Some c' \<longrightarrow> (\<exists>c. cells q a = Some c \<and> slots c' = slots c) \<or>
      a = brk q \<and> slots c' = (\<lambda>_. \<lparr>slot_value = None, ready = False\<rparr>)) \<and>
    wrote p' = wrote p \<and> published p' = published p \<and> took p' = took p"
  proof (cases p)
    case (Push v pc)
    with assms show ?thesis
      by (cases pc) (auto simp: access_simps new_chunk_def Chunk_def split: if_splits)
  next
    case (Pop pc)
    with assms show ?thesis
      by (cases pc) (auto simp: access_simps split: if_splits)
  qed
  then show "cells q' a = Some c' \<Longrightarrow> (\<exists>c. cells q a = Some c \<and> slots c' = slots c) \<or>
      a = brk q \<and> slots c' = (\<lambda>_. \<lparr>slot_value = None, ready = False\<rparr>)"
    and "wrote p' = wrote p" and "published p' = published p" and "took p' = took p" by blast+
qed

lemma owned_chunk: "op_local C q p \<Longrightarrow> a \<in> owned p \<Longrightarrow> cells q a = Some c \<Longrightarrow> \<exists>n. c = Chunk n"
  by (induction p rule: owned.induct) (auto simp: private_chunk_def)

lemma other_step_same_slots:
  assumes "op_step sp p q = Inr (p', q')" and "\<not> slot_access p"
    and ci: "chain_inv C q" and loc: "op_local C q p" and ev: "evolves (owned p) C q C' q'"
  shows "same_slots C q C' q'"
  unfolding same_slots_def
proof (intro allI impI)
  fix t x assume x: "slot_of C' q' t = Some x"
  let ?k = "t div CHUNK_SIZE"
  from x obtain c' where c': "?k < length C'" "cells q' (C' ! ?k) = Some c'" "x = slots c' (t mod CHUNK_SIZE)"
    by (auto simp: slot_of_def split: if_splits)
  from ev obtain ys where ys: "C' = C @ ys" "set ys \<subseteq> owned p" by (auto simp: evolves_def)
  note old = other_step_slots(1) [OF assms(1,2) c'(2)]
  show "slot_of C q t = Some x \<or> length C \<le> ?k \<and> x = \<lparr>slot_value = None, ready = False\<rparr>"
  proof (cases "?k < length C")
    case True
    then have "C' ! ?k = C ! ?k" "C ! ?k \<noteq> brk q"
      using ys chain_invD(3) [OF ci nth_mem [OF True]] by (simp_all add: nth_append)
    with old True c'(3) show ?thesis by (auto simp: slot_of_def)
  next
    case False
    then have "C' ! ?k \<in> owned p" using c'(1) ys by (auto simp: nth_append)
    with old owned_chunk [OF loc this] c'(3) False show ?thesis by (fastforce simp: Chunk_def)
  qed
qed

text \<open>Uniqueness of tickets, as the slots need it.\<close>

lemma unique_enq: "tickets_inv s \<Longrightarrow> enq_ticket (ops s i) = Some t \<Longrightarrow> enq_ticket (ops s j) = Some t \<Longrightarrow> i = j"
  unfolding tickets_inv_def handed_out_def by blast

lemma unique_deq: "tickets_inv s \<Longrightarrow> deq_ticket (ops s i) = Some t \<Longrightarrow> deq_ticket (ops s j) = Some t \<Longrightarrow> i = j"
  unfolding tickets_inv_def handed_out_def by blast

lemma slots_inv_other:
  assumes tk: "tickets_inv s" and hp: "heap_inv C s" and sl: "slots_inv C s"
    and st: "op_step sp (ops s i) (shared s) = Inr (p, q)" and na: "\<not> slot_access (ops s i)"
    and ev: "evolves (owned (ops s i)) C (shared s) C' q"
  shows "slots_inv C' \<lparr>shared = q, ops = (ops s)(i := p)\<rparr>"
proof (rule slots_inv_same [OF sl])
  show "same_slots C (shared s) C' (shared \<lparr>shared = q, ops = (ops s)(i := p)\<rparr>)"
    using other_step_same_slots [OF st na _ _ ev] hp by (simp add: heap_inv_def)
  show "t div CHUNK_SIZE < length C" if "wrote (ops s j) = Some (t, v)" for j t v
  proof -
    from that obtain r where r: "ops s j = Push v (P_ready r t)" by (cases "ops s j" rule: wrote.cases) auto
    from hp have "op_local C (shared s) (ops s j)" by (simp add: heap_inv_def)
    with r obtain k where "in_chain C r k" "CHUNK_SIZE * k \<le> t" "t < CHUNK_SIZE * Suc k" by auto
    then show ?thesis using ticket_position [of t k "t - CHUNK_SIZE * k"] by (simp add: in_chain_def)
  qed
qed (use other_step_slots(2-4) [OF st na] in auto)

lemma slot_update:
  assumes ci: "chain_inv C q" and k: "in_chain C (Some a) k" and c: "cells q a = Some c"
    and t: "t = begin_index c + n" "n < CHUNK_SIZE"
  shows "slot_of C (upd q a (set_slot n f c)) t' = (if t' = t then Some (f (slots c n)) else slot_of C q t')"
    and "slot_of C q t = Some (slots c n)"
proof -
  have t': "t = CHUNK_SIZE * k + n" using begin_at [OF ci k c] t(1) by simp
  show "slot_of C (upd q a (set_slot n f c)) t' = (if t' = t then Some (f (slots c n)) else slot_of C q t')"
    using slot_of_upd [OF ci k c t(2)] t' by simp
  show "slot_of C q t = Some (slots c n)" by (rule slot_of_in_chain [OF k c t' t(2)])
qed

lemma slots_inv_write:
  assumes tk: "tickets_inv s" and hp: "heap_inv C s" and sl: "slots_inv C s"
    and op: "ops s i = Push v (P_write r t)" and st: "op_step sp (ops s i) (shared s) = Inr (p, q)"
  shows "slots_inv C \<lparr>shared = q, ops = (ops s)(i := p)\<rparr>"
proof -
  from hp have ci: "chain_inv C (shared s)" and "op_local C (shared s) (ops s i)" by (auto simp: heap_inv_def)
  with op obtain k where k: "in_chain C r k" by auto
  from st op obtain a c n where a: "r = Some a" "cells (shared s) a = Some c" "t = begin_index c + n" "n < CHUNK_SIZE"
    "q = upd (shared s) a (set_slot n (\<lambda>x. x\<lparr>slot_value := Some v\<rparr>) c)" and p: "p = Push v (P_ready r t)"
    by (auto simp: access_simps)
  have new: "slot_of C q t' = (if t' = t then Some (slots c n\<lparr>slot_value := Some v\<rparr>) else slot_of C (shared s) t')" for t'
    unfolding a(5) using slot_update(1) [OF ci k(1) [unfolded a(1)] a(2,3,4)] .
  note old = slot_update(2) [OF ci k(1) [unfolded a(1)] a(2,3,4)]
  have eq: "j = i" if "wrote (ops s j) = Some (t, w) \<or> published (ops s j) = Some (t, w)" for j w
    using unique_enq [OF tk, of j t i] that wrote_ticket [of "ops s j" t w] published_ticket [of "ops s j" t w] op by auto
  have unpub: "published (ops s j) \<noteq> Some (t, w)" for j w using eq [of j w] op by auto
  then have nr: "\<not> ready (slots c n)" using sl old unfolding slots_inv_def by blast
  let ?s = "\<lparr>shared = q, ops = (ops s)(i := p)\<rparr>"
  have pub: "published (ops ?s j) = published (ops s j)" and tk': "took (ops ?s j) = took (ops s j)" for j
    using p op by auto
  have wr: "wrote (ops ?s j) = (if j = i then Some (t, v) else wrote (ops s j))" for j using p by auto
  have "slot_value x = Some w" if "slot_of C q t' = Some x" "wrote (ops ?s j) = Some (t', w)" for t' x j w
    using that sl eq unfolding new wr slots_inv_def by (auto split: if_splits)
  moreover have "\<exists>j w. published (ops ?s j) = Some (t', w) \<and> (slot_value x = Some w \<or> (\<exists>j' u. took (ops ?s j') = Some (t', u)))"
    if "slot_of C q t' = Some x" "ready x" for t' x
  proof -
    have "t' \<noteq> t" using that nr unfolding new by auto
    with that(1) have "slot_of C (shared s) t' = Some x" by (simp add: new)
    with sl that(2) show ?thesis unfolding pub tk' slots_inv_def by blast
  qed
  moreover have "\<exists>j' w. published (ops ?s j') = Some (t', w) \<and> u = Some w" if "took (ops ?s j) = Some (t', u)" for j t' u
    using sl that unfolding pub tk' slots_inv_def by blast
  ultimately show ?thesis unfolding slots_inv_def sys.simps by blast
qed

lemma slots_inv_publish:
  assumes tk: "tickets_inv s" and hp: "heap_inv C s" and sl: "slots_inv C s"
    and op: "ops s i = Push v (P_ready r t)" and st: "op_step sp (ops s i) (shared s) = Inr (p, q)"
  shows "slots_inv C \<lparr>shared = q, ops = (ops s)(i := p)\<rparr>"
proof -
  from hp have ci: "chain_inv C (shared s)" and "op_local C (shared s) (ops s i)" by (auto simp: heap_inv_def)
  with op obtain k where k: "in_chain C r k" by auto
  from st op obtain a c n where a: "r = Some a" "cells (shared s) a = Some c" "t = begin_index c + n" "n < CHUNK_SIZE"
    "q = upd (shared s) a (set_slot n (\<lambda>x. x\<lparr>ready := True\<rparr>) c)" and p: "p = Push v (P_done t)"
    by (auto simp: access_simps)
  have new: "slot_of C q t' = (if t' = t then Some (slots c n\<lparr>ready := True\<rparr>) else slot_of C (shared s) t')" for t'
    unfolding a(5) using slot_update(1) [OF ci k(1) [unfolded a(1)] a(2,3,4)] .
  note old = slot_update(2) [OF ci k(1) [unfolded a(1)] a(2,3,4)]
  have val: "slot_value (slots c n) = Some v" using sl old op unfolding slots_inv_def by (metis wrote.simps(1))
  let ?s = "\<lparr>shared = q, ops = (ops s)(i := p)\<rparr>"
  have pub: "published (ops ?s j) = (if j = i then Some (t, v) else published (ops s j))"
    and tk': "took (ops ?s j) = took (ops s j)" for j using p op by auto
  have pubI: "published (ops ?s j) = Some (t', w)" if "published (ops s j) = Some (t', w)" for j t' w
    using that op unfolding pub by auto
  have wr: "wrote (ops ?s j) = Some (t', w) \<Longrightarrow> j \<noteq> i \<and> t' \<noteq> t \<and> wrote (ops s j) = Some (t', w)" for j t' w
    using p unique_enq [OF tk, of j t i] wrote_ticket [of "ops s j" t' w] op by (auto split: if_splits)
  have "slot_value x = Some w" if "slot_of C q t' = Some x" "wrote (ops ?s j) = Some (t', w)" for t' x j w
    using wr [OF that(2)] that(1) sl unfolding new slots_inv_def by auto
  moreover have "\<exists>j w. published (ops ?s j) = Some (t', w) \<and> (slot_value x = Some w \<or> (\<exists>j' u. took (ops ?s j') = Some (t', u)))"
    if "slot_of C q t' = Some x" "ready x" for t' x
  proof (cases "t' = t")
    case True
    with that(1) val have "slot_value x = Some v" by (auto simp: new)
    moreover have "published (ops ?s i) = Some (t', v)" using True by (simp add: p)
    ultimately show ?thesis by blast
  next
    case False
    with that(1) have "slot_of C (shared s) t' = Some x" by (simp add: new)
    with sl that(2) pubI show ?thesis unfolding tk' slots_inv_def by blast
  qed
  moreover have "\<exists>j' w. published (ops ?s j') = Some (t', w) \<and> u = Some w" if "took (ops ?s j) = Some (t', u)" for j t' u
    using sl that pubI unfolding tk' slots_inv_def by blast
  ultimately show ?thesis unfolding slots_inv_def sys.simps by blast
qed

lemma slots_inv_take:
  assumes tk: "tickets_inv s" and hp: "heap_inv C s" and sl: "slots_inv C s"
    and op: "ops s i = Pop (C_take h r t)" and st: "op_step sp (ops s i) (shared s) = Inr (p, q)"
  shows "slots_inv C \<lparr>shared = q, ops = (ops s)(i := p)\<rparr>"
proof -
  from hp have ci: "chain_inv C (shared s)" and "op_local C (shared s) (ops s i)" by (auto simp: heap_inv_def)
  with op have seen: "slot_seen C (shared s) r t" by simp
  from st op obtain a c n where a: "r = Some a" "cells (shared s) a = Some c" "t = begin_index c + n" "n < CHUNK_SIZE"
    "q = upd (shared s) a (set_slot n (\<lambda>x. x\<lparr>slot_value := None\<rparr>) c)"
    and p: "p = Pop (C_count h r t (slot_value (slots c n)))" by (auto simp: access_simps)
  from seen obtain k m where k: "in_chain C r k" "t = CHUNK_SIZE * k + m" "m < CHUNK_SIZE"
    "\<And>c. cells (shared s) (C ! k) = Some c \<Longrightarrow> ready (slots c m)" unfolding slot_seen_def by blast
  have m: "m = n" using begin_at [OF ci _ a(2)] k(1,2) a(1,3) by simp
  have rdy: "ready (slots c n)" using k(1,4) a(1,2) m by (auto simp: in_chain_def)
  have new: "slot_of C q t' = (if t' = t then Some (slots c n\<lparr>slot_value := None\<rparr>) else slot_of C (shared s) t')" for t'
    unfolding a(5) using slot_update(1) [OF ci k(1) [unfolded a(1)] a(2,3,4)] .
  note old = slot_update(2) [OF ci k(1) [unfolded a(1)] a(2,3,4)]
  have fresh: "took (ops s j) \<noteq> Some (t, w)" for j w
    using unique_deq [OF tk, of j t i] took_ticket [of "ops s j" t w] op by auto
  from sl old rdy fresh obtain jp v where jp: "published (ops s jp) = Some (t, v)" "slot_value (slots c n) = Some v"
    unfolding slots_inv_def by blast
  let ?s = "\<lparr>shared = q, ops = (ops s)(i := p)\<rparr>"
  have pub: "published (ops ?s j) = published (ops s j)" and wr: "wrote (ops ?s j) = wrote (ops s j)" for j
    using p op by auto
  have tk': "took (ops ?s j) = (if j = i then Some (t, Some v) else took (ops s j))" for j using p jp(2) by auto
  have tookI: "took (ops ?s j) = Some (t', w)" if "took (ops s j) = Some (t', w)" for j t' w
    using that op unfolding tk' by auto
  have nw: "wrote (ops s j) \<noteq> Some (t, w)" for j w
    using unique_enq [OF tk, of j t jp] published_ticket [OF jp(1)] wrote_ticket [of "ops s j" t w] jp(1)
    by (cases "ops s j" rule: wrote.cases) auto
  have "slot_value x = Some w" if "slot_of C q t' = Some x" "wrote (ops ?s j) = Some (t', w)" for t' x j w
    using that sl nw unfolding new wr slots_inv_def by (auto split: if_splits)
  moreover have "\<exists>j w. published (ops ?s j) = Some (t', w) \<and> (slot_value x = Some w \<or> (\<exists>j' u. took (ops ?s j') = Some (t', u)))"
    if "slot_of C q t' = Some x" "ready x" for t' x
  proof (cases "t' = t")
    case True
    have "took (ops ?s i) = Some (t', Some v)" using True p jp(2) by simp
    with jp(1) True show ?thesis unfolding pub by blast
  next
    case False
    with that(1) have "slot_of C (shared s) t' = Some x" by (simp add: new)
    with sl that(2) tookI show ?thesis unfolding pub slots_inv_def by blast
  qed
  moreover have "\<exists>j' w. published (ops ?s j') = Some (t', w) \<and> u = Some w" if "took (ops ?s j) = Some (t', u)" for j t' u
    using sl that jp(1) unfolding pub tk' slots_inv_def by (auto split: if_splits)
  ultimately show ?thesis unfolding slots_inv_def sys.simps by blast
qed

text \<open>All invariants, in every reachable state.\<close>

definition sys_inv :: "'v sys \<Rightarrow> bool" where
  "sys_inv s \<longleftrightarrow> tickets_inv s \<and> (\<exists>C. heap_inv C s \<and> slots_inv C s)"

lemma slots_inv_step:
  assumes tk: "tickets_inv s" and hp: "heap_inv C s" and sl: "slots_inv C s"
    and st: "op_step sp (ops s i) (shared s) = Inr (p, q)"
  shows "\<exists>C'. heap_inv C' \<lparr>shared = q, ops = (ops s)(i := p)\<rparr> \<and> slots_inv C' \<lparr>shared = q, ops = (ops s)(i := p)\<rparr>"
proof -
  from heap_inv_step [OF hp st] obtain C' where C': "heap_inv C' \<lparr>shared = q, ops = (ops s)(i := p)\<rparr>"
    "evolves (owned (ops s i)) C (shared s) C' q" by blast
  show ?thesis
  proof (cases "slot_access (ops s i)")
    case True
    then have "owned (ops s i) = {}" by (cases "ops s i" rule: slot_access.cases) auto
    with C'(2) have "C' = C" by (auto simp: evolves_def)
    moreover have "slots_inv C \<lparr>shared = q, ops = (ops s)(i := p)\<rparr>"
      using True slots_inv_write [OF tk hp sl _ st] slots_inv_publish [OF tk hp sl _ st] slots_inv_take [OF tk hp sl _ st]
      by (cases "ops s i" rule: slot_access.cases) auto
    ultimately show ?thesis using C'(1) by blast
  next
    case False
    with C' slots_inv_other [OF tk hp sl st] show ?thesis by blast
  qed
qed

lemma sys_inv_step: "sys_inv s \<Longrightarrow> sys_step s t \<Longrightarrow> sys_inv t"
  unfolding sys_inv_def by (auto elim!: sys_step.cases intro: tickets_inv_step sys_step.intros dest: slots_inv_step)

lemma sys_inv_init:
  assumes "\<forall>i. starting (ops s i)" and "shared s = MPMCQueue"
  shows "sys_inv s"
proof -
  have op: "op_local C q p" "owned p = {}" "wrote p = None" "published p = None" "took p = None"
    if "starting p" for p :: "'a op" and C and q :: "'a mpmc"
    using that by (cases p; simp)+
  have "chain_inv [0] (shared s)"
    unfolding assms(2) by (auto simp: chain_inv_def in_chain_def MPMCQueue_def new_chunk_def upd_def Chunk_def)
  moreover have "\<not> ready x" if "slot_of [0] (shared s) t = Some x" for t x
    using that unfolding assms(2)
    by (auto simp: slot_of_def MPMCQueue_def new_chunk_def upd_def Chunk_def split: if_splits)
  ultimately have "heap_inv [0] s \<and> slots_inv [0] s"
    using assms(1) op by (simp add: heap_inv_def slots_inv_def)
  with tickets_inv_reachable [OF reachable.init [OF assms]] show ?thesis unfolding sys_inv_def by blast
qed

lemma sys_inv_reachable: "reachable s \<Longrightarrow> sys_inv s"
  by (induction rule: reachable.induct) (auto intro: sys_inv_init sys_inv_step)

end
