(* ===== verification/MpmcSequential.thy ===== *)
theory MpmcSequential
  imports MpmcInvariant
begin

section \<open>One operation at a time\<close>

text \<open>
  Operations that do not overlap: a \<open>push\<close> and a \<open>pop\<close> run from their first step to their last
  on a quiet queue. Then the queue is a first-in first-out queue, every operation returns, and
  no access faults.
\<close>

primrec run_op :: "nat \<Rightarrow> 'v op \<Rightarrow> 'v mpmc \<Rightarrow> ('v op \<times> 'v mpmc) res" where
  "run_op 0 p q = Inr (p, q)"
| "run_op (Suc n) p q = res_bind (op_step False p q) (\<lambda>(p', q'). run_op n p' q')"

lemma run_op_add: "run_op (m + n) p q = res_bind (run_op m p q) (\<lambda>(p', q'). run_op n p' q')"
proof (induction m arbitrary: p q)
  case (Suc m)
  show ?case
  proof (cases "op_step False p q")
    case (Inr x)
    then show ?thesis using Suc by (cases x) simp
  qed simp
qed simp

lemma run_op_trans: "run_op m p q = Inr (p', q') \<Longrightarrow> run_op n p' q' = r \<Longrightarrow> run_op (m + n) p q = r"
  by (simp add: run_op_add)

text \<open>
  A quiet queue that holds the values \<open>vs\<close>: the chunks before the \<open>m\<close>-th are deleted, all
  others are linked, and only the first of them has been read from.
\<close>

definition quiet_chunk :: "addr list \<Rightarrow> nat \<Rightarrow> nat \<Rightarrow> nat \<Rightarrow> 'v chunk \<Rightarrow> bool" where
  "quiet_chunk C m hi k c \<longleftrightarrow> ref_count c = 0 \<and>
     next_chunk c = (if Suc k < length C then Some (C ! Suc k) else None) \<and>
     read_count c = (if k = m then int hi - int (CHUNK_SIZE * m) else 0)"

definition quiet :: "addr list \<Rightarrow> nat \<Rightarrow> 'v mpmc \<Rightarrow> 'v list \<Rightarrow> bool" where
  "quiet C m q vs \<longleftrightarrow> chain_inv C q \<and> m < length C \<and> head_chunk q = Some (C ! m) \<and>
     CHUNK_SIZE * m \<le> head_index q \<and> head_index q \<le> CHUNK_SIZE * Suc m \<and>
     tail_index q = head_index q + length vs \<and> tail_index q \<le> CHUNK_SIZE * length C \<and>
     (\<forall>k. m \<le> k \<longrightarrow> k < length C \<longrightarrow> (\<exists>c. cells q (C ! k) = Some c \<and> quiet_chunk C m (head_index q) k c)) \<and>
     (\<forall>i < length vs. slot_of C q (head_index q + i) = Some \<lparr>slot_value = Some (vs ! i), ready = True\<rparr>)"

lemma quiet_init: "quiet [0] 0 MPMCQueue []"
  by (simp add: quiet_def quiet_chunk_def chain_inv_def in_chain_def MPMCQueue_def new_chunk_def upd_def Chunk_def CHUNK_SIZE_def)

lemma quiet_chunkE:
  assumes "quiet C m q vs" and "m \<le> k" and "k < length C"
  obtains c where "cells q (C ! k) = Some c" "quiet_chunk C m (head_index q) k c" "begin_index c = CHUNK_SIZE * k"
  using assms chain_invD(7) [of C q k] unfolding quiet_def by blast

text \<open>Changing one chunk keeps the others.\<close>

lemma quiet_chunks_upd:
  assumes qt: "quiet C m q vs" and k: "k < length C" and c: "quiet_chunk C m hi k c"
    and "hi = head_index q \<or> k = m" and cells: "cells q' = (cells q)(C ! k := Some c)"
  shows "\<forall>k'. m \<le> k' \<longrightarrow> k' < length C \<longrightarrow> (\<exists>d. cells q' (C ! k') = Some d \<and> quiet_chunk C m hi k' d)"
proof (intro allI impI)
  fix k' assume k': "m \<le> k'" "k' < length C"
  from quiet_chunkE [OF qt k'] obtain d where d: "cells q (C ! k') = Some d" "quiet_chunk C m (head_index q) k' d" .
  have "C ! k' = C ! k \<longleftrightarrow> k' = k"
    using qt k k' by (simp add: quiet_def chain_inv_def nth_eq_iff_index_eq)
  with c d assms(4) show "\<exists>d. cells q' (C ! k') = Some d \<and> quiet_chunk C m hi k' d"
    unfolding cells by (cases "k' = k") (auto simp: quiet_chunk_def)
qed

subsection \<open>Push\<close>

text \<open>The last two steps of a \<open>push\<close>.\<close>

lemma run_write:
  assumes "cells q a = Some c" and "t = begin_index c + n" and "n < CHUNK_SIZE"
  shows "run_op 2 (Push v (P_write (Some a) t)) q =
    Inr (Push v (P_done t), upd q a (set_slot n (\<lambda>_. \<lparr>slot_value = Some v, ready = True\<rparr>) c))"
  using assms by (cases "slots c n") (simp add: numeral_2_eq_2 slot_index_def set_slot_def)

text \<open>A \<open>push\<close> into the last chunk.\<close>

lemma run_push_room:
  assumes "tail_chunk q = Some a" and "cells q a = Some c" and "tail_index q = begin_index c + n" and "n < CHUNK_SIZE"
  shows "run_op 6 (Push v P_start) q = Inr (Push v (P_done (tail_index q)),
    upd (q\<lparr>tail_index := Suc (tail_index q)\<rparr>) a (set_slot n (\<lambda>_. \<lparr>slot_value = Some v, ready = True\<rparr>) c))"
proof -
  have "run_op 4 (Push v P_start) q = Inr (Push v (P_write (Some a) (tail_index q)), q\<lparr>tail_index := Suc (tail_index q)\<rparr>)"
    using assms by (simp add: eval_nat_numeral)
  with run_op_add [of 4 2 "Push v P_start" q] run_write [of "q\<lparr>tail_index := Suc (tail_index q)\<rparr>" a c "tail_index q" n v] assms
  show ?thesis by simp
qed

text \<open>
  A \<open>push\<close> behind a full last chunk: a new chunk is installed and linked; the walk to it starts
  at the old chunk.
\<close>

lemma run_push_link:
  assumes tail: "tail_chunk q = Some a" and c: "cells q a = Some c" and full: "tail_index q = begin_index c + CHUNK_SIZE"
    and a: "a < brk q"
  shows "run_op 7 (Push v P_start) q = Inr (Push v (P_walk (Some a) (tail_index q)),
    q\<lparr>cells := (cells q)(brk q := Some (Chunk (tail_index q)), a := Some (c\<lparr>next_chunk := Some (brk q)\<rparr>)),
      brk := Suc (brk q), tail_chunk := Some (brk q), tail_index := Suc (tail_index q)\<rparr>)"
proof -
  let ?q = "q\<lparr>cells := (cells q)(brk q := Some (Chunk (tail_index q)), a := Some (c\<lparr>next_chunk := Some (brk q)\<rparr>)),
      brk := Suc (brk q), tail_chunk := Some (brk q), tail_index := Suc (tail_index q)\<rparr>"
  have ne: "brk q \<noteq> a" using a by simp
  let ?q1 = "q\<lparr>tail_index := Suc (tail_index q)\<rparr>"
  let ?q2 = "q\<lparr>cells := (cells q)(brk q := Some (Chunk (tail_index q))), brk := Suc (brk q), tail_index := Suc (tail_index q)\<rparr>"
  have 1: "run_op 4 (Push v P_start) q = Inr (Push v (P_alloc (Some a) (tail_index q)), ?q1)"
    using tail c full by (simp add: eval_nat_numeral)
  have 2: "run_op 1 (Push v (P_alloc (Some a) (tail_index q))) ?q1 = Inr (Push v (P_install (Some a) (tail_index q) (Some (brk q))), ?q2)"
    using c full by (simp add: new_chunk_def upd_def)
  have 3: "run_op 2 (Push v (P_install (Some a) (tail_index q) (Some (brk q)))) ?q2 = Inr (Push v (P_walk (Some a) (tail_index q)), ?q)"
    using tail c ne by (simp add: eval_nat_numeral upd_def)
  have "run_op (4 + (1 + 2)) (Push v P_start) q = Inr (Push v (P_walk (Some a) (tail_index q)), ?q)"
    by (intro run_op_trans [OF 1] run_op_trans [OF 2] 3)
  then show ?thesis by simp
qed

text \<open>The whole \<open>push\<close>.\<close>

lemma run_push_full:
  assumes tail: "tail_chunk q = Some a" and c: "cells q a = Some c" and full: "tail_index q = begin_index c + CHUNK_SIZE"
    and a: "a < brk q"
  shows "run_op 13 (Push v P_start) q = Inr (Push v (P_done (tail_index q)),
    q\<lparr>cells := (cells q)(brk q := Some (set_slot 0 (\<lambda>_. \<lparr>slot_value = Some v, ready = True\<rparr>) (Chunk (tail_index q))),
        a := Some (c\<lparr>next_chunk := Some (brk q)\<rparr>)),
      brk := Suc (brk q), tail_chunk := Some (brk q), tail_index := Suc (tail_index q)\<rparr>)"
proof -
  let ?q = "q\<lparr>cells := (cells q)(brk q := Some (Chunk (tail_index q)), a := Some (c\<lparr>next_chunk := Some (brk q)\<rparr>)),
      brk := Suc (brk q), tail_chunk := Some (brk q), tail_index := Suc (tail_index q)\<rparr>"
  have ne: "brk q \<noteq> a" using a by simp
  have 4: "run_op 3 (Push v (P_walk (Some a) (tail_index q))) ?q = Inr (Push v (P_walk (Some (brk q)) (tail_index q)), ?q)"
    using full by (simp add: eval_nat_numeral)
  have 5: "run_op 1 (Push v (P_walk (Some (brk q)) (tail_index q))) ?q = Inr (Push v (P_write (Some (brk q)) (tail_index q)), ?q)"
    using ne by (simp add: Chunk_def CHUNK_SIZE_def)
  have 6: "run_op 2 (Push v (P_write (Some (brk q)) (tail_index q))) ?q = Inr (Push v (P_done (tail_index q)),
      upd ?q (brk q) (set_slot 0 (\<lambda>_. \<lparr>slot_value = Some v, ready = True\<rparr>) (Chunk (tail_index q))))"
    using ne by (intro run_write) (simp_all add: Chunk_def CHUNK_SIZE_def)
  have "run_op (7 + (3 + (1 + 2))) (Push v P_start) q = Inr (Push v (P_done (tail_index q)),
      upd ?q (brk q) (set_slot 0 (\<lambda>_. \<lparr>slot_value = Some v, ready = True\<rparr>) (Chunk (tail_index q))))"
    by (intro run_op_trans [OF run_push_link [OF assms]] run_op_trans [OF 4] run_op_trans [OF 5] 6)
  then show ?thesis using ne by (simp add: upd_def fun_upd_twist)
qed

lemma slot_of_cong:
  assumes "\<And>k. k < length C \<Longrightarrow> map_option slots (cells q' (C ! k)) = map_option slots (cells q (C ! k))"
  shows "slot_of C q' t = slot_of C q t"
  using assms [of "t div CHUNK_SIZE"]
  by (cases "cells q' (C ! (t div CHUNK_SIZE))"; cases "cells q (C ! (t div CHUNK_SIZE))") (auto simp: slot_of_def)

lemma quiet_push_room:
  assumes qt: "quiet C m q vs" and lt: "tail_index q < CHUNK_SIZE * length C"
  shows "\<exists>q'. run_op 6 (Push v P_start) q = Inr (Push v (P_done (tail_index q)), q') \<and> quiet C m q' (vs @ [v]) \<and>
    head_index q' = head_index q"
proof -
  from qt have ci: "chain_inv C q" and m: "m < length C" by (auto simp: quiet_def)
  define k where "k = length C - 1"
  have k: "m \<le> k" "k < length C" "last C = C ! k" using m chain_invD(2) [OF ci] by (auto simp: k_def last_conv_nth)
  from quiet_chunkE [OF qt k(1,2)] obtain c where c: "cells q (C ! k) = Some c"
    "quiet_chunk C m (head_index q) k c" "begin_index c = CHUNK_SIZE * k" .
  define n where "n = tail_index q - begin_index c"
  have "CHUNK_SIZE * length C = CHUNK_SIZE * k + CHUNK_SIZE" using k(2) by (simp add: k_def algebra_simps)
  then have n: "tail_index q = begin_index c + n" "n < CHUNK_SIZE"
    using lt chain_invD(6) [OF ci] c(3) by (auto simp: n_def k_def)
  let ?q1 = "q\<lparr>tail_index := Suc (tail_index q)\<rparr>"
  let ?c = "set_slot n (\<lambda>_. \<lparr>slot_value = Some v, ready = True\<rparr>) c"
  let ?q = "upd ?q1 (C ! k) ?c"
  have run: "run_op 6 (Push v P_start) q = Inr (Push v (P_done (tail_index q)), ?q)"
    using chain_invD(4) [OF ci] k(3) by (intro run_push_room c(1) n) simp
  have ic: "in_chain C (Some (C ! k)) k" using k(2) by (simp add: in_chain_def)
  have ci1: "chain_inv C ?q1" using update_fields(1) [OF ci, of ?q1] chain_invD(5) [OF ci] by simp
  have ci2: "chain_inv C ?q" using update_chunk(1) [OF ci1 ic, of c ?c] c(1) by auto
  have slot: "slot_of C ?q t = (if t = tail_index q then Some \<lparr>slot_value = Some v, ready = True\<rparr> else slot_of C q t)" for t
    using slot_update(1) [OF ci1 ic _ n, of "\<lambda>_. \<lparr>slot_value = Some v, ready = True\<rparr>" t] c(1)
      slot_of_cong [of C ?q1 q t] by simp
  have "\<forall>k'. m \<le> k' \<longrightarrow> k' < length C \<longrightarrow> (\<exists>d. cells ?q (C ! k') = Some d \<and> quiet_chunk C m (head_index q) k' d)"
    by (rule quiet_chunks_upd [OF qt k(2), where c = ?c]) (use c(2) in \<open>simp_all add: quiet_chunk_def set_slot_def upd_def\<close>)
  then have "quiet C m ?q (vs @ [v])"
    using qt ci2 lt slot by (auto simp: quiet_def nth_append)
  with run show ?thesis by (intro exI [of _ ?q]) simp
qed

lemma quiet_push_full:
  assumes qt: "quiet C m q vs" and full: "tail_index q = CHUNK_SIZE * length C"
  shows "\<exists>q'. run_op 13 (Push v P_start) q = Inr (Push v (P_done (tail_index q)), q') \<and>
    quiet (C @ [brk q]) m q' (vs @ [v])"
proof -
  from qt have ci: "chain_inv C q" and m: "m < length C" by (auto simp: quiet_def)
  note cI = chain_invD [OF ci]
  define k where "k = length C - 1"
  have k: "m \<le> k" "k < length C" "last C = C ! k" "length C = Suc k"
    using m cI(2) by (auto simp: k_def last_conv_nth)
  from quiet_chunkE [OF qt k(1,2)] obtain c where c: "cells q (C ! k) = Some c"
    "quiet_chunk C m (head_index q) k c" "begin_index c = CHUNK_SIZE * k" .
  let ?b = "brk q" and ?C = "C @ [brk q]"
  let ?n = "set_slot 0 (\<lambda>_. \<lparr>slot_value = Some v, ready = True\<rparr>) (Chunk (tail_index q))"
  let ?q = "q\<lparr>cells := (cells q)(?b := Some ?n, C ! k := Some (c\<lparr>next_chunk := Some ?b\<rparr>)),
      brk := Suc ?b, tail_chunk := Some ?b, tail_index := Suc (tail_index q)\<rparr>"
  have lt: "C ! j < ?b" if "j < length C" for j using cI(3) nth_mem that by blast
  have run: "run_op 13 (Push v P_start) q = Inr (Push v (P_done (tail_index q)), ?q)"
    using cI(4) k c(1,3) full lt by (intro run_push_full) (simp_all add: algebra_simps)
  have cell: "cells ?q (?C ! j) = (if j = Suc k then Some ?n else if j = k then Some (c\<lparr>next_chunk := Some ?b\<rparr>) else cells q (C ! j))"
    if "j < length ?C" for j
    using that k(4) lt [of j] lt [of k] cI(1) by (auto simp: nth_append nth_eq_iff_index_eq less_Suc_eq)
  have chunk: "begin_index d = CHUNK_SIZE * j \<and> (next_chunk d = None \<or> in_chain ?C (next_chunk d) (Suc j))"
    if "j < length ?C" "cells ?q (?C ! j) = Some d" for j d
    using that(2) cI(7,8) [of j d] c(3) full k(4) that(1) unfolding cell [OF that(1)]
    by (auto simp: in_chain_def nth_append Chunk_def split: if_splits)
  have "chain_inv ?C ?q"
    unfolding chain_inv_def
  proof (intro conjI)
    show "distinct ?C" "\<forall>a \<in> set ?C. a < brk ?q" using cI(1,3) by (auto simp: less_Suc_eq)
    show "\<exists>j. in_chain ?C (head_chunk ?q) j" using cI(5) by (auto intro: in_chain_append)
    show "CHUNK_SIZE * (length ?C - 1) \<le> tail_index ?q" using full by simp
    show "\<forall>j d. j < length ?C \<longrightarrow> cells ?q (?C ! j) = Some d \<longrightarrow>
        begin_index d = CHUNK_SIZE * j \<and> (next_chunk d = None \<or> in_chain ?C (next_chunk d) (Suc j))"
      using chunk by blast
  qed simp_all
  moreover have "\<exists>d. cells ?q (?C ! j) = Some d \<and> quiet_chunk ?C m (head_index q) j d" if "m \<le> j" "j < length ?C" for j
  proof (cases "j < length C")
    case True
    from quiet_chunkE [OF qt that(1) True] obtain d where "cells q (C ! j) = Some d" "quiet_chunk C m (head_index q) j d" .
    with True c(2) k(4) that show ?thesis unfolding cell [OF that(2)] by (auto simp: quiet_chunk_def nth_append)
  next
    case False
    then show ?thesis using that k(4) m unfolding cell [OF that(2)] by (auto simp: quiet_chunk_def Chunk_def set_slot_def)
  qed
  moreover have "slot_of ?C ?q (head_index q + i) = Some \<lparr>slot_value = Some ((vs @ [v]) ! i), ready = True\<rparr>"
    if "i < length (vs @ [v])" for i
  proof (cases "i < length vs")
    case True
    have "head_index q + i < CHUNK_SIZE * length C" using True qt full by (simp add: quiet_def)
    then have j: "(head_index q + i) div CHUNK_SIZE < length C" by (simp add: less_mult_imp_div_less mult.commute)
    then have "slot_of ?C ?q (head_index q + i) = slot_of C q (head_index q + i)"
      using cell [of "(head_index q + i) div CHUNK_SIZE"] c(1) k(4) by (auto simp: slot_of_def nth_append)
    with True qt show ?thesis by (simp add: quiet_def nth_append)
  next
    case False
    then have i: "i = length vs" using that by simp
    then have "head_index q + i = CHUNK_SIZE * length C" using qt full by (simp add: quiet_def)
    with k(4) lt [of k] i show ?thesis by (simp add: slot_of_def CHUNK_SIZE_def nth_append)
  qed
  ultimately have "quiet ?C m ?q (vs @ [v])"
    using qt full unfolding quiet_def by (simp add: nth_append CHUNK_SIZE_def)
  with run show ?thesis by blast
qed

lemma quiet_push:
  assumes "quiet C m q vs"
  shows "\<exists>n q' C'. run_op n (Push v P_start) q = Inr (Push v (P_done (tail_index q)), q') \<and> quiet C' m q' (vs @ [v])"
proof (cases "tail_index q < CHUNK_SIZE * length C")
  case True
  with quiet_push_room [OF assms] show ?thesis by blast
next
  case False
  with assms have "tail_index q = CHUNK_SIZE * length C" by (simp add: quiet_def)
  with quiet_push_full [OF assms] show ?thesis by blast
qed

subsection \<open>Pop\<close>

lemma quiet_pop_empty: "quiet C m q [] \<Longrightarrow> run_op 3 (Pop C_start) q = Inr (Pop C_none, q)"
  by (simp add: quiet_def eval_nat_numeral)

text \<open>A \<open>pop\<close> from the first chunk.\<close>

lemma run_pop_room:
  assumes "head_chunk q = Some a" and "cells q a = Some c" and "head_index q \<noteq> tail_index q"
    and "head_index q = begin_index c + n" and "n < CHUNK_SIZE" and "read_count c \<noteq> int CHUNK_SIZE" and "ready (slots c n)"
  shows "run_op 12 (Pop C_start) q = Inr (Pop (C_done (head_index q) (slot_value (slots c n))),
    upd (q\<lparr>head_index := Suc (head_index q)\<rparr>) a
      ((set_slot n (\<lambda>x. x\<lparr>slot_value := None\<rparr>) c)\<lparr>read_count := read_count c + 1\<rparr>))"
proof -
  let ?c = "c\<lparr>ref_count := ref_count c + 1\<rparr>"
  let ?q = "upd (q\<lparr>head_index := Suc (head_index q)\<rparr>) a ?c"
  have 1: "run_op 4 (Pop C_start) q = Inr (Pop (C_acquire (Some a) (head_index q)), q)"
    using assms by (simp add: eval_nat_numeral)
  have 2: "run_op 2 (Pop (C_acquire (Some a) (head_index q))) q = Inr (Pop (C_walk (Some a) (Some a) (head_index q)), ?q)"
    using assms by (simp add: eval_nat_numeral upd_def)
  have 3: "run_op 3 (Pop (C_walk (Some a) (Some a) (head_index q))) ?q = Inr (Pop (C_take (Some a) (Some a) (head_index q)), ?q)"
    using assms by (simp add: eval_nat_numeral slot_index_def)
  have 4: "run_op 3 (Pop (C_take (Some a) (Some a) (head_index q))) ?q = Inr (Pop (C_done (head_index q) (slot_value (slots c n))),
      upd (q\<lparr>head_index := Suc (head_index q)\<rparr>) a ((set_slot n (\<lambda>x. x\<lparr>slot_value := None\<rparr>) c)\<lparr>read_count := read_count c + 1\<rparr>))"
    using assms by (simp add: eval_nat_numeral slot_index_def set_slot_def)
  have "run_op (4 + (2 + (3 + 3))) (Pop C_start) q = Inr (Pop (C_done (head_index q) (slot_value (slots c n))),
      upd (q\<lparr>head_index := Suc (head_index q)\<rparr>) a ((set_slot n (\<lambda>x. x\<lparr>slot_value := None\<rparr>) c)\<lparr>read_count := read_count c + 1\<rparr>))"
    by (intro run_op_trans [OF 1] run_op_trans [OF 2] run_op_trans [OF 3] 4)
  then show ?thesis by simp
qed

lemma quiet_pop_room:
  assumes qt: "quiet C m q (v # vs)" and lt: "head_index q < CHUNK_SIZE * Suc m"
  shows "\<exists>q'. run_op 12 (Pop C_start) q = Inr (Pop (C_done (head_index q) (Some v)), q') \<and> quiet C m q' vs \<and>
    head_index q' = Suc (head_index q)"
proof -
  from qt have ci: "chain_inv C q" and m: "m < length C" and h: "head_chunk q = Some (C ! m)" "CHUNK_SIZE * m \<le> head_index q"
    and tl: "tail_index q = Suc (head_index q + length vs)" by (auto simp: quiet_def)
  from quiet_chunkE [OF qt order_refl m] obtain c where c: "cells q (C ! m) = Some c"
    "quiet_chunk C m (head_index q) m c" "begin_index c = CHUNK_SIZE * m" .
  define n where "n = head_index q - begin_index c"
  have n: "head_index q = begin_index c + n" "n < CHUNK_SIZE" using lt h(2) c(3) by (auto simp: n_def)
  have ic: "in_chain C (Some (C ! m)) m" using m by (simp add: in_chain_def)
  have "slot_of C q (head_index q) = Some \<lparr>slot_value = Some v, ready = True\<rparr>"
    using qt unfolding quiet_def by (metis add_0_right length_greater_0_conv list.distinct(1) nth_Cons_0)
  then have sl: "slots c n = \<lparr>slot_value = Some v, ready = True\<rparr>"
    using slot_update(2) [OF ci ic c(1) n] by simp
  let ?q1 = "q\<lparr>head_index := Suc (head_index q)\<rparr>"
  let ?c = "(set_slot n (\<lambda>x. x\<lparr>slot_value := None\<rparr>) c)\<lparr>read_count := read_count c + 1\<rparr>"
  let ?q = "upd ?q1 (C ! m) ?c"
  have rc: "read_count c \<noteq> int CHUNK_SIZE" using c(2,3) n by (simp add: quiet_chunk_def)
  have run: "run_op 12 (Pop C_start) q = Inr (Pop (C_done (head_index q) (Some v)), ?q)"
    using run_pop_room [OF h(1) c(1) _ n rc] tl sl by simp
  have ci1: "chain_inv C ?q1" using update_fields(1) [OF ci, of ?q1] chain_invD(5) [OF ci] by simp
  have ci2: "chain_inv C ?q" by (rule update_chunk(1) [OF ci1 ic, of c]) (use c(1) in auto)
  have slot: "slot_of C ?q t = slot_of C q t" if "t \<noteq> head_index q" for t
  proof -
    have "slot_of C ?q t = slot_of C (upd ?q1 (C ! m) (set_slot n (\<lambda>x. x\<lparr>slot_value := None\<rparr>) c)) t"
      by (rule slot_of_cong) simp
    then show ?thesis
      using slot_update(1) [OF ci1 ic _ n, of "\<lambda>x. x\<lparr>slot_value := None\<rparr>" t] that c(1) slot_of_cong [of C ?q1 q t] by simp
  qed
  have "\<forall>k'. m \<le> k' \<longrightarrow> k' < length C \<longrightarrow> (\<exists>d. cells ?q (C ! k') = Some d \<and> quiet_chunk C m (Suc (head_index q)) k' d)"
    by (rule quiet_chunks_upd [OF qt m, where c = ?c]) (use c(2) in \<open>simp_all add: quiet_chunk_def set_slot_def upd_def\<close>)
  moreover have "slot_of C ?q (Suc (head_index q) + i) = Some \<lparr>slot_value = Some (vs ! i), ready = True\<rparr>" if "i < length vs" for i
    using qt that slot [of "Suc (head_index q) + i"] unfolding quiet_def
    by (metis Suc_mono add_Suc_shift length_Cons less_add_Suc1 nat_neq_iff nth_Cons_Suc)
  ultimately have "quiet C m ?q vs"
    using qt ci2 lt by (auto simp: quiet_def)
  with run show ?thesis by (intro exI [of _ ?q]) simp
qed

text \<open>A \<open>pop\<close> that finds the first chunk exhausted deletes it and starts again.\<close>

lemma quiet_advance:
  assumes qt: "quiet C m q (v # vs)" and eq: "head_index q = CHUNK_SIZE * Suc m"
  shows "\<exists>q'. run_op 9 (Pop C_start) q = Inr (Pop C_start, q') \<and> quiet C (Suc m) q' (v # vs) \<and> head_index q' = head_index q"
proof -
  from qt have ci: "chain_inv C q" and m: "m < length C" and h: "head_chunk q = Some (C ! m)"
    and tl: "tail_index q = Suc (head_index q + length vs)" "tail_index q \<le> CHUNK_SIZE * length C" by (auto simp: quiet_def)
  have "CHUNK_SIZE * Suc m < CHUNK_SIZE * length C" using eq tl by simp
  then have m': "Suc m < length C" by (simp add: CHUNK_SIZE_def)
  from quiet_chunkE [OF qt order_refl m] obtain c where c: "cells q (C ! m) = Some c"
    "quiet_chunk C m (head_index q) m c" "begin_index c = CHUNK_SIZE * m" .
  let ?q = "q\<lparr>head_chunk := Some (C ! Suc m), cells := (cells q)(C ! m := None)\<rparr>"
  have run: "run_op 9 (Pop C_start) q = Inr (Pop C_start, ?q)"
    using h c(1,2) tl(1) eq m' by (simp add: eval_nat_numeral quiet_chunk_def algebra_simps)
  have other: "C ! k = C ! m \<longleftrightarrow> k = m" if "k < length C" for k
    using that m chain_invD(1) [OF ci] by (simp add: nth_eq_iff_index_eq)
  have "chain_inv C (q\<lparr>head_chunk := Some (C ! Suc m)\<rparr>)"
    using update_fields(1) [OF ci, of "q\<lparr>head_chunk := Some (C ! Suc m)\<rparr>"] m' by (auto simp: in_chain_def)
  from delete_chunk(1) [OF this, of "C ! m" "{}"] m have ci': "chain_inv C ?q" by simp
  have "\<exists>d. cells ?q (C ! k) = Some d \<and> quiet_chunk C (Suc m) (head_index q) k d" if "Suc m \<le> k" "k < length C" for k
    using quiet_chunkE [OF qt _ that(2)] that other [OF that(2)] eq by (fastforce simp: quiet_chunk_def)
  moreover have "slot_of C ?q (head_index q + i) = slot_of C q (head_index q + i)" for i
  proof -
    have "(head_index q + i) div CHUNK_SIZE \<noteq> m" by (simp add: eq CHUNK_SIZE_def)
    then show ?thesis using other [of "(head_index q + i) div CHUNK_SIZE"] by (auto simp: slot_of_def)
  qed
  ultimately have "quiet C (Suc m) ?q (v # vs)"
    using qt ci' m' eq by (auto simp: quiet_def)
  with run show ?thesis by (intro exI [of _ ?q]) simp
qed

lemma quiet_pop:
  assumes qt: "quiet C m q (v # vs)"
  shows "\<exists>n q' m'. run_op n (Pop C_start) q = Inr (Pop (C_done (head_index q) (Some v)), q') \<and> quiet C m' q' vs"
proof (cases "head_index q < CHUNK_SIZE * Suc m")
  case True
  with quiet_pop_room [OF qt] show ?thesis by blast
next
  case False
  with qt have eq: "head_index q = CHUNK_SIZE * Suc m" by (simp add: quiet_def)
  from quiet_advance [OF qt eq] obtain q1 where q1: "run_op 9 (Pop C_start) q = Inr (Pop C_start, q1)"
    "quiet C (Suc m) q1 (v # vs)" "head_index q1 = head_index q" by blast
  have "head_index q1 < CHUNK_SIZE * Suc (Suc m)" using eq q1(3) by (simp add: CHUNK_SIZE_def)
  from quiet_pop_room [OF q1(2) this] obtain q' where
    "run_op 12 (Pop C_start) q1 = Inr (Pop (C_done (head_index q1) (Some v)), q')" "quiet C (Suc m) q' vs" by blast
  with run_op_trans [OF q1(1)] q1(3) show ?thesis by metis
qed

subsection \<open>The operations, and the interface of a queue of tasks\<close>

text \<open>The operations as their callers see them: the steps of one call until it returns.\<close>

fun returned :: "'v op \<Rightarrow> bool" where
  "returned (Push v (P_done t)) = True"
| "returned (Pop (C_done t v)) = True"
| "returned (Pop C_none) = True"
| "returned _ = False"

partial_function (option) run_to_end :: "'v op \<Rightarrow> 'v mpmc \<Rightarrow> ('v op \<times> 'v mpmc) res option" where
  "run_to_end p q = (if returned p then Some (Inr (p, q)) else
     case op_step False p q of Inl e \<Rightarrow> Some (Inl e) | Inr x \<Rightarrow> (case x of (p', q') \<Rightarrow> run_to_end p' q'))"

definition push :: "'v \<Rightarrow> 'v mpmc \<Rightarrow> (bool \<times> 'v mpmc) res option" where
  "push v q = ro_bind (run_to_end (Push v P_start) q) (\<lambda>(p, q'). Some (Inr (True, q')))"

definition pop :: "'v mpmc \<Rightarrow> ('v option option \<times> 'v mpmc) res option" where
  "pop q = ro_bind (run_to_end (Pop C_start) q) (\<lambda>(p, q').
     Some (Inr (case p of Pop (C_done t v) \<Rightarrow> Some v | _ \<Rightarrow> None, q')))"

lemma run_to_end_run_op: "run_op n p q = Inr (p', q') \<Longrightarrow> returned p' \<Longrightarrow> run_to_end p q = Some (Inr (p', q'))"
proof (induction n arbitrary: p q)
  case 0
  then show ?case by (simp add: run_to_end.simps)
next
  case (Suc n)
  from Suc.prems(1) obtain p1 q1 where 1: "op_step False p q = Inr (p1, q1)" "run_op n p1 q1 = Inr (p', q')"
    by (auto simp: res_bind_eq_Inr)
  show ?case
  proof (cases "returned p")
    case True
    then have "p1 = p" "q1 = q" using 1(1) by (cases p rule: returned.cases; auto)+
    with Suc.IH [OF 1(2) Suc.prems(2)] show ?thesis by simp
  next
    case False
    with Suc.IH [OF 1(2) Suc.prems(2)] 1(1) show ?thesis by (simp add: run_to_end.simps [of p q])
  qed
qed

text \<open>Several calls one after the other.\<close>

primrec push_all :: "('v \<Rightarrow> 'q \<Rightarrow> (bool \<times> 'q) res option) \<Rightarrow> 'v list \<Rightarrow> 'q \<Rightarrow> 'q res option" where
  "push_all enq [] q = Some (Inr q)"
| "push_all enq (v # vs) q = ro_bind (enq v q) (\<lambda>(_, q'). push_all enq vs q')"

primrec pop_times :: "('q \<Rightarrow> ('r \<times> 'q) res option) \<Rightarrow> nat \<Rightarrow> 'q \<Rightarrow> ('r list \<times> 'q) res option" where
  "pop_times deq 0 q = Some (Inr ([], q))"
| "pop_times deq (Suc n) q = ro_bind (deq q) (\<lambda>(r, q'). ro_bind (pop_times deq n q') (\<lambda>(rs, q''). Some (Inr (r # rs, q''))))"

text \<open>
  What an executor relies on: \<open>push\<close> always succeeds and adds at the end, \<open>pop\<close> takes from the
  front and says when there is nothing.
\<close>

locale fifo_queue =
  fixes rep :: "'q \<Rightarrow> 'v list \<Rightarrow> bool"
    and enq :: "'v \<Rightarrow> 'q \<Rightarrow> (bool \<times> 'q) res option"
    and deq :: "'q \<Rightarrow> ('v option option \<times> 'q) res option"
  assumes enq_law: "rep q vs \<Longrightarrow> \<exists>q'. enq v q = Some (Inr (True, q')) \<and> rep q' (vs @ [v])"
    and deq_empty: "rep q [] \<Longrightarrow> deq q = Some (Inr (None, q))"
    and deq_law: "rep q (v # vs) \<Longrightarrow> \<exists>q'. deq q = Some (Inr (Some (Some v), q')) \<and> rep q' vs"
begin

lemma push_all_law: "rep q us \<Longrightarrow> \<exists>q'. push_all enq vs q = Some (Inr q') \<and> rep q' (us @ vs)"
proof (induction vs arbitrary: q us)
  case (Cons v vs)
  from enq_law [OF Cons.prems] obtain q1 where "enq v q = Some (Inr (True, q1))" "rep q1 (us @ [v])" by blast
  with Cons.IH [of q1 "us @ [v]"] show ?case by auto
qed auto

lemma pop_times_law:
  "rep q vs \<Longrightarrow> \<exists>q'. pop_times deq (length vs + 1) q = Some (Inr (map (\<lambda>v. Some (Some v)) vs @ [None], q')) \<and> rep q' []"
proof (induction vs arbitrary: q)
  case Nil
  then show ?case using deq_empty by auto
next
  case (Cons v vs)
  from deq_law [OF Cons.prems] obtain q1 where "deq q = Some (Inr (Some (Some v), q1))" "rep q1 vs" by blast
  with Cons.IH [of q1] show ?case by auto
qed

end

definition fifo :: "'v mpmc \<Rightarrow> 'v list \<Rightarrow> bool" where
  "fifo q vs \<longleftrightarrow> (\<exists>C m. quiet C m q vs)"

interpretation mpmc: fifo_queue fifo push pop
proof
  fix q :: "'v mpmc" and vs v
  assume "fifo q vs"
  then obtain C m where "quiet C m q vs" by (auto simp: fifo_def)
  from quiet_push [OF this] obtain n q' C' where
    "run_op n (Push v P_start) q = Inr (Push v (P_done (tail_index q)), q')" "quiet C' m q' (vs @ [v])" by blast
  with run_to_end_run_op show "\<exists>q'. push v q = Some (Inr (True, q')) \<and> fifo q' (vs @ [v])"
    by (fastforce simp: push_def fifo_def)
next
  fix q :: "'v mpmc"
  assume "fifo q []"
  with quiet_pop_empty run_to_end_run_op show "pop q = Some (Inr (None, q))"
    by (fastforce simp: pop_def fifo_def)
next
  fix q :: "'v mpmc" and vs v
  assume "fifo q (v # vs)"
  then obtain C m where "quiet C m q (v # vs)" by (auto simp: fifo_def)
  from quiet_pop [OF this] obtain n q' m' where
    "run_op n (Pop C_start) q = Inr (Pop (C_done (head_index q) (Some v)), q')" "quiet C m' q' vs" by blast
  with run_to_end_run_op show "\<exists>q'. pop q = Some (Inr (Some (Some v), q')) \<and> fifo q' vs"
    by (fastforce simp: pop_def fifo_def)
qed

subsection \<open>A race between \<open>push\<close> and \<open>pop\<close>\<close>

lemma run_op_steps:
  "run_op n (ops s i) (shared s) = Inr (p, q) \<Longrightarrow> sys_step\<^sup>*\<^sup>* s \<lparr>shared = q, ops = (ops s)(i := p)\<rparr>"
proof (induction n arbitrary: s)
  case 0
  then have "\<lparr>shared = q, ops = (ops s)(i := p)\<rparr> = s" by (auto intro: sys.equality)
  then show ?case by (simp only: rtranclp.rtrancl_refl)
next
  case (Suc n)
  from Suc.prems obtain p1 q1 where 1: "op_step False (ops s i) (shared s) = Inr (p1, q1)" "run_op n p1 q1 = Inr (p, q)"
    by (auto simp: res_bind_eq_Inr)
  have "sys_step\<^sup>*\<^sup>* \<lparr>shared = q1, ops = (ops s)(i := p1)\<rparr> \<lparr>shared = q, ops = (ops s)(i := p)\<rparr>"
    using Suc.IH [of "\<lparr>shared = q1, ops = (ops s)(i := p1)\<rparr>"] 1(2) by (simp add: fun_upd_def cong: if_cong)
  with sys_step.step [OF 1(1)] show ?case by (rule converse_rtranclp_into_rtranclp)
qed

lemma steps_reachable: "sys_step\<^sup>*\<^sup>* s t \<Longrightarrow> reachable s \<Longrightarrow> reachable t"
  by (induction rule: rtranclp_induct) (auto intro: reachable.continue)

lemma run_op_reachable:
  "reachable s \<Longrightarrow> run_op n (ops s i) (shared s) = Inr (p, q) \<Longrightarrow> reachable \<lparr>shared = q, ops = (ops s)(i := p)\<rparr>"
  by (blast intro: steps_reachable run_op_steps)

text \<open>Calls that alternate: the even ones push, the odd ones pop.\<close>

definition alternating :: "'v \<Rightarrow> nat \<Rightarrow> 'v op" where
  "alternating v i = (if even i then Push v P_start else Pop C_start)"

lemma alternating_calls:
  "n \<le> CHUNK_SIZE \<Longrightarrow> \<exists>s. reachable s \<and> quiet [0] 0 (shared s) [] \<and> head_index (shared s) = n \<and>
     (\<forall>i \<ge> 2 * n. ops s i = alternating v i) \<and> (\<forall>i < 2 * n. returned (ops s i))"
proof (induction n)
  case 0
  let ?s = "\<lparr>shared = MPMCQueue, ops = alternating v\<rparr>"
  have "reachable ?s" by (rule reachable.init) (auto simp: alternating_def)
  with quiet_init show ?case
    by (intro exI [of _ ?s]) (simp add: MPMCQueue_def new_chunk_def)
next
  case (Suc n)
  from Suc.IH Suc.prems obtain s where s: "reachable s" "quiet [0] 0 (shared s) []" "head_index (shared s) = n"
    "\<forall>i \<ge> 2 * n. ops s i = alternating v i" "\<forall>i < 2 * n. returned (ops s i)" by auto
  have lt: "tail_index (shared s) < CHUNK_SIZE * length [0 :: addr]" using s(2,3) Suc.prems by (simp add: quiet_def)
  from quiet_push_room [OF s(2) lt, of v] s(3) obtain q1 where
    1: "run_op 6 (Push v P_start) (shared s) = Inr (Push v (P_done (tail_index (shared s))), q1)" "quiet [0] 0 q1 [v]"
      "head_index q1 = n" by auto
  from quiet_pop_room [OF 1(2)] 1(3) Suc.prems obtain q2 where
    2: "run_op 12 (Pop C_start) q1 = Inr (Pop (C_done n (Some v)), q2)" "quiet [0] 0 q2 []" "head_index q2 = Suc n" by auto
  let ?s1 = "\<lparr>shared = q1, ops = (ops s)(2 * n := Push v (P_done (tail_index (shared s))))\<rparr>"
  let ?s2 = "\<lparr>shared = q2, ops = (ops ?s1)(Suc (2 * n) := Pop (C_done n (Some v)))\<rparr>"
  have "reachable ?s1" using run_op_reachable [OF s(1), of 6 "2 * n"] 1(1) s(4) by (simp add: alternating_def)
  from run_op_reachable [OF this, of 12 "Suc (2 * n)"] have "reachable ?s2"
    using 2(1) s(4) by (simp add: alternating_def)
  moreover have "\<forall>i \<ge> 2 * Suc n. ops ?s2 i = alternating v i" using s(4) by simp
  moreover have "\<forall>i < 2 * Suc n. returned (ops ?s2 i)" using s(5) by (auto simp: less_Suc_eq)
  ultimately show ?case using 2(2,3) by (intro exI [of _ ?s2]) simp
qed

text \<open>
  After a chunk was filled and emptied, the next \<open>push\<close> links a new chunk and is interrupted; a
  \<open>pop\<close> deletes the old chunk; the \<open>push\<close> goes on from the old chunk.
\<close>

lemma push_walks_deleted_chunk:
  "\<exists>(s :: 'v sys) i. reachable s \<and> (\<forall>j. j \<noteq> i \<longrightarrow> starting (ops s j) \<or> returned (ops s j)) \<and>
     op_step False (ops s i) (shared s) = Inl UseAfterFree"
proof -
  define v :: 'v where "v = undefined"
  from alternating_calls [of CHUNK_SIZE "v :: 'v", OF order_refl] obtain s where s: "reachable s" "quiet [0] 0 (shared s) []"
    "head_index (shared s) = CHUNK_SIZE" "\<forall>i \<ge> 2 * CHUNK_SIZE. ops s i = alternating v i"
    "\<forall>i < 2 * CHUNK_SIZE. returned (ops s i)" by blast
  let ?i = "2 * CHUNK_SIZE" and ?q = "shared s"
  from quiet_chunkE [OF s(2), of 0] obtain c where c: "cells ?q 0 = Some c" "quiet_chunk [0] 0 CHUNK_SIZE 0 c" "begin_index c = 0"
    using s(3) by auto
  from s(2,3) have q: "tail_chunk ?q = Some 0" "tail_index ?q = CHUNK_SIZE" "head_chunk ?q = Some 0" "0 < brk ?q"
    by (auto simp: quiet_def chain_inv_def)
  let ?q1 = "?q\<lparr>cells := (cells ?q)(brk ?q := Some (Chunk CHUNK_SIZE), 0 := Some (c\<lparr>next_chunk := Some (brk ?q)\<rparr>)),
      brk := Suc (brk ?q), tail_chunk := Some (brk ?q), tail_index := Suc CHUNK_SIZE\<rparr>"
  let ?s1 = "\<lparr>shared = ?q1, ops = (ops s)(?i := Push v (P_walk (Some 0) CHUNK_SIZE))\<rparr>"
  have "run_op 7 (Push v P_start) ?q = Inr (Push v (P_walk (Some 0) CHUNK_SIZE), ?q1)"
    using run_push_link [OF q(1) c(1)] q(2,4) c(3) by simp
  then have r1: "reachable ?s1" using run_op_reachable [OF s(1), of 7 ?i] s(4) by (simp add: alternating_def)
  let ?q2 = "?q1\<lparr>head_chunk := Some (brk ?q), cells := (cells ?q1)(0 := None)\<rparr>"
  let ?s2 = "\<lparr>shared = ?q2, ops = (ops ?s1)(Suc ?i := Pop C_start)\<rparr>"
  have "run_op 9 (Pop C_start) ?q1 = Inr (Pop C_start, ?q2)"
    using q c(1,2) s(3) by (simp add: eval_nat_numeral quiet_chunk_def)
  then have "reachable ?s2" using run_op_reachable [OF r1, of 9 "Suc ?i"] s(4) by (simp add: alternating_def)
  moreover have "op_step False (ops ?s2 ?i) (shared ?s2) = Inl UseAfterFree" by (simp add: load_def)
  moreover have "starting (ops ?s2 j) \<or> returned (ops ?s2 j)" if "j \<noteq> ?i" for j
    using s(4,5) that by (cases "j < ?i") (auto simp: alternating_def)
  ultimately show ?thesis by (intro exI [of _ ?s2] exI [of _ ?i]) simp
qed

subsection \<open>The destructor\<close>

partial_function (option) delete_chunks :: "ptr \<Rightarrow> 'v mpmc \<Rightarrow> 'v mpmc res option" where
  "delete_chunks cur q = (case cur of None \<Rightarrow> Some (Inr q)
     | Some a \<Rightarrow> (case load q cur of Inl e \<Rightarrow> Some (Inl e)
         | Inr c \<Rightarrow> (case free q cur of Inl e \<Rightarrow> Some (Inl e)
             | Inr q' \<Rightarrow> delete_chunks (next_chunk c) q')))"

definition MPMCQueue_destructor :: "'v mpmc \<Rightarrow> 'v mpmc res option" where
  "MPMCQueue_destructor q = delete_chunks (head_chunk q) q"

lemma delete_chunks_ok:
  assumes "distinct as" and "\<And>i. i < length as \<Longrightarrow> \<exists>c. cells q (as ! i) = Some c \<and>
    next_chunk c = (if Suc i < length as then Some (as ! Suc i) else None)"
  shows "\<exists>q'. delete_chunks (if as = [] then None else Some (hd as)) q = Some (Inr q') \<and>
    cells q' = (\<lambda>a. if a \<in> set as then None else cells q a)"
  using assms
proof (induction as arbitrary: q)
  case Nil
  then show ?case by (simp add: delete_chunks.simps)
next
  case (Cons a as)
  from Cons.prems(2) [of 0] obtain c where c: "cells q a = Some c" "next_chunk c = (if as = [] then None else Some (hd as))"
    by (auto simp: hd_conv_nth)
  let ?q = "q\<lparr>cells := (cells q)(a := None)\<rparr>"
  have "\<exists>c. cells ?q (as ! i) = Some c \<and> next_chunk c = (if Suc i < length as then Some (as ! Suc i) else None)"
    if "i < length as" for i
    using Cons.prems(2) [of "Suc i"] Cons.prems(1) that nth_mem [OF that] by auto
  from Cons.IH [of ?q] Cons.prems(1) this obtain q' where
    "delete_chunks (if as = [] then None else Some (hd as)) ?q = Some (Inr q')"
    "cells q' = (\<lambda>b. if b \<in> set as then None else cells ?q b)" by auto
  with c show ?case
    by (auto simp: delete_chunks.simps [of "Some a"] free_def)
qed

lemma destructor_quiet:
  assumes "quiet C m q vs"
  shows "\<exists>q'. MPMCQueue_destructor q = Some (Inr q') \<and> cells q' = (\<lambda>a. if a \<in> set (drop m C) then None else cells q a)"
proof -
  have m: "m < length C" "head_chunk q = Some (C ! m)" "distinct C" using assms by (auto simp: quiet_def chain_inv_def)
  have "\<exists>c. cells q (drop m C ! i) = Some c \<and>
      next_chunk c = (if Suc i < length (drop m C) then Some (drop m C ! Suc i) else None)" if "i < length (drop m C)" for i
  proof -
    from that have i: "m \<le> m + i" "m + i < length C" by auto
    from quiet_chunkE [OF assms i] obtain c where "cells q (C ! (m + i)) = Some c" "quiet_chunk C m (head_index q) (m + i) c" .
    moreover have "(Suc i < length (drop m C)) = (Suc (m + i) < length C)" by auto
    ultimately show ?thesis using m(1) by (simp add: quiet_chunk_def)
  qed
  from delete_chunks_ok [OF _ this] m show ?thesis
    by (simp add: MPMCQueue_destructor_def hd_drop_conv_nth)
qed

end
