(* ===== verification/MpmcProperties.thy ===== *)
theory MpmcProperties
  imports MpmcSequential
begin

section \<open>Properties of the queue of tasks\<close>

text \<open>
  The consequences of the invariants and of the sequential behaviour: tickets are handed out
  once and in order, a \<open>pop\<close> returns what the \<open>push\<close> with its ticket stored, calls that do not
  overlap make a first-in first-out queue, and calls that overlap can touch a deleted chunk.
\<close>

subsection \<open>Order\<close>

lemma sys_step_tickets:
  assumes "sys_step s t" and "tickets_inv s"
  shows "tail_index (shared s) \<le> tail_index (shared t)" "head_index (shared s) \<le> head_index (shared t)"
    "enq_ticket (ops t j) = enq_ticket (ops s j) \<or> enq_ticket (ops t j) = Some (tail_index (shared s))"
    "deq_ticket (ops t j) = deq_ticket (ops s j) \<or> deq_ticket (ops t j) = Some (head_index (shared s))"
proof -
  from assms(1) obtain sp i p q where st: "op_step sp (ops s i) (shared s) = Inr (p, q)"
    and t: "t = \<lparr>shared = q, ops = (ops s)(i := p)\<rparr>" by (cases rule: sys_step.cases) auto
  have "tail_index (shared s) \<le> tail_index q \<and> head_index (shared s) \<le> head_index q \<and>
    (enq_ticket p = enq_ticket (ops s i) \<or> enq_ticket p = Some (tail_index (shared s))) \<and>
    (deq_ticket p = deq_ticket (ops s i) \<or> deq_ticket p = Some (head_index (shared s)))"
  proof (cases "ops s i")
    case (Push v pc)
    with st obtain pc' where "p = Push v pc'" "push_step sp v pc (shared s) = Inr (pc', q)" by (auto simp: res_bind_eq_Inr)
    with push_step_tickets Push show ?thesis by fastforce
  next
    case (Pop pc)
    with st obtain pc' where "p = Pop pc'" "pop_step sp pc (shared s) = Inr (pc', q)" by (auto simp: res_bind_eq_Inr)
    with pop_step_tickets [of sp pc "shared s" pc' q] Pop assms(2) show ?thesis by (fastforce simp: tickets_inv_def)
  qed
  then show "tail_index (shared s) \<le> tail_index (shared t)" "head_index (shared s) \<le> head_index (shared t)"
    "enq_ticket (ops t j) = enq_ticket (ops s j) \<or> enq_ticket (ops t j) = Some (tail_index (shared s))"
    "deq_ticket (ops t j) = deq_ticket (ops s j) \<or> deq_ticket (ops t j) = Some (head_index (shared s))"
    by (auto simp: t)
qed

text \<open>A call that has no ticket yet gets one that is not below the counter.\<close>

lemma later_tickets:
  assumes "sys_step\<^sup>*\<^sup>* s t" and "reachable s"
  shows "tail_index (shared s) \<le> tail_index (shared t) \<and> head_index (shared s) \<le> head_index (shared t) \<and>
    (\<forall>n. enq_ticket (ops t j) = Some n \<longrightarrow> enq_ticket (ops s j) = None \<longrightarrow> tail_index (shared s) \<le> n) \<and>
    (\<forall>n. deq_ticket (ops t j) = Some n \<longrightarrow> deq_ticket (ops s j) = None \<longrightarrow> head_index (shared s) \<le> n)"
  using assms(1)
proof (induction rule: rtranclp_induct)
  case base
  then show ?case by simp
next
  case (step t u)
  have "tickets_inv t" by (rule tickets_inv_reachable, rule steps_reachable) (use step assms(2) in auto)
  from sys_step_tickets(1,2) [OF step(2) this] sys_step_tickets(3,4) [OF step(2) this, of j] step(3) show ?case by auto
qed

lemma example_calls:
  "\<exists>s. reachable s \<and> ops s 0 = Push v (P_done 0) \<and> ops s 1 = Pop (C_done 0 (Some v)) \<and> ops s 2 = Push v P_start \<and>
     tail_index (shared s) = 1 \<and> fifo (shared s) []"
proof -
  let ?s = "\<lparr>shared = MPMCQueue, ops = alternating v\<rparr>"
  have r: "reachable ?s" by (rule reachable.init) (auto simp: alternating_def)
  have z: "tail_index (MPMCQueue :: 'a mpmc) = 0" "head_index (MPMCQueue :: 'a mpmc) = 0"
    by (simp_all add: MPMCQueue_def new_chunk_def)
  from quiet_push_room [OF quiet_init, of v] z obtain q1 where
    1: "run_op 6 (Push v P_start) MPMCQueue = Inr (Push v (P_done 0), q1)" "quiet [0] 0 q1 [v]" "head_index q1 = 0"
    by (auto simp: CHUNK_SIZE_def)
  from quiet_pop_room [OF 1(2)] 1(3) obtain q2 where
    2: "run_op 12 (Pop C_start) q1 = Inr (Pop (C_done 0 (Some v)), q2)" "quiet [0] 0 q2 []" "head_index q2 = 1"
    by (auto simp: CHUNK_SIZE_def)
  have r1: "reachable \<lparr>shared = q1, ops = (alternating v)(0 := Push v (P_done 0))\<rparr>"
    using run_op_reachable [OF r, of 6 0] 1(1) by (simp add: alternating_def)
  have "reachable \<lparr>shared = q2, ops = (alternating v)(0 := Push v (P_done 0), 1 := Pop (C_done 0 (Some v)))\<rparr>"
    using run_op_reachable [OF r1, of 12 1] 2(1) by (simp add: alternating_def)
  then show ?thesis
    using 2(2,3) by (intro exI [of _ "\<lparr>shared = q2, ops = (alternating v)(0 := Push v (P_done 0), 1 := Pop (C_done 0 (Some v)))\<rparr>"])
      (auto simp: alternating_def quiet_def fifo_def)
qed

subsection \<open>Properties\<close>

text \<open>
  C12. Tickets: in every interleaving of pushes and pops the head never passes the tail, the
  tickets below the tail are held by exactly one push each, and those below the head by exactly
  one pop each.
\<close>

theorem queue_tickets_unique:
  assumes "reachable s"
  shows "head_index (shared s) \<le> tail_index (shared s) \<and>
    (\<forall>t. (\<exists>!i. enq_ticket (ops s i) = Some t) \<longleftrightarrow> t < tail_index (shared s)) \<and>
    (\<forall>t. (\<exists>!i. deq_ticket (ops s i) = Some t) \<longleftrightarrow> t < head_index (shared s))"
  using tickets_inv_reachable [OF assms] unfolding tickets_inv_def handed_out_def by blast

theorem queue_tickets_unique_witness:
  "\<exists>s :: nat sys. reachable s \<and> tail_index (shared s) = 1 \<and> (\<exists>!i. enq_ticket (ops s i) = Some 0)"
  using example_calls [of "7 :: nat"] queue_tickets_unique zero_less_one by metis

text \<open>
  C11. A pop that returned with the ticket \<open>t\<close> returned the value of the one push that has the
  ticket \<open>t\<close>, which has also returned; no other pop has this ticket. So every value is popped at
  most once, and values come out in the order of their tickets.
\<close>

theorem pop_returns_pushed:
  assumes "reachable s" and "ops s i = Pop (C_done t w)"
  shows "\<exists>j v. ops s j = Push v (P_done t) \<and> w = Some v \<and>
    (\<forall>j'. enq_ticket (ops s j') = Some t \<longrightarrow> j' = j) \<and> (\<forall>i'. deq_ticket (ops s i') = Some t \<longrightarrow> i' = i)"
proof -
  from sys_inv_reachable [OF assms(1)] obtain C where tk: "tickets_inv s" and sl: "slots_inv C s" by (auto simp: sys_inv_def)
  have "took (ops s i) = Some (t, w)" using assms(2) by simp
  with sl obtain j v where j: "published (ops s j) = Some (t, v)" "w = Some v" unfolding slots_inv_def by blast
  then have "ops s j = Push v (P_done t)" by (cases "ops s j" rule: published.cases) auto
  with j unique_enq [OF tk, of j t] unique_deq [OF tk, of i t] assms(2) show ?thesis
    by (intro exI [of _ j] exI [of _ v]) auto
qed

theorem pop_returns_pushed_witness:
  "\<exists>(s :: nat sys) i j. reachable s \<and> ops s i = Pop (C_done 0 (Some 7)) \<and> ops s j = Push 7 (P_done 0)"
proof -
  from example_calls [of "7 :: nat"] obtain s :: "nat sys" where s: "reachable s" "ops s 1 = Pop (C_done 0 (Some 7))" by blast
  from pop_returns_pushed [OF s] s show ?thesis by auto
qed

text \<open>
  The order of tickets respects time: a push that has no ticket when another has one gets a
  later ticket, whatever happens in between, and so does a pop.
\<close>

theorem tickets_respect_time:
  assumes "reachable s" and "sys_step\<^sup>*\<^sup>* s s'"
  shows "(enq_ticket (ops s i) = Some t \<longrightarrow> enq_ticket (ops s j) = None \<longrightarrow> enq_ticket (ops s' j) = Some t' \<longrightarrow> t < t') \<and>
    (deq_ticket (ops s i) = Some t \<longrightarrow> deq_ticket (ops s j) = None \<longrightarrow> deq_ticket (ops s' j) = Some t' \<longrightarrow> t < t')"
proof -
  have "enq_ticket (ops s i) = Some t \<Longrightarrow> t < tail_index (shared s)" "deq_ticket (ops s i) = Some t \<Longrightarrow> t < head_index (shared s)"
    using tickets_inv_reachable [OF assms(1)] unfolding tickets_inv_def handed_out_def by blast+
  with later_tickets [OF assms(2,1), of j] show ?thesis by fastforce
qed

theorem tickets_respect_time_witness:
  "\<exists>(s :: nat sys) s' t'. reachable s \<and> sys_step\<^sup>*\<^sup>* s s' \<and> enq_ticket (ops s 0) = Some 0 \<and>
     enq_ticket (ops s' 2) = Some t' \<and> 0 < t'"
proof -
  from example_calls [of "7 :: nat"] obtain s :: "nat sys" where s: "reachable s" "ops s 0 = Push 7 (P_done 0)" "ops s 2 = Push 7 P_start"
    "fifo (shared s) []" by blast
  from s(4) obtain C m where "quiet C m (shared s) []" by (auto simp: fifo_def)
  from quiet_push [OF this, of 7] obtain n q' where "run_op n (ops s 2) (shared s) = Inr (Push 7 (P_done (tail_index (shared s))), q')"
    unfolding s(3) by blast
  from run_op_steps [OF this] have st: "sys_step\<^sup>*\<^sup>* s \<lparr>shared = q', ops = (ops s)(2 := Push 7 (P_done (tail_index (shared s))))\<rparr>" .
  from tickets_respect_time [OF s(1) st, of 0 0 2] s st show ?thesis by fastforce
qed

text \<open>
  C10. Calls that do not overlap make a first-in first-out queue: \<open>push\<close> returns true, faults
  never and adds its value at the end; \<open>pop\<close> returns false exactly if the queue is empty and
  otherwise the first value, which it removes. This covers the allocation of a new chunk and
  the deletion of an exhausted one.
\<close>

theorem queue_refines_fifo:
  assumes "fifo q vs"
  shows "(\<exists>q'. push v q = Some (Inr (True, q')) \<and> fifo q' (vs @ [v])) \<and>
    (case vs of [] \<Rightarrow> pop q = Some (Inr (None, q))
     | w # ws \<Rightarrow> \<exists>q'. pop q = Some (Inr (Some (Some w), q')) \<and> fifo q' ws)"
  using mpmc.enq_law [OF assms] mpmc.deq_empty mpmc.deq_law assms by (auto split: list.splits)

theorem queue_refines_fifo_witness:
  "\<exists>q. push (3 :: nat) MPMCQueue = Some (Inr (True, q)) \<and> fifo q [3]"
  using queue_refines_fifo [of MPMCQueue "[]" 3] quiet_init by (auto simp: fifo_def)

text \<open>
  C27. Round trip: what is pushed on a new queue, however much, is popped in the same order, and
  then the queue reports that it is empty.
\<close>

theorem push_pop_roundtrip:
  "\<exists>q q'. push_all push vs MPMCQueue = Some (Inr q) \<and>
    pop_times pop (length vs + 1) q = Some (Inr (map (\<lambda>v. Some (Some v)) vs @ [None], q'))"
proof -
  have "fifo MPMCQueue []" using quiet_init by (auto simp: fifo_def)
  from mpmc.push_all_law [OF this, of vs] obtain q where q: "push_all push vs MPMCQueue = Some (Inr q)" "fifo q vs" by auto
  from mpmc.pop_times_law [OF q(2)] q(1) show ?thesis by blast
qed

text \<open>
  C35. Calls that overlap can touch a deleted chunk, even with one producer and one consumer: in
  a state in which all calls but one have returned or not started, the next access of that call
  (a push that has linked a new chunk) is to a chunk a pop has deleted.
\<close>

theorem push_uses_deleted_chunk:
  "\<exists>(s :: 'v sys) i. reachable s \<and> (\<forall>j. j = i \<or> starting (ops s j) \<or> returned (ops s j)) \<and>
     op_step False (ops s i) (shared s) = Inl UseAfterFree"
  using push_walks_deleted_chunk by blast

end
