(* ===== verification/Kqueue.thy ===== *)
theory Kqueue
  imports Executor
begin

section \<open>KqueueExecutor (src/scheduler/kqueue_executor.h, src/scheduler/kqueue_executor.cc)\<close>

text \<open>
  The executor on macOS. Instead of an interest list and an event descriptor it has a kernel
  queue: filters for input and output of a descriptor, and one user filter that \<open>spawn\<close> and
  \<open>stop\<close> trigger. Its thread has the loop of theory \<open>Executor\<close>.
\<close>

datatype kfilter = EVFILT_READ | EVFILT_WRITE | EVFILT_USER

type_synonym knotes = "int \<times> kfilter \<Rightarrow> 64 word option"

text \<open>
  The changes given to \<open>kevent\<close>: adding a filter (adding it again overwrites it) and deleting
  one, which fails when there is none. Without room for events \<open>kevent\<close> returns at the first
  change that fails, and leaves the rest undone.
\<close>

datatype change = KEV_ADD int kfilter "64 word" | KEV_DELETE int kfilter

fun kevent :: "change list \<Rightarrow> knotes \<Rightarrow> bool \<times> knotes" where
  "kevent [] k = (True, k)"
| "kevent (KEV_ADD ident f udata # cs) k = kevent cs (k((ident, f) \<mapsto> udata))"
| "kevent (KEV_DELETE ident f # cs) k =
     (if k (ident, f) = None then (False, k) else kevent cs (k((ident, f) := None)))"

record ('pc, 't) kqueue_executor = "('pc, 't) executor" +
  kq_fd :: int
  knotes :: knotes
  triggered :: bool

definition USER_IDENT :: int where
  "USER_IDENT = 1"

text \<open>
  The constructor: without a kernel queue (\<open>fd\<close> is \<open>-1\<close>) it returns before it starts the
  thread.
\<close>

definition KqueueExecutor :: "int \<Rightarrow> ('pc, 't) kqueue_executor" where
  "KqueueExecutor fd =
     \<lparr>sessions = (\<lambda>_. None), should_notify = True, task_queue = [], stop_flag = False, kq_fd = fd,
      knotes = (if fd = -1 then (\<lambda>_. None) else snd (kevent [KEV_ADD USER_IDENT EVFILT_USER 0] (\<lambda>_. None))),
      triggered = False\<rparr>"

text \<open>Triggering the user filter; \<open>refused\<close> stands for the other reasons why \<open>kevent\<close> may fail.\<close>

definition trigger :: "bool \<Rightarrow> ('pc, 't) kqueue_executor \<Rightarrow> bool \<times> ('pc, 't) kqueue_executor" where
  "trigger refused ex = (if refused \<or> kq_fd ex = -1 \<or> knotes ex (USER_IDENT, EVFILT_USER) = None then (False, ex)
     else (True, ex\<lparr>triggered := True\<rparr>))"

definition kqueue_stop :: "bool \<Rightarrow> ('pc, 't) kqueue_executor \<Rightarrow> ('pc, 't) kqueue_executor" where
  "kqueue_stop refused ex = (let ex1 = ex\<lparr>stop_flag := True\<rparr> in
     if kq_fd ex1 \<noteq> -1 then snd (trigger refused ex1) else ex1)"

text \<open>
  \<open>spawn\<close> without interference. When the trigger fails it sets the flag again and reports
  failure, with the task queued.
\<close>

definition kqueue_spawn :: "bool \<Rightarrow> 't \<Rightarrow> ('pc, 't) kqueue_executor \<Rightarrow> bool \<times> ('pc, 't) kqueue_executor" where
  "kqueue_spawn refused task ex =
     (let ex1 = ex\<lparr>task_queue := task_queue ex @ [task]\<rparr> in
      if should_notify ex1 then
        (case trigger refused (ex1\<lparr>should_notify := False\<rparr>) of
           (False, ex2) \<Rightarrow> (False, ex2\<lparr>should_notify := True\<rparr>)
         | (True, ex2) \<Rightarrow> (True, ex2))
      else (True, ex1))"

definition kqueue_add_event :: "event_type \<Rightarrow> connection \<Rightarrow> knotes \<Rightarrow> bool \<times> knotes" where
  "kqueue_add_event t c k =
     (let fd = sockfd (sock c); udata = this_ptr c in
      case t of
        EV_READ \<Rightarrow> kevent [KEV_ADD fd EVFILT_READ udata] k
      | EV_WRITE \<Rightarrow> kevent [KEV_ADD fd EVFILT_WRITE udata] k
      | EV_DELETE \<Rightarrow> (True, snd (kevent [KEV_DELETE fd EVFILT_READ, KEV_DELETE fd EVFILT_WRITE] k))
      | EV_UNKNOWN \<Rightarrow> (False, k))"

definition kqueue_commit :: "('pc, ('pc, 't) kqueue_executor) committer" where
  "kqueue_commit p c c' fr ex = ex\<lparr>sessions := (sessions ex)(p \<mapsto> \<lparr>s_conn = c', s_frame = fr\<rparr>),
     knotes := fold (\<lambda>t k. snd (kqueue_add_event t c' k)) (drop (length (events c)) (events c')) (knotes ex)\<rparr>"

text \<open>The body of the loop over the reported events.\<close>

record k_event =
  k_ident :: int
  k_filter :: kfilter
  k_udata :: "64 word"
  k_eof :: bool

definition kqueue_handle :: "'pc resumption \<Rightarrow> k_event \<Rightarrow> ('pc, 't) kqueue_executor \<Rightarrow> ('pc, 't) kqueue_executor res option" where
  "kqueue_handle rr ev ex =
     (if k_filter ev = EVFILT_USER then Some (Inr (ex\<lparr>triggered := False, should_notify := False\<rparr>))
      else let p = k_udata ev in
      if p = 0 then Some (Inr ex)
      else case sessions ex p of None \<Rightarrow> Some (Inl UseAfterFree)
      | Some s \<Rightarrow>
        if k_eof ev then Some (Inr (ex\<lparr>sessions := (sessions ex)(p \<mapsto> s\<lparr>s_conn := conn_close (s_conn s)\<rparr>),
          knotes := snd (kevent [KEV_DELETE (k_ident ev) EVFILT_READ, KEV_DELETE (k_ident ev) EVFILT_WRITE] (knotes ex))\<rparr>))
        else if k_filter ev = EVFILT_WRITE then
          (let ex1 = ex\<lparr>knotes := snd (kevent [KEV_DELETE (k_ident ev) EVFILT_WRITE] (knotes ex))\<rparr> in
           ro_bind (resume_write (s_conn s)) (\<lambda>c'. Some (Inr (kqueue_commit p (s_conn s) c' (s_frame s) ex1))))
        else ro_bind (rr (s_frame s) (s_conn s)) (\<lambda>(fr, c'). Some (Inr (kqueue_commit p (s_conn s) c' fr ex))))"

text \<open>
  An event that says that the connection at \<open>p\<close> with descriptor \<open>fd\<close> is readable, or writable if
  \<open>w\<close>; one that says that the peer is gone; and which filters the queue has of a descriptor.
\<close>

definition k_ready :: "bool \<Rightarrow> int \<Rightarrow> 64 word \<Rightarrow> k_event" where
  "k_ready w fd p = \<lparr>k_ident = fd, k_filter = (if w then EVFILT_WRITE else EVFILT_READ), k_udata = p, k_eof = False\<rparr>"

definition k_gone :: "bool \<Rightarrow> int \<Rightarrow> 64 word \<Rightarrow> k_event" where
  "k_gone w fd p = (k_ready w fd p)\<lparr>k_eof := True\<rparr>"

definition kqueue_watched :: "('pc, 't) kqueue_executor \<Rightarrow> int \<Rightarrow> (64 word \<times> bool \<times> bool) option" where
  "kqueue_watched ex fd = (case (knotes ex (fd, EVFILT_READ), knotes ex (fd, EVFILT_WRITE)) of
     (Some p, w) \<Rightarrow> Some (p, True, w = Some p) | (None, Some p) \<Rightarrow> Some (p, False, True) | (None, None) \<Rightarrow> None)"

lemma trigger_simps [simp]:
  "task_queue (snd (trigger refused ex)) = task_queue ex" "sessions (snd (trigger refused ex)) = sessions ex"
  "stop_flag (snd (trigger refused ex)) = stop_flag ex"
  by (simp_all add: trigger_def)

lemma kqueue_spawn_eq: "snd (kqueue_spawn refused task ex) =
    (let ex1 = ex\<lparr>task_queue := task_queue ex @ [task]\<rparr>; r = trigger refused (ex1\<lparr>should_notify := False\<rparr>) in
     if should_notify ex1 then (if fst r then snd r else (snd r)\<lparr>should_notify := True\<rparr>) else ex1)"
  by (simp add: kqueue_spawn_def Let_def split: prod.splits bool.splits)

abbreviation k_changes :: "connection \<Rightarrow> event_type list \<Rightarrow> knotes \<Rightarrow> knotes" where
  "k_changes c es k \<equiv> fold (\<lambda>t k. snd (kqueue_add_event t c k)) es k"

lemma kqueue_add_event_other: "fd \<noteq> sockfd (sock c) \<Longrightarrow> snd (kqueue_add_event t c k) (fd, f) = k (fd, f)"
  by (cases t) (simp_all add: kqueue_add_event_def Let_def)

lemma k_changes_other: "fd \<noteq> sockfd (sock c) \<Longrightarrow> k_changes c es k (fd, f) = k (fd, f)"
  by (induction es arbitrary: k) (simp_all add: kqueue_add_event_other)

lemma k_changes_writes: "set es \<subseteq> {EV_WRITE} \<Longrightarrow>
    k_changes c es k = (if es = [] then k else k((sockfd (sock c), EVFILT_WRITE) \<mapsto> this_ptr c))"
  by (induction es arbitrary: k) (auto simp: kqueue_add_event_def Let_def)

lemma k_add_read: "snd (kqueue_add_event EV_READ c k) = k((sockfd (sock c), EVFILT_READ) \<mapsto> this_ptr c)"
  by (simp add: kqueue_add_event_def Let_def)

lemma kqueue_commit_knotes: "events c' = events c @ es \<Longrightarrow> knotes (kqueue_commit p c c' fr ex) = k_changes c' es (knotes ex)"
  by (simp add: kqueue_commit_def)

lemma kqueue_watched_True: "kqueue_watched ex fd = Some (p, True, w) \<longleftrightarrow>
    knotes ex (fd, EVFILT_READ) = Some p \<and> w = (knotes ex (fd, EVFILT_WRITE) = Some p)"
  by (auto simp: kqueue_watched_def split: option.splits)

lemma kqueue_watched_None: "kqueue_watched ex fd = None \<longleftrightarrow> knotes ex (fd, EVFILT_READ) = None \<and> knotes ex (fd, EVFILT_WRITE) = None"
  by (auto simp: kqueue_watched_def split: option.splits)

lemma kqueue_commit_more:
  assumes "kqueue_watched ex (sockfd (sock c')) = Some (this_ptr c', True, w)" and "events c' = events c @ es" and "set es \<subseteq> {EV_WRITE}"
  shows "kqueue_watched (kqueue_commit p c c' fr ex) (sockfd (sock c')) = Some (this_ptr c', True, w \<or> es \<noteq> [])"
  using assms by (auto simp: kqueue_watched_True kqueue_commit_knotes [OF assms(2)] k_changes_writes)

lemma kqueue_commit_first:
  assumes "kqueue_watched ex (sockfd (sock c')) = None" and "events c' = events c @ EV_READ # es" and "set es \<subseteq> {EV_WRITE}"
  shows "kqueue_watched (kqueue_commit p c c' fr ex) (sockfd (sock c')) = Some (this_ptr c', True, es \<noteq> [])"
  using assms by (auto simp: kqueue_watched_True kqueue_watched_None kqueue_commit_knotes [OF assms(2)] k_changes_writes k_add_read)

lemma kqueue_handle_writable:
  assumes "p \<noteq> 0" and "sessions ex p = Some s" and "\<not> is_dummy (s_conn s)" and "fd = sockfd (sock (s_conn s))"
    and "kqueue_watched ex fd = Some (p, True, w)"
  shows "\<exists>ex1. kqueue_handle rr (k_ready True fd p) ex = ro_bind (resume_write (s_conn s)) (\<lambda>c'.
        Some (Inr (kqueue_commit p (s_conn s) c' (s_frame s) ex1))) \<and>
      sessions ex1 = sessions ex \<and> task_queue ex1 = task_queue ex \<and> stop_flag ex1 = stop_flag ex \<and>
      kqueue_watched ex1 = (kqueue_watched ex)(fd \<mapsto> (p, True, False))"
proof -
  let ?ex1 = "ex\<lparr>knotes := (knotes ex)((fd, EVFILT_WRITE) := None)\<rparr>"
  have del: "snd (kevent [KEV_DELETE fd EVFILT_WRITE] (knotes ex)) = (knotes ex)((fd, EVFILT_WRITE) := None)"
    by (auto simp: fun_eq_iff)
  have "kqueue_watched ?ex1 fd = Some (p, True, False)" using assms(5) by (simp add: kqueue_watched_True)
  then have "kqueue_watched ?ex1 fd' = ((kqueue_watched ex)(fd \<mapsto> (p, True, False))) fd'" for fd'
    by (cases "fd' = fd") (simp_all add: kqueue_watched_def)
  then have "kqueue_watched ?ex1 = (kqueue_watched ex)(fd \<mapsto> (p, True, False))" by blast
  then show ?thesis
    using assms(1,2) del by (intro exI [of _ ?ex1]) (simp add: kqueue_handle_def k_ready_def Let_def)
qed

lemma kqueue_watched_cong: "knotes ex' = knotes ex \<Longrightarrow> kqueue_watched ex' = kqueue_watched ex"
  by (simp add: kqueue_watched_def fun_eq_iff)

lemma kqueue_spawn_knotes: "knotes (snd (kqueue_spawn refused task ex)) = knotes ex"
  by (simp add: kqueue_spawn_eq Let_def trigger_def)

interpretation kqueue: poll_executor "kqueue_spawn refused" kqueue_commit kqueue_handle k_ready kqueue_watched
  for refused :: bool
proof (unfold_locales, goal_cases)
  case 4
  show ?case by (rule kqueue_watched_cong) (rule kqueue_spawn_knotes)
next
  case 5
  show ?case by (rule kqueue_watched_cong) simp
next
  case 6
  show ?case by (rule kqueue_watched_cong) simp
next
  case 7
  show ?case by (rule kqueue_watched_cong) simp
next
  case (11 c' c p fr ex)
  then show ?case by (intro kqueue_watched_cong) (simp add: kqueue_commit_def)
next
  case 12
  then show ?case by (simp add: kqueue_watched_def kqueue_commit_def k_changes_other)
next
  case 13
  then show ?case by (rule kqueue_commit_first)
next
  case 14
  then show ?case by (rule kqueue_commit_more)
next
  case 15
  then show ?case by (simp add: kqueue_handle_def k_ready_def)
next
  case 16
  then show ?case by (rule kqueue_handle_writable)
qed (simp_all add: kqueue_spawn_eq Let_def kqueue_commit_def)

text \<open>The end of the stream: the connection is closed, both filters are gone, and no coroutine is resumed.\<close>

lemma kqueue_handle_gone:
  assumes "p \<noteq> 0" and "sessions ex p = Some s" and "knotes ex (fd, EVFILT_READ) = Some p"
  shows "kqueue_handle rr (k_gone w fd p) ex = Some (Inr (ex\<lparr>sessions := (sessions ex)(p \<mapsto> s\<lparr>s_conn := conn_close (s_conn s)\<rparr>),
    knotes := (knotes ex)((fd, EVFILT_READ) := None, (fd, EVFILT_WRITE) := None)\<rparr>))"
proof -
  have "snd (kevent [KEV_DELETE fd EVFILT_READ, KEV_DELETE fd EVFILT_WRITE] (knotes ex))
      = (knotes ex)((fd, EVFILT_READ) := None, (fd, EVFILT_WRITE) := None)"
    using assms(3) by (auto simp: fun_eq_iff)
  then show ?thesis using assms(1,2) by (simp add: kqueue_handle_def k_gone_def k_ready_def Let_def)
qed

subsection \<open>Properties\<close>

text \<open>
  C20. The executor on macOS serves any number of connections at once as the one on Linux does:
  whatever the order in which they are reported readable and writable, and whether or not
  \<open>spawn\<close> could trigger the user filter, each connection has produced exactly the bytes the
  specification computes from its own input, and has its input filter. The bytes are on the wire
  if the kernel takes whatever it is given; what is not is queued and the connection has its
  output filter; the next write event moves as much as the kernel takes and leaves the filter
  there exactly if bytes are left. An end-of-file event closes the connection and deletes both
  filters.
\<close>

theorem kqueue_serves_connections:
  assumes "task_queue ex = []" and "\<not> stop_flag ex"
    and "distinct (map fst as)" and "distinct (map snd as)"
    and "\<forall>(fd, p) \<in> set as. knotes ex (fd, EVFILT_READ) = None \<and> knotes ex (fd, EVFILT_WRITE) = None \<and> fd \<noteq> -1 \<and> p \<noteq> 0 \<and>
      admitted srv (out p) (pc p) (pos p) (rest p) (count_list (concat ess) (False, fd, p)) fd p (mk fd p)"
    and "ess \<noteq> []" and "\<forall>es \<in> set ess. snd ` set es \<subseteq> set as \<and> length es \<le> MAX_EVENTS"
  shows "\<exists>ex'. poll_loop (kqueue_handle (resume_read srv)) (run_server_task kqueue_commit srv)
      (map (\<lambda>es. Some (map (\<lambda>(w, fd, p). k_ready w fd p) es)) ess) (server_accepts (kqueue_spawn refused) mk as ex) = Some (Inr ex') \<and>
    (\<forall>(fd, p) \<in> set as. \<exists>c' ex2 c2 ex3. sessions ex' p = Some \<lparr>s_conn = c', s_frame = Some (pc p)\<rparr> \<and> \<not> conn_closed c' \<and>
      ib_unread (read_buf c') = rest p \<and> has_sent (tx_open (length (out p) div 8) (tx (kern (mk fd p)))) (out p) c' \<and>
      knotes ex' (fd, EVFILT_READ) = Some p \<and> (ob_pending (write_buf c') \<noteq> [] \<longrightarrow> knotes ex' (fd, EVFILT_WRITE) = Some p) \<and>
      kqueue_handle (resume_read srv) (k_ready True fd p) ex' = Some (Inr ex2) \<and> sessions ex2 p = Some \<lparr>s_conn = c2, s_frame = Some (pc p)\<rparr> \<and>
      writes_out c' c2 \<and> knotes ex2 (fd, EVFILT_READ) = Some p \<and> (knotes ex2 (fd, EVFILT_WRITE) = Some p \<longleftrightarrow> ob_pending (write_buf c2) \<noteq> []) \<and>
      kqueue_handle (resume_read srv) (k_gone w fd p) ex' = Some (Inr ex3) \<and>
      sessions ex3 p = Some \<lparr>s_conn = conn_close c', s_frame = Some (pc p)\<rparr> \<and>
      knotes ex3 = (knotes ex')((fd, EVFILT_READ) := None, (fd, EVFILT_WRITE) := None))"
proof -
  have "\<forall>(fd, p) \<in> set as. kqueue_watched ex fd = None \<and> fd \<noteq> -1 \<and> p \<noteq> 0 \<and>
      admitted srv (out p) (pc p) (pos p) (rest p) (count_list (concat ess) (False, fd, p)) fd p (mk fd p)"
    using assms(5) by (auto simp: kqueue_watched_None)
  from kqueue.serves_connections [OF assms(1-4) this assms(6,7), of refused] obtain ex' where
    l: "poll_loop (kqueue_handle (resume_read srv)) (run_server_task kqueue_commit srv)
        (map (\<lambda>es. Some (map (\<lambda>(w, fd, p). k_ready w fd p) es)) ess) (server_accepts (kqueue_spawn refused) mk as ex) = Some (Inr ex')"
    and e: "\<And>fd p. (fd, p) \<in> set as \<Longrightarrow> \<exists>c' w ex2 c2. sessions ex' p = Some \<lparr>s_conn = c', s_frame = Some (pc p)\<rparr> \<and> \<not> conn_closed c' \<and>
      ib_unread (read_buf c') = rest p \<and> has_sent (tx_open (length (out p) div 8) (tx (kern (mk fd p)))) (out p) c' \<and>
      kqueue_watched ex' fd = Some (p, True, w) \<and> (ob_pending (write_buf c') \<noteq> [] \<longrightarrow> w) \<and>
      kqueue_handle (resume_read srv) (k_ready True fd p) ex' = Some (Inr ex2) \<and> sessions ex2 p = Some \<lparr>s_conn = c2, s_frame = Some (pc p)\<rparr> \<and>
      writes_out c' c2 \<and> kqueue_watched ex2 fd = Some (p, True, ob_pending (write_buf c2) \<noteq> [])" by fast
  show ?thesis
  proof (intro exI [of _ ex'] conjI l, clarify)
    fix fd p assume a: "(fd, p) \<in> set as"
    have "p \<noteq> 0" using assms(5) a by auto
    from e [OF a] obtain c' ex2 c2 where
      c: "sessions ex' p = Some \<lparr>s_conn = c', s_frame = Some (pc p)\<rparr>" "\<not> conn_closed c'" "ib_unread (read_buf c') = rest p"
        "has_sent (tx_open (length (out p) div 8) (tx (kern (mk fd p)))) (out p) c'" "knotes ex' (fd, EVFILT_READ) = Some p"
        "ob_pending (write_buf c') \<noteq> [] \<longrightarrow> knotes ex' (fd, EVFILT_WRITE) = Some p"
      and w: "kqueue_handle (resume_read srv) (k_ready True fd p) ex' = Some (Inr ex2)" "sessions ex2 p = Some \<lparr>s_conn = c2, s_frame = Some (pc p)\<rparr>"
        "writes_out c' c2" "knotes ex2 (fd, EVFILT_READ) = Some p" "knotes ex2 (fd, EVFILT_WRITE) = Some p \<longleftrightarrow> ob_pending (write_buf c2) \<noteq> []"
      unfolding kqueue_watched_True by blast
    from c w kqueue_handle_gone [OF \<open>p \<noteq> 0\<close> c(1,5), of "resume_read srv" w] show "\<exists>c' ex2 c2 ex3. sessions ex' p = Some \<lparr>s_conn = c', s_frame = Some (pc p)\<rparr> \<and> \<not> conn_closed c' \<and>
      ib_unread (read_buf c') = rest p \<and> has_sent (tx_open (length (out p) div 8) (tx (kern (mk fd p)))) (out p) c' \<and>
      knotes ex' (fd, EVFILT_READ) = Some p \<and> (ob_pending (write_buf c') \<noteq> [] \<longrightarrow> knotes ex' (fd, EVFILT_WRITE) = Some p) \<and>
      kqueue_handle (resume_read srv) (k_ready True fd p) ex' = Some (Inr ex2) \<and> sessions ex2 p = Some \<lparr>s_conn = c2, s_frame = Some (pc p)\<rparr> \<and>
      writes_out c' c2 \<and> knotes ex2 (fd, EVFILT_READ) = Some p \<and> (knotes ex2 (fd, EVFILT_WRITE) = Some p \<longleftrightarrow> ob_pending (write_buf c2) \<noteq> []) \<and>
      kqueue_handle (resume_read srv) (k_gone w fd p) ex' = Some (Inr ex3) \<and>
      sessions ex3 p = Some \<lparr>s_conn = conn_close c', s_frame = Some (pc p)\<rparr> \<and>
      knotes ex3 = (knotes ex')((fd, EVFILT_READ) := None, (fd, EVFILT_WRITE) := None)"
      by - (rule exI [of _ c'], rule exI [of _ ex2], rule exI [of _ c2], simp)
  qed
qed

theorem kqueue_serves_connections_witness:
  "\<exists>ex' c4 c8. poll_loop (kqueue_handle (resume_read echo_server)) (run_server_task kqueue_commit echo_server)
      (map (\<lambda>es. Some (map (\<lambda>(w, fd, p). k_ready w fd p) es)) [[(False, 6, 8)], [(False, 5, 4), (True, 6, 8)]])
      (server_accepts (kqueue_spawn False) example_mk [(5, 4), (6, 8)] (KqueueExecutor 3)) = Some (Inr ex') \<and>
    sessions ex' 4 = Some \<lparr>s_conn = c4, s_frame = Some R_header_len\<rparr> \<and>
    wire (kern c4) @ ob_pending (write_buf c4) = frame [7] @ frame [0, 5] \<and>
    sessions ex' 8 = Some \<lparr>s_conn = c8, s_frame = Some R_header_len\<rparr> \<and> wire (kern c8) = frame [7] @ frame [0, 6]"
proof -
  let ?as = "[(5 :: int, 4 :: 64 word), (6, 8)]" and ?ess = "[[(False, 6, 8)], [(False, 5, 4), (True, 6, 8)]]"
  let ?ex = "KqueueExecutor 3 :: (byte list recv_pc, server_task) kqueue_executor"
  have 1: "task_queue ?ex = []" "\<not> stop_flag ?ex" "distinct (map fst ?as)" "distinct (map snd ?as)" by (simp_all add: KqueueExecutor_def)
  have 2: "\<forall>(fd, p) \<in> set ?as. knotes ?ex (fd, EVFILT_READ) = None \<and> knotes ?ex (fd, EVFILT_WRITE) = None \<and> fd \<noteq> -1 \<and> p \<noteq> 0 \<and>
      admitted echo_server (frame [7] @ frame [0, if p = 4 then 5 else 6]) R_header_len 10 [] (count_list (concat ?ess) (False, fd, p)) fd p (example_mk fd p)"
    using example_admitted [of 5 1 4] example_admitted [of 6 1 8] by (simp add: KqueueExecutor_def)
  have 3: "\<forall>es \<in> set ?ess. snd ` set es \<subseteq> set ?as \<and> length es \<le> MAX_EVENTS" by (simp add: MAX_EVENTS_def)
  have 4: "?ess \<noteq> []" by simp
  from kqueue_serves_connections [OF 1 2 4 3, of False True] obtain ex' where
    l: "poll_loop (kqueue_handle (resume_read echo_server)) (run_server_task kqueue_commit echo_server)
      (map (\<lambda>es. Some (map (\<lambda>(w, fd, p). k_ready w fd p) es)) ?ess) (server_accepts (kqueue_spawn False) example_mk ?as ?ex) = Some (Inr ex')"
    and e: "\<And>fd p. (fd, p) \<in> set ?as \<Longrightarrow> \<exists>c'. sessions ex' p = Some \<lparr>s_conn = c', s_frame = Some R_header_len\<rparr> \<and>
      has_sent (tx_open (length (frame [7] @ frame [0, if p = 4 then 5 else 6]) div 8) (tx (kern (example_mk fd p))))
        (frame [7] @ frame [0, if p = 4 then 5 else 6]) c'" by blast
  from l e [of 5 4] e [of 6 8] show ?thesis by (auto simp: has_sent_def example_mk_facts tx_open_def frame_def)
qed

text \<open>
  A write event of the kernel queue: the filter is deleted before the writer runs, and is
  there again afterwards exactly if the writer left bytes; nothing queued is lost, repeated or
  reordered.
\<close>

theorem kqueue_writable_event_flushes:
  assumes "p \<noteq> 0" and "sessions ex p = Some s" and "this_ptr (s_conn s) = p" and "fd = sockfd (sock (s_conn s))"
    and "conn_inv (s_conn s)" and "tx_steady (tx (kern (s_conn s)))"
    and "length (ob_pending (write_buf (s_conn s))) < 1023 * 8192"
  shows "\<exists>ex' c'. kqueue_handle rr \<lparr>k_ident = fd, k_filter = EVFILT_WRITE, k_udata = p, k_eof = False\<rparr> ex = Some (Inr ex') \<and>
    sessions ex' = (sessions ex)(p \<mapsto> s\<lparr>s_conn := c'\<rparr>) \<and> conn_inv c' \<and>
    wire (kern c') @ ob_pending (write_buf c') = wire (kern (s_conn s)) @ ob_pending (write_buf (s_conn s)) \<and>
    knotes ex' = (knotes ex)((fd, EVFILT_WRITE) := (if ob_pending (write_buf c') = [] then None else Some p))"
proof -
  from resume_write_live [OF assms(5-7)] obtain c' where c': "resume_write (s_conn s) = Some (Inr c')"
    and w: "writer_effect (s_conn s) c'" by blast
  have id: "sockfd (sock c') = fd" "this_ptr c' = p"
    using resume_write_evolves [OF c'] assms(3,4) by (simp_all add: evolves_to_def)
  have del: "snd (kevent [KEV_DELETE fd EVFILT_WRITE] (knotes ex)) = (knotes ex)((fd, EVFILT_WRITE) := None)"
    by (auto simp: fun_eq_iff)
  let ?ex = "kqueue_commit p (s_conn s) c' (s_frame s) (ex\<lparr>knotes := (knotes ex)((fd, EVFILT_WRITE) := None)\<rparr>)"
  have "kqueue_handle rr \<lparr>k_ident = fd, k_filter = EVFILT_WRITE, k_udata = p, k_eof = False\<rparr> ex = Some (Inr ?ex)"
    using assms(1,2) c' del by (simp add: kqueue_handle_def Let_def)
  moreover have "knotes ?ex = (knotes ex)((fd, EVFILT_WRITE) := (if ob_pending (write_buf c') = [] then None else Some p))"
    using w id by (simp add: kqueue_commit_def writer_effect_def kqueue_add_event_def Let_def)
  moreover have "sessions ?ex = (sessions ex)(p \<mapsto> s\<lparr>s_conn := c'\<rparr>)" by (cases s) (simp add: kqueue_commit_def)
  ultimately show ?thesis using w by (intro exI [of _ ?ex] exI [of _ c']) (simp add: writer_effect_def)
qed

definition one_session :: "(byte list recv_pc, server_task) kqueue_executor" where
  "one_session = (KqueueExecutor 3)\<lparr>sessions := [4 \<mapsto> \<lparr>s_conn = (live_conn [] [TxTake 2] [7, 8, 9])\<lparr>this_ptr := 4\<rparr>,
     s_frame = Some R_header_len\<rparr>]\<rparr>"

theorem kqueue_writable_event_flushes_witness:
  "\<exists>ex' c'. kqueue_handle (resume_read echo_server) \<lparr>k_ident = 5, k_filter = EVFILT_WRITE, k_udata = 4, k_eof = False\<rparr> one_session
      = Some (Inr ex') \<and> sessions ex' 4 = Some \<lparr>s_conn = c', s_frame = Some R_header_len\<rparr> \<and>
    wire (kern c') @ ob_pending (write_buf c') = [7, 8, 9] \<and>
    knotes ex' (5, EVFILT_WRITE) = (if ob_pending (write_buf c') = [] then None else Some 4)"
proof -
  let ?c = "(live_conn [] [TxTake 2] [7, 8, 9])\<lparr>this_ptr := 4\<rparr>"
  have s: "sessions one_session 4 = Some \<lparr>s_conn = ?c, s_frame = Some R_header_len\<rparr>" by (simp add: one_session_def)
  have "conn_inv ?c" using live_conn_inv [of "[]" "[7, 8, 9]" "[TxTake 2]"] by (simp add: conn_inv_def conn_closed_def live_conn_simps(6))
  moreover have "sockfd (sock ?c) = 5" "kern ?c = \<lparr>rx = [], tx = [TxTake 2], wire = [], shut_wr = False\<rparr>"
    "ob_pending (write_buf ?c) = [7, 8, 9]" "this_ptr ?c = 4"
    by (simp_all add: live_conn_simps output_with_facts) (simp add: live_conn_def Connection_def Socket_def Let_def)
  ultimately obtain ex' c' where
    "kqueue_handle (resume_read echo_server) \<lparr>k_ident = 5, k_filter = EVFILT_WRITE, k_udata = 4, k_eof = False\<rparr> one_session = Some (Inr ex')"
    "sessions ex' = (sessions one_session)(4 \<mapsto> \<lparr>s_conn = c', s_frame = Some R_header_len\<rparr>)"
    "wire (kern c') @ ob_pending (write_buf c') = [7, 8, 9]"
    "knotes ex' = (knotes one_session)((5, EVFILT_WRITE) := (if ob_pending (write_buf c') = [] then None else Some 4))"
    using kqueue_writable_event_flushes [OF _ s, of 5 "resume_read echo_server"] by auto
  then show ?thesis by (intro exI [of _ ex'] exI [of _ c']) simp
qed

text \<open>
  A \<open>spawn\<close> that cannot wake the thread reports failure, but the task is queued and will
  run; the flag is set again, so that the next \<open>spawn\<close> that can trigger the filter wakes the
  thread for both tasks.
\<close>

theorem kqueue_failed_spawn_keeps_task:
  assumes "should_notify ex" and "kq_fd ex \<noteq> -1" and "knotes ex (USER_IDENT, EVFILT_USER) \<noteq> None"
  shows "\<exists>ex1 ex2. kqueue_spawn True t ex = (False, ex1) \<and> task_queue ex1 = task_queue ex @ [t] \<and> should_notify ex1 \<and>
    triggered ex1 = triggered ex \<and> kqueue_spawn False u ex1 = (True, ex2) \<and>
    task_queue ex2 = task_queue ex @ [t, u] \<and> triggered ex2"
  using assms by (simp add: kqueue_spawn_def trigger_def Let_def)

theorem kqueue_failed_spawn_keeps_task_witness:
  "\<exists>ex1 ex2. kqueue_spawn True (5 :: nat) (KqueueExecutor 3 :: (nat, nat) kqueue_executor) = (False, ex1) \<and> task_queue ex1 = [5] \<and>
     kqueue_spawn False 6 ex1 = (True, ex2) \<and> task_queue ex2 = [5, 6] \<and> triggered ex2"
proof -
  have "should_notify (KqueueExecutor 3 :: (nat, nat) kqueue_executor)" "kq_fd (KqueueExecutor 3 :: (nat, nat) kqueue_executor) \<noteq> -1"
    "knotes (KqueueExecutor 3 :: (nat, nat) kqueue_executor) (USER_IDENT, EVFILT_USER) \<noteq> None"
    "task_queue (KqueueExecutor 3 :: (nat, nat) kqueue_executor) = []"
    by (simp_all add: KqueueExecutor_def)
  with kqueue_failed_spawn_keeps_task [of "KqueueExecutor 3 :: (nat, nat) kqueue_executor" 5 6] show ?thesis by auto
qed

end
