(* ===== verification/ExecutorQueue.thy ===== *)
theory ExecutorQueue
  imports Epoll MpmcSequential
begin

section \<open>An executor with its concurrent task queue\<close>

text \<open>
  Theory \<open>Executor\<close> has the tasks of an executor as a list. Here the executor uses the queue of
  theory \<open>MpmcQueue\<close> as the code does: \<open>spawn\<close> calls \<open>push\<close> and looks at its result, the thread
  calls \<open>pop\<close> until it finds nothing. The interface \<open>fifo_queue\<close> is all that is needed to show
  that both executors do the same, turn for turn, faults and endless loops included; its
  interpretation on \<open>push\<close> and \<open>pop\<close> then gives the properties of the list-based executor for
  the executor with the queue. The calls are not interleaved here; what any interleaving can do
  to the queue is in theory \<open>MpmcProperties\<close>.
\<close>

subsection \<open>The operations\<close>

text \<open>\<open>while (task_queue_.pop(task)) task();\<close> A slot without a task would be an unset object.\<close>

partial_function (option) queue_drain :: "('q \<Rightarrow> ('t option option \<times> 'q) res option) \<Rightarrow> ('t, 'x) task_runner \<Rightarrow>
    'x \<Rightarrow> 'q \<Rightarrow> ('x \<times> 'q) res option" where
  "queue_drain deq run ex q = (case deq q of None \<Rightarrow> None | Some (Inl e) \<Rightarrow> Some (Inl e)
     | Some (Inr r) \<Rightarrow> (case fst r of None \<Rightarrow> Some (Inr (ex, snd r))
         | Some None \<Rightarrow> Some (Inl Uninitialised)
         | Some (Some t) \<Rightarrow> (case run t ex of None \<Rightarrow> None | Some (Inl e) \<Rightarrow> Some (Inl e)
             | Some (Inr ex') \<Rightarrow> queue_drain deq run ex' (snd r))))"

text \<open>One turn of the thread and its loop, as \<open>poll_turn\<close> and \<open>poll_loop\<close>.\<close>

definition queue_turn :: "('q \<Rightarrow> ('t option option \<times> 'q) res option) \<Rightarrow>
    ('ev \<Rightarrow> ('pc, 't, 'z) executor_scheme \<Rightarrow> ('pc, 't, 'z) executor_scheme res option) \<Rightarrow>
    ('t, ('pc, 't, 'z) executor_scheme) task_runner \<Rightarrow> 'ev list option \<Rightarrow>
    ('pc, 't, 'z) executor_scheme \<Rightarrow> 'q \<Rightarrow> (('pc, 't, 'z) executor_scheme \<times> 'q) res option" where
  "queue_turn deq handle run w ex q = ro_bind (queue_drain deq run ex q) (\<lambda>(ex1, q').
     let ex2 = ex1\<lparr>should_notify := True\<rparr> in
     ro_bind (case w of None \<Rightarrow> Some (Inr ex2) | Some evs \<Rightarrow> handle_all handle (take MAX_EVENTS evs) ex2)
       (\<lambda>ex3. Some (Inr (ex3, q'))))"

primrec queue_loop :: "('q \<Rightarrow> ('t option option \<times> 'q) res option) \<Rightarrow>
    ('ev \<Rightarrow> ('pc, 't, 'z) executor_scheme \<Rightarrow> ('pc, 't, 'z) executor_scheme res option) \<Rightarrow>
    ('t, ('pc, 't, 'z) executor_scheme) task_runner \<Rightarrow> 'ev list option list \<Rightarrow>
    ('pc, 't, 'z) executor_scheme \<Rightarrow> 'q \<Rightarrow> (('pc, 't, 'z) executor_scheme \<times> 'q) res option" where
  "queue_loop deq handle run [] ex q = Some (Inr (ex, q))"
| "queue_loop deq handle run (w # ws) ex q = (if stop_flag ex then Some (Inr (ex, q))
     else ro_bind (queue_turn deq handle run w ex q) (\<lambda>(ex', q'). queue_loop deq handle run ws ex' q'))"

text \<open>\<open>EpollExecutor::spawn\<close>: nothing happens when \<open>push\<close> refuses.\<close>

definition epoll_queue_spawn :: "('t \<Rightarrow> 'q \<Rightarrow> (bool \<times> 'q) res option) \<Rightarrow> 't \<Rightarrow>
    ('pc, 't) epoll_executor \<Rightarrow> 'q \<Rightarrow> (bool \<times> ('pc, 't) epoll_executor \<times> 'q) res option" where
  "epoll_queue_spawn enq task ex q = ro_bind (enq task q) (\<lambda>(ok, q').
     if \<not> ok then Some (Inr (False, ex, q'))
     else Some (Inr (True, if should_notify ex then ex\<lparr>should_notify := False, event_count := event_count ex + 1\<rparr> else ex, q')))"

text \<open>One turn of the loop of \<open>RpcServer::start\<close>, and several.\<close>

definition queue_accept :: "(server_task \<Rightarrow> ('pc, server_task, 'z) executor_scheme \<Rightarrow> 'q \<Rightarrow> (bool \<times> ('pc, server_task, 'z) executor_scheme \<times> 'q) res option) \<Rightarrow>
    (int \<Rightarrow> 64 word \<Rightarrow> connection) \<Rightarrow> int \<Rightarrow> 64 word \<Rightarrow>
    ('pc, server_task, 'z) executor_scheme \<Rightarrow> 'q \<Rightarrow> (('pc, server_task, 'z) executor_scheme \<times> 'q) res option" where
  "queue_accept spawn mk connfd p ex q = (if connfd = -1 then Some (Inr (ex, q))
     else ro_bind (spawn (RunSend p) (ex\<lparr>sessions := (sessions ex)(p \<mapsto> \<lparr>s_conn = mk connfd p, s_frame = None\<rparr>)\<rparr>) q) (\<lambda>(_, ex1, q1).
       ro_bind (spawn (RunRecv p) ex1 q1) (\<lambda>(_, ex2, q2). Some (Inr (ex2, q2)))))"

primrec queue_accepts :: "(server_task \<Rightarrow> ('pc, server_task, 'z) executor_scheme \<Rightarrow> 'q \<Rightarrow> (bool \<times> ('pc, server_task, 'z) executor_scheme \<times> 'q) res option) \<Rightarrow>
    (int \<Rightarrow> 64 word \<Rightarrow> connection) \<Rightarrow> (int \<times> 64 word) list \<Rightarrow>
    ('pc, server_task, 'z) executor_scheme \<Rightarrow> 'q \<Rightarrow> (('pc, server_task, 'z) executor_scheme \<times> 'q) res option" where
  "queue_accepts spawn mk [] ex q = Some (Inr (ex, q))"
| "queue_accepts spawn mk (a # as) ex q = ro_bind (queue_accept spawn mk (fst a) (snd a) ex q) (\<lambda>(ex', q'). queue_accepts spawn mk as ex' q')"

subsection \<open>The simulation\<close>

text \<open>
  The executor with the queue has no list; \<open>matches\<close> compares the outcomes of both, which agree
  also when they fault or do not return.
\<close>

definition strip :: "('pc, 't, 'z) executor_scheme \<Rightarrow> ('pc, 't, 'z) executor_scheme" where
  "strip ex = ex\<lparr>task_queue := []\<rparr>"

definition matches :: "('q \<Rightarrow> 't list \<Rightarrow> bool) \<Rightarrow> ('pc, 't, 'z) executor_scheme res option \<Rightarrow>
    (('pc, 't, 'z) executor_scheme \<times> 'q) res option \<Rightarrow> bool" where
  "matches rep a c \<longleftrightarrow> (case a of None \<Rightarrow> c = None | Some (Inl e) \<Rightarrow> c = Some (Inl e)
     | Some (Inr ex) \<Rightarrow> \<exists>q. c = Some (Inr (strip ex, q)) \<and> rep q (task_queue ex))"

lemma matches_simps [simp]:
  "matches rep None c \<longleftrightarrow> c = None" "matches rep (Some (Inl e)) c \<longleftrightarrow> c = Some (Inl e)"
  "matches rep (Some (Inr ex)) c \<longleftrightarrow> (\<exists>q. c = Some (Inr (strip ex, q)) \<and> rep q (task_queue ex))"
  by (simp_all add: matches_def)

lemma matches_bind:
  assumes "matches rep a c" and "\<And>ex q. a = Some (Inr ex) \<Longrightarrow> rep q (task_queue ex) \<Longrightarrow> matches rep (f ex) (g (strip ex, q))"
  shows "matches rep (ro_bind a f) (ro_bind c g)"
proof (cases a)
  case (Some r)
  with assms show ?thesis by (cases r) auto
qed (use assms in simp)

text \<open>A computation that neither looks at the list nor changes it.\<close>

definition blind :: "(('pc, 't, 'z) executor_scheme \<Rightarrow> ('pc, 't, 'z) executor_scheme res option) \<Rightarrow> bool" where
  "blind f \<longleftrightarrow> (\<forall>ex ts. f (ex\<lparr>task_queue := ts\<rparr>) = ro_bind (f ex) (\<lambda>ex'. Some (Inr (ex'\<lparr>task_queue := ts\<rparr>))))"

lemma blindD: "blind f \<Longrightarrow> f (ex\<lparr>task_queue := ts\<rparr>) = ro_bind (f ex) (\<lambda>ex'. Some (Inr (ex'\<lparr>task_queue := ts\<rparr>)))"
  by (simp add: blind_def)

lemma blind_strip:
  assumes "blind f"
  shows "f (ex\<lparr>task_queue := ts\<rparr>) = ro_bind (f (strip ex)) (\<lambda>ex'. Some (Inr (ex'\<lparr>task_queue := ts\<rparr>)))"
    and "f (strip ex) = Some (Inr ex') \<Longrightarrow> strip ex' = ex'"
proof -
  show "f (ex\<lparr>task_queue := ts\<rparr>) = ro_bind (f (strip ex)) (\<lambda>ex'. Some (Inr (ex'\<lparr>task_queue := ts\<rparr>)))"
    using blindD [OF assms, where ex = "strip ex" and ts = ts] by (simp add: strip_def)
  show "f (strip ex) = Some (Inr ex') \<Longrightarrow> strip ex' = ex'"
    using blindD [OF assms, where ex = "strip ex" and ts = "[]"] by (simp add: strip_def)
qed

lemma blind_matches:
  assumes "blind f" and "rep q (task_queue ex)"
  shows "matches rep (f ex) (ro_bind (f (strip ex)) (\<lambda>ex'. Some (Inr (ex', q))))"
proof -
  have f: "f ex = ro_bind (f (strip ex)) (\<lambda>ex'. Some (Inr (ex'\<lparr>task_queue := task_queue ex\<rparr>)))"
    using blind_strip(1) [OF assms(1), where ex = ex and ts = "task_queue ex"] by simp
  show ?thesis
  proof (cases "f (strip ex)")
    case (Some r)
    show ?thesis
    proof (cases r)
      case (Inr ex')
      with Some blind_strip(2) [OF assms(1), where ex = ex and ex' = ex'] f assms(2) show ?thesis by (simp add: strip_def)
    qed (use Some f in simp)
  qed (use f in simp)
qed

lemma blind_handle_all: "(\<And>ev. blind (handle ev)) \<Longrightarrow> blind (handle_all handle evs)"
proof (induction evs)
  case (Cons ev evs)
  have 1: "handle ev (ex\<lparr>task_queue := ts\<rparr>) = ro_bind (handle ev ex) (\<lambda>ex'. Some (Inr (ex'\<lparr>task_queue := ts\<rparr>)))" for ex ts
    by (rule blindD [OF Cons.prems])
  have 2: "handle_all handle evs (ex\<lparr>task_queue := ts\<rparr>) = ro_bind (handle_all handle evs ex) (\<lambda>ex'. Some (Inr (ex'\<lparr>task_queue := ts\<rparr>)))" for ex ts
    by (rule blindD [OF Cons.IH [OF Cons.prems]])
  show ?case unfolding blind_def handle_all.simps 1 by (auto simp: ro_bind_def 2 split: option.splits sum.splits)
qed (simp add: blind_def)

context fifo_queue
begin

lemma drain_matches:
  assumes run: "\<And>t. blind (run t)" and "rep q (task_queue ex)"
  shows "matches rep (drain run ex) (queue_drain deq run (strip ex) q)"
  using assms(2)
proof (induction "task_queue ex" arbitrary: ex q)
  case Nil
  with deq_empty [of q] show ?case by (simp add: drain.simps [of run ex] queue_drain.simps [of deq])
next
  case (Cons t ts)
  from deq_law [of q t ts] Cons.prems Cons.hyps(2) obtain q1 where q1: "deq q = Some (Inr (Some (Some t), q1))" "rep q1 ts" by auto
  note s = blind_strip [OF run [of t], where ex = ex]
  show ?case
  proof (cases "run t (strip ex)")
    case (Some r)
    show ?thesis
    proof (cases r)
      case (Inr ex1)
      have st: "strip (ex1\<lparr>task_queue := ts\<rparr>) = ex1" using s(2) Some Inr by (simp add: strip_def)
      have "matches rep (drain run (ex1\<lparr>task_queue := ts\<rparr>)) (queue_drain deq run (strip (ex1\<lparr>task_queue := ts\<rparr>)) q1)"
        by (rule Cons.hyps(1)) (use q1 in simp_all)
      then have "matches rep (drain run (ex1\<lparr>task_queue := ts\<rparr>)) (queue_drain deq run ex1 q1)" unfolding st .
      with Some Inr q1(1) s(1) show ?thesis
        by (simp add: drain.simps [of run ex] queue_drain.simps [of deq run "strip ex"] flip: Cons.hyps(2))
    qed (use Some q1(1) s(1) in \<open>simp add: drain.simps [of run ex] queue_drain.simps [of deq run "strip ex"] flip: Cons.hyps(2)\<close>)
  qed (use q1(1) s(1) in \<open>simp add: drain.simps [of run ex] queue_drain.simps [of deq run "strip ex"] flip: Cons.hyps(2)\<close>)
qed

lemma turn_matches:
  assumes run: "\<And>t. blind (run t)" and handle: "\<And>ev. blind (handle ev)" and rep: "rep q (task_queue ex)"
  shows "matches rep (poll_turn handle run w ex) (queue_turn deq handle run w (strip ex) q)"
  unfolding poll_turn_def queue_turn_def
proof (rule matches_bind [OF drain_matches [OF run rep]])
  fix ex1 q1 assume "drain run ex = Some (Inr ex1)" and q1: "rep q1 (task_queue ex1)"
  let ?ex = "ex1\<lparr>should_notify := True\<rparr>"
  have s: "(strip ex1)\<lparr>should_notify := True\<rparr> = strip ?ex" by (simp add: strip_def)
  have b: "blind (\<lambda>ex. case w of None \<Rightarrow> Some (Inr ex) | Some evs \<Rightarrow> handle_all handle (take MAX_EVENTS evs) ex)"
    using blind_handle_all [of handle, OF handle] by (cases w) (simp_all add: blind_def)
  have "rep q1 (task_queue ?ex)" using q1 by simp
  from blind_matches [OF b, where rep = rep, OF this]
  show "matches rep (let ex2 = ?ex in case w of None \<Rightarrow> Some (Inr ex2) | Some evs \<Rightarrow> handle_all handle (take MAX_EVENTS evs) ex2)
      (case (strip ex1, q1) of (ex1, q') \<Rightarrow> let ex2 = ex1\<lparr>should_notify := True\<rparr> in
        ro_bind (case w of None \<Rightarrow> Some (Inr ex2) | Some evs \<Rightarrow> handle_all handle (take MAX_EVENTS evs) ex2) (\<lambda>ex3. Some (Inr (ex3, q'))))"
    unfolding Let_def prod.case s .
qed

lemma loop_matches:
  assumes run: "\<And>t. blind (run t)" and handle: "\<And>ev. blind (handle ev)" and rep: "rep q (task_queue ex)"
  shows "matches rep (poll_loop handle run ws ex) (queue_loop deq handle run ws (strip ex) q)"
  using rep
proof (induction ws arbitrary: ex q)
  case (Cons w ws)
  have s: "stop_flag (strip ex) = stop_flag ex" by (simp add: strip_def)
  show ?case
  proof (cases "stop_flag ex")
    case False
    then show ?thesis
      unfolding poll_loop.simps queue_loop.simps s
      by simp (rule matches_bind [OF turn_matches [OF run handle Cons.prems]], simp add: Cons.IH)
  qed (use Cons.prems s in simp)
qed simp

end

text \<open>Spawning and accepting on a queue of the server's tasks, for an executor that notifies as \<open>EpollExecutor\<close> does.\<close>

locale server_queue = fifo_queue rep enq deq
  for rep :: "'q \<Rightarrow> server_task list \<Rightarrow> bool" and enq deq
begin

lemma epoll_spawn_matches:
  assumes "rep q (task_queue ex)"
  shows "\<exists>q'. epoll_queue_spawn enq t (strip ex) q = Some (Inr (True, strip (snd (epoll_spawn t ex)), q')) \<and>
    rep q' (task_queue (snd (epoll_spawn t ex)))"
  using enq_law [OF assms, of t] by (auto simp: epoll_queue_spawn_def epoll_spawn_def Let_def strip_def)

lemma epoll_accept_matches:
  assumes "rep q (task_queue ex)"
  shows "matches rep (Some (Inr (server_accept epoll_spawn mk fd p ex))) (queue_accept (epoll_queue_spawn enq) mk fd p (strip ex) q)"
proof (cases "fd = -1")
  case False
  let ?ex = "ex\<lparr>sessions := (sessions ex)(p \<mapsto> \<lparr>s_conn = mk fd p, s_frame = None\<rparr>)\<rparr>"
  have s: "(strip ex)\<lparr>sessions := (sessions (strip ex))(p \<mapsto> \<lparr>s_conn = mk fd p, s_frame = None\<rparr>)\<rparr> = strip ?ex" by (simp add: strip_def)
  have "rep q (task_queue ?ex)" using assms by simp
  from epoll_spawn_matches [OF this, of "RunSend p"] obtain q1 where
    1: "epoll_queue_spawn enq (RunSend p) (strip ?ex) q = Some (Inr (True, strip (snd (epoll_spawn (RunSend p) ?ex)), q1))"
      "rep q1 (task_queue (snd (epoll_spawn (RunSend p) ?ex)))" by blast
  from epoll_spawn_matches [OF 1(2), of "RunRecv p"] 1(1) False s show ?thesis
    by (auto simp: queue_accept_def server_accept_def)
qed (use assms in \<open>simp add: queue_accept_def server_accept_def\<close>)

lemma epoll_accepts_matches:
  assumes "rep q (task_queue ex)"
  shows "matches rep (Some (Inr (server_accepts epoll_spawn mk as ex))) (queue_accepts (epoll_queue_spawn enq) mk as (strip ex) q)"
  using assms
proof (induction as arbitrary: ex q)
  case (Cons a as)
  from epoll_accept_matches [OF Cons.prems, of mk "fst a" "snd a"] obtain q1 where
    "queue_accept (epoll_queue_spawn enq) mk (fst a) (snd a) (strip ex) q = Some (Inr (strip (server_accept epoll_spawn mk (fst a) (snd a) ex), q1))"
    "rep q1 (task_queue (server_accept epoll_spawn mk (fst a) (snd a) ex))" by auto
  with Cons.IH [of q1] show ?case by simp
qed simp

end

subsection \<open>The epoll executor\<close>

lemma epoll_commit_list: "epoll_commit p c c' fr (ex\<lparr>task_queue := ts\<rparr>) = (epoll_commit p c c' fr ex)\<lparr>task_queue := ts\<rparr>"
  by (simp add: epoll_commit_def)

lemma run_server_task_blind: "blind (run_server_task epoll_commit srv t)"
  unfolding blind_def
  by (cases t) (auto simp: epoll_commit_list ro_bind_def split: option.splits sum.splits)

lemma epoll_writable_list:
  "epoll_writable p s (ex\<lparr>task_queue := ts\<rparr>) = ro_bind (epoll_writable p s ex) (\<lambda>(b, ex'). Some (Inr (b, ex'\<lparr>task_queue := ts\<rparr>)))"
  by (auto simp: epoll_writable_def Let_def ro_bind_def epoll_commit_def split: option.splits sum.splits prod.splits bool.splits)

lemma epoll_readable_list:
  "epoll_readable rr p s (ex\<lparr>task_queue := ts\<rparr>) = ro_bind (epoll_readable rr p s ex) (\<lambda>ex'. Some (Inr (ex'\<lparr>task_queue := ts\<rparr>)))"
  by (auto simp: epoll_readable_def ro_bind_def epoll_commit_list split: option.splits sum.splits)

lemma epoll_handle_blind: "blind (epoll_handle rr ev)"
  unfolding blind_def
  by (auto simp: epoll_handle_def Let_def epoll_hangup_def epoll_writable_list epoll_readable_list ro_bind_def
      split: option.splits sum.splits)

lemma fifo_new: "fifo MPMCQueue []"
  using quiet_init by (auto simp: fifo_def)

interpretation server_mpmc: server_queue fifo push pop
  by unfold_locales

lemma epoll_loop_matches:
  "fifo q (task_queue ex) \<Longrightarrow> matches fifo (poll_loop (epoll_handle rr) (run_server_task epoll_commit srv) ws ex)
     (queue_loop pop (epoll_handle rr) (run_server_task epoll_commit srv) ws (strip ex) q)"
  by (rule mpmc.loop_matches [OF run_server_task_blind epoll_handle_blind])

subsection \<open>Properties\<close>

text \<open>
  C14. The executor with its concurrent queue does what the executor with a list of tasks does:
  for every list of accepted connections and every list of results of \<open>epoll_wait\<close>, the thread
  of the one ends in the state of the other, faults exactly if the other does, and does not
  return exactly if the other does not.
\<close>

theorem queue_executor_equivalent:
  assumes "fifo q (task_queue ex)"
  shows "\<exists>ex1 q1. queue_accepts (epoll_queue_spawn push) mk as (strip ex) q = Some (Inr (ex1, q1)) \<and>
    (case poll_loop (epoll_handle (resume_read srv)) (run_server_task epoll_commit srv) ws (server_accepts epoll_spawn mk as ex) of
       None \<Rightarrow> queue_loop pop (epoll_handle (resume_read srv)) (run_server_task epoll_commit srv) ws ex1 q1 = None
     | Some (Inl e) \<Rightarrow> queue_loop pop (epoll_handle (resume_read srv)) (run_server_task epoll_commit srv) ws ex1 q1 = Some (Inl e)
     | Some (Inr ex') \<Rightarrow> \<exists>q'. queue_loop pop (epoll_handle (resume_read srv)) (run_server_task epoll_commit srv) ws ex1 q1
         = Some (Inr (strip ex', q')) \<and> fifo q' (task_queue ex'))"
proof -
  let ?ex = "server_accepts epoll_spawn mk as ex"
  from server_mpmc.epoll_accepts_matches [OF assms, of mk as] obtain q1 where
    "queue_accepts (epoll_queue_spawn push) mk as (strip ex) q = Some (Inr (strip ?ex, q1))" "fifo q1 (task_queue ?ex)" by auto
  with epoll_loop_matches [OF this(2), of "resume_read srv" srv ws]
  show ?thesis unfolding matches_def by blast
qed

theorem queue_executor_equivalent_witness:
  "\<exists>ex1 q1 ex' q'. queue_accepts (epoll_queue_spawn push) example_mk [(5, 4), (6, 8)] (strip example_executor) MPMCQueue = Some (Inr (ex1, q1)) \<and>
    queue_loop pop (epoll_handle (resume_read echo_server)) (run_server_task epoll_commit echo_server)
      (map (\<lambda>es. Some (map (\<lambda>(w, fd, p). poll_event w fd p) es)) example_turns) ex1 q1
      = Some (Inr (strip ex', q')) \<and> fifo q' (task_queue ex')"
proof -
  let ?ws = "map (\<lambda>es. Some (map (\<lambda>(w, fd, p). poll_event w fd p) es)) example_turns"
  obtain ex' where l: "poll_loop (epoll_handle (resume_read echo_server)) (run_server_task epoll_commit echo_server)
      ?ws (server_accepts epoll_spawn example_mk [(5, 4), (6, 8)] example_executor) = Some (Inr ex')"
    using example_served by blast
  have "fifo MPMCQueue (task_queue example_executor)" using fifo_new by (simp add: example_executor_facts)
  from queue_executor_equivalent [OF this, of example_mk "[(5, 4), (6, 8)]" echo_server ?ws, unfolded l option.case sum.case]
  show ?thesis by blast
qed

text \<open>
  C7. The server on an epoll executor with its concurrent queue serves any number of connections
  at once: after the accepted connections were pushed onto a new queue, the thread pops and
  starts both coroutines of each, and for every order in which the kernel reports them readable
  and writable, each connection has produced exactly the bytes the specification of the server
  computes from its own input and keeps its own unused bytes; no connection influences another.
  The bytes are on the wire if the kernel takes whatever it is given; what is not is queued, the
  connection is registered for output, and the next write event moves as much of it to the wire
  as the kernel takes and leaves the connection registered for output exactly if bytes are left.
  Each connection must be reported readable as often as its input pauses, in turns of at most
  1024 events.
\<close>

theorem queue_executor_serves_connections:
  assumes "task_queue ex = []" and "\<not> stop_flag ex"
    and "distinct (map fst as)" and "distinct (map snd as)" and "\<forall>(fd, p) \<in> set as. interest ex fd = None \<and> fd \<noteq> -1 \<and> p \<noteq> 0 \<and>
      admitted srv (out p) (pc p) (pos p) (rest p) (count_list (concat ess) (False, fd, p)) fd p (mk fd p)"
    and "ess \<noteq> []" and "\<forall>es \<in> set ess. snd ` set es \<subseteq> set as \<and> length es \<le> MAX_EVENTS"
  shows "\<exists>ex1 q1 ex' q'. queue_accepts (epoll_queue_spawn push) mk as ex MPMCQueue = Some (Inr (ex1, q1)) \<and>
    queue_loop pop (epoll_handle (resume_read srv)) (run_server_task epoll_commit srv)
      (map (\<lambda>es. Some (map (\<lambda>(w, fd, p). poll_event w fd p) es)) ess) ex1 q1 = Some (Inr (ex', q')) \<and>
    (\<forall>(fd, p) \<in> set as. \<exists>c' m ex2 c2 m2. sessions ex' p = Some \<lparr>s_conn = c', s_frame = Some (pc p)\<rparr> \<and> \<not> conn_closed c' \<and>
      ib_unread (read_buf c') = rest p \<and> has_sent (tx_open (length (out p) div 8) (tx (kern (mk fd p)))) (out p) c' \<and>
      interest ex' fd = Some (p, m) \<and> ep_in m \<and> ep_et m \<and> (ob_pending (write_buf c') \<noteq> [] \<longrightarrow> ep_out m) \<and>
      epoll_handle (resume_read srv) (poll_event True fd p) ex' = Some (Inr ex2) \<and> sessions ex2 p = Some \<lparr>s_conn = c2, s_frame = Some (pc p)\<rparr> \<and>
      writes_out c' c2 \<and> interest ex2 fd = Some (p, m2) \<and> ep_in m2 \<and> ep_et m2 \<and> ep_out m2 = (ob_pending (write_buf c2) \<noteq> []))"
proof -
  let ?ex = "server_accepts epoll_spawn mk as ex" and ?ws = "map (\<lambda>es. Some (map (\<lambda>(w, fd, p). poll_event w fd p) es)) ess"
  have ex: "strip ex = ex" "fifo MPMCQueue (task_queue ex)" using assms(1) fifo_new by (simp_all add: strip_def)
  from server_mpmc.epoll_accepts_matches [OF ex(2), of mk as] obtain q1 where
    1: "queue_accepts (epoll_queue_spawn push) mk as ex MPMCQueue = Some (Inr (strip ?ex, q1))" "fifo q1 (task_queue ?ex)"
    unfolding ex(1) by auto
  from epoll_serves [OF assms] obtain ex' where
    l: "poll_loop (epoll_handle (resume_read srv)) (run_server_task epoll_commit srv) ?ws ?ex = Some (Inr ex')" "task_queue ex' = []"
      "\<forall>(fd, p) \<in> set as. \<exists>c' m ex2 c2 m2. sessions ex' p = Some \<lparr>s_conn = c', s_frame = Some (pc p)\<rparr> \<and> \<not> conn_closed c' \<and>
        ib_unread (read_buf c') = rest p \<and> has_sent (tx_open (length (out p) div 8) (tx (kern (mk fd p)))) (out p) c' \<and>
        interest ex' fd = Some (p, m) \<and> ep_in m \<and> ep_et m \<and> (ob_pending (write_buf c') \<noteq> [] \<longrightarrow> ep_out m) \<and>
        epoll_handle (resume_read srv) (poll_event True fd p) ex' = Some (Inr ex2) \<and> sessions ex2 p = Some \<lparr>s_conn = c2, s_frame = Some (pc p)\<rparr> \<and>
        writes_out c' c2 \<and> interest ex2 fd = Some (p, m2) \<and> ep_in m2 \<and> ep_et m2 \<and> ep_out m2 = (ob_pending (write_buf c2) \<noteq> [])" by blast
  from epoll_loop_matches [OF 1(2), of "resume_read srv" srv ?ws]
  obtain q' where "queue_loop pop (epoll_handle (resume_read srv)) (run_server_task epoll_commit srv) ?ws (strip ?ex) q1 = Some (Inr (strip ex', q'))"
    unfolding l(1) by auto
  moreover have "strip ex' = ex'" using l(2) by (simp add: strip_def)
  ultimately show ?thesis using 1(1) l(3) by (intro exI [of _ "strip ?ex"] exI [of _ q1] exI [of _ ex'] exI [of _ q']) simp
qed

theorem queue_executor_serves_connections_witness:
  "\<exists>ex1 q1 ex' q' c4 c8. queue_accepts (epoll_queue_spawn push) example_mk [(5, 4), (6, 8)] example_executor MPMCQueue = Some (Inr (ex1, q1)) \<and>
    queue_loop pop (epoll_handle (resume_read echo_server)) (run_server_task epoll_commit echo_server)
      (map (\<lambda>es. Some (map (\<lambda>(w, fd, p). poll_event w fd p) es)) example_turns) ex1 q1 = Some (Inr (ex', q')) \<and>
    sessions ex' 4 = Some \<lparr>s_conn = c4, s_frame = Some R_header_len\<rparr> \<and>
    wire (kern c4) @ ob_pending (write_buf c4) = frame [7] @ frame [0, 5] \<and>
    sessions ex' 8 = Some \<lparr>s_conn = c8, s_frame = Some R_header_len\<rparr> \<and> wire (kern c8) = frame [7] @ frame [0, 6]"
proof -
  have "distinct (map fst [(5 :: int, 4 :: 64 word), (6, 8)])" "distinct (map snd [(5 :: int, 4 :: 64 word), (6, 8)])" by simp_all
  from queue_executor_serves_connections [OF example_executor_facts(1,2) this example_turns_ok] show ?thesis
    by (simp add: has_sent_def example_mk_facts tx_open_def frame_def) metis
qed

end
