(* ===== verification/Uring.thy ===== *)
theory Uring
  imports Executor
begin

section \<open>UringExecutor (src/scheduler/uring_executor.h, src/scheduler/uring_exector.cc)\<close>

text \<open>
  The executor for the policy \<open>URING_POLICY\<close>: it does not wait for readiness but for the
  completion of the ring entries its connections queued (theory \<open>Connection\<close>). All
  connections share its ring; the model gives a connection the ring when one of its coroutines
  runs and takes it back afterwards.

  The kernel side of the ring is not part of the repository. \<open>kernel_stores\<close> and
  \<open>kernel_sends\<close> say what it does with the memory of a connection before it reports a
  completion: a read stores bytes in the region its entry names, a write passes a prefix of the
  bytes its iovecs describe to the peer. An entry that fails touches nothing.
\<close>

subsection \<open>State and operations\<close>

record ('pc, 't) uring_executor = "('pc, 't) executor" +
  u_ring :: ring
  u_dummy :: "64 word"

definition MAX_RING_LEN :: nat where
  "MAX_RING_LEN = 16384"

text \<open>The constructor; as in \<open>EpollExecutor\<close>, \<open>stop_\<close> has no initialiser.\<close>

definition UringExecutor :: "bool \<Rightarrow> 64 word \<Rightarrow> connection \<Rightarrow> ('pc, 't) uring_executor" where
  "UringExecutor indeterminate p dummy =
     \<lparr>sessions = [p \<mapsto> \<lparr>s_conn = dummy, s_frame = None\<rparr>], should_notify = False, task_queue = [],
      stop_flag = indeterminate, u_ring = \<lparr>sq_entries = MAX_RING_LEN, sq = [], submitted = []\<rparr>, u_dummy = p\<rparr>"

definition uring_stop :: "('pc, 't) uring_executor \<Rightarrow> ('pc, 't) uring_executor" where
  "uring_stop ex = ex\<lparr>stop_flag := True\<rparr>"

definition uring_add_event :: "event_type \<Rightarrow> connection \<Rightarrow> bool" where
  "uring_add_event t c = True"

text \<open>
  \<open>spawn\<close> without interference: queue the task, and if the flag can be reset, submit a write
  to the event descriptor, whose completion wakes the thread.
\<close>

definition uring_spawn :: "'t \<Rightarrow> ('pc, 't) uring_executor \<Rightarrow> (bool \<times> ('pc, 't) uring_executor) res" where
  "uring_spawn task ex =
     (let ex1 = ex\<lparr>task_queue := task_queue ex @ [task]\<rparr> in
      if should_notify ex1 then
        (case sessions ex1 (u_dummy ex1) of None \<Rightarrow> Inl UseAfterFree
         | Some s \<Rightarrow>
           res_bind (queue_sqe (u_ring ex1) (SqeWrite (sockfd (sock (s_conn s))) 1 (user_data EV_WRITE (u_dummy ex1)))) (\<lambda>r.
             Inr (True, ex1\<lparr>should_notify := False, u_ring := io_uring_submit r\<rparr>)))
      else Inr (True, ex1))"

text \<open>What a coroutine of the connection at \<open>p\<close> left, and the connection it is given.\<close>

definition uring_commit :: "64 word \<Rightarrow> connection \<Rightarrow> 'pc option \<Rightarrow> ('pc, 't) uring_executor \<Rightarrow> ('pc, 't) uring_executor" where
  "uring_commit p c' fr ex = ex\<lparr>sessions := (sessions ex)(p \<mapsto> \<lparr>s_conn = c', s_frame = fr\<rparr>), u_ring := uring c'\<rparr>"

definition with_ring :: "('pc, 't) uring_executor \<Rightarrow> 'pc session \<Rightarrow> connection" where
  "with_ring ex s = (s_conn s)\<lparr>uring := u_ring ex\<rparr>"

text \<open>A completion: the tag of the entry and the result.\<close>

record cqe =
  cqe_user_data :: "64 word"
  cqe_res :: int

text \<open>The body of the loop over the completions.\<close>

definition uring_read_done :: "int \<Rightarrow> connection \<Rightarrow> connection res option" where
  "uring_read_done r c =
     (if r = 0 then (let c1 = conn_close c in if back_left c1 = 0 then resume_write c1 else Some (Inr c1))
      else case recv_add (read_buf c) r of Inl e \<Rightarrow> Some (Inl e) | Inr ib \<Rightarrow> Some (Inr (c\<lparr>read_buf := ib\<rparr>)))"

definition uring_handle :: "'pc resumption \<Rightarrow> cqe \<Rightarrow> ('pc, 't) uring_executor \<Rightarrow> ('pc, 't) uring_executor res option" where
  "uring_handle rr q ex =
     (let event_type = drop_bit 56 (cqe_user_data q);
          p = cqe_user_data q AND (push_bit 56 1 - 1) in
      if p = 0 then Some (Inr ex)
      else case sessions ex p of None \<Rightarrow> Some (Inl UseAfterFree)
      | Some s \<Rightarrow>
        if is_dummy (s_conn s) then Some (Inr (ex\<lparr>should_notify := False\<rparr>))
        else if event_type = event_code EV_READ then
          ro_bind (uring_read_done (cqe_res q) (with_ring ex s)) (\<lambda>c1.
            ro_bind (rr (s_frame s) c1) (\<lambda>(fr, c2). Some (Inr (uring_commit p c2 fr ex))))
        else if event_type = event_code EV_WRITE then
          ro_bind (uring_send_add (with_ring ex s) (cqe_res q)) (\<lambda>c1.
            ro_bind (resume_write c1) (\<lambda>c2. Some (Inr (uring_commit p c2 (s_frame s) ex))))
        else Some (Inr ex))"

text \<open>
  One turn of the thread: the tasks, the submission of what they queued, and the completions
  \<open>cqes\<close> that the ring has then or has by the time the wait ends.
\<close>

definition uring_turn :: "'pc resumption \<Rightarrow> ('t, ('pc, 't) uring_executor) task_runner \<Rightarrow> cqe list \<Rightarrow>
    ('pc, 't) uring_executor \<Rightarrow> ('pc, 't) uring_executor res option" where
  "uring_turn rr run cqes ex = ro_bind (drain run ex) (\<lambda>ex1.
     let ex2 = ex1\<lparr>u_ring := io_uring_submit (u_ring ex1), should_notify := True\<rparr> in
     handle_all (uring_handle rr) cqes ex2)"

primrec uring_loop :: "'pc resumption \<Rightarrow> ('t, ('pc, 't) uring_executor) task_runner \<Rightarrow> cqe list list \<Rightarrow>
    ('pc, 't) uring_executor \<Rightarrow> ('pc, 't) uring_executor res option" where
  "uring_loop rr run [] ex = Some (Inr ex)"
| "uring_loop rr run (w # ws) ex = (if stop_flag ex then Some (Inr ex)
     else ro_bind (uring_turn rr run w ex) (\<lambda>ex'. uring_loop rr run ws ex'))"

subsection \<open>The kernel side\<close>

definition on_session :: "64 word \<Rightarrow> (connection \<Rightarrow> connection res) \<Rightarrow> ('pc, 't) uring_executor \<Rightarrow> ('pc, 't) uring_executor res" where
  "on_session p f ex = (case sessions ex p of None \<Rightarrow> Inl UseAfterFree
     | Some s \<Rightarrow> res_bind (f (s_conn s)) (\<lambda>c. Inr (ex\<lparr>sessions := (sessions ex)(p \<mapsto> s\<lparr>s_conn := c\<rparr>)\<rparr>)))"

definition kernel_stores :: "64 word \<Rightarrow> ptr \<times> int \<Rightarrow> byte list \<Rightarrow> ('pc, 't) uring_executor \<Rightarrow> ('pc, 't) uring_executor res" where
  "kernel_stores p d bs = on_session p (\<lambda>c. res_bind (poke (read_buf c) d bs) (\<lambda>ib. Inr (c\<lparr>read_buf := ib\<rparr>)))"

definition kernel_sends :: "64 word \<Rightarrow> iovec list \<Rightarrow> nat \<Rightarrow> ('pc, 't) uring_executor \<Rightarrow> ('pc, 't) uring_executor res" where
  "kernel_sends p iovs n = on_session p (\<lambda>c. res_bind (gather (out_heap (write_buf c)) iovs) (\<lambda>bs.
     Inr (c\<lparr>sock := (sock c)\<lparr>os := (kern c)\<lparr>wire := wire (kern c) @ take n bs\<rparr>\<rparr>\<rparr>)))"

subsection \<open>Lemmas\<close>

text \<open>The executor finds the connection and the kind of the completion in the tag.\<close>

lemma tag_parts:
  assumes "p < 2 ^ 56"
  shows "drop_bit 56 (user_data t p) = event_code t" and "user_data t p AND (push_bit 56 1 - 1) = p"
  using user_data_parts [OF assms] by simp_all

lemma handle_read:
  assumes "p \<noteq> 0" and "p < 2 ^ 56" and "sessions ex p = Some s" and "\<not> is_dummy (s_conn s)"
  shows "uring_handle rr \<lparr>cqe_user_data = user_data EV_READ p, cqe_res = r\<rparr> ex =
    ro_bind (uring_read_done r (with_ring ex s)) (\<lambda>c1.
      ro_bind (rr (s_frame s) c1) (\<lambda>(fr, c2). Some (Inr (uring_commit p c2 fr ex))))"
  using assms(1,3,4) tag_parts [OF assms(2), of EV_READ] by (simp add: uring_handle_def Let_def)

lemma handle_write:
  assumes "p \<noteq> 0" and "p < 2 ^ 56" and "sessions ex p = Some s" and "\<not> is_dummy (s_conn s)"
  shows "uring_handle rr \<lparr>cqe_user_data = user_data EV_WRITE p, cqe_res = r\<rparr> ex =
    ro_bind (uring_send_add (with_ring ex s) r) (\<lambda>c1.
      ro_bind (resume_write c1) (\<lambda>c2. Some (Inr (uring_commit p c2 (s_frame s) ex))))"
  using assms(1,3,4) tag_parts [OF assms(2), of EV_WRITE] by (simp add: uring_handle_def Let_def)

text \<open>The writer of a connection whose write completed in full, or only in part.\<close>

lemma resume_write_drained:
  assumes "write_handle c" and "send_frame c = S_loop" and "\<not> conn_closed c" and "ob_inv (write_buf c)"
    and "ob_pending (write_buf c) = []"
  shows "resume_write c = Some (Inr (c\<lparr>write_handle := True, send_frame := S_write\<rparr>))"
proof -
  have "ob_bytes (write_buf c) = 0" using assms(4,5) by (simp add: ob_inv_def ob_bytes_def word_unat_eq_iff)
  with assms show ?thesis
    by (simp add: resume_write_def send_fn.simps WaitWrite_ready_def conn_write_bytes_def WaitWrite_suspend_def)
qed

lemma resume_write_stalled:
  assumes "write_handle c" and "send_frame c = S_loop" and "\<not> conn_closed c" and "kind c = UringConnection"
    and "back_left c > 0" and "ob_bytes (write_buf c) > 0"
  shows "resume_write c = Some (Inr ((Write_suspend c)\<lparr>send_frame := S_loop\<rparr>))"
  using assms by (simp add: resume_write_def send_fn.simps [of S_loop] send_fn.simps [of S_write] WaitWrite_ready_def
      conn_write_bytes_def async_write_def uring_async_write_def)

text \<open>A connection whose writer is suspended with its whole queue in flight.\<close>

definition in_flight :: "64 word \<Rightarrow> iovec list \<Rightarrow> connection \<Rightarrow> bool" where
  "in_flight p iovs c \<longleftrightarrow> kind c = UringConnection \<and> this_ptr c = p \<and> \<not> is_dummy c \<and> \<not> conn_closed c \<and>
     write_handle c \<and> send_frame c = S_loop \<and> ob_inv (write_buf c) \<and>
     unat (back_left c) = length (ob_pending (write_buf c)) \<and>
     gather (out_heap (write_buf c)) iovs = Inr (ob_pending (write_buf c))"

text \<open>The writer gets there by suspending in \<open>async_write\<close>.\<close>

lemma async_write_in_flight:
  assumes "kind c = UringConnection" and "this_ptr c = p" and "\<not> is_dummy c" and "\<not> conn_closed c"
    and "back_left c = 0" and "ob_inv (write_buf c)" and "ob_pending (write_buf c) \<noteq> []"
    and "length (sq (uring c)) < sq_entries (uring c)" and "length (ob_pending (write_buf c)) < 1023 * 8192"
  shows "\<exists>iovs c'. send_fn S_write c = Some (Inr c') \<and> in_flight p iovs c' \<and> write_buf c' = write_buf c \<and>
    sq (uring c') = sq (uring c) @ [SqeWritev (sockfd (sock c)) iovs (user_data EV_WRITE p)]"
proof -
  let ?n = "length (ob_pending (write_buf c))"
  have n: "unat (ob_bytes (write_buf c)) = ?n" using assms(6) by (simp add: ob_inv_def ob_bytes_def)
  have nz: "ob_bytes (write_buf c) \<noteq> 0" using n assms(7) by auto
  from get_iovecs_all [OF assms(6,9)] obtain iovs where iovs: "get_iovecs (write_buf c) = Inr iovs"
    "gather (out_heap (write_buf c)) iovs = Inr (ob_pending (write_buf c))" by blast
  let ?r = "(uring c)\<lparr>sq := sq (uring c) @ [SqeWritev (sockfd (sock c)) iovs (user_data EV_WRITE p)]\<rparr>"
  let ?c = "(Write_suspend (c\<lparr>back_left := ob_bytes (write_buf c), ioves := iovs, uring := ?r\<rparr>))\<lparr>send_frame := S_loop\<rparr>"
  have "send_fn S_write c = Some (Inr ?c)"
    using assms nz iovs(1)
    by (simp add: send_fn.simps [of S_write] async_write_def uring_async_write_def queue_sqe_def Let_def conn_closed_def)
  moreover have "in_flight p iovs ?c"
    using assms n iovs(2) by (simp add: in_flight_def Write_suspend_def add_event_def conn_closed_def)
  ultimately show ?thesis by (intro exI [of _ iovs] exI [of _ ?c]) (simp add: Write_suspend_def add_event_def)
qed

lemma write_completes:
  assumes "p \<noteq> 0" and "p < 2 ^ 56" and "sessions ex p = Some s" and "in_flight p iovs (s_conn s)"
    and "n \<le> length (ob_pending (write_buf (s_conn s)))"
  obtains ex1 c1 where "kernel_sends p iovs n ex = Inr ex1"
    and "uring_handle rr \<lparr>cqe_user_data = user_data EV_WRITE p, cqe_res = int n\<rparr> ex1 =
      ro_bind (resume_write c1) (\<lambda>c2. Some (Inr (uring_commit p c2 (s_frame s) ex1)))"
    and "kind c1 = UringConnection" "write_handle c1" "send_frame c1 = S_loop" "\<not> conn_closed c1" "ob_inv (write_buf c1)"
    and "ob_pending (write_buf c1) = drop n (ob_pending (write_buf (s_conn s)))"
    and "unat (back_left c1) = length (ob_pending (write_buf (s_conn s))) - n"
    and "wire (kern c1) = wire (kern (s_conn s)) @ take n (ob_pending (write_buf (s_conn s)))"
    and "uring c1 = u_ring ex" and "u_ring ex1 = u_ring ex"
proof -
  let ?c = "s_conn s" and ?p = "ob_pending (write_buf (s_conn s))"
  let ?k = "?c\<lparr>sock := (sock ?c)\<lparr>os := (kern ?c)\<lparr>wire := wire (kern ?c) @ take n ?p\<rparr>\<rparr>\<rparr>"
  let ?ex1 = "ex\<lparr>sessions := (sessions ex)(p \<mapsto> s\<lparr>s_conn := ?k\<rparr>)\<rparr>"
  note f = assms(4) [unfolded in_flight_def]
  from send_add_ok [of "write_buf ?c" "int n"] f assms(5) obtain ob where
    ob: "send_add (write_buf ?c) (int n) = Some (Inr ob)" "ob_inv ob" "ob_pending ob = drop n ?p" by auto
  have bl: "unat (back_left ?c - of_nat n) = length ?p - n"
    using unat_sub_of_int [of "int n" "back_left ?c"] f assms(5) by simp
  let ?c1 = "(?k\<lparr>uring := u_ring ex\<rparr>)\<lparr>back_left := back_left ?c - of_nat n, write_buf := ob\<rparr>"
  have k: "kernel_sends p iovs n ex = Inr ?ex1"
    using assms(3) f by (simp add: kernel_sends_def on_session_def)
  have "uring_handle rr \<lparr>cqe_user_data = user_data EV_WRITE p, cqe_res = int n\<rparr> ?ex1 =
      ro_bind (uring_send_add (with_ring ?ex1 (s\<lparr>s_conn := ?k\<rparr>)) (int n)) (\<lambda>c1.
        ro_bind (resume_write c1) (\<lambda>c2. Some (Inr (uring_commit p c2 (s_frame s) ?ex1))))"
    using handle_write [OF assms(1,2), of ?ex1 "s\<lparr>s_conn := ?k\<rparr>"] f by simp
  moreover have "uring_send_add (with_ring ?ex1 (s\<lparr>s_conn := ?k\<rparr>)) (int n) = Some (Inr ?c1)"
    using ob(1) by (simp add: with_ring_def uring_send_add_def)
  ultimately show thesis
    by (intro that [OF k, of ?c1]) (use f ob bl in \<open>simp_all add: conn_closed_def\<close>)
qed

subsection \<open>Properties\<close>

text \<open>A ring connection for the witnesses, at address 16, and an executor that has it.\<close>

definition ring_conn :: "byte list \<Rightarrow> connection" where
  "ring_conn bs = (live_conn [] [] bs)\<lparr>kind := UringConnection, this_ptr := 16\<rparr>"

definition ring_executor :: "connection \<Rightarrow> (byte list recv_pc, server_task) uring_executor" where
  "ring_executor c = \<lparr>sessions = [16 \<mapsto> \<lparr>s_conn = c, s_frame = Some R_header_len\<rparr>], should_notify = False,
     task_queue = [], stop_flag = False, u_ring = uring c, u_dummy = 8\<rparr>"

lemma ring_conn_facts:
  "kind (ring_conn bs) = UringConnection" "this_ptr (ring_conn bs) = 16" "\<not> is_dummy (ring_conn bs)"
  "\<not> conn_closed (ring_conn bs)" "back_left (ring_conn bs) = 0" "write_buf (ring_conn bs) = output_with bs"
  "read_buf (ring_conn bs) = InputBuffer (\<lambda>_ _. 0)" "sq (uring (ring_conn bs)) = []" "sq_entries (uring (ring_conn bs)) = 16384"
  "read_handle (ring_conn bs)" "wire (kern (ring_conn bs)) = []"
  by (simp_all add: ring_conn_def live_conn_simps conn_closed_def) (simp_all add: live_conn_def Connection_def Socket_def Let_def)

lemma ring_in_flight:
  assumes "bs \<noteq> []" and "length bs < 8192"
  obtains iovs c where "in_flight 16 iovs c" and "ob_pending (write_buf c) = bs"
proof -
  have "\<exists>iovs c. send_fn S_write (ring_conn bs) = Some (Inr c) \<and> in_flight 16 iovs c \<and> write_buf c = write_buf (ring_conn bs) \<and>
    sq (uring c) = sq (uring (ring_conn bs)) @ [SqeWritev (sockfd (sock (ring_conn bs))) iovs (user_data EV_WRITE 16)]"
    by (rule async_write_in_flight) (use assms in \<open>simp_all add: ring_conn_facts output_with_facts\<close>)
  with that assms show thesis by (auto simp: ring_conn_facts output_with_facts)
qed

text \<open>
  A write through the ring: when the kernel has taken all bytes of the entry a suspended
  writer queued and reports it, the peer has received exactly the queued bytes, the queue is
  empty, nothing is in flight and the writer waits for new data.
\<close>

theorem uring_write_completes:
  assumes "p \<noteq> 0" and "p < 2 ^ 56" and "sessions ex p = Some s" and "in_flight p iovs (s_conn s)"
    and "n = length (ob_pending (write_buf (s_conn s)))"
  shows "\<exists>ex1 ex' c'. kernel_sends p iovs n ex = Inr ex1 \<and>
    uring_handle rr \<lparr>cqe_user_data = user_data EV_WRITE p, cqe_res = int n\<rparr> ex1 = Some (Inr ex') \<and>
    sessions ex' = (sessions ex1)(p \<mapsto> \<lparr>s_conn = c', s_frame = s_frame s\<rparr>) \<and>
    wire (kern c') = wire (kern (s_conn s)) @ ob_pending (write_buf (s_conn s)) \<and>
    ob_pending (write_buf c') = [] \<and> back_left c' = 0 \<and> send_frame c' = S_write \<and> u_ring ex' = u_ring ex"
proof -
  have "n \<le> length (ob_pending (write_buf (s_conn s)))" using assms(5) by simp
  from write_completes [OF assms(1-4) this, of rr] obtain ex1 c1 where
    k: "kernel_sends p iovs n ex = Inr ex1"
      "uring_handle rr \<lparr>cqe_user_data = user_data EV_WRITE p, cqe_res = int n\<rparr> ex1 =
        ro_bind (resume_write c1) (\<lambda>c2. Some (Inr (uring_commit p c2 (s_frame s) ex1)))"
    and c1: "write_handle c1" "send_frame c1 = S_loop" "\<not> conn_closed c1" "ob_inv (write_buf c1)"
      "ob_pending (write_buf c1) = drop n (ob_pending (write_buf (s_conn s)))"
    and w: "unat (back_left c1) = length (ob_pending (write_buf (s_conn s))) - n"
      "wire (kern c1) = wire (kern (s_conn s)) @ take n (ob_pending (write_buf (s_conn s)))"
      "uring c1 = u_ring ex" "u_ring ex1 = u_ring ex" by blast
  have "ob_pending (write_buf c1) = []" "back_left c1 = 0" using c1(5) w(1) assms(5) by (simp_all add: word_unat_eq_iff)
  moreover from resume_write_drained [OF c1(1-4) this(1)] k(2)
  have "uring_handle rr \<lparr>cqe_user_data = user_data EV_WRITE p, cqe_res = int n\<rparr> ex1
      = Some (Inr (uring_commit p (c1\<lparr>write_handle := True, send_frame := S_write\<rparr>) (s_frame s) ex1))" by simp
  ultimately show ?thesis using k(1) w assms(5)
    by (intro exI [of _ ex1] exI [of _ "uring_commit p (c1\<lparr>write_handle := True, send_frame := S_write\<rparr>) (s_frame s) ex1"]
        exI [of _ "c1\<lparr>write_handle := True, send_frame := S_write\<rparr>"]) (simp add: uring_commit_def)
qed

theorem uring_write_completes_witness:
  "\<exists>iovs c ex1 ex' c'. in_flight 16 iovs c \<and> kernel_sends 16 iovs 3 (ring_executor c) = Inr ex1 \<and>
     uring_handle (resume_read echo_server) \<lparr>cqe_user_data = user_data EV_WRITE 16, cqe_res = 3\<rparr> ex1 = Some (Inr ex') \<and>
     (sessions ex' 16 = Some \<lparr>s_conn = c', s_frame = Some R_header_len\<rparr>) \<and> ob_pending (write_buf c') = [] \<and>
     wire (kern c') = wire (kern c) @ [7, 8, 9]"
proof -
  obtain iovs c where c: "in_flight 16 iovs c" "ob_pending (write_buf c) = [7, 8, 9]"
    by (rule ring_in_flight [of "[7, 8, 9]"]) simp_all
  with uring_write_completes [of 16 "ring_executor c" "\<lparr>s_conn = c, s_frame = Some R_header_len\<rparr>" iovs 3 "resume_read echo_server"]
  show ?thesis by (fastforce simp: ring_executor_def)
qed

text \<open>
  C38. A write the kernel took only in part stalls the connection: the rest stays queued, and
  the resumed writer suspends again without queueing a ring entry, so that no completion will
  resume it.
\<close>

theorem uring_partial_write_stalls:
  assumes "p \<noteq> 0" and "p < 2 ^ 56" and "sessions ex p = Some s" and "in_flight p iovs (s_conn s)"
    and "n < length (ob_pending (write_buf (s_conn s)))"
  shows "\<exists>ex1 ex' c'. kernel_sends p iovs n ex = Inr ex1 \<and>
    uring_handle rr \<lparr>cqe_user_data = user_data EV_WRITE p, cqe_res = int n\<rparr> ex1 = Some (Inr ex') \<and>
    sessions ex' = (sessions ex1)(p \<mapsto> \<lparr>s_conn = c', s_frame = s_frame s\<rparr>) \<and>
    ob_pending (write_buf c') = drop n (ob_pending (write_buf (s_conn s))) \<and> back_left c' > 0 \<and>
    send_frame c' = S_loop \<and> u_ring ex' = u_ring ex"
proof -
  have "n \<le> length (ob_pending (write_buf (s_conn s)))" using assms(5) by simp
  from write_completes [OF assms(1-4) this, of rr] obtain ex1 c1 where
    k: "kernel_sends p iovs n ex = Inr ex1"
      "uring_handle rr \<lparr>cqe_user_data = user_data EV_WRITE p, cqe_res = int n\<rparr> ex1 =
        ro_bind (resume_write c1) (\<lambda>c2. Some (Inr (uring_commit p c2 (s_frame s) ex1)))"
    and c1: "write_handle c1" "send_frame c1 = S_loop" "\<not> conn_closed c1" "kind c1 = UringConnection"
    and ob: "ob_inv (write_buf c1)" "ob_pending (write_buf c1) = drop n (ob_pending (write_buf (s_conn s)))"
    and w: "unat (back_left c1) = length (ob_pending (write_buf (s_conn s))) - n" "uring c1 = u_ring ex" "u_ring ex1 = u_ring ex"
    by blast
  let ?c2 = "(Write_suspend c1)\<lparr>send_frame := S_loop\<rparr>"
  have pos: "back_left c1 > 0" "ob_bytes (write_buf c1) > 0"
    using w(1) ob assms(5) by (simp_all add: word_less_nat_alt ob_inv_def ob_bytes_def)
  from resume_write_stalled [OF c1 pos] k(2)
  have "uring_handle rr \<lparr>cqe_user_data = user_data EV_WRITE p, cqe_res = int n\<rparr> ex1
      = Some (Inr (uring_commit p ?c2 (s_frame s) ex1))" by simp
  with k(1) w ob pos show ?thesis
    by (intro exI [of _ ex1] exI [of _ "uring_commit p ?c2 (s_frame s) ex1"] exI [of _ ?c2]) (simp add: uring_commit_def Write_suspend_def add_event_def)
qed

theorem uring_partial_write_stalls_witness:
  "\<exists>iovs c ex1 ex' c'. in_flight 16 iovs c \<and> kernel_sends 16 iovs 1 (ring_executor c) = Inr ex1 \<and>
     uring_handle (resume_read echo_server) \<lparr>cqe_user_data = user_data EV_WRITE 16, cqe_res = 1\<rparr> ex1 = Some (Inr ex') \<and>
     sessions ex' 16 = Some \<lparr>s_conn = c', s_frame = Some R_header_len\<rparr> \<and> ob_pending (write_buf c') = [8, 9] \<and>
     u_ring ex' = uring c"
proof -
  obtain iovs c where c: "in_flight 16 iovs c" "ob_pending (write_buf c) = [7, 8, 9]"
    by (rule ring_in_flight [of "[7, 8, 9]"]) simp_all
  with uring_partial_write_stalls [of 16 "ring_executor c" "\<lparr>s_conn = c, s_frame = Some R_header_len\<rparr>" iovs 1 "resume_read echo_server"]
  show ?thesis by (fastforce simp: ring_executor_def)
qed

text \<open>
  A read through the ring: \<open>async_read\<close> queues an entry for the free region of the input
  buffer, and when the kernel has stored bytes there and reports how many, the reading
  coroutine is resumed on a connection whose unread bytes are the old ones followed by exactly
  these.
\<close>

theorem uring_read_completes:
  assumes "p \<noteq> 0" and "p < 2 ^ 56" and "sessions ex p = Some s" and "\<not> is_dummy (s_conn s)" and "this_ptr c = p"
    and "uring_async_read c = Inr (suspended, s_conn s)" and "ib_inv (read_buf c)"
    and "bs \<noteq> []" and "length (ib_unread (read_buf c)) + length bs < 2 ^ 64"
  shows "suspended \<and> (\<exists>d room. last (sq (uring (s_conn s))) = SqeRead (sockfd (sock c)) d room (user_data EV_READ p) \<and> 0 < room \<and>
    (int (length bs) \<le> room \<longrightarrow> (\<exists>ex1 c1. kernel_stores p d bs ex = Inr ex1 \<and>
      uring_handle rr \<lparr>cqe_user_data = user_data EV_READ p, cqe_res = int (length bs)\<rparr> ex1 =
        ro_bind (rr (s_frame s) c1) (\<lambda>(fr, c2). Some (Inr (uring_commit p c2 fr ex1))) \<and>
      ib_inv (read_buf c1) \<and> ib_unread (read_buf c1) = ib_unread (read_buf c) @ bs \<and>
      c1 = (s_conn s)\<lparr>read_buf := read_buf c1, uring := u_ring ex\<rparr>)))"
proof -
  let ?c = "s_conn s"
  obtain d room where gb: "get_buffer (read_buf c) = Inr (d, room)" "0 < room"
    using get_buffer_ok [OF assms(7)] by metis
  with assms(5,6) obtain r where c: "c\<lparr>uring := r\<rparr> = ?c" "suspended"
    "queue_sqe (uring c) (SqeRead (sockfd (sock c)) d room (user_data EV_READ p)) = Inr r"
    by (auto simp: uring_async_read_def res_bind_eq_Inr)
  then have last: "last (sq (uring ?c)) = SqeRead (sockfd (sock c)) d room (user_data EV_READ p)"
    by (auto simp: queue_sqe_def Let_def simp flip: c(1) split: if_splits)
  have "\<exists>ex1 c1. kernel_stores p d bs ex = Inr ex1 \<and>
      uring_handle rr \<lparr>cqe_user_data = user_data EV_READ p, cqe_res = int (length bs)\<rparr> ex1 =
        ro_bind (rr (s_frame s) c1) (\<lambda>(fr, c2). Some (Inr (uring_commit p c2 fr ex1))) \<and>
      ib_inv (read_buf c1) \<and> ib_unread (read_buf c1) = ib_unread (read_buf c) @ bs \<and>
      c1 = ?c\<lparr>read_buf := read_buf c1, uring := u_ring ex\<rparr>" if len: "int (length bs) \<le> room"
  proof -
    from receive_ok [OF assms(7) gb(1) len assms(9)] obtain ib1 ib2 where ib: "poke (read_buf c) d bs = Inr ib1"
      "recv_add ib1 (int (length bs)) = Inr ib2" "ib_inv ib2" "ib_unread ib2 = ib_unread (read_buf c) @ bs" by blast
    let ?ex1 = "ex\<lparr>sessions := (sessions ex)(p \<mapsto> s\<lparr>s_conn := ?c\<lparr>read_buf := ib1\<rparr>\<rparr>)\<rparr>"
    let ?c1 = "?c\<lparr>read_buf := ib2, uring := u_ring ex\<rparr>"
    have "kernel_stores p d bs ex = Inr ?ex1" using assms(3) ib(1) by (simp add: kernel_stores_def on_session_def flip: c(1))
    moreover have "uring_read_done (int (length bs)) (with_ring ?ex1 (s\<lparr>s_conn := ?c\<lparr>read_buf := ib1\<rparr>\<rparr>)) = Some (Inr ?c1)"
      using assms(8) ib(2) by (simp add: uring_read_done_def with_ring_def)
    ultimately show ?thesis
      using handle_read [OF assms(1,2), of ?ex1 "s\<lparr>s_conn := ?c\<lparr>read_buf := ib1\<rparr>\<rparr>" rr "int (length bs)"] assms(4) ib
      by (intro exI [of _ ?ex1] exI [of _ ?c1]) simp
  qed
  with c(2) last gb(2) show ?thesis by blast
qed

theorem uring_read_completes_witness:
  "\<exists>c ex1 c1. uring_async_read (ring_conn []) = Inr (True, c) \<and>
     last (sq (uring c)) = SqeRead 5 (Some 0, 0) kBlockSize (user_data EV_READ 16) \<and>
     kernel_stores 16 (Some 0, 0) [4, 2] (ring_executor c) = Inr ex1 \<and>
     uring_handle (resume_read echo_server) \<lparr>cqe_user_data = user_data EV_READ 16, cqe_res = 2\<rparr> ex1 =
       ro_bind (resume_read echo_server (Some R_header_len) c1) (\<lambda>(fr, c2). Some (Inr (uring_commit 16 c2 fr ex1))) \<and>
     ib_unread (read_buf c1) = [4, 2]"
proof -
  have fd: "sockfd (sock (ring_conn [])) = 5"
    by (simp add: ring_conn_def live_conn_def Connection_def Socket_def Let_def)
  obtain c where c: "uring_async_read (ring_conn []) = Inr (True, c)" "\<not> is_dummy c"
    "last (sq (uring c)) = SqeRead 5 (Some 0, 0) kBlockSize (user_data EV_READ 16)"
    by (simp add: uring_async_read_def queue_sqe_def Let_def ring_conn_facts get_buffer_new fd)
  let ?s = "\<lparr>s_conn = c, s_frame = Some R_header_len\<rparr>"
  have s: "sessions (ring_executor c) 16 = Some ?s" by (simp add: ring_executor_def)
  note rc = uring_read_completes [of 16 "ring_executor c" ?s "ring_conn []" True "[4, 2]" "resume_read echo_server", OF _ _ s]
  have "\<exists>ex1 c1. kernel_stores 16 (Some 0, 0) [4, 2] (ring_executor c) = Inr ex1 \<and>
     uring_handle (resume_read echo_server) \<lparr>cqe_user_data = user_data EV_READ 16, cqe_res = 2\<rparr> ex1 =
       ro_bind (resume_read echo_server (Some R_header_len) c1) (\<lambda>(fr, c2). Some (Inr (uring_commit 16 c2 fr ex1))) \<and>
     ib_unread (read_buf c1) = [4, 2]"
    using rc c fd by (simp add: ring_conn_facts InputBuffer_inv InputBuffer_unread kBlockSize_def) blast
  with c show ?thesis by blast
qed

text \<open>
  A failed read is repeated for ever: when the kernel reports an error for a read of a
  connection that waits for the next header, the connection is not closed; the coroutine
  queues the same read again and suspends, and nothing else changes.
\<close>

theorem uring_read_error_retried:
  assumes "p \<noteq> 0" and "p < 2 ^ 56" and "sessions ex p = Some s" and "\<not> is_dummy (s_conn s)"
    and "kind (s_conn s) = UringConnection" and "\<not> conn_closed (s_conn s)" and "read_handle (s_conn s)"
    and "s_frame s = Some R_header_len" and "conn_read_bytes (s_conn s) < 4"
    and "get_buffer (read_buf (s_conn s)) = Inr (d, room)" and "length (sq (u_ring ex)) < sq_entries (u_ring ex)"
    and "error < 0"
  shows "uring_handle (resume_read srv) \<lparr>cqe_user_data = user_data EV_READ p, cqe_res = error\<rparr> ex =
    (let r = (u_ring ex)\<lparr>sq := sq (u_ring ex) @ [SqeRead (sockfd (sock (s_conn s))) d room (user_data EV_READ (this_ptr (s_conn s)))]\<rparr>
     in Some (Inr (ex\<lparr>sessions := (sessions ex)(p \<mapsto> s\<lparr>s_conn := (s_conn s)\<lparr>uring := r\<rparr>\<rparr>), u_ring := r\<rparr>)))"
proof -
  let ?c = "with_ring ex s"
  let ?r = "(u_ring ex)\<lparr>sq := sq (u_ring ex) @ [SqeRead (sockfd (sock (s_conn s))) d room (user_data EV_READ (this_ptr (s_conn s)))]\<rparr>"
  have f: "kind ?c = UringConnection" "\<not> conn_closed ?c" "read_handle ?c" "conn_read_bytes ?c < 4" "read_buf ?c = read_buf (s_conn s)"
    "uring ?c = u_ring ex" "sock ?c = sock (s_conn s)" "this_ptr ?c = this_ptr (s_conn s)" "?c\<lparr>uring := ?r\<rparr> = (s_conn s)\<lparr>uring := ?r\<rparr>"
    using assms(5-9) by (simp_all add: with_ring_def conn_closed_def conn_read_bytes_def)
  have "uring_read_done error ?c = Some (Inr ?c)"
    using assms(12) by (simp add: uring_read_done_def recv_add_def)
  moreover have "async_read ?c = Some (Inr (True, ?c\<lparr>uring := ?r\<rparr>))"
    using f(1,5-8) assms(10,11) by (simp add: async_read_def uring_async_read_def queue_sqe_def Let_def)
  then have "await_read ?c = Some (Inr (True, (s_conn s)\<lparr>uring := ?r\<rparr>))"
    using f(9) assms(6) by (simp add: await_read_def Read_suspend_def conn_closed_def)
  then have "resume_read srv (s_frame s) ?c = Some (Inr (Some R_header_len, (s_conn s)\<lparr>uring := ?r\<rparr>))"
    using f(2-4) assms(8)
    by (simp add: resume_read_def resume_coroutine_def run_coroutine.simps recv_step.simps read_more_def)
  ultimately show ?thesis
    using handle_read [OF assms(1-4), of "resume_read srv" error] assms(8)
    by (cases s) (simp add: uring_commit_def Let_def)
qed

theorem uring_read_error_retried_witness:
  "\<exists>ex'. uring_handle (resume_read echo_server) \<lparr>cqe_user_data = user_data EV_READ 16, cqe_res = -104\<rparr> (ring_executor (ring_conn []))
      = Some (Inr ex') \<and> length (sq (u_ring ex')) = 1"
proof -
  have gb: "get_buffer (read_buf (ring_conn [])) = Inr ((Some 0, 0), kBlockSize)"
    by (simp add: ring_conn_facts get_buffer_new)
  have "conn_read_bytes (ring_conn []) < 4"
    by (simp add: conn_read_bytes_def ring_conn_facts ib_bytes_def InputBuffer_def new_block_def)
  with uring_read_error_retried [of 16 "ring_executor (ring_conn [])" "\<lparr>s_conn = ring_conn [], s_frame = Some R_header_len\<rparr>" "(Some 0, 0)" kBlockSize "-104" echo_server] gb
  show ?thesis by (simp add: ring_executor_def ring_conn_facts Let_def)
qed

end
