(* ===== verification/RingEntries.thy ===== *)
theory RingEntries
  imports Evolution
begin

section \<open>What the coroutines of a ring connection queue\<close>

text \<open>
  The executor of a ring reports a completion for every entry that was queued, so what a
  connection can expect depends on the entries its coroutines have queued. This theory follows
  them: however long the coroutines of an open ring connection run, they queue at most one
  write, and that only when none was in flight; and the reading coroutine suspends right after
  it queued one read for the free region of its buffer. Nothing reaches the peer meanwhile.
\<close>

definition entries :: "ring \<Rightarrow> sqe list" where
  "entries r = submitted r @ sq r"

definition ring_wrote :: "connection \<Rightarrow> connection \<Rightarrow> bool" where
  "ring_wrote c c' \<longleftrightarrow> wire (kern c') = wire (kern c) \<and> sq_entries (uring c') = sq_entries (uring c) \<and>
     (entries (uring c') = entries (uring c) \<and> back_left c' = back_left c \<and> ioves c' = ioves c \<or>
      back_left c = 0 \<and> back_left c' \<noteq> 0 \<and>
      entries (uring c') = entries (uring c) @ [SqeWritev (sockfd (sock c)) (ioves c') (user_data EV_WRITE (this_ptr c))])"

definition ring_evolves :: "connection \<Rightarrow> connection \<Rightarrow> bool" where
  "ring_evolves c c' \<longleftrightarrow> evolves_to c c' \<and> (kind c = UringConnection \<and> \<not> conn_closed c' \<longrightarrow> ring_wrote c c')"

lemma entries_submit [simp]: "entries (io_uring_submit r) = entries r"
  by (simp add: entries_def io_uring_submit_def)

lemma queue_sqe_entries:
  assumes "queue_sqe r e = Inr r'"
  shows "entries r' = entries r @ [e]" and "sq_entries r' = sq_entries r" and "submitted r' = submitted r \<or> submitted r' = entries r"
  using assms by (auto simp: queue_sqe_def io_uring_submit_def entries_def Let_def split: if_splits)

lemma ring_evolves_refl [simp]: "ring_evolves c c"
  by (simp add: ring_evolves_def ring_wrote_def)

lemma ring_evolves_trans: "ring_evolves a b \<Longrightarrow> ring_evolves b c \<Longrightarrow> ring_evolves a c"
proof -
  assume ab: "ring_evolves a b" and bc: "ring_evolves b c"
  then have e: "evolves_to a b" "evolves_to b c" by (simp_all add: ring_evolves_def)
  then have "kind b = kind a" "conn_closed b \<longrightarrow> conn_closed c" "sockfd (sock b) = sockfd (sock a)" "this_ptr b = this_ptr a"
    by (simp_all add: evolves_to_def)
  with ab bc have "kind a = UringConnection \<and> \<not> conn_closed c \<longrightarrow> ring_wrote a c"
    by (auto simp: ring_evolves_def ring_wrote_def)
  with evolves_to_trans [OF e] show ?thesis by (simp add: ring_evolves_def)
qed

text \<open>A change of the input buffer, of the queue or of the handles queues nothing.\<close>

lemma ring_evolves_fields [simp]:
  "ring_evolves c (c'\<lparr>read_buf := ib\<rparr>) = ring_evolves c c'" "ring_evolves c (c'\<lparr>write_buf := ob\<rparr>) = ring_evolves c c'"
  "ring_evolves c (c'\<lparr>send_frame := pc\<rparr>) = ring_evolves c c'" "ring_evolves c (c'\<lparr>write_handle := h\<rparr>) = ring_evolves c c'"
  "ring_evolves (c\<lparr>write_buf := ob\<rparr>) c' = ring_evolves c c'" "ring_evolves (c\<lparr>read_buf := ib\<rparr>) c' = ring_evolves c c'"
  by (simp_all add: ring_evolves_def ring_wrote_def conn_closed_def)

lemma ring_evolves_event: "evolves_to c (add_event t c) \<Longrightarrow> ring_evolves c (add_event t c)"
  by (simp add: ring_evolves_def ring_wrote_def add_event_def)

subsection \<open>The writing coroutine\<close>

lemma async_write_ring:
  assumes "async_write c = Some (Inr (b, c'))"
  shows "ring_evolves c c'"
proof -
  have "ring_wrote c c'" if "kind c = UringConnection"
    using assms that
    by (auto simp: async_write_def uring_async_write_def res_bind_eq_Inr Let_def ring_wrote_def queue_sqe_entries word_gt_0 split: if_splits)
  with async_write_evolves [OF assms] show ?thesis by (simp add: ring_evolves_def)
qed

lemma send_fn_ring_all:
  assumes "send_fn pc c = Some r"
  shows "\<forall>d. r = Inr d \<longrightarrow> ring_evolves c d"
proof (rule send_fn.raw_induct [where P = "\<lambda>pc c r. \<forall>d. r = Inr d \<longrightarrow> ring_evolves c d", OF _ assms],
    intro allI impI, goal_cases)
  case (1 f pc c r d)
  show ?case
  proof (cases pc)
    case S_loop
    with 1 show ?thesis by (auto simp: WaitWrite_suspend_def split: if_splits)
  next
    case S_write
    with 1(2,3) obtain b c1 where c1: "async_write c = Some (Inr (b, c1))"
      and d: "if b then d = (Write_suspend c1)\<lparr>send_frame := S_loop\<rparr> else f S_loop c1 = Some (Inr d)"
      by (auto split: option.splits sum.splits if_splits)
    have "ring_evolves c1 (add_event EV_WRITE c1)"
      by (intro ring_evolves_event evolves_to_add_event) simp_all
    then have "ring_evolves c1 (Write_suspend c1)" by (simp add: Write_suspend_def add_event_def ring_evolves_def ring_wrote_def evolves_to_def asks_for_def conn_closed_def)
    then have "ring_evolves c1 d" using d 1(1) [of S_loop c1 "Inr d"]
      by (auto split: if_splits)
    with async_write_ring [OF c1] show ?thesis by (rule ring_evolves_trans)
  qed (use 1 in auto)
qed

lemmas send_fn_ring = send_fn_ring_all [rule_format, OF _ refl]

lemma resume_write_ring: "resume_write c = Some (Inr c') \<Longrightarrow> ring_evolves c c'"
  by (auto simp: resume_write_def intro: send_fn_ring split: if_splits)

text \<open>The writer of an open ring connection never suspends with bytes queued and no write in flight.\<close>

definition drained :: "connection \<Rightarrow> bool" where
  "drained c \<longleftrightarrow> (back_left c = 0 \<longrightarrow> ob_bytes (write_buf c) = 0)"

lemma async_write_waits:
  "async_write c = Some (Inr (True, c')) \<Longrightarrow> kind c = UringConnection \<Longrightarrow> back_left c' \<noteq> 0"
  by (auto simp: async_write_def uring_async_write_def res_bind_eq_Inr Let_def word_gt_0 split: if_splits)

lemma send_fn_drained_all:
  assumes "send_fn pc c = Some r"
  shows "\<forall>d. r = Inr d \<longrightarrow> kind c = UringConnection \<longrightarrow> \<not> conn_closed d \<longrightarrow> drained d"
proof (rule send_fn.raw_induct [where P = "\<lambda>pc c r. \<forall>d. r = Inr d \<longrightarrow> kind c = UringConnection \<longrightarrow> \<not> conn_closed d \<longrightarrow> drained d",
      OF _ assms], intro allI impI, goal_cases)
  case (1 f pc c r d)
  show ?case
  proof (cases pc)
    case S_loop
    with 1 show ?thesis
      by (auto simp: WaitWrite_suspend_def WaitWrite_ready_def conn_write_bytes_def drained_def conn_closed_def word_gt_0 split: if_splits)
  next
    case S_write
    with 1(2,3) obtain b c1 where c1: "async_write c = Some (Inr (b, c1))"
      and d: "if b then d = (Write_suspend c1)\<lparr>send_frame := S_loop\<rparr> else f S_loop c1 = Some (Inr d)"
      by (auto split: option.splits sum.splits if_splits)
    have "kind c1 = UringConnection" using async_write_evolves [OF c1] 1(4) by (simp add: evolves_to_def)
    with d 1(1) [of S_loop c1 "Inr d"] 1(4,5) c1 async_write_waits [of c c1] show ?thesis
      by (auto simp: drained_def Write_suspend_def add_event_def split: if_splits)
  qed (use 1 in auto)
qed

lemma resume_write_drained_ring: "resume_write c = Some (Inr c') \<Longrightarrow> kind c = UringConnection \<Longrightarrow> \<not> conn_closed c' \<Longrightarrow> drained c'"
  by (auto simp: resume_write_def dest: send_fn_drained_all split: if_splits)

subsection \<open>The reading coroutine\<close>

definition run_evolves :: "connection \<Rightarrow> connection \<Rightarrow> bool" where
  "run_evolves c c' \<longleftrightarrow> ring_evolves c c' \<and> (kind c = UringConnection \<and> \<not> conn_closed c' \<and> drained c \<longrightarrow> drained c')"

lemma run_evolves_refl [simp]: "run_evolves c c"
  by (simp add: run_evolves_def)

lemma run_evolves_trans: "run_evolves a b \<Longrightarrow> run_evolves b c \<Longrightarrow> run_evolves a c"
  using ring_evolves_trans [of a b c] by (auto simp: run_evolves_def ring_evolves_def evolves_to_def)

lemma run_evolves_read_buf [simp]: "run_evolves c (c'\<lparr>read_buf := ib\<rparr>) = run_evolves c c'"
  "run_evolves (c\<lparr>read_buf := ib\<rparr>) c' = run_evolves c c'"
  by (simp_all add: run_evolves_def drained_def conn_closed_def)

lemma await_read_ring_cases:
  assumes "await_read c = Some (Inr (b, c'))" and "kind c = UringConnection" and "\<not> conn_closed c'"
  shows "b \<and> uring_async_read c = Inr (True, c')"
proof -
  from assms(1,2) obtain c1 where c1: "uring_async_read c = Inr (True, c1)" "(b, c') = Read_suspend True c1"
    by (auto simp: await_read_def async_read_def uring_async_read_def ro_bind_eq_Inr res_bind_eq_Inr)
  then show ?thesis using assms(3) by (auto simp: Read_suspend_def add_event_def conn_closed_def split: if_splits)
qed

lemma serve_ring: "serve srv h service name q c = Some (Inr c') \<Longrightarrow> run_evolves c c'"
  by (auto simp: serve_def ro_bind_eq_Inr Let_def run_evolves_def dest: resume_write_ring resume_write_drained_ring)

lemma read_more_goto:
  assumes "read_more pc c = Some (Inr (Goto pc', c'))"
  shows "run_evolves c c'"
proof -
  from assms have aw: "await_read c = Some (Inr (False, c'))" by (auto simp: read_more_def ro_bind_eq_Inr split: if_splits)
  with await_read_ring_cases [OF aw] await_read_evolves [OF aw] show ?thesis by (auto simp: run_evolves_def ring_evolves_def)
qed

lemma fetch_len_ring: "fetch_len c = Inr (l, c') \<Longrightarrow> run_evolves c c'"
  by (auto simp: fetch_len_def res_bind_eq_Inr)

text \<open>One step of \<open>recv_fn\<close>: it goes on having queued at most a write, or suspends having queued a read.\<close>

lemma recv_step_goto:
  assumes "recv_step srv pc c = Some (Inr (Goto pc', c'))"
  shows "run_evolves c c'"
proof (cases pc)
  case R_header_len
  with assms show ?thesis
    by (auto simp: recv_step.simps case_res_eq_Inr dest!: read_more_goto fetch_len_ring split: if_splits option.splits)
next
  case (R_header len)
  show ?thesis
  proof (cases "conn_read_bytes c < ucast len")
    case True
    with assms R_header show ?thesis by (auto simp: recv_step.simps dest!: read_more_goto split: if_splits)
  next
    case False
    obtain ib' where "c' = c\<lparr>read_buf := ib'\<rparr>" using recv_step_header [OF assms [unfolded R_header] False] by metis
    then show ?thesis by simp
  qed
next
  case (R_request_len h)
  with assms show ?thesis
    by (auto simp: recv_step.simps case_res_eq_Inr dest!: read_more_goto fetch_len_ring split: if_splits option.splits)
next
  case (R_request h len service name)
  with assms show ?thesis
    by (auto simp: recv_step.simps ro_bind_eq_Inr dest!: read_more_goto serve_ring split: if_splits option.splits)
qed

lemma recv_step_suspend:
  assumes "recv_step srv pc c = Some (Inr (Suspend pc', c'))"
  shows "await_read c = Some (Inr (True, c'))"
proof -
  have "read_more pc c = Some (Inr (Suspend pc', c'))"
  proof (cases pc)
    case (R_header len)
    show ?thesis
    proof (cases "conn_read_bytes c < ucast len")
      case False
      with assms R_header show ?thesis by (auto elim: recv_step_header [where pc = pc'])
    qed (use assms R_header in \<open>auto simp: recv_step.simps split: if_splits\<close>)
  qed (use assms in \<open>auto simp: recv_step.simps ro_bind_eq_Inr case_res_eq_Inr split: if_splits option.splits\<close>)
  then show ?thesis by (auto simp: read_more_def ro_bind_eq_Inr split: if_splits)
qed

text \<open>A run that suspends has got to its last step by steps that go on.\<close>

lemma run_coroutine_suspended_raw:
  assumes "run_coroutine step finish pc s = Some r"
    and "\<And>pc s pc' s'. step pc s = Some (Inr (Goto pc', s')) \<Longrightarrow> R s s'"
    and "\<And>s. R s s" and "\<And>x y z. R x y \<Longrightarrow> R y z \<Longrightarrow> R x z"
  shows "\<forall>pc' s'. r = Inr (Some pc', s') \<longrightarrow> (\<exists>pc1 s1. R s s1 \<and> step pc1 s1 = Some (Inr (Suspend pc', s')))"
proof (rule run_coroutine.raw_induct [where P = "\<lambda>st fin pc s r. st = step \<longrightarrow> fin = finish \<longrightarrow>
      (\<forall>pc' s'. r = Inr (Some pc', s') \<longrightarrow> (\<exists>pc1 s1. R s s1 \<and> step pc1 s1 = Some (Inr (Suspend pc', s'))))",
      OF _ assms(1), THEN mp, THEN mp], intro allI impI, goal_cases)
  case (1 f st fin pc s r pc' s')
  note IH = 1(1) and run = 1(2) and eqs = 1(3,4) and r = 1(5)
  from run r eqs obtain ctl s1 where stp: "step pc s = Some (Inr (ctl, s1))"
    by (auto split: option.splits sum.splits)
  show ?case
  proof (cases ctl)
    case (Goto pc1)
    with IH [of st fin pc1 s1 r] run stp r eqs obtain pc2 s2 where "R s1 s2" "step pc2 s2 = Some (Inr (Suspend pc', s'))" by auto
    moreover have "R s s1" using assms(2) stp Goto by blast
    ultimately show ?thesis using assms(4) by blast
  next
    case (Suspend pc1)
    with run stp r eqs assms(3) show ?thesis by auto
  qed (use run stp r eqs in auto)
qed simp_all

lemma recv_run_queues_read:
  assumes "recv_run srv pc c = Some (Inr (Some pc', c'))" and "kind c = UringConnection" and "\<not> conn_closed c'" and "drained c"
  shows "\<exists>c1. evolves_to c c1 \<and> ring_wrote c c1 \<and> drained c1 \<and> uring_async_read c1 = Inr (True, c')"
proof -
  have "\<exists>pc1 s1. run_evolves c s1 \<and> recv_step srv pc1 s1 = Some (Inr (Suspend pc', c'))"
    by (rule run_coroutine_suspended_raw [OF assms(1) [unfolded recv_run_def], THEN spec, THEN spec, THEN mp, OF _ _ _ refl])
      (erule recv_step_goto, rule run_evolves_refl, rule run_evolves_trans)
  then obtain pc1 c1 where c1: "run_evolves c c1" "recv_step srv pc1 c1 = Some (Inr (Suspend pc', c'))"
    by blast
  note aw = recv_step_suspend [OF c1(2)]
  have e: "evolves_to c c1" "evolves_to c1 c'" using c1(1) await_read_evolves [OF aw] by (simp_all add: run_evolves_def ring_evolves_def)
  then have "kind c1 = UringConnection" "\<not> conn_closed c1" using assms(2,3) by (auto simp: evolves_to_def)
  with await_read_ring_cases [OF aw _ assms(3)] c1(1) e(1) assms(2,4) show ?thesis by (auto simp: run_evolves_def ring_evolves_def)
qed

end
