(* ===== verification/RingSession.thy ===== *)
theory RingSession
  imports RingEntries ServerInput
begin

section \<open>A session on a ring connection\<close>

text \<open>
  What the two kinds of completion do to one ring connection that the server serves: a read
  continues the specification of the server by the bytes that were stored, a write removes its
  bytes from the queue and starts the next write if there is something to send.
\<close>

text \<open>The kernel stores behind the unread bytes: until \<open>recv_add\<close> nothing changes for the reader.\<close>

lemma poke_keeps:
  assumes inv: "ib_inv ib" and gb: "get_buffer ib = Inr (d, room)" and pk: "poke ib d bs = Inr ib1"
  shows "ib_inv ib1" and "ib_unread ib1 = ib_unread ib" and "ib_pos ib1 = ib_pos ib"
proof -
  from inv obtain ds cs where rep': "ib_rep ib ds cs" by (auto simp: ib_inv_def)
  then obtain as l b where cs: "cs = as @ [l]" and b: "cells (in_heap ib) l = Some b" and wf: "blk_wf b" and l: "l \<notin> set as"
    by (rule ib_rep_last) auto
  note rep = rep' [unfolded cs]
  let ?b = "b\<lparr>blk_data := copy_into (blk_data b) (nat (blk_end b)) bs\<rparr>"
  have ib1: "ib1 = ib\<lparr>in_heap := upd (in_heap ib) l ?b\<rparr>"
    using pk gb get_buffer_rep [OF rep b] b by (auto simp: poke_def block_put_def split: if_splits)
  have bytes: "blk_bytes ?b = blk_bytes b" by (simp add: blk_bytes_def slice_copy_into_before)
  have "filled (blocks (upd (in_heap ib) l ?b) (as @ [l]))"
    using rep b l wf by (auto simp: ib_rep_def filled_snoc blk_wf_def)
  moreover have hd: "blk_begin (hd (blocks (upd (in_heap ib) l ?b) (as @ [l]))) = blk_begin (hd (blocks (in_heap ib) (as @ [l])))"
    using l b by (cases as) auto
  moreover have "owns (upd (in_heap ib) l ?b) (first_block ib) (ds @ as @ [l])"
    using rep b by (auto simp: ib_rep_def intro: owns_upd)
  ultimately have r: "ib_rep ib1 ds (as @ [l])"
    using rep b by (auto simp: ib1 ib_rep_def)
  show u: "ib_unread ib1 = ib_unread ib"
    unfolding ib_unread_rep [OF r] ib_unread_rep [OF rep] using b l bytes by (simp add: ib1)
  show "ib_inv ib1" using inv u r by (auto simp: ib_inv_def ib1)
  show "ib_pos ib1 = ib_pos ib" unfolding ib_pos_rep [OF r] ib_pos_rep [OF rep] using hd by (simp add: ib1)
qed

lemma receive_pos:
  assumes "ib_inv ib" and "ib_inv ib2" and "ib_unread ib2 = ib_unread ib @ bs"
    and "ib_fill ib2 = (ib_fill ib + int (length bs)) mod kBlockSize"
  shows "ib_pos ib2 = ib_pos ib"
  using ib_pos_facts(4) [OF assms(1)] ib_pos_facts(4) [OF assms(2)] assms(3,4) by (simp add: mod_simps algebra_simps)


subsection \<open>The coroutines of a ring connection\<close>

definition ring_serving :: "connection \<Rightarrow> bool" where
  "ring_serving c \<longleftrightarrow> serving c \<and> kind c = UringConnection \<and> drained c"

lemma ring_serving_facts:
  assumes "ring_serving c"
  shows "serving c" "conn_inv c" "ring_ok c" "kind c = UringConnection" "drained c" "tx_steady (tx (kern c))" "rx (kern c) = []"
  using assms by (auto simp: ring_serving_def serving_def conn_inv_def ring_ok_def)

text \<open>
  Resumed with the bytes of a completed read in its buffer, the reading coroutine does what the
  specification says of them, and suspends after queueing the next read.
\<close>

lemma ring_read_continues:
  assumes rs: "ring_serving c"
    and spec: "server_spec srv pc (ib_pos (read_buf c)) (ib_unread (read_buf c)) = (out, Waiting pc' pos' rest)"
    and fits: "length (ob_pending (write_buf c)) + length out < 1023 * 8192"
  shows "\<exists>c1 c'. recv_run srv pc c = Some (Inr (Some pc', c')) \<and> ring_serving c' \<and> wire (kern c') = wire (kern c) \<and>
    ob_pending (write_buf c') = ob_pending (write_buf c) @ out \<and> ib_pos (read_buf c') = pos' \<and> ib_unread (read_buf c') = rest \<and>
    evolves_to c c1 \<and> ring_wrote c c1 \<and> uring_async_read c1 = Inr (True, c')"
proof -
  note f = ring_serving_facts [OF rs]
  have "server.run_ok srv False False c out (Waiting pc' pos' rest) (recv_run srv pc c)"
    unfolding recv_run_def using f(1) by (rule server.run_refines) (use spec f(7) fits in \<open>simp_all add: out_fits_def\<close>)
  then obtain c' where run: "recv_run srv pc c = Some (Inr (Some pc', c'))" and sv: "serving c'"
    and out: "output_of c' = output_of c @ out" and r: "pos' = ib_pos (read_buf c')" "rest = ib_unread (read_buf c')"
    using f(7) by (auto simp: server.run_ok_def)
  have nc: "\<not> conn_closed c'" using sv by (simp add: serving_def conn_inv_def)
  from recv_run_queues_read [OF run f(4) nc f(5)] obtain c1 where
    c1: "evolves_to c c1" "ring_wrote c c1" "drained c1" "uring_async_read c1 = Inr (True, c')" by blast
  then have same: "kern c' = kern c1" "write_buf c' = write_buf c1" "back_left c' = back_left c1" "kind c' = kind c1"
    by (auto simp: uring_async_read_def res_bind_eq_Inr)
  then have w: "wire (kern c') = wire (kern c)" using c1(2) by (simp add: ring_wrote_def)
  with out have "ob_pending (write_buf c') = ob_pending (write_buf c) @ out" by (simp add: output_of_def)
  moreover have "ring_serving c'" using sv c1(1,3) same f(4) by (simp add: ring_serving_def evolves_to_def drained_def)
  ultimately show ?thesis using run w r c1 by blast
qed

text \<open>A write that was taken in full leaves the queue, and the writer goes on with what was appended meanwhile.\<close>

lemma ring_write_continues:
  assumes rs: "ring_serving c" and bl: "n = unat (back_left c)" and q: "small_queue (ob_pending (write_buf c))"
  shows "\<exists>c1 c'. uring_send_add c (int n) = Some (Inr c1) \<and> resume_write c1 = Some (Inr c') \<and>
    c1 = c\<lparr>back_left := 0, write_buf := write_buf c1\<rparr> \<and> ring_serving c' \<and> wire (kern c') = wire (kern c) \<and>
    ob_pending (write_buf c') = drop n (ob_pending (write_buf c)) \<and> read_buf c' = read_buf c \<and>
    evolves_to c1 c' \<and> ring_wrote c1 c'"
proof -
  note f = ring_serving_facts [OF rs]
  have "n \<le> length (ob_pending (write_buf c))" using f(3) unfolding bl ring_ok_def by blast
  then have n: "int n \<le> int (length (ob_pending (write_buf c)))" by simp
  from send_add_ok [OF conn_inv_facts(2) [OF f(2)] _ n] obtain ob where
    ob: "send_add (write_buf c) (int n) = Some (Inr ob)" "ob_inv ob" "ob_pending ob = drop n (ob_pending (write_buf c))" by auto
  let ?c1 = "c\<lparr>back_left := 0, write_buf := ob\<rparr>"
  have "back_left c - of_int (int n) = 0" using bl by simp
  then have s: "uring_send_add c (int n) = Some (Inr ?c1)" using ob(1) by (simp add: uring_send_add_def)
  have ci: "conn_inv ?c1"
    using f(2,3) ob(2) by (auto simp: conn_inv_def ring_ok_def conn_closed_def)
  have "small_queue (ob_pending (write_buf ?c1))" using q ob(3) by simp
  from resume_write_live [OF ci _ this] f(6) obtain c' where
    c': "resume_write ?c1 = Some (Inr c')" "writer_effect ?c1 c'" by auto
  note e = resume_write_ring [OF c'(1)]
  have ci': "conn_inv c'" using c'(2) by (simp add: writer_effect_def)
  have k: "kind ?c1 = UringConnection" "\<not> conn_closed c'" using f(4) conn_inv_facts(3) [OF ci'] by simp_all
  then have rw: "ring_wrote ?c1 c'" "evolves_to ?c1 c'" using e by (auto simp: ring_evolves_def)
  then have w: "wire (kern c') = wire (kern c)" by (simp add: ring_wrote_def)
  with c'(2) ob(3) have "ob_pending (write_buf c') = drop n (ob_pending (write_buf c))" by (simp add: writer_effect_def)
  moreover have "ring_serving c'"
    using c'(2) rw(2) f(1,4) resume_write_drained_ring [OF c'(1) k] by (simp add: ring_serving_def writer_effect_def serving_def evolves_to_def)
  ultimately show ?thesis
    using s c' rw w by (intro exI [of _ ?c1] exI [of _ c']) (simp add: writer_effect_def)
qed

text \<open>A ring connection as the server makes it for an accepted socket, and the start of its two coroutines.\<close>

definition fresh_ring_conn :: "64 word \<Rightarrow> connection \<Rightarrow> bool" where
  "fresh_ring_conn p c \<longleftrightarrow> (\<exists>s r j. c = Connection UringConnection s False p r j \<and>
     \<not> sock_closed s \<and> \<not> shut_wr (os s) \<and> wire (os s) = [] \<and> rx (os s) = [] \<and> tx (os s) = [])"

lemma fresh_ring_starts:
  assumes "fresh_ring_conn p c" and "0 < sq_entries r"
  shows "\<exists>c1. send_fn S_loop (c\<lparr>uring := r\<rparr>) = Some (Inr c1) \<and> uring c1 = r"
    and "send_fn S_loop (c\<lparr>uring := r\<rparr>) = Some (Inr c1) \<Longrightarrow> sq_entries r' = sq_entries r \<Longrightarrow>
      ring_serving (RegisterRead_suspend (c1\<lparr>uring := r'\<rparr>)) \<and> wire (kern c1) = [] \<and> ob_pending (write_buf c1) = [] \<and>
      ib_pos (read_buf c1) = 0 \<and> ib_unread (read_buf c1) = [] \<and> back_left c1 = 0 \<and> this_ptr c1 = p \<and> \<not> is_dummy c1"
proof -
  from assms(1) obtain s rg j where c: "c = Connection UringConnection s False p rg j"
    and s: "\<not> sock_closed s" "\<not> shut_wr (os s)" "wire (os s) = []" "rx (os s) = []" "tx (os s) = []"
    by (auto simp: fresh_ring_conn_def)
  let ?c1 = "c\<lparr>uring := r, write_handle := True, send_frame := S_write\<rparr>"
  have w: "to_write_bytes (OutputBuffer j) = 0" by (simp add: OutputBuffer_def new_block_def)
  then have run: "send_fn S_loop (c\<lparr>uring := r\<rparr>) = Some (Inr ?c1)"
    using s by (simp add: send_fn.simps c Connection_def conn_closed_def WaitWrite_ready_def
        conn_write_bytes_def ob_bytes_def WaitWrite_suspend_def)
  then show "\<exists>c1. send_fn S_loop (c\<lparr>uring := r\<rparr>) = Some (Inr c1) \<and> uring c1 = r" by simp
  assume "send_fn S_loop (c\<lparr>uring := r\<rparr>) = Some (Inr c1)" and r': "sq_entries r' = sq_entries r"
  with run have c1: "c1 = ?c1" by simp
  have "ib_pos (InputBuffer j) = 0"
    by (simp add: ib_pos_def InputBuffer_def new_block_def load_def upd_def)
  then show "ring_serving (RegisterRead_suspend (c1\<lparr>uring := r'\<rparr>)) \<and> wire (kern c1) = [] \<and> ob_pending (write_buf c1) = [] \<and>
      ib_pos (read_buf c1) = 0 \<and> ib_unread (read_buf c1) = [] \<and> back_left c1 = 0 \<and> this_ptr c1 = p \<and> \<not> is_dummy c1"
    using s r' assms(2) w InputBuffer_inv [of j] OutputBuffer_inv [of j] InputBuffer_unread [of j] OutputBuffer_pending [of j]
    by (simp add: c1 c ring_serving_def serving_def conn_inv_def ring_ok_def RegisterRead_suspend_def add_event_def Connection_def
        conn_closed_def drained_def ob_bytes_def)
qed

end
