(* ===== verification/RingServer.thy ===== *)
theory RingServer
  imports Uring RingSession
begin

section \<open>The server on a ring executor\<close>

text \<open>
  The server's default policy is \<open>URING_POLICY\<close>: one thread serves all its connections from the
  completions of one ring. This theory puts the parts together as a state machine: the loop of
  \<open>RpcServer::start\<close> accepts connections and spawns their coroutines, the thread runs tasks,
  submits what was queued and handles completions, and the kernel completes submitted entries in
  any order, with as many bytes of a read as it likes, whenever it likes.
\<close>

subsection \<open>The system\<close>

text \<open>The tasks of a connection on a ring executor, which lends the connection its ring.\<close>

fun uring_run_task :: "'m rpc_server \<Rightarrow> (server_task, ('m recv_pc, server_task) uring_executor) task_runner" where
  "uring_run_task srv (RunSend p) ex = (case sessions ex p of None \<Rightarrow> Some (Inl UseAfterFree)
     | Some s \<Rightarrow> ro_bind (send_fn S_loop (with_ring ex s)) (\<lambda>c'. Some (Inr (uring_commit p c' (s_frame s) ex))))"
| "uring_run_task srv (RunRecv p) ex = (case sessions ex p of None \<Rightarrow> Some (Inl UseAfterFree)
     | Some s \<Rightarrow> ro_bind (recv_fn srv (with_ring ex s)) (\<lambda>(fr, c'). Some (Inr (uring_commit p c' fr ex))))"

text \<open>One turn of the loop of \<open>RpcServer::start\<close> with this policy.\<close>

definition uring_accept :: "(int \<Rightarrow> 64 word \<Rightarrow> connection) \<Rightarrow> int \<Rightarrow> 64 word \<Rightarrow>
    ('pc, server_task) uring_executor \<Rightarrow> ('pc, server_task) uring_executor res" where
  "uring_accept mk connfd p ex = (if connfd = -1 then Inr ex
     else res_bind (uring_spawn (RunSend p) (ex\<lparr>sessions := (sessions ex)(p \<mapsto> \<lparr>s_conn = mk connfd p, s_frame = None\<rparr>)\<rparr>)) (\<lambda>(_, ex1).
       res_bind (uring_spawn (RunRecv p) ex1) (\<lambda>(_, ex2). Inr ex2)))"

text \<open>
  The state: the executor, where its thread is (at the head of its loop, waiting for a
  completion, or looking at the completions), the completions it has not looked at yet, the bytes
  each peer has sent that no read has taken yet, and the connections still to be accepted.
\<close>

datatype thread_pc = T_head | T_wait | T_peek

record 'm ring_system =
  rs_ex :: "('m recv_pc, server_task) uring_executor"
  rs_thread :: thread_pc
  rs_cq :: "cqe list"
  rs_peer :: "64 word \<Rightarrow> byte list"
  rs_backlog :: "(int \<times> 64 word) list"

definition completed :: "sqe list \<Rightarrow> ('m recv_pc, server_task) uring_executor \<Rightarrow> ('m recv_pc, server_task) uring_executor" where
  "completed rest ex = ex\<lparr>u_ring := (u_ring ex)\<lparr>submitted := rest\<rparr>\<rparr>"

definition iov_bytes :: "iovec list \<Rightarrow> nat" where
  "iov_bytes iovs = sum_list (map (\<lambda>v. unat (snd v)) iovs)"

text \<open>
  The kernel completes a read with a part of what the peer sent, or with the end of the stream
  once the peer has sent everything and closed; a peer may close when it has received the bytes
  \<open>bs\<close> with \<open>closes p bs\<close>. It completes a write with all its bytes and
  a write to the event descriptor with its eight bytes. The thread runs its tasks, submits the
  queued entries, sets the flag and waits; once there is a completion it handles completions
  until there are none, and goes back to the head of its loop. The main thread accepts a
  connection, at any time between these steps.
\<close>

definition wire_of :: "'m ring_system \<Rightarrow> 64 word \<Rightarrow> byte list" where
  "wire_of w p = (case sessions (rs_ex w) p of None \<Rightarrow> [] | Some s \<Rightarrow> wire (kern (s_conn s)))"

definition eof_cqe :: "64 word \<Rightarrow> cqe" where
  "eof_cqe p = \<lparr>cqe_user_data = user_data EV_READ p, cqe_res = 0\<rparr>"

inductive ring_step :: "'m rpc_server \<Rightarrow> (int \<Rightarrow> 64 word \<Rightarrow> connection) \<Rightarrow> (64 word \<Rightarrow> byte list \<Rightarrow> bool) \<Rightarrow>
    'm ring_system \<Rightarrow> 'm ring_system \<Rightarrow> bool"
  for srv mk closes where
  kernel_read: "submitted (u_ring (rs_ex w)) = xs @ SqeRead fd d room (user_data EV_READ p) # ys \<Longrightarrow> p < 2 ^ 56 \<Longrightarrow>
    rs_peer w p = bs @ rest \<Longrightarrow> bs \<noteq> [] \<Longrightarrow> int (length bs) \<le> room \<Longrightarrow> kernel_stores p d bs (rs_ex w) = Inr ex1 \<Longrightarrow>
    ring_step srv mk closes w (w\<lparr>rs_ex := completed (xs @ ys) ex1, rs_peer := (rs_peer w)(p := rest),
      rs_cq := rs_cq w @ [\<lparr>cqe_user_data = user_data EV_READ p, cqe_res = int (length bs)\<rparr>]\<rparr>)"
| kernel_eof: "submitted (u_ring (rs_ex w)) = xs @ SqeRead fd d room (user_data EV_READ p) # ys \<Longrightarrow> p < 2 ^ 56 \<Longrightarrow>
    rs_peer w p = [] \<Longrightarrow> closes p (wire_of w p) \<Longrightarrow>
    ring_step srv mk closes w (w\<lparr>rs_ex := completed (xs @ ys) (rs_ex w), rs_cq := rs_cq w @ [eof_cqe p]\<rparr>)"
| kernel_write: "submitted (u_ring (rs_ex w)) = xs @ SqeWritev fd iovs (user_data EV_WRITE p) # ys \<Longrightarrow> p < 2 ^ 56 \<Longrightarrow>
    kernel_sends p iovs (iov_bytes iovs) (rs_ex w) = Inr ex1 \<Longrightarrow>
    ring_step srv mk closes w (w\<lparr>rs_ex := completed (xs @ ys) ex1,
      rs_cq := rs_cq w @ [\<lparr>cqe_user_data = user_data EV_WRITE p, cqe_res = int (iov_bytes iovs)\<rparr>]\<rparr>)"
| kernel_notify: "submitted (u_ring (rs_ex w)) = xs @ SqeWrite fd v ud # ys \<Longrightarrow>
    ring_step srv mk closes w (w\<lparr>rs_ex := completed (xs @ ys) (rs_ex w), rs_cq := rs_cq w @ [\<lparr>cqe_user_data = ud, cqe_res = 8\<rparr>]\<rparr>)"
| thread_turn: "rs_thread w = T_head \<Longrightarrow> \<not> stop_flag (rs_ex w) \<Longrightarrow> drain (uring_run_task srv) (rs_ex w) = Some (Inr ex1) \<Longrightarrow>
    ring_step srv mk closes w (w\<lparr>rs_ex := ex1\<lparr>u_ring := io_uring_submit (u_ring ex1), should_notify := True\<rparr>, rs_thread := T_wait\<rparr>)"
| thread_cqe: "rs_thread w \<noteq> T_head \<Longrightarrow> rs_cq w = q # qs \<Longrightarrow> uring_handle (resume_read srv) q (rs_ex w) = Some (Inr ex1) \<Longrightarrow>
    ring_step srv mk closes w (w\<lparr>rs_ex := ex1, rs_cq := qs, rs_thread := T_peek\<rparr>)"
| thread_done: "rs_thread w = T_peek \<Longrightarrow> rs_cq w = [] \<Longrightarrow> ring_step srv mk closes w (w\<lparr>rs_thread := T_head\<rparr>)"
| main_accept: "rs_backlog w = (fd, p) # as \<Longrightarrow> uring_accept mk fd p (rs_ex w) = Inr ex1 \<Longrightarrow>
    ring_step srv mk closes w (w\<lparr>rs_ex := ex1, rs_backlog := as\<rparr>)"

subsection \<open>The state of one connection\<close>

text \<open>
  \<open>stored\<close> are bytes the kernel has stored and not been asked about yet, \<open>sent\<close> those that have
  left the queue. Each connection has one read under way all the time, and a write exactly if
  bytes are in flight; \<open>ops\<close> are its queued or submitted entries and its completions.
\<close>

definition read_state :: "64 word \<Rightarrow> connection \<Rightarrow> byte list \<Rightarrow> sqe list \<times> cqe list \<Rightarrow> bool" where
  "read_state p c stored ops \<longleftrightarrow>
     (\<exists>d room. get_buffer (read_buf c) = Inr (d, room) \<and> stored = [] \<and>
        ops = ([SqeRead (sockfd (sock c)) d room (user_data EV_READ p)], [])) \<or>
     (\<exists>ib d room. ib_inv ib \<and> get_buffer ib = Inr (d, room) \<and> ib_unread (read_buf c) = ib_unread ib \<and>
        ib_pos (read_buf c) = ib_pos ib \<and> stored \<noteq> [] \<and> int (length stored) \<le> room \<and> poke ib d stored = Inr (read_buf c) \<and>
        ops = ([], [\<lparr>cqe_user_data = user_data EV_READ p, cqe_res = int (length stored)\<rparr>])) \<or>
     stored = [] \<and> ops = ([], [eof_cqe p])"

definition write_state :: "64 word \<Rightarrow> connection \<Rightarrow> byte list \<Rightarrow> sqe list \<times> cqe list \<Rightarrow> bool" where
  "write_state p c sent ops \<longleftrightarrow>
     back_left c = 0 \<and> wire (kern c) = sent \<and> ops = ([], []) \<or>
     back_left c \<noteq> 0 \<and> wire (kern c) = sent \<and> ops = ([SqeWritev (sockfd (sock c)) (ioves c) (user_data EV_WRITE p)], []) \<or>
     back_left c \<noteq> 0 \<and> wire (kern c) = sent @ take (unat (back_left c)) (ob_pending (write_buf c)) \<and>
       ops = ([], [\<lparr>cqe_user_data = user_data EV_WRITE p, cqe_res = int (unat (back_left c))\<rparr>])"

text \<open>
  The end of the stream is reported only to a connection that has been answered. A connection
  whose session has ended has no operation left but perhaps its last write.
\<close>

definition live_state :: "'m rpc_server \<Rightarrow> byte list \<Rightarrow> 64 word \<Rightarrow> 'm recv_pc session option \<Rightarrow> byte list \<Rightarrow>
    sqe list \<times> cqe list \<Rightarrow> sqe list \<times> cqe list \<Rightarrow> bool" where
  "live_state srv str p s peer reads writes \<longleftrightarrow> (\<exists>c pc fed stored sent.
     s = Some \<lparr>s_conn = c, s_frame = Some pc\<rparr> \<and> this_ptr c = p \<and> \<not> is_dummy c \<and> ring_serving c \<and>
     str = fed @ stored @ peer \<and>
     server_spec srv R_header_len 0 fed = (sent @ ob_pending (write_buf c), Waiting pc (ib_pos (read_buf c)) (ib_unread (read_buf c))) \<and>
     read_state p c stored reads \<and> write_state p c sent writes \<and>
     (reads = ([], [eof_cqe p]) \<longrightarrow> peer = [] \<and> wire (kern c) = sent @ ob_pending (write_buf c) \<and> pc = R_header_len \<and> ib_unread (read_buf c) = []))"

definition ended_state :: "'m rpc_server \<Rightarrow> byte list \<Rightarrow> 64 word \<Rightarrow> 'm recv_pc session option \<Rightarrow> byte list \<Rightarrow>
    sqe list \<times> cqe list \<Rightarrow> sqe list \<times> cqe list \<Rightarrow> bool" where
  "ended_state srv str p s peer reads writes \<longleftrightarrow> (\<exists>c.
     s = Some \<lparr>s_conn = c, s_frame = None\<rparr> \<and> \<not> is_dummy c \<and> conn_closed c \<and> peer = [] \<and> reads = ([], []) \<and>
     fst (server_spec srv R_header_len 0 str) = wire (kern c) \<and>
     (writes = ([], []) \<and> send_frame c = S_done \<or>
      writes = ([], [\<lparr>cqe_user_data = user_data EV_WRITE p, cqe_res = int (unat (back_left c))\<rparr>]) \<and> back_left c \<noteq> 0 \<and>
        unat (back_left c) \<le> length (ob_pending (write_buf c)) \<and> ob_inv (write_buf c) \<and> write_handle c \<and> send_frame c = S_loop))"

definition conn_state :: "'m rpc_server \<Rightarrow> byte list \<Rightarrow> 64 word \<Rightarrow> 'm recv_pc session option \<Rightarrow> byte list \<Rightarrow>
    sqe list \<times> cqe list \<Rightarrow> sqe list \<times> cqe list \<Rightarrow> bool" where
  "conn_state srv str p s peer reads writes \<longleftrightarrow> live_state srv str p s peer reads writes \<or> ended_state srv str p s peer reads writes"

lemmas conn_state_defs = conn_state_def live_state_def ended_state_def

text \<open>What a connection of the system must be like: its stream can be served to its end.\<close>

definition servable :: "'m rpc_server \<Rightarrow> byte list \<Rightarrow> byte list \<Rightarrow> bool" where
  "servable srv str out \<longleftrightarrow> (\<exists>pc pos rest. server_spec srv R_header_len 0 str = (out, Waiting pc pos rest)) \<and>
     length str < 2 ^ 31 - 1 \<and> length out < 1023 * 8192"

lemma servable_piece:
  assumes "servable srv (fed @ stored @ peer) out"
    and "server_spec srv R_header_len 0 fed = (out0, Waiting pc pos rest)"
  obtains out1 out2 pc' pos' rest' where "server_spec srv pc pos (rest @ stored) = (out1, Waiting pc' pos' rest')"
    and "server_spec srv R_header_len 0 (fed @ stored) = (out0 @ out1, Waiting pc' pos' rest')"
    and "out = out0 @ out1 @ out2" and "length rest + length stored < 2 ^ 31 - 1" and "length out < 1023 * 8192"
    and "length rest' < 2 ^ 31 - 1"
proof -
  from assms(1) obtain pcz posz restz where "server_spec srv R_header_len 0 ((fed @ stored) @ peer) = (out, Waiting pcz posz restz)"
    and len: "length (fed @ stored @ peer) < 2 ^ 31 - 1" "length out < 1023 * 8192" by (auto simp: servable_def)
  then obtain outa outb pc' pos' rest' where a: "server_spec srv R_header_len 0 (fed @ stored) = (outa, Waiting pc' pos' rest')"
    and "out = outa @ outb" by (metis server_spec_prefix)
  moreover from a server_spec_append [OF assms(2), of stored] obtain out1 where
    "server_spec srv pc pos (rest @ stored) = (out1, Waiting pc' pos' rest')" "outa = out0 @ out1"
    by (cases "server_spec srv pc pos (rest @ stored)") auto
  ultimately show thesis
    using that len server_spec_rest [OF assms(2)] server_spec_rest [OF a] by (auto simp: a)
qed

lemma ring_serving_input:
  assumes "ring_serving c" and "ib_inv ib" and "length (ib_unread ib) < 2 ^ 31 - 1"
  shows "ring_serving (c\<lparr>read_buf := ib\<rparr>)"
  using assms ring_serving_facts(7) [OF assms(1)]
  by (auto simp: ring_serving_def serving_def conn_inv_def conn_closed_def drained_def)

lemma ring_serving_ring: "ring_serving c \<Longrightarrow> 0 < sq_entries r \<Longrightarrow> ring_serving (c\<lparr>uring := r\<rparr>)"
  by (auto simp: ring_serving_def serving_def conn_inv_def ring_ok_def conn_closed_def drained_def)

lemma ring_serving_wire [simp]:
  "ring_serving (c\<lparr>sock := (sock c)\<lparr>os := (kern c)\<lparr>wire := bs\<rparr>\<rparr>\<rparr>) = ring_serving c"
  by (simp add: ring_serving_def serving_def conn_inv_def ring_ok_def conn_closed_def drained_def)

lemma gather_length: "gather h iovs = Inr bs \<Longrightarrow> length bs = iov_bytes iovs"
  by (induction iovs arbitrary: bs)
    (auto simp: iov_bytes_def res_bind_eq_Inr block_get_def split: if_splits)

subsection \<open>What the kernel does to a connection\<close>

lemma conn_state_stores:
  assumes cs: "conn_state srv str p (sessions ex p) (bs @ rest) ([SqeRead fd d room ud], []) ws"
    and sv: "servable srv str out" and bs: "bs \<noteq> []" "int (length bs) \<le> room"
  shows "\<exists>s. kernel_stores p d bs ex = Inr (ex\<lparr>sessions := (sessions ex)(p \<mapsto> s)\<rparr>) \<and>
    conn_state srv str p (Some s) rest ([], [\<lparr>cqe_user_data = user_data EV_READ p, cqe_res = int (length bs)\<rparr>]) ws \<and>
    (\<exists>s0. sessions ex p = Some s0 \<and> wire (kern (s_conn s)) = wire (kern (s_conn s0)))"
proof -
  from cs obtain c pc fed sent where c: "sessions ex p = Some \<lparr>s_conn = c, s_frame = Some pc\<rparr>" "this_ptr c = p" "\<not> is_dummy c" "ring_serving c"
    and str: "str = fed @ bs @ rest"
    and spec: "server_spec srv R_header_len 0 fed = (sent @ ob_pending (write_buf c), Waiting pc (ib_pos (read_buf c)) (ib_unread (read_buf c)))"
    and gb: "get_buffer (read_buf c) = Inr (d, room)" and wr: "write_state p c sent ws"
    by (auto simp: conn_state_defs read_state_def eof_cqe_def)
  have inv: "ib_inv (read_buf c)" using ring_serving_facts(2) [OF c(4)] by (simp add: conn_inv_def)
  have "length (ib_unread (read_buf c)) + length bs < 2 ^ 31 - 1"
    by (rule servable_piece [OF sv [unfolded str] spec])
  then have "length (ib_unread (read_buf c)) + length bs < 2 ^ 64" by simp
  then obtain ib1 where pk: "poke (read_buf c) d bs = Inr ib1" using receive_ok [OF inv gb bs(2)] by metis
  note keep = poke_keeps [OF inv gb pk]
  have "length (ib_unread (read_buf c)) < 2 ^ 31 - 1" using c(4) by (simp add: ring_serving_def serving_def)
  then have "ring_serving (c\<lparr>read_buf := ib1\<rparr>)" using keep by (intro ring_serving_input [OF c(4)]) simp_all
  moreover have "read_state p (c\<lparr>read_buf := ib1\<rparr>) bs ([], [\<lparr>cqe_user_data = user_data EV_READ p, cqe_res = int (length bs)\<rparr>])"
    unfolding read_state_def using inv gb keep bs pk by (intro disjI2 [OF disjI1] exI [of _ "read_buf c"]) auto
  moreover have "write_state p (c\<lparr>read_buf := ib1\<rparr>) sent ws" using wr by (simp add: write_state_def)
  ultimately have "conn_state srv str p (Some \<lparr>s_conn = c\<lparr>read_buf := ib1\<rparr>, s_frame = Some pc\<rparr>) rest
      ([], [\<lparr>cqe_user_data = user_data EV_READ p, cqe_res = int (length bs)\<rparr>]) ws"
    unfolding conn_state_def live_state_def using c(2,3) str spec keep
    by (intro disjI1 exI [of _ "c\<lparr>read_buf := ib1\<rparr>"] exI [of _ pc] exI [of _ fed] exI [of _ bs] exI [of _ sent]) (use bs in \<open>simp add: eof_cqe_def\<close>)
  with c(1) pk show ?thesis by (auto simp: kernel_stores_def on_session_def)
qed

lemma conn_state_sends:
  assumes cs: "conn_state srv str p (sessions ex p) peer rs ([SqeWritev fd iovs ud], [])"
  shows "\<exists>s s0. kernel_sends p iovs (iov_bytes iovs) ex = Inr (ex\<lparr>sessions := (sessions ex)(p \<mapsto> s)\<rparr>) \<and>
    conn_state srv str p (Some s) peer rs ([], [\<lparr>cqe_user_data = user_data EV_WRITE p, cqe_res = int (iov_bytes iovs)\<rparr>]) \<and>
    sessions ex p = Some s0 \<and> length (wire (kern (s_conn s0))) < length (wire (kern (s_conn s)))"
proof -
  from cs obtain c pc fed stored sent where c: "sessions ex p = Some \<lparr>s_conn = c, s_frame = Some pc\<rparr>" "this_ptr c = p" "\<not> is_dummy c" "ring_serving c"
    and str: "str = fed @ stored @ peer"
    and spec: "server_spec srv R_header_len 0 fed = (sent @ ob_pending (write_buf c), Waiting pc (ib_pos (read_buf c)) (ib_unread (read_buf c)))"
    and rd: "read_state p c stored rs" and wr: "back_left c \<noteq> 0" "wire (kern c) = sent" "iovs = ioves c"
    and eof: "rs = ([], [eof_cqe p]) \<longrightarrow> ob_pending (write_buf c) = []"
    by (auto simp: conn_state_defs write_state_def)
  let ?q = "take (unat (back_left c)) (ob_pending (write_buf c))"
  have g: "gather (out_heap (write_buf c)) iovs = Inr ?q" and le: "unat (back_left c) \<le> length (ob_pending (write_buf c))"
    using ring_serving_facts(3) [OF c(4)] wr by (simp_all add: ring_ok_def)
  have n: "iov_bytes iovs = unat (back_left c)" using gather_length [OF g] le by simp
  have pos: "0 < unat (back_left c)" using wr(1) by (simp add: unat_gt_0)
  then have ne: "rs \<noteq> ([], [eof_cqe p])" using eof le by auto
  let ?c = "c\<lparr>sock := (sock c)\<lparr>os := (kern c)\<lparr>wire := wire (kern c) @ ?q\<rparr>\<rparr>\<rparr>"
  have "read_state p ?c stored rs" using rd by (simp add: read_state_def)
  moreover have "write_state p ?c sent ([], [\<lparr>cqe_user_data = user_data EV_WRITE p, cqe_res = int (iov_bytes iovs)\<rparr>])"
    using wr n by (simp add: write_state_def)
  ultimately have "conn_state srv str p (Some \<lparr>s_conn = ?c, s_frame = Some pc\<rparr>) peer rs
      ([], [\<lparr>cqe_user_data = user_data EV_WRITE p, cqe_res = int (iov_bytes iovs)\<rparr>])"
    unfolding conn_state_def live_state_def using c(2-4) str spec ne
    by (intro disjI1 exI [of _ ?c] exI [of _ pc] exI [of _ fed] exI [of _ stored] exI [of _ sent]) simp
  moreover have "kernel_sends p iovs (iov_bytes iovs) ex = Inr (ex\<lparr>sessions := (sessions ex)(p \<mapsto> \<lparr>s_conn = ?c, s_frame = Some pc\<rparr>)\<rparr>)"
    using c(1) g n by (simp add: kernel_sends_def on_session_def)
  moreover have "?q \<noteq> []" using pos le by auto
  ultimately show ?thesis using c(1)
    by (intro exI [of _ "\<lparr>s_conn = ?c, s_frame = Some pc\<rparr>"] exI [of _ "\<lparr>s_conn = c, s_frame = Some pc\<rparr>"]) simp
qed


subsection \<open>What the thread does to a connection\<close>

fun sqe_tag :: "sqe \<Rightarrow> 64 word" where
  "sqe_tag (SqeRead fd d room ud) = ud"
| "sqe_tag (SqeWritev fd iovs ud) = ud"
| "sqe_tag (SqeWrite fd v ud) = ud"

abbreviation tagged :: "64 word \<Rightarrow> sqe list \<Rightarrow> sqe list" where
  "tagged ud es \<equiv> filter (\<lambda>e. sqe_tag e = ud) es"

lemma user_data_inject:
  assumes "p < 2 ^ 56" and "q < 2 ^ 56"
  shows "user_data t p = user_data u q \<longleftrightarrow> t = u \<and> p = q"
proof
  assume eq: "user_data t p = user_data u q"
  then have "p = q" using user_data_parts [OF assms(1), of t] user_data_parts [OF assms(2), of u] by metis
  moreover have "event_code t = event_code u" using user_data_parts [OF assms(1), of t] user_data_parts [OF assms(2), of u] eq by metis
  then have "t = u" by (cases t; cases u) simp_all
  ultimately show "t = u \<and> p = q" by simp
qed simp

text \<open>The writes of a connection after its coroutines ran: what it had, and perhaps a new one.\<close>

lemma write_state_wrote:
  assumes ws: "write_state p c sent (ew, qw)" and rw: "ring_wrote c c'" and ev: "evolves_to c c'" and p: "this_ptr c = p"
    and pend: "ob_pending (write_buf c') = ob_pending (write_buf c) @ out" and le: "unat (back_left c) \<le> length (ob_pending (write_buf c))"
  obtains new where "entries (uring c') = entries (uring c) @ new" and "\<forall>e \<in> set new. sqe_tag e = user_data EV_WRITE p"
    and "length new \<le> 1" and "write_state p c' sent (ew @ new, qw)"
proof -
  have fd: "sockfd (sock c') = sockfd (sock c)" using ev by (simp add: evolves_to_def)
  from rw consider (same) "entries (uring c') = entries (uring c)" "back_left c' = back_left c" "ioves c' = ioves c" "wire (kern c') = wire (kern c)"
    | (new) "back_left c = 0" "back_left c' \<noteq> 0" "wire (kern c') = wire (kern c)"
        "entries (uring c') = entries (uring c) @ [SqeWritev (sockfd (sock c)) (ioves c') (user_data EV_WRITE p)]"
    using p by (auto simp: ring_wrote_def)
  then show thesis
  proof cases
    case same
    then have "write_state p c' sent (ew @ [], qw)" using ws fd pend le by (auto simp: write_state_def)
    with same(1) show thesis by (intro that [of "[]"]) simp_all
  next
    case new
    then have "write_state p c' sent (ew @ [SqeWritev (sockfd (sock c)) (ioves c') (user_data EV_WRITE p)], qw)"
      using ws fd by (auto simp: write_state_def)
    with new(4) show thesis by (intro that [of "[SqeWritev (sockfd (sock c)) (ioves c') (user_data EV_WRITE p)]"]) simp_all
  qed
qed

text \<open>
  A run of the reading coroutine from a connection whose buffer has the input \<open>fed\<close>: the
  connection is served on, with a new read under way.
\<close>

lemma conn_state_reads:
  assumes c: "this_ptr c = p" "\<not> is_dummy c" "ring_serving c" "p < 2 ^ 56"
    and str: "str = fed @ stored @ peer" and sv: "servable srv str out"
    and spec: "server_spec srv R_header_len 0 fed = (sent @ ob_pending (write_buf c), Waiting pc pos rest)"
    and buf: "ib_pos (read_buf c) = pos" "ib_unread (read_buf c) = rest @ stored" and wr: "write_state p c sent (ew, qw)"
  obtains c' pc' new where "recv_run srv pc c = Some (Inr (Some pc', c'))" and "wire (kern c') = wire (kern c)"
    and "entries (uring c') = entries (uring c) @ new" and "sq_entries (uring c') = sq_entries (uring c)" and "length new \<le> 2"
    and "\<forall>e \<in> set new. sqe_tag e \<in> {user_data EV_READ p, user_data EV_WRITE p}" and "\<forall>e \<in> set new. \<forall>fd v ud. e \<noteq> SqeWrite fd v ud"
    and "conn_state srv str p (Some \<lparr>s_conn = c', s_frame = Some pc'\<rparr>) peer
      (tagged (user_data EV_READ p) new, []) (ew @ tagged (user_data EV_WRITE p) new, qw)"
proof -
  obtain out1 out2 pc' pos' rest' where nxt: "server_spec srv pc pos (rest @ stored) = (out1, Waiting pc' pos' rest')"
    and spec': "server_spec srv R_header_len 0 (fed @ stored) = ((sent @ ob_pending (write_buf c)) @ out1, Waiting pc' pos' rest')"
    and out: "out = (sent @ ob_pending (write_buf c)) @ out1 @ out2" "length out < 1023 * 8192"
    by (rule servable_piece [OF sv [unfolded str] spec])
  have "length (ob_pending (write_buf c)) + length out1 < 1023 * 8192" using out by simp
  from ring_read_continues [OF c(3) _ this, of srv pc] nxt buf obtain c1 c' where
    run: "recv_run srv pc c = Some (Inr (Some pc', c'))" and c': "ring_serving c'" "wire (kern c') = wire (kern c)"
      "ob_pending (write_buf c') = ob_pending (write_buf c) @ out1" "ib_pos (read_buf c') = pos'" "ib_unread (read_buf c') = rest'"
    and c1: "evolves_to c c1" "ring_wrote c c1" "uring_async_read c1 = Inr (True, c')" by auto
  from c1(3) obtain d room r where r: "get_buffer (read_buf c1) = Inr (d, room)" "c' = c1\<lparr>uring := r\<rparr>"
    "queue_sqe (uring c1) (SqeRead (sockfd (sock c1)) d room (user_data EV_READ (this_ptr c1))) = Inr r"
    by (auto simp: uring_async_read_def res_bind_eq_Inr)
  have id: "this_ptr c1 = p" "is_dummy c1 = is_dummy c" using c1(1) c(1) by (simp_all add: evolves_to_def)
  have le: "unat (back_left c) \<le> length (ob_pending (write_buf c))" using ring_serving_facts(3) [OF c(3)] by (simp add: ring_ok_def)
  have pend1: "ob_pending (write_buf c1) = ob_pending (write_buf c) @ out1" using c'(3) r(2) by simp
  from write_state_wrote [OF wr c1(2,1) c(1) pend1 le] obtain ws where
    ws: "entries (uring c1) = entries (uring c) @ ws" "\<forall>e \<in> set ws. sqe_tag e = user_data EV_WRITE p" "length ws \<le> 1"
      "write_state p c1 sent (ew @ ws, qw)" .
  let ?rd = "SqeRead (sockfd (sock c1)) d room (user_data EV_READ p)"
  let ?new = "ws @ [?rd]"
  note inj = user_data_inject [OF c(4) c(4)]
  have tr: "tagged (user_data EV_READ p) ?new = [?rd]" "tagged (user_data EV_WRITE p) ?new = ws"
    using ws(2) inj by (auto simp: filter_empty_conv)
  have ent: "entries (uring c') = entries (uring c) @ ?new" "sq_entries (uring c') = sq_entries (uring c)"
    using queue_sqe_entries [OF r(3)] ws(1) c1(2) id by (simp_all add: r(2) ring_wrote_def)
  have "read_state p c' [] ([?rd], [])" using r by (auto simp: read_state_def)
  moreover have "write_state p c' sent (ew @ ws, qw)" using ws(4) r(2) by (simp add: write_state_def)
  ultimately have st: "conn_state srv str p (Some \<lparr>s_conn = c', s_frame = Some pc'\<rparr>) peer
      (tagged (user_data EV_READ p) ?new, []) (ew @ tagged (user_data EV_WRITE p) ?new, qw)"
    unfolding conn_state_def live_state_def tr using c' c(2) id r(2) spec' str
    by (intro disjI1 exI [of _ c'] exI [of _ pc'] exI [of _ "fed @ stored"] exI [of _ "[]"] exI [of _ sent]) simp
  have nw: "\<forall>e \<in> set ws. \<forall>fd v ud. e \<noteq> SqeWrite fd v ud"
    using ws(4) wr by (auto simp: write_state_def Cons_eq_append_conv)
  show thesis
    by (rule that [OF run c'(2) ent _ _ _ st]) (use ws(2,3) nw in auto)
qed


text \<open>The change of the executor: one session, and new entries on the ring.\<close>

definition served_on :: "'m rpc_server \<Rightarrow> byte list \<Rightarrow> 64 word \<Rightarrow> byte list \<Rightarrow> ('m recv_pc, server_task) uring_executor \<Rightarrow>
    sqe list \<times> cqe list \<Rightarrow> sqe list \<times> cqe list \<Rightarrow> sqe list \<Rightarrow> ('m recv_pc, server_task) uring_executor \<Rightarrow> bool" where
  "served_on srv str p peer ex reads writes new ex' \<longleftrightarrow> (\<exists>c' fr'. ex' = uring_commit p c' fr' ex \<and>
     (\<exists>s. sessions ex p = Some s \<and> wire (kern c') = wire (kern (s_conn s))) \<and>
     entries (u_ring ex') = entries (u_ring ex) @ new \<and> sq_entries (u_ring ex') = sq_entries (u_ring ex) \<and>
     length new \<le> 2 \<and> (\<forall>e \<in> set new. sqe_tag e \<in> {user_data EV_READ p, user_data EV_WRITE p} \<and> (\<forall>fd v ud. e \<noteq> SqeWrite fd v ud)) \<and>
     conn_state srv str p (sessions ex' p) peer (fst reads @ tagged (user_data EV_READ p) new, snd reads)
       (fst writes @ tagged (user_data EV_WRITE p) new, snd writes))"

lemma resume_read_serving: "ring_serving c \<Longrightarrow> resume_read srv (Some pc) c = recv_run srv pc c"
  by (auto simp: resume_read_def resume_coroutine_def recv_run_def dest!: ring_serving_facts(2) conn_inv_facts(7))

lemma thread_data:
  assumes cs: "live_state srv str p (sessions ex p) peer ([], [q]) ws" and sv: "servable srv str out"
    and p: "p \<noteq> 0" "p < 2 ^ 56" and r: "0 < sq_entries (u_ring ex)" and data: "q \<noteq> eof_cqe p"
  shows "\<exists>ex' new. uring_handle (resume_read srv) q ex = Some (Inr ex') \<and> served_on srv str p peer ex ([], []) ws new ex' \<and> cqe_res q \<noteq> 0"
proof -
  from cs obtain c pc fed stored sent where c: "sessions ex p = Some \<lparr>s_conn = c, s_frame = Some pc\<rparr>" "this_ptr c = p" "\<not> is_dummy c" "ring_serving c"
    and str: "str = fed @ stored @ peer"
    and spec: "server_spec srv R_header_len 0 fed = (sent @ ob_pending (write_buf c), Waiting pc (ib_pos (read_buf c)) (ib_unread (read_buf c)))"
    and rd: "read_state p c stored ([], [q])" and wr: "write_state p c sent ws"
    by (auto simp: live_state_def)
  from rd obtain ib d room where ib: "ib_inv ib" "get_buffer ib = Inr (d, room)" "ib_unread (read_buf c) = ib_unread ib"
    "ib_pos (read_buf c) = ib_pos ib" "stored \<noteq> []" "int (length stored) \<le> room" "poke ib d stored = Inr (read_buf c)"
    and q: "q = \<lparr>cqe_user_data = user_data EV_READ p, cqe_res = int (length stored)\<rparr>" using data by (auto simp: read_state_def)
  have len: "length (ib_unread ib) + length stored < 2 ^ 31 - 1"
    using servable_piece [OF sv [unfolded str] spec] ib(3) by metis
  then have "length (ib_unread ib) + length stored < 2 ^ 64" by simp
  from receive_ok [OF ib(1,2,6) this] ib(7) obtain ib2 where ib2: "recv_add (read_buf c) (int (length stored)) = Inr ib2" "ib_inv ib2"
    "ib_unread ib2 = ib_unread ib @ stored" "ib_fill ib2 = (ib_fill ib + int (length stored)) mod kBlockSize"
    by (metis Inr_inject)
  have pos: "ib_pos ib2 = ib_pos ib" using ib2 by (intro receive_pos [OF ib(1)]) simp_all
  let ?s = "\<lparr>s_conn = c, s_frame = Some pc\<rparr>"
  let ?c1 = "(c\<lparr>uring := u_ring ex\<rparr>)\<lparr>read_buf := ib2\<rparr>"
  have rs: "ring_serving ?c1"
    using ring_serving_ring [OF c(4) r] ib2 len by (intro ring_serving_input) simp_all
  obtain ew qw where w: "ws = (ew, qw)" by fastforce
  have wr1: "write_state p ?c1 sent (ew, qw)" using wr w by (simp add: write_state_def)
  obtain c' pc' new where run: "recv_run srv pc ?c1 = Some (Inr (Some pc', c'))" and f: "wire (kern c') = wire (kern ?c1)"
      "entries (uring c') = entries (uring ?c1) @ new" "sq_entries (uring c') = sq_entries (uring ?c1)" "length new \<le> 2"
      "\<forall>e \<in> set new. sqe_tag e \<in> {user_data EV_READ p, user_data EV_WRITE p}" "\<forall>e \<in> set new. \<forall>fd v ud. e \<noteq> SqeWrite fd v ud"
      "conn_state srv str p (Some \<lparr>s_conn = c', s_frame = Some pc'\<rparr>) peer
        (tagged (user_data EV_READ p) new, []) (ew @ tagged (user_data EV_WRITE p) new, qw)"
    by (rule conn_state_reads [OF _ _ rs p(2) str sv _ _ _ wr1, where pc = pc])
      (use c spec ib ib2 pos in simp_all)
  have "uring_read_done (int (length stored)) (with_ring ex ?s) = Some (Inr ?c1)"
    using ib(5) ib2(1) by (simp add: uring_read_done_def with_ring_def)
  then have "uring_handle (resume_read srv) q ex = Some (Inr (uring_commit p c' (Some pc') ex))"
    using handle_read [OF p c(1), of "resume_read srv" "int (length stored)"] c(3) run by (simp add: q resume_read_serving [OF rs])
  moreover have "served_on srv str p peer ex ([], []) ws new (uring_commit p c' (Some pc') ex)"
    unfolding served_on_def using c(1) f w
    by (intro exI [of _ c'] exI [of _ "Some pc'"]) (simp add: uring_commit_def)
  ultimately show ?thesis using q ib(5) by (intro exI [of _ "uring_commit p c' (Some pc') ex"] exI [of _ new]) simp
qed

text \<open>The end of the stream: the connection is closed, and both coroutines end, the writer perhaps later.\<close>

lemma writer_ends:
  assumes "ring_serving c" and "back_left c = 0"
  shows "\<exists>c'. resume_write (conn_close c) = Some (Inr c') \<and> c' = (conn_close c)\<lparr>send_frame := S_done\<rparr>"
proof -
  note f = conn_inv_facts [OF ring_serving_facts(2) [OF assms(1)]]
  let ?c = "conn_close c"
  have g: "conn_closed ?c" "write_handle ?c" "send_frame ?c = send_frame c" "kind ?c = UringConnection" "back_left ?c = 0" "ob_bytes (write_buf ?c) = 0"
    using f ring_serving_facts(4,5) [OF assms(1)] assms(2) by (simp_all add: conn_close_def conn_closed_def socket_close_def drained_def)
  then have same: "?c\<lparr>back_left := 0\<rparr> = ?c" by simp
  have "uring_async_write ?c = Inr (False, ?c)" using g by (simp add: uring_async_write_def same)
  then have "send_fn (send_frame c) ?c = Some (Inr (?c\<lparr>send_frame := S_done\<rparr>))"
    using f(8) g by (cases "send_frame c") (simp_all add: send_fn.simps [of S_loop] send_fn.simps [of S_write] async_write_def)
  with g show ?thesis by (simp add: resume_write_def)
qed

lemma reader_ends:
  assumes "conn_closed c" and "read_handle c" and "ib_inv (read_buf c)" and "ib_unread (read_buf c) = []"
  shows "resume_read srv (Some R_header_len) c = Some (Inr (None, c))"
proof -
  have "conn_read_bytes c = 0" using assms(3,4) by (simp add: conn_read_bytes_def ib_bytes_def ib_inv_def unat_eq_0)
  with assms(1,2) show ?thesis
    by (simp add: resume_read_def resume_coroutine_def run_coroutine.simps recv_step.simps recv_finish_def)
qed

lemma thread_eof:
  assumes cs: "live_state srv str p (sessions ex p) peer ([], [eof_cqe p]) ws" and p: "p \<noteq> 0" "p < 2 ^ 56" and r: "0 < sq_entries (u_ring ex)"
  shows "\<exists>ex'. uring_handle (resume_read srv) (eof_cqe p) ex = Some (Inr ex') \<and> served_on srv str p peer ex ([], []) ws [] ex'"
proof -
  from cs obtain c fed stored sent where c: "sessions ex p = Some \<lparr>s_conn = c, s_frame = Some R_header_len\<rparr>" "\<not> is_dummy c" "ring_serving c"
    and str: "str = fed @ stored @ peer" and peer: "peer = []"
    and spec: "fst (server_spec srv R_header_len 0 fed) = sent @ ob_pending (write_buf c)" and rd: "read_state p c stored ([], [eof_cqe p])"
    and wr: "write_state p c sent ws" and wire: "wire (kern c) = sent @ ob_pending (write_buf c)" and u: "ib_unread (read_buf c) = []"
    by (auto simp: live_state_def)
  have "stored = []" using rd by (auto simp: read_state_def eof_cqe_def)
  with str peer spec wire have out: "fst (server_spec srv R_header_len 0 str) = wire (kern c)" by simp
  let ?s = "\<lparr>s_conn = c, s_frame = Some R_header_len\<rparr>" and ?c = "conn_close (c\<lparr>uring := u_ring ex\<rparr>)"
  have rs: "ring_serving (c\<lparr>uring := u_ring ex\<rparr>)" using c(3) r by (rule ring_serving_ring)
  note f = conn_inv_facts [OF ring_serving_facts(2) [OF rs]]
  have le: "unat (back_left c) \<le> length (ob_pending (write_buf c))" "back_left c \<noteq> 0 \<longrightarrow> send_frame c = S_loop"
    using ring_serving_facts(3) [OF c(3)] by (simp_all add: ring_ok_def)
  have close: "conn_closed ?c" "read_handle ?c" "read_buf ?c = read_buf c" "write_buf ?c = write_buf c" "back_left ?c = back_left c"
    "wire (kern ?c) = wire (kern c)" "uring ?c = u_ring ex" "is_dummy ?c = is_dummy c" "write_handle ?c" "send_frame ?c = send_frame c"
    using f by (simp_all add: conn_close_def conn_closed_def socket_close_def)
  obtain c' where c': "uring_read_done 0 (with_ring ex ?s) = Some (Inr c')" "c' = ?c\<lparr>send_frame := send_frame c'\<rparr>"
    "back_left c \<noteq> 0 \<longrightarrow> send_frame c' = send_frame c" "back_left c = 0 \<longrightarrow> send_frame c' = S_done"
    using writer_ends [OF rs] close(5,10) by (cases "back_left c = 0") (auto simp: uring_read_done_def with_ring_def)
  have k: "conn_closed c'" "read_handle c'" "read_buf c' = read_buf c" "write_buf c' = write_buf c" "back_left c' = back_left c"
    "wire (kern c') = wire (kern c)" "uring c' = u_ring ex" "is_dummy c' = is_dummy c" "write_handle c'"
    by (subst c'(2), use close in \<open>simp add: conn_closed_def\<close>)+
  have "resume_read srv (Some R_header_len) c' = Some (Inr (None, c'))"
    by (rule reader_ends) (use k f u in simp_all)
  then have "uring_handle (resume_read srv) (eof_cqe p) ex = Some (Inr (uring_commit p c' None ex))"
    using handle_read [OF p c(1), of "resume_read srv" 0] c(2) c'(1) by (simp add: eof_cqe_def)
  moreover have "ws = ([], []) \<and> back_left c = 0 \<or> ws = ([], [\<lparr>cqe_user_data = user_data EV_WRITE p, cqe_res = int (unat (back_left c))\<rparr>]) \<and> back_left c \<noteq> 0"
    using wr wire le(1) by (auto simp: write_state_def unat_eq_0)
  then have "ended_state srv str p (Some \<lparr>s_conn = c', s_frame = None\<rparr>) peer ([], []) ws"
    unfolding ended_state_def using k c(2) peer out le c'(3,4) f(2) by (intro exI [of _ c']) auto
  then have "served_on srv str p peer ex ([], []) ws [] (uring_commit p c' None ex)"
    unfolding served_on_def conn_state_def using c(1) k(6,7)
    by (intro exI [of _ c'] exI [of _ None]) (simp add: uring_commit_def)
  ultimately show ?thesis by blast
qed

lemma thread_read:
  assumes cs: "conn_state srv str p (sessions ex p) peer ([], [q]) ws" and sv: "servable srv str out"
    and p: "p \<noteq> 0" "p < 2 ^ 56" and r: "0 < sq_entries (u_ring ex)"
  shows "\<exists>ex' new. uring_handle (resume_read srv) q ex = Some (Inr ex') \<and> served_on srv str p peer ex ([], []) ws new ex' \<and>
    (cqe_res q = 0 \<longrightarrow> new = [])"
proof -
  have l: "live_state srv str p (sessions ex p) peer ([], [q]) ws" using cs by (auto simp: conn_state_def ended_state_def)
  show ?thesis
  proof (cases "q = eof_cqe p")
    case True
    from thread_eof [OF l [unfolded True] p r] show ?thesis unfolding True by blast
  next
    case False
    from thread_data [OF l sv p r False] show ?thesis by blast
  qed
qed

lemma thread_late_write:
  assumes cs: "ended_state srv str p (sessions ex p) peer rs ([], [q])" and p: "p \<noteq> 0" "p < 2 ^ 56"
  shows "\<exists>ex' new. uring_handle (resume_read srv) q ex = Some (Inr ex') \<and> served_on srv str p peer ex rs ([], []) new ex' \<and> cqe_res q \<noteq> 0"
proof -
  from cs obtain c where c: "sessions ex p = Some \<lparr>s_conn = c, s_frame = None\<rparr>" "\<not> is_dummy c" "conn_closed c" "peer = []" "rs = ([], [])"
    "fst (server_spec srv R_header_len 0 str) = wire (kern c)"
    and q: "q = \<lparr>cqe_user_data = user_data EV_WRITE p, cqe_res = int (unat (back_left c))\<rparr>" "back_left c \<noteq> 0"
    and w: "unat (back_left c) \<le> length (ob_pending (write_buf c))" "ob_inv (write_buf c)" "write_handle c" "send_frame c = S_loop"
    by (auto simp: ended_state_def)
  let ?n = "unat (back_left c)" and ?s = "\<lparr>s_conn = c, s_frame = None :: 'a recv_pc option\<rparr>"
  have "int ?n \<le> int (length (ob_pending (write_buf c)))" using w(1) by (simp only: of_nat_le_iff)
  from send_add_ok [OF w(2) _ this] obtain ob where ob: "send_add (write_buf c) (int ?n) = Some (Inr ob)" by auto
  let ?c1 = "c\<lparr>uring := u_ring ex, back_left := 0, write_buf := ob\<rparr>"
  let ?c' = "?c1\<lparr>send_frame := S_done\<rparr>"
  have "uring_send_add (with_ring ex ?s) (int ?n) = Some (Inr ?c1)" using ob by (simp add: uring_send_add_def with_ring_def)
  moreover have "resume_write ?c1 = Some (Inr ?c')" using w(3,4) c(3) by (simp add: resume_write_def send_fn.simps conn_closed_def)
  ultimately have "uring_handle (resume_read srv) q ex = Some (Inr (uring_commit p ?c' None ex))"
    using handle_write [OF p c(1), of "resume_read srv" "int ?n"] c(2) by (simp add: q(1))
  moreover have "ended_state srv str p (Some \<lparr>s_conn = ?c', s_frame = None\<rparr>) peer rs ([], [])"
    unfolding ended_state_def using c by (intro exI [of _ ?c']) (simp add: conn_closed_def)
  then have "served_on srv str p peer ex rs ([], []) [] (uring_commit p ?c' None ex)"
    unfolding served_on_def conn_state_def using c(1)
    by (intro exI [of _ ?c'] exI [of _ None]) (simp add: uring_commit_def)
  moreover have "cqe_res q \<noteq> 0" using q by (simp add: uint_0_iff)
  ultimately show ?thesis by blast
qed

lemma thread_live_write:
  assumes cs: "live_state srv str p (sessions ex p) peer rs ([], [q])" and sv: "servable srv str out"
    and p: "p \<noteq> 0" "p < 2 ^ 56" and r: "0 < sq_entries (u_ring ex)"
  shows "\<exists>ex' new. uring_handle (resume_read srv) q ex = Some (Inr ex') \<and> served_on srv str p peer ex rs ([], []) new ex' \<and> cqe_res q \<noteq> 0"
proof -
  from cs obtain c pc fed stored sent where c: "sessions ex p = Some \<lparr>s_conn = c, s_frame = Some pc\<rparr>" "this_ptr c = p" "\<not> is_dummy c" "ring_serving c"
    and str: "str = fed @ stored @ peer"
    and spec: "server_spec srv R_header_len 0 fed = (sent @ ob_pending (write_buf c), Waiting pc (ib_pos (read_buf c)) (ib_unread (read_buf c)))"
    and rd: "read_state p c stored rs" and ws: "write_state p c sent ([], [q])"
    and eof: "rs = ([], [eof_cqe p]) \<longrightarrow> peer = [] \<and> wire (kern c) = sent @ ob_pending (write_buf c) \<and> pc = R_header_len \<and> ib_unread (read_buf c) = []"
    unfolding live_state_def by blast
  from ws have wr: "wire (kern c) = sent @ take (unat (back_left c)) (ob_pending (write_buf c))"
      "q = \<lparr>cqe_user_data = user_data EV_WRITE p, cqe_res = int (unat (back_left c))\<rparr>" "back_left c \<noteq> 0"
    by (simp_all add: write_state_def)
  let ?n = "unat (back_left c)" and ?c = "c\<lparr>uring := u_ring ex\<rparr>" and ?s = "\<lparr>s_conn = c, s_frame = Some pc\<rparr>"
  have rs0: "ring_serving ?c" using c(4) r by (rule ring_serving_ring)
  have out: "length (ob_pending (write_buf c)) < 1023 * 8192"
    by (rule servable_piece [OF sv [unfolded str] spec]) simp
  from ring_write_continues [OF rs0, of ?n] out obtain c1 c' where
    w: "uring_send_add ?c (int ?n) = Some (Inr c1)" "resume_write c1 = Some (Inr c')" "c1 = ?c\<lparr>back_left := 0, write_buf := write_buf c1\<rparr>"
    and c': "ring_serving c'" "wire (kern c') = wire (kern c)" "ob_pending (write_buf c') = drop ?n (ob_pending (write_buf c))" "read_buf c' = read_buf c"
      "evolves_to c1 c'" "ring_wrote c1 c'" by auto
  let ?sent = "sent @ take ?n (ob_pending (write_buf c))"
  have c1: "this_ptr c1 = p" "is_dummy c1 = is_dummy c" "sockfd (sock c1) = sockfd (sock c)" "uring c1 = u_ring ex" "back_left c1 = 0" "wire (kern c1) = ?sent"
    by (subst w(3), use c(2) wr in simp)+
  obtain new where new: "entries (uring c') = entries (uring c1) @ new" "\<forall>e \<in> set new. sqe_tag e = user_data EV_WRITE p" "length new \<le> 1"
      "write_state p c' ?sent ([] @ new, [])"
  proof -
    from c'(5,6) c1 have "entries (uring c') = entries (uring c1) \<and> back_left c' = 0 \<or> back_left c' \<noteq> 0 \<and>
      entries (uring c') = entries (uring c1) @ [SqeWritev (sockfd (sock c)) (ioves c') (user_data EV_WRITE p)]"
      by (auto simp: ring_wrote_def)
    moreover have "sockfd (sock c') = sockfd (sock c)" using c'(5) c1 by (simp add: evolves_to_def)
    ultimately show thesis
      using that [of "[]"] that [of "[SqeWritev (sockfd (sock c)) (ioves c') (user_data EV_WRITE p)]"] c'(2) wr(1)
      by (auto simp: write_state_def)
  qed
  have id: "this_ptr c' = p" "\<not> is_dummy c'" "sockfd (sock c') = sockfd (sock c)" using c'(5) c1 c(3) by (auto simp: evolves_to_def)
  have nr: "tagged (user_data EV_READ p) new = []" "tagged (user_data EV_WRITE p) new = new"
    using new(2) user_data_inject [OF p(2) p(2)] by (auto simp: filter_empty_conv)
  have nw: "\<forall>e \<in> set new. \<forall>fd v ud. e \<noteq> SqeWrite fd v ud" using new(4) by (auto simp: write_state_def)
  have "read_state p c' stored rs" using rd c'(4) id(3) by (simp add: read_state_def)
  then have st: "conn_state srv str p (Some \<lparr>s_conn = c', s_frame = Some pc\<rparr>) peer rs (new, [])"
    unfolding conn_state_def live_state_def using c'(1-4) id str spec new(4) eof
    by (intro disjI1 exI [of _ c'] exI [of _ pc] exI [of _ fed] exI [of _ stored] exI [of _ ?sent]) simp
  have "uring_handle (resume_read srv) q ex = Some (Inr (uring_commit p c' (Some pc) ex))"
    using handle_write [OF p c(1), of "resume_read srv" "int ?n"] c(3) w(1,2) by (simp add: wr(2) with_ring_def)
  moreover have "served_on srv str p peer ex rs ([], []) new (uring_commit p c' (Some pc) ex)"
    unfolding served_on_def using c(1) c'(2,6) new c1 nr nw st
    by (intro exI [of _ c'] exI [of _ "Some pc"]) (simp add: uring_commit_def ring_wrote_def)
  moreover have "cqe_res q \<noteq> 0" using wr(2,3) by (simp add: uint_0_iff)
  ultimately show ?thesis by blast
qed

lemma thread_write:
  assumes cs: "conn_state srv str p (sessions ex p) peer rs ([], [q])" and sv: "servable srv str out"
    and p: "p \<noteq> 0" "p < 2 ^ 56" and r: "0 < sq_entries (u_ring ex)"
  shows "\<exists>ex' new. uring_handle (resume_read srv) q ex = Some (Inr ex') \<and> served_on srv str p peer ex rs ([], []) new ex' \<and> cqe_res q \<noteq> 0"
  using cs unfolding conn_state_def
proof
  assume "live_state srv str p (sessions ex p) peer rs ([], [q])"
  then show ?thesis using sv p r by (rule thread_live_write)
next
  assume "ended_state srv str p (sessions ex p) peer rs ([], [q])"
  then show ?thesis using p by (rule thread_late_write)
qed


text \<open>The two tasks of an accepted connection.\<close>

lemma thread_starts:
  assumes q: "task_queue ex = RunSend p # RunRecv p # ts" and s: "sessions ex p = Some \<lparr>s_conn = c0, s_frame = None\<rparr>"
    and fresh: "fresh_ring_conn p c0" and sv: "servable srv str out" and p: "p < 2 ^ 56" and r: "0 < sq_entries (u_ring ex)"
  shows "\<exists>ex' new s'. drain (uring_run_task srv) ex = drain (uring_run_task srv) ex' \<and> task_queue ex' = ts \<and>
    sessions ex' = (sessions ex)(p \<mapsto> s') \<and> stop_flag ex' = stop_flag ex \<and> u_dummy ex' = u_dummy ex \<and>
    entries (u_ring ex') = entries (u_ring ex) @ new \<and> sq_entries (u_ring ex') = sq_entries (u_ring ex) \<and> length new \<le> 2 \<and>
    (\<forall>e \<in> set new. sqe_tag e \<in> {user_data EV_READ p, user_data EV_WRITE p} \<and> (\<forall>fd v ud. e \<noteq> SqeWrite fd v ud)) \<and>
    wire (kern (s_conn s')) = [] \<and> conn_state srv str p (Some s') str (tagged (user_data EV_READ p) new, []) (tagged (user_data EV_WRITE p) new, [])"
proof -
  from fresh_ring_starts(1) [OF fresh r] obtain c1 where send: "send_fn S_loop (c0\<lparr>uring := u_ring ex\<rparr>) = Some (Inr c1)" "uring c1 = u_ring ex" by blast
  let ?c = "RegisterRead_suspend (c1\<lparr>uring := u_ring ex\<rparr>)"
  from fresh_ring_starts(2) [OF fresh r send(1) refl] have c: "ring_serving ?c" and f: "wire (kern c1) = []" "ob_pending (write_buf c1) = []"
    "ib_pos (read_buf c1) = 0" "ib_unread (read_buf c1) = []" "back_left c1 = 0" "this_ptr c1 = p" "\<not> is_dummy c1" by simp_all
  have g: "this_ptr ?c = p" "\<not> is_dummy ?c" "ib_pos (read_buf ?c) = 0" "ib_unread (read_buf ?c) = [] @ []" "ob_pending (write_buf ?c) = []"
    "uring ?c = u_ring ex" "wire (kern ?c) = []" "back_left ?c = 0"
    using f by (simp_all add: RegisterRead_suspend_def add_event_def)
  have spec: "server_spec srv R_header_len 0 [] = ([] @ ob_pending (write_buf ?c), Waiting R_header_len 0 [])"
    using g(5) by (simp add: server_spec.simps)
  have wr: "write_state p ?c [] ([], [])" using g by (simp add: write_state_def)
  have e: "str = [] @ [] @ str" by simp
  obtain c' pc' new where run: "recv_run srv R_header_len ?c = Some (Inr (Some pc', c'))" and h: "wire (kern c') = wire (kern ?c)"
      "entries (uring c') = entries (uring ?c) @ new" "sq_entries (uring c') = sq_entries (uring ?c)" "length new \<le> 2"
      "\<forall>e \<in> set new. sqe_tag e \<in> {user_data EV_READ p, user_data EV_WRITE p}" "\<forall>e \<in> set new. \<forall>fd v ud. e \<noteq> SqeWrite fd v ud"
      "conn_state srv str p (Some \<lparr>s_conn = c', s_frame = Some pc'\<rparr>) str
        (tagged (user_data EV_READ p) new, []) ([] @ tagged (user_data EV_WRITE p) new, [])"
    by (rule conn_state_reads [OF g(1,2) c p e sv spec g(3,4) wr])
  let ?ex1 = "uring_commit p c1 None (ex\<lparr>task_queue := RunRecv p # ts\<rparr>)"
  let ?ex2 = "uring_commit p c' (Some pc') (?ex1\<lparr>task_queue := ts\<rparr>)"
  have "drain (uring_run_task srv) ex = drain (uring_run_task srv) ?ex1"
    by (rule drain_Cons [OF q]) (simp add: s send with_ring_def)
  also have "\<dots> = drain (uring_run_task srv) ?ex2"
    by (rule drain_Cons [where t = "RunRecv p" and ts = ts])
      (use run send(2) in \<open>simp_all add: uring_commit_def with_ring_def recv_fn_def\<close>)
  finally show ?thesis
    using h g by (intro exI [of _ ?ex2] exI [of _ new] exI [of _ "\<lparr>s_conn = c', s_frame = Some pc'\<rparr>"]) (simp add: uring_commit_def)
qed

end
