(* ===== verification/RingSystem.thy ===== *)
theory RingSystem
  imports RingServer
begin

section \<open>The server on a ring executor: safety, termination and completeness\<close>

text \<open>
  The invariant of the system of theory \<open>RingServer\<close>, and what follows from it: no step of the
  executor faults, every run comes to an end, and at its end every peer has been sent the whole
  output the specification demands.
\<close>

subsection \<open>The invariant of the system\<close>

definition ops :: "'m ring_system \<Rightarrow> 64 word \<Rightarrow> sqe list \<times> cqe list" where
  "ops w ud = (tagged ud (entries (u_ring (rs_ex w))), filter (\<lambda>q. cqe_user_data q = ud) (rs_cq w))"

text \<open>
  Connections that may be accepted, with the streams of their peers and what they must be
  answered. A peer may close its connection only after its last answer and between requests.
\<close>

definition admissible :: "'m rpc_server \<Rightarrow> (int \<Rightarrow> 64 word \<Rightarrow> connection) \<Rightarrow> (64 word \<Rightarrow> byte list \<Rightarrow> bool) \<Rightarrow> (64 word \<Rightarrow> byte list) \<Rightarrow> (64 word \<Rightarrow> byte list) \<Rightarrow>
    64 word \<Rightarrow> (int \<times> 64 word) list \<Rightarrow> bool" where
  "admissible srv mk closes stream out dummy as \<longleftrightarrow> distinct (map snd as) \<and> (\<forall>(fd, p) \<in> set as. fd \<noteq> -1 \<and> p \<noteq> 0 \<and> p < 2 ^ 56 \<and> p \<noteq> dummy \<and>
     fresh_ring_conn p (mk fd p) \<and> servable srv (stream p) (out p) \<and>
     (\<forall>bs. closes p bs \<longrightarrow> bs = out p \<and> (\<exists>pos. snd (server_spec srv R_header_len 0 (stream p)) = Waiting R_header_len pos []))) \<and> dummy \<noteq> 0 \<and> dummy < 2 ^ 56"

definition executor_ok :: "64 word \<Rightarrow> ('m recv_pc, server_task) uring_executor \<Rightarrow> bool" where
  "executor_ok dummy ex \<longleftrightarrow> u_dummy ex = dummy \<and> 0 < sq_entries (u_ring ex) \<and> \<not> stop_flag ex \<and>
     (\<exists>s. sessions ex dummy = Some s \<and> is_dummy (s_conn s))"

definition served :: "'m rpc_server \<Rightarrow> (64 word \<Rightarrow> byte list) \<Rightarrow> 'm ring_system \<Rightarrow> 64 word \<Rightarrow> bool" where
  "served srv stream w p \<longleftrightarrow> conn_state srv (stream p) p (sessions (rs_ex w) p) (rs_peer w p)
     (ops w (user_data EV_READ p)) (ops w (user_data EV_WRITE p))"

definition unserved :: "(64 word \<Rightarrow> byte list) \<Rightarrow> 'm ring_system \<Rightarrow> 64 word \<Rightarrow> bool" where
  "unserved stream w p \<longleftrightarrow> rs_peer w p = stream p \<and> ops w (user_data EV_READ p) = ([], []) \<and> ops w (user_data EV_WRITE p) = ([], [])"

definition known_ops :: "64 word \<Rightarrow> 64 word set \<Rightarrow> 'm ring_system \<Rightarrow> bool" where
  "known_ops dummy ps w \<longleftrightarrow>
     (\<forall>e \<in> set (entries (u_ring (rs_ex w))). (\<exists>p \<in> ps. sqe_tag e \<in> {user_data EV_READ p, user_data EV_WRITE p} \<and> (\<forall>fd v ud. e \<noteq> SqeWrite fd v ud)) \<or>
        (\<exists>fd v. e = SqeWrite fd v (user_data EV_WRITE dummy))) \<and>
     (\<forall>q \<in> set (rs_cq w). (\<exists>p \<in> ps. cqe_user_data q \<in> {user_data EV_READ p, user_data EV_WRITE p}) \<or>
        cqe_user_data q = user_data EV_WRITE dummy)"

text \<open>
  The connections whose coroutines run (\<open>xs\<close>), those whose tasks are queued (\<open>ys\<close>) and those
  still to be accepted.
\<close>

definition ring_inv_at :: "'m rpc_server \<Rightarrow> (int \<Rightarrow> 64 word \<Rightarrow> connection) \<Rightarrow> (64 word \<Rightarrow> byte list) \<Rightarrow> 64 word \<Rightarrow>
    (int \<times> 64 word) list \<Rightarrow> (int \<times> 64 word) list \<Rightarrow> 'm ring_system \<Rightarrow> bool" where
  "ring_inv_at srv mk stream dummy xs ys w \<longleftrightarrow> executor_ok dummy (rs_ex w) \<and> task_queue (rs_ex w) = start_tasks (map snd ys) \<and>
     (\<forall>p \<in> snd ` set xs. served srv stream w p) \<and>
     (\<forall>(fd, p) \<in> set ys. sessions (rs_ex w) p = Some \<lparr>s_conn = mk fd p, s_frame = None\<rparr> \<and> unserved stream w p) \<and>
     (\<forall>p \<in> snd ` set (rs_backlog w). sessions (rs_ex w) p = None \<and> unserved stream w p) \<and> known_ops dummy (snd ` set xs) w"

text \<open>
  The thread does not sleep through a task: while it waits, a task in the queue has reset the
  flag, and then a write to the event descriptor is submitted or a completion is there.
\<close>

definition wakes :: "'m ring_system \<Rightarrow> bool" where
  "wakes w \<longleftrightarrow> rs_thread w = T_wait \<longrightarrow> sq (u_ring (rs_ex w)) = [] \<and> (task_queue (rs_ex w) \<noteq> [] \<longrightarrow> \<not> should_notify (rs_ex w)) \<and>
     (should_notify (rs_ex w) \<or> rs_cq w \<noteq> [] \<or> (\<exists>fd v ud. SqeWrite fd v ud \<in> set (submitted (u_ring (rs_ex w)))))"

definition ring_inv :: "'m rpc_server \<Rightarrow> (int \<Rightarrow> 64 word \<Rightarrow> connection) \<Rightarrow> (64 word \<Rightarrow> byte list) \<Rightarrow> 64 word \<Rightarrow>
    (int \<times> 64 word) list \<Rightarrow> 'm ring_system \<Rightarrow> bool" where
  "ring_inv srv mk stream dummy as w \<longleftrightarrow> wakes w \<and> (\<exists>xs ys. as = xs @ ys @ rs_backlog w \<and> ring_inv_at srv mk stream dummy xs ys w)"

lemma ring_inv_at_thread [simp]: "ring_inv_at srv mk stream dummy xs ys (w\<lparr>rs_thread := t\<rparr>) = ring_inv_at srv mk stream dummy xs ys w"
  by (simp add: ring_inv_at_def served_def unserved_def known_ops_def ops_def)

text \<open>A step that is about one connection, or about the dummy one, leaves all others as they were.\<close>

definition untouched :: "'m ring_system \<Rightarrow> 'm ring_system \<Rightarrow> 64 word \<Rightarrow> bool" where
  "untouched w w' q \<longleftrightarrow> sessions (rs_ex w') q = sessions (rs_ex w) q \<and> rs_peer w' q = rs_peer w q \<and>
     (\<forall>t. ops w' (user_data t q) = ops w (user_data t q))"

lemma untouched_states:
  assumes "untouched w w' q"
  shows "served srv stream w' q = served srv stream w q" and "unserved stream w' q = unserved stream w q"
    and "sessions (rs_ex w') q = sessions (rs_ex w) q"
  using assms by (simp_all add: untouched_def served_def unserved_def)

lemma ring_inv_change:
  assumes inv: "ring_inv_at srv mk stream dummy xs ys w"
    and other: "\<And>q. q \<in> snd ` set (xs @ ys @ rs_backlog w) \<Longrightarrow> q \<noteq> p \<Longrightarrow> untouched w w' q"
    and groups: "snd ` set xs' \<subseteq> insert p (snd ` set xs)" "set ys' \<subseteq> insert (fd, p) (set ys)" "snd ` set (rs_backlog w') \<subseteq> snd ` set (rs_backlog w)"
    and ex: "executor_ok dummy (rs_ex w')" and tq: "task_queue (rs_ex w') = start_tasks (map snd ys')"
    and known: "known_ops dummy (snd ` set xs') w'"
    and p: "p \<in> snd ` set xs' \<Longrightarrow> served srv stream w' p" "p \<notin> snd ` set (rs_backlog w')"
      "\<And>fd'. (fd', p) \<in> set ys' \<Longrightarrow> fd' = fd \<and> sessions (rs_ex w') p = Some \<lparr>s_conn = mk fd p, s_frame = None\<rparr> \<and> unserved stream w' p"
  shows "ring_inv_at srv mk stream dummy xs' ys' w'"
  unfolding ring_inv_at_def
proof (intro conjI ballI ex tq known)
  fix q assume q: "q \<in> snd ` set xs'"
  show "served srv stream w' q"
  proof (cases "q = p")
    case False
    with q groups(1) have x: "q \<in> snd ` set xs" by blast
    then have "untouched w w' q" using other [of q] False by auto
    with x inv show ?thesis by (auto simp: untouched_states ring_inv_at_def)
  qed (use q p(1) in simp)
next
  fix b assume b: "b \<in> set ys'"
  obtain fd' q where b': "b = (fd', q)" by fastforce
  have "sessions (rs_ex w') q = Some \<lparr>s_conn = mk fd' q, s_frame = None\<rparr> \<and> unserved stream w' q"
  proof (cases "q = p")
    case True
    with p(3) [of fd'] b b' show ?thesis by blast
  next
    case False
    with b b' groups(2) have y: "(fd', q) \<in> set ys" by auto
    then have "q \<in> snd ` set (xs @ ys @ rs_backlog w)" by force
    from other [OF this False] y inv show ?thesis by (auto simp: untouched_states ring_inv_at_def)
  qed
  then show "case b of (fd, p) \<Rightarrow> sessions (rs_ex w') p = Some \<lparr>s_conn = mk fd p, s_frame = None\<rparr> \<and> unserved stream w' p"
    by (simp add: b')
next
  fix q assume "q \<in> snd ` set (rs_backlog w')"
  then have q: "q \<in> snd ` set (rs_backlog w)" "q \<noteq> p" using groups(3) p(2) by auto
  then have "untouched w w' q" using other [of q] by auto
  moreover have "sessions (rs_ex w) q = None \<and> unserved stream w q" using q(1) inv by (auto simp: ring_inv_at_def)
  ultimately show "sessions (rs_ex w') q = None" "unserved stream w' q" by (simp_all add: untouched_states)
qed

lemma ring_inv_update:
  assumes inv: "ring_inv_at srv mk stream dummy xs ys w"
    and bl: "rs_backlog w' = rs_backlog w" and tq: "task_queue (rs_ex w') = task_queue (rs_ex w)"
    and ex: "executor_ok dummy (rs_ex w')"
    and other: "\<And>q. q \<in> snd ` set (xs @ ys @ rs_backlog w) \<Longrightarrow> q \<noteq> p \<Longrightarrow> untouched w w' q"
    and p: "p \<in> snd ` set xs \<Longrightarrow> served srv stream w' p" "p \<notin> snd ` set (ys @ rs_backlog w)"
    and known: "known_ops dummy (snd ` set xs) w'"
  shows "ring_inv_at srv mk stream dummy xs ys w'"
proof (rule ring_inv_change [OF inv other])
  show "task_queue (rs_ex w') = start_tasks (map snd ys)" using tq inv by (simp add: ring_inv_at_def)
  show "fd' = undefined \<and> sessions (rs_ex w') p = Some \<lparr>s_conn = mk undefined p, s_frame = None\<rparr> \<and> unserved stream w' p"
    if "(fd', p) \<in> set ys" for fd' using that p(2) by force
qed (use bl ex p known in auto)


subsection \<open>The work left\<close>

text \<open>
  Every step uses up some of it: a read takes bytes of its peer, a write passes bytes on, and
  the entries, completions, tasks and connections to accept become fewer or cheaper. The thread
  can go on without a completion only until it waits.
\<close>

definition op_weight :: "sqe \<Rightarrow> nat" where
  "op_weight e = (case e of SqeWrite _ _ _ \<Rightarrow> 12 | _ \<Rightarrow> 4)"

definition cqe_weight :: "cqe \<Rightarrow> nat" where
  "cqe_weight q = (if cqe_res q = 0 then 3 else 11)"

definition conn_work :: "(64 word \<Rightarrow> byte list) \<Rightarrow> 'm ring_system \<Rightarrow> 64 word \<Rightarrow> nat" where
  "conn_work out w p = length (rs_peer w p) + (length (out p) - length (wire_of w p))"

definition work :: "(64 word \<Rightarrow> byte list) \<Rightarrow> (int \<times> 64 word) list \<Rightarrow> 'm ring_system \<Rightarrow> nat" where
  "work out as w = 35 * length (rs_backlog w) + 5 * length (task_queue (rs_ex w)) +
     sum_list (map op_weight (entries (u_ring (rs_ex w)))) + sum_list (map cqe_weight (rs_cq w)) +
     10 * (\<Sum>p \<in> snd ` set as. conn_work out w p)"

fun thread_weight :: "thread_pc \<Rightarrow> nat" where
  "thread_weight T_wait = 0"
| "thread_weight T_head = 1"
| "thread_weight T_peek = 2"

definition less_work :: "(64 word \<Rightarrow> byte list) \<Rightarrow> (int \<times> 64 word) list \<Rightarrow> 'm ring_system \<Rightarrow> 'm ring_system \<Rightarrow> bool" where
  "less_work out as w' w \<longleftrightarrow> work out as w' + thread_weight (rs_thread w') < work out as w + thread_weight (rs_thread w)"

lemma work_thread [simp]: "work out as (w\<lparr>rs_thread := t\<rparr>) = work out as w"
  by (simp add: work_def conn_work_def wire_of_def)

lemma op_weight_conn: "\<forall>e \<in> set es. \<forall>fd v ud. e \<noteq> SqeWrite fd v ud \<Longrightarrow> sum_list (map op_weight es) = 4 * length es"
proof (induction es)
  case (Cons e es)
  then show ?case by (cases e) (auto simp: op_weight_def)
qed simp

lemma op_weight_notify: "\<forall>e \<in> set es. \<exists>fd v. e = SqeWrite fd v ud \<Longrightarrow> sum_list (map op_weight es) = 12 * length es"
  by (induction es) (auto simp: op_weight_def)

lemma sum_conn_work:
  assumes "\<And>q. q \<in> snd ` set as \<Longrightarrow> q \<noteq> p \<Longrightarrow> conn_work out w' q = conn_work out w q"
    and "p \<in> snd ` set as \<Longrightarrow> conn_work out w' p + n \<le> conn_work out w p" and "p \<in> snd ` set as \<or> n = 0"
  shows "(\<Sum>q \<in> snd ` set as. conn_work out w' q) + n \<le> (\<Sum>q \<in> snd ` set as. conn_work out w q)"
proof (cases "p \<in> snd ` set as")
  case True
  have "(\<Sum>q \<in> snd ` set as - {p}. conn_work out w' q) = (\<Sum>q \<in> snd ` set as - {p}. conn_work out w q)"
    using assms(1) by (intro sum.cong) auto
  with assms(2) True show ?thesis
    by (simp add: sum.remove [OF _ True])
next
  case False
  then have "(\<Sum>q \<in> snd ` set as. conn_work out w' q) = (\<Sum>q \<in> snd ` set as. conn_work out w q)"
    using assms(1) by (intro sum.cong) auto
  with assms(3) False show ?thesis by simp
qed

subsection \<open>The owner of an entry or a completion\<close>

lemma admissibleD:
  assumes "admissible srv mk closes stream out dummy as" and "(fd, p) \<in> set as"
  shows "fd \<noteq> -1" "p \<noteq> 0" "p < 2 ^ 56" "p \<noteq> dummy" "fresh_ring_conn p (mk fd p)" "servable srv (stream p) (out p)"
  using assms by (auto simp: admissible_def)

lemma admissible_ptr:
  assumes "admissible srv mk closes stream out dummy as" and "p \<in> snd ` set as"
  shows "p \<noteq> 0" "p < 2 ^ 56" "p \<noteq> dummy" "servable srv (stream p) (out p)"
  using assms by (auto simp: admissible_def)

lemma admissible_closes:
  assumes "admissible srv mk closes stream out dummy as" and "p \<in> snd ` set as" and "closes p bs"
  shows "bs = out p \<and> (\<exists>pos. snd (server_spec srv R_header_len 0 (stream p)) = Waiting R_header_len pos [])"
proof -
  obtain fd where "(fd, p) \<in> set as" using assms(2) by force
  with assms(1) have "\<forall>bs. closes p bs \<longrightarrow> bs = out p \<and> (\<exists>pos. snd (server_spec srv R_header_len 0 (stream p)) = Waiting R_header_len pos [])"
    unfolding admissible_def by blast
  with assms(3) show ?thesis by blast
qed

lemma admissible_disjoint:
  assumes "admissible srv mk closes stream out dummy (xs @ ys @ zs)" and "p \<in> snd ` set xs"
  shows "p \<notin> snd ` set (ys @ zs)"
  using assms by (auto simp: admissible_def)

lemma dummy_ptr:
  assumes "admissible srv mk closes stream out dummy as"
  shows "dummy \<noteq> 0" "dummy < 2 ^ 56" "dummy \<notin> snd ` set as"
  using assms by (auto simp: admissible_def)

lemma entry_owner:
  assumes inv: "ring_inv_at srv mk stream dummy xs ys w" and adm: "admissible srv mk closes stream out dummy (xs @ ys @ zs)"
    and e: "e \<in> set (entries (u_ring (rs_ex w)))" "sqe_tag e = user_data t p" "p < 2 ^ 56" and nw: "\<And>fd v ud. e \<noteq> SqeWrite fd v ud"
  shows "p \<in> snd ` set xs \<and> (t = EV_READ \<or> t = EV_WRITE)"
proof -
  from inv have "known_ops dummy (snd ` set xs) w" by (simp add: ring_inv_at_def)
  from bspec [OF this [unfolded known_ops_def, THEN conjunct1] e(1)]
  obtain p' where p': "p' \<in> snd ` set xs" "sqe_tag e \<in> {user_data EV_READ p', user_data EV_WRITE p'}"
    by (elim disjE bexE exE conjE) (blast, use nw in blast)
  then have "p' < 2 ^ 56" using admissible_ptr(2) [OF adm, of p'] by auto
  note inj = user_data_inject [OF e(3) this]
  from p'(2) e(2) have "user_data t p = user_data EV_READ p' \<or> user_data t p = user_data EV_WRITE p'" by simp
  then have "p = p' \<and> (t = EV_READ \<or> t = EV_WRITE)" unfolding inj by blast
  with p'(1) show ?thesis by simp
qed

lemma cqe_owner:
  assumes inv: "ring_inv_at srv mk stream dummy xs ys w" and adm: "admissible srv mk closes stream out dummy (xs @ ys @ zs)"
    and q: "q \<in> set (rs_cq w)"
  obtains p t where "p \<in> snd ` set xs" and "t = EV_READ \<or> t = EV_WRITE" and "cqe_user_data q = user_data t p"
    | "cqe_user_data q = user_data EV_WRITE dummy"
proof -
  from inv have "known_ops dummy (snd ` set xs) w" by (simp add: ring_inv_at_def)
  with q have "(\<exists>p \<in> snd ` set xs. cqe_user_data q \<in> {user_data EV_READ p, user_data EV_WRITE p}) \<or>
      cqe_user_data q = user_data EV_WRITE dummy" unfolding known_ops_def by blast
  then show thesis
  proof
    assume "\<exists>p \<in> snd ` set xs. cqe_user_data q \<in> {user_data EV_READ p, user_data EV_WRITE p}"
    then obtain p where "p \<in> snd ` set xs" "cqe_user_data q = user_data EV_READ p \<or> cqe_user_data q = user_data EV_WRITE p" by blast
    with that(1) show thesis by blast
  qed (rule that(2))
qed

text \<open>The operations of the other connections are not touched.\<close>

lemma tagged_one:
  assumes "tagged ud (xs @ e # ys) = [e']" and "sqe_tag e = ud"
  shows "e' = e" and "tagged ud (xs @ ys) = []"
  using assms by (auto simp: append_eq_Cons_conv)

lemma known_ops_completed:
  assumes "known_ops dummy ps w" and "submitted (u_ring (rs_ex w)) = xs @ e # ys"
    and "entries (u_ring (rs_ex w')) = xs @ ys @ sq (u_ring (rs_ex w))"
    and "rs_cq w' = rs_cq w @ [\<lparr>cqe_user_data = sqe_tag e, cqe_res = r\<rparr>]"
  shows "known_ops dummy ps w'"
proof -
  have e: "entries (u_ring (rs_ex w)) = xs @ e # ys @ sq (u_ring (rs_ex w))" using assms(2) by (simp add: entries_def)
  with assms(1) have "(\<exists>p \<in> ps. sqe_tag e \<in> {user_data EV_READ p, user_data EV_WRITE p}) \<or> sqe_tag e = user_data EV_WRITE dummy"
    by (auto simp: known_ops_def)
  with assms e show ?thesis by (auto simp: known_ops_def)
qed

lemma known_ops_thread:
  assumes "known_ops dummy ps w" and "entries (u_ring (rs_ex w')) = entries (u_ring (rs_ex w)) @ new" and "set (rs_cq w') \<subseteq> set (rs_cq w)"
    and "\<forall>e \<in> set new. (\<exists>p \<in> ps. sqe_tag e \<in> {user_data EV_READ p, user_data EV_WRITE p} \<and> (\<forall>fd v ud. e \<noteq> SqeWrite fd v ud)) \<or>
        (\<exists>fd v. e = SqeWrite fd v (user_data EV_WRITE dummy))"
  shows "known_ops dummy ps w'"
  using assms unfolding known_ops_def by auto


lemma ops_completed:
  assumes "submitted (u_ring (rs_ex w)) = xs @ e # ys" and "entries (u_ring (rs_ex w')) = xs @ ys @ sq (u_ring (rs_ex w))"
    and "rs_cq w' = rs_cq w @ [\<lparr>cqe_user_data = sqe_tag e, cqe_res = r\<rparr>]"
  shows "ud \<noteq> sqe_tag e \<Longrightarrow> ops w' ud = ops w ud"
    and "ops w (sqe_tag e) = ([e'], []) \<Longrightarrow> e' = e \<and> ops w' (sqe_tag e) = ([], [\<lparr>cqe_user_data = sqe_tag e, cqe_res = r\<rparr>])"
proof -
  have e: "entries (u_ring (rs_ex w)) = xs @ e # (ys @ sq (u_ring (rs_ex w)))" using assms(1) by (simp add: entries_def)
  show "ud \<noteq> sqe_tag e \<Longrightarrow> ops w' ud = ops w ud" using assms(2,3) e by (auto simp: ops_def)
  assume "ops w (sqe_tag e) = ([e'], [])"
  then have t: "tagged (sqe_tag e) (xs @ e # (ys @ sq (u_ring (rs_ex w)))) = [e']" "filter (\<lambda>q. cqe_user_data q = sqe_tag e) (rs_cq w) = []"
    by (simp_all add: ops_def e)
  from tagged_one [OF t(1) refl] t(2) assms(2,3)
  show "e' = e \<and> ops w' (sqe_tag e) = ([], [\<lparr>cqe_user_data = sqe_tag e, cqe_res = r\<rparr>])" by (simp add: ops_def)
qed

lemma ops_thread:
  assumes "entries (u_ring (rs_ex w')) = entries (u_ring (rs_ex w)) @ new" and "rs_cq w = q # rs_cq w'"
  shows "ops w' ud = (fst (ops w ud) @ tagged ud new, if cqe_user_data q = ud then tl (snd (ops w ud)) else snd (ops w ud))"
  using assms by (simp add: ops_def)

lemma executor_ok_session:
  "executor_ok dummy ex \<Longrightarrow> p \<noteq> dummy \<Longrightarrow> executor_ok dummy (ex\<lparr>sessions := (sessions ex)(p \<mapsto> s)\<rparr>)"
  by (simp add: executor_ok_def)

lemma entries_completed:
  "submitted (u_ring ex) = xs @ e # ys \<Longrightarrow> entries (u_ring (completed (xs @ ys) ex)) = xs @ ys @ sq (u_ring ex)"
  by (simp add: completed_def entries_def)

lemma read_ops_one:
  assumes "served srv stream w p" and "SqeRead fd d room (user_data EV_READ p) \<in> set (entries (u_ring (rs_ex w)))"
  shows "ops w (user_data EV_READ p) = ([SqeRead fd d room (user_data EV_READ p)], [])"
proof -
  have "SqeRead fd d room (user_data EV_READ p) \<in> set (fst (ops w (user_data EV_READ p)))" using assms(2) by (simp add: ops_def)
  with assms(1) show ?thesis by (auto simp: served_def conn_state_defs read_state_def)
qed

lemma write_ops_one:
  assumes "served srv stream w p" and "SqeWritev fd iovs (user_data EV_WRITE p) \<in> set (entries (u_ring (rs_ex w)))"
  shows "ops w (user_data EV_WRITE p) = ([SqeWritev fd iovs (user_data EV_WRITE p)], [])"
proof -
  have "SqeWritev fd iovs (user_data EV_WRITE p) \<in> set (fst (ops w (user_data EV_WRITE p)))" using assms(2) by (simp add: ops_def)
  with assms(1) show ?thesis by (auto simp: served_def conn_state_defs write_state_def)
qed

text \<open>What was sent is a prefix of what is to be sent.\<close>

lemma conn_state_prefix:
  assumes "conn_state srv str p s peer rs ws" and "servable srv str out"
  obtains s' where "s = Some s'" and "prefix (wire (kern (s_conn s'))) out"
proof (cases "ended_state srv str p s peer rs ws")
  case True
  with assms(2) that show thesis by (auto simp: ended_state_def servable_def)
next
  case False
  with assms(1) obtain c pc fed stored sent where s: "s = Some \<lparr>s_conn = c, s_frame = Some pc\<rparr>" and rs: "ring_serving c"
    and str: "str = fed @ stored @ peer"
    and spec: "server_spec srv R_header_len 0 fed = (sent @ ob_pending (write_buf c), Waiting pc (ib_pos (read_buf c)) (ib_unread (read_buf c)))"
    and w: "write_state p c sent ws" unfolding conn_state_def live_state_def by blast
  obtain out1 where out: "out = (sent @ ob_pending (write_buf c)) @ out1"
    using servable_piece [OF assms(2) [unfolded str] spec] by metis
  have "prefix (wire (kern c)) (sent @ ob_pending (write_buf c))"
    using w by (auto simp: write_state_def take_is_prefix)
  then have "prefix (wire (kern c)) out" unfolding out by (rule prefix_prefix)
  then show thesis using that s by simp
qed

subsection \<open>The kernel's steps\<close>

lemma kernel_step_inv:
  assumes inv: "ring_inv_at srv mk stream dummy xs ys w" and adm: "admissible srv mk closes stream out dummy (xs @ ys @ rs_backlog w)"
    and sub: "submitted (u_ring (rs_ex w)) = es @ e # fs" and p: "p \<in> snd ` set xs" and t: "t = EV_READ \<or> t = EV_WRITE"
    and e: "sqe_tag e = user_data t p"
    and w': "w' = w\<lparr>rs_ex := completed (es @ fs) ((rs_ex w)\<lparr>sessions := (sessions (rs_ex w))(p \<mapsto> s)\<rparr>), rs_peer := (rs_peer w)(p := rest),
      rs_cq := rs_cq w @ [\<lparr>cqe_user_data = sqe_tag e, cqe_res = r\<rparr>]\<rparr>"
    and sv: "served srv stream w' p"
  shows "ring_inv_at srv mk stream dummy xs ys w'"
proof -
  note ptr = admissible_ptr [OF adm]
  have pa: "p \<in> snd ` set (xs @ ys @ rs_backlog w)" using p by auto
  have ent: "entries (u_ring (rs_ex w')) = es @ fs @ sq (u_ring (rs_ex w))"
    by (simp add: w' completed_def entries_def)
  have cq: "rs_cq w' = rs_cq w @ [\<lparr>cqe_user_data = sqe_tag e, cqe_res = r\<rparr>]" by (simp add: w')
  have other: "ops w' (user_data u q) = ops w (user_data u q)" if "q \<in> snd ` set (xs @ ys @ rs_backlog w)" "q \<noteq> p" for u q
    by (rule ops_completed(1) [OF sub ent cq]) (use that e user_data_inject [OF ptr(2) ptr(2)] pa in auto)
  have kn: "known_ops dummy (snd ` set xs) w" and ok: "executor_ok dummy (rs_ex w)" using inv by (simp_all add: ring_inv_at_def)
  show ?thesis
  proof (rule ring_inv_update [OF inv, where p = p])
    show "executor_ok dummy (rs_ex w')" using ok ptr(3) [OF pa] by (simp add: executor_ok_def w' completed_def)
    show "known_ops dummy (snd ` set xs) w'" by (rule known_ops_completed [OF kn sub ent cq])
    show "p \<notin> snd ` set (ys @ rs_backlog w)" using adm p by (rule admissible_disjoint)
  qed (use other sv in \<open>simp_all add: untouched_def w' completed_def\<close>)
qed

lemma kernel_step:
  assumes inv: "ring_inv_at srv mk stream dummy xs ys w" and adm: "admissible srv mk closes stream out dummy (xs @ ys @ rs_backlog w)"
    and sub: "submitted (u_ring (rs_ex w)) = es @ e # fs" and p: "p \<in> snd ` set xs" and t: "t = EV_READ \<or> t = EV_WRITE"
    and e: "sqe_tag e = user_data t p" "op_weight e = 4"
    and w': "w' = w\<lparr>rs_ex := completed (es @ fs) ((rs_ex w)\<lparr>sessions := (sessions (rs_ex w))(p \<mapsto> s)\<rparr>), rs_peer := (rs_peer w)(p := rest),
      rs_cq := rs_cq w @ [\<lparr>cqe_user_data = sqe_tag e, cqe_res = r\<rparr>]\<rparr>"
    and sv: "served srv stream w' p" and less: "conn_work out w' p < conn_work out w p"
  shows "ring_inv_at srv mk stream dummy xs ys w' \<and> less_work out (xs @ ys @ rs_backlog w) w' w"
proof
  show "ring_inv_at srv mk stream dummy xs ys w'" by (rule kernel_step_inv [OF inv adm sub p t e(1) w' sv])
  have pa: "p \<in> snd ` set (xs @ ys @ rs_backlog w)" using p by auto
  have ent: "entries (u_ring (rs_ex w')) = es @ fs @ sq (u_ring (rs_ex w))"
    by (simp add: w' completed_def entries_def)
  have "(\<Sum>q \<in> snd ` set (xs @ ys @ rs_backlog w). conn_work out w' q) + 1 \<le> (\<Sum>q \<in> snd ` set (xs @ ys @ rs_backlog w). conn_work out w q)"
    by (rule sum_conn_work [where p = p]) (use less pa in \<open>simp_all add: conn_work_def wire_of_def w' completed_def\<close>)
  moreover have "sum_list (map op_weight (entries (u_ring (rs_ex w)))) = sum_list (map op_weight (entries (u_ring (rs_ex w')))) + 4"
    using e(2) sub ent by (simp add: entries_def)
  moreover have "sum_list (map cqe_weight (rs_cq w')) \<le> sum_list (map cqe_weight (rs_cq w)) + 11" by (simp add: w' cqe_weight_def)
  moreover have "rs_backlog w' = rs_backlog w" "task_queue (rs_ex w') = task_queue (rs_ex w)" "rs_thread w' = rs_thread w"
    by (simp_all add: w' completed_def)
  ultimately show "less_work out (xs @ ys @ rs_backlog w) w' w"
    unfolding less_work_def work_def by simp
qed


lemma kernel_read_step:
  assumes inv: "ring_inv_at srv mk stream dummy xs ys w" and adm: "admissible srv mk closes stream out dummy (xs @ ys @ rs_backlog w)"
    and sub: "submitted (u_ring (rs_ex w)) = es @ SqeRead fd d room (user_data EV_READ p) # fs" and p: "p < 2 ^ 56"
    and bs: "rs_peer w p = bs @ rest" "bs \<noteq> []" "int (length bs) \<le> room" and k: "kernel_stores p d bs (rs_ex w) = Inr ex1"
    and w': "w' = w\<lparr>rs_ex := completed (es @ fs) ex1, rs_peer := (rs_peer w)(p := rest),
      rs_cq := rs_cq w @ [\<lparr>cqe_user_data = user_data EV_READ p, cqe_res = int (length bs)\<rparr>]\<rparr>"
  shows "ring_inv_at srv mk stream dummy xs ys w' \<and> less_work out (xs @ ys @ rs_backlog w) w' w"
proof -
  let ?e = "SqeRead fd d room (user_data EV_READ p)"
  have mem: "?e \<in> set (entries (u_ring (rs_ex w)))" using sub by (simp add: entries_def)
  have px: "p \<in> snd ` set xs" using entry_owner [OF inv adm mem, of EV_READ p] p by simp
  then have sv: "served srv stream w p" and pa: "p \<in> snd ` set (xs @ ys @ rs_backlog w)" using inv by (auto simp: ring_inv_at_def)
  note one = read_ops_one [OF sv mem]
  from conn_state_stores [of srv "stream p" p "rs_ex w" bs rest fd d room "user_data EV_READ p" "ops w (user_data EV_WRITE p)" "out p"]
  obtain s s0 where s: "kernel_stores p d bs (rs_ex w) = Inr ((rs_ex w)\<lparr>sessions := (sessions (rs_ex w))(p \<mapsto> s)\<rparr>)"
    "conn_state srv (stream p) p (Some s) rest ([], [\<lparr>cqe_user_data = user_data EV_READ p, cqe_res = int (length bs)\<rparr>]) (ops w (user_data EV_WRITE p))"
    "sessions (rs_ex w) p = Some s0" "wire (kern (s_conn s)) = wire (kern (s_conn s0))"
    using sv one bs admissible_ptr(4) [OF adm pa] by (auto simp: served_def)
  from s(1) k have ex1: "ex1 = (rs_ex w)\<lparr>sessions := (sessions (rs_ex w))(p \<mapsto> s)\<rparr>" by simp
  have ent: "entries (u_ring (rs_ex w')) = es @ fs @ sq (u_ring (rs_ex w))" and cq: "rs_cq w' = rs_cq w @ [\<lparr>cqe_user_data = sqe_tag ?e, cqe_res = int (length bs)\<rparr>]"
    by (simp_all add: w' ex1 completed_def entries_def)
  have "ops w' (user_data EV_WRITE p) = ops w (user_data EV_WRITE p)"
    by (rule ops_completed(1) [OF sub ent cq]) (simp add: user_data_inject [OF p p])
  with s(2) ops_completed(2) [OF sub ent cq] one have sv': "served srv stream w' p"
    by (simp add: served_def w' ex1 completed_def)
  have lw: "conn_work out w' p < conn_work out w p"
    using bs(1,2) s(3,4) by (simp add: conn_work_def wire_of_def w' ex1 completed_def)
  show ?thesis
    by (rule kernel_step [OF inv adm sub px, where t = EV_READ, OF _ _ _ _ sv' lw]) (simp_all add: w' ex1 op_weight_def)
qed

text \<open>The end of the stream, once the last answer has been received.\<close>

lemma kernel_eof_step:
  assumes inv: "ring_inv_at srv mk stream dummy xs ys w" and adm: "admissible srv mk closes stream out dummy (xs @ ys @ rs_backlog w)"
    and sub: "submitted (u_ring (rs_ex w)) = es @ SqeRead fd d room (user_data EV_READ p) # fs" and p: "p < 2 ^ 56"
    and peer: "rs_peer w p = []" and closes: "closes p (wire_of w p)"
    and w': "w' = w\<lparr>rs_ex := completed (es @ fs) (rs_ex w), rs_cq := rs_cq w @ [eof_cqe p]\<rparr>"
  shows "ring_inv_at srv mk stream dummy xs ys w' \<and> less_work out (xs @ ys @ rs_backlog w) w' w"
proof
  let ?e = "SqeRead fd d room (user_data EV_READ p)"
  have mem: "?e \<in> set (entries (u_ring (rs_ex w)))" using sub by (simp add: entries_def)
  have px: "p \<in> snd ` set xs" using entry_owner [OF inv adm mem, of EV_READ p] p by simp
  then have sv: "served srv stream w p" and pa: "p \<in> snd ` set (xs @ ys @ rs_backlog w)" using inv by (auto simp: ring_inv_at_def)
  note one = read_ops_one [OF sv mem]
  have ent: "entries (u_ring (rs_ex w')) = es @ fs @ sq (u_ring (rs_ex w))" and cq: "rs_cq w' = rs_cq w @ [\<lparr>cqe_user_data = sqe_tag ?e, cqe_res = 0\<rparr>]"
    by (simp_all add: w' completed_def entries_def eof_cqe_def)
  have ops: "ops w' (user_data EV_WRITE p) = ops w (user_data EV_WRITE p)" "ops w' (user_data EV_READ p) = ([], [eof_cqe p])"
    using ops_completed(1) [OF sub ent cq, of "user_data EV_WRITE p"] ops_completed(2) [OF sub ent cq] one
    by (simp_all add: user_data_inject [OF p p] eof_cqe_def)
  from sv [unfolded served_def one] obtain c pc fed sent where c: "sessions (rs_ex w) p = Some \<lparr>s_conn = c, s_frame = Some pc\<rparr>" "this_ptr c = p" "\<not> is_dummy c" "ring_serving c"
    and str: "stream p = fed" and spec: "server_spec srv R_header_len 0 fed = (sent @ ob_pending (write_buf c), Waiting pc (ib_pos (read_buf c)) (ib_unread (read_buf c)))"
    and wr: "write_state p c sent (ops w (user_data EV_WRITE p))" unfolding peer
    by (auto simp: conn_state_defs read_state_def)
  from admissible_closes [OF adm pa closes] obtain pos where
    fin: "wire_of w p = out p" "snd (server_spec srv R_header_len 0 (stream p)) = Waiting R_header_len pos []" by blast
  note srv = admissible_ptr(4) [OF adm pa]
  have q: "wire (kern c) = sent @ ob_pending (write_buf c)" "pc = R_header_len" "ib_unread (read_buf c) = []"
    using fin srv spec str c(1) by (auto simp: wire_of_def servable_def)
  have "live_state srv (stream p) p (sessions (rs_ex w) p) [] ([], [eof_cqe p]) (ops w (user_data EV_WRITE p))"
    unfolding live_state_def using c q str spec wr
    by (intro exI [of _ c] exI [of _ pc] exI [of _ fed] exI [of _ "[]"] exI [of _ sent]) (simp add: read_state_def)
  then have sv': "served srv stream w' p"
    unfolding served_def ops conn_state_def by (simp add: w' completed_def peer)
  have w2: "w' = w\<lparr>rs_ex := completed (es @ fs) ((rs_ex w)\<lparr>sessions := (sessions (rs_ex w))(p \<mapsto> \<lparr>s_conn = c, s_frame = Some pc\<rparr>)\<rparr>), rs_peer := (rs_peer w)(p := []),
      rs_cq := rs_cq w @ [\<lparr>cqe_user_data = sqe_tag ?e, cqe_res = 0\<rparr>]\<rparr>"
    using fun_upd_idem [of "sessions (rs_ex w)" p, OF c(1)] fun_upd_idem [of "rs_peer w" p, OF peer] by (simp add: w' eof_cqe_def)
  show "ring_inv_at srv mk stream dummy xs ys w'"
    by (rule kernel_step_inv [OF inv adm sub px, where t = EV_READ, OF _ _ w2 sv']) simp_all
  have "(\<Sum>q \<in> snd ` set (xs @ ys @ rs_backlog w). conn_work out w' q) = (\<Sum>q \<in> snd ` set (xs @ ys @ rs_backlog w). conn_work out w q)"
    by (rule sum.cong) (simp_all add: conn_work_def wire_of_def w' completed_def)
  moreover have "sum_list (map op_weight (entries (u_ring (rs_ex w)))) = sum_list (map op_weight (entries (u_ring (rs_ex w')))) + 4"
    using sub ent by (simp add: entries_def op_weight_def)
  ultimately show "less_work out (xs @ ys @ rs_backlog w) w' w"
    unfolding less_work_def work_def by (simp add: w' completed_def cqe_weight_def eof_cqe_def)
qed

lemma kernel_write_step:
  assumes inv: "ring_inv_at srv mk stream dummy xs ys w" and adm: "admissible srv mk closes stream out dummy (xs @ ys @ rs_backlog w)"
    and sub: "submitted (u_ring (rs_ex w)) = es @ SqeWritev fd iovs (user_data EV_WRITE p) # fs" and p: "p < 2 ^ 56"
    and k: "kernel_sends p iovs (iov_bytes iovs) (rs_ex w) = Inr ex1"
    and w': "w' = w\<lparr>rs_ex := completed (es @ fs) ex1,
      rs_cq := rs_cq w @ [\<lparr>cqe_user_data = user_data EV_WRITE p, cqe_res = int (iov_bytes iovs)\<rparr>]\<rparr>"
  shows "ring_inv_at srv mk stream dummy xs ys w' \<and> less_work out (xs @ ys @ rs_backlog w) w' w"
proof -
  let ?e = "SqeWritev fd iovs (user_data EV_WRITE p)"
  have mem: "?e \<in> set (entries (u_ring (rs_ex w)))" using sub by (simp add: entries_def)
  have px: "p \<in> snd ` set xs" using entry_owner [OF inv adm mem, of EV_WRITE p] p by simp
  then have sv: "served srv stream w p" and pa: "p \<in> snd ` set (xs @ ys @ rs_backlog w)" using inv by (auto simp: ring_inv_at_def)
  note one = write_ops_one [OF sv mem]
  from conn_state_sends [of srv "stream p" p "rs_ex w" "rs_peer w p" "ops w (user_data EV_READ p)" fd iovs "user_data EV_WRITE p"]
  obtain s s0 where s: "kernel_sends p iovs (iov_bytes iovs) (rs_ex w) = Inr ((rs_ex w)\<lparr>sessions := (sessions (rs_ex w))(p \<mapsto> s)\<rparr>)"
    "conn_state srv (stream p) p (Some s) (rs_peer w p) (ops w (user_data EV_READ p)) ([], [\<lparr>cqe_user_data = user_data EV_WRITE p, cqe_res = int (iov_bytes iovs)\<rparr>])"
    "sessions (rs_ex w) p = Some s0" "length (wire (kern (s_conn s0))) < length (wire (kern (s_conn s)))"
    using sv one by (auto simp: served_def)
  from s(1) k have ex1: "ex1 = (rs_ex w)\<lparr>sessions := (sessions (rs_ex w))(p \<mapsto> s)\<rparr>" by simp
  have ent: "entries (u_ring (rs_ex w')) = es @ fs @ sq (u_ring (rs_ex w))" and cq: "rs_cq w' = rs_cq w @ [\<lparr>cqe_user_data = sqe_tag ?e, cqe_res = int (iov_bytes iovs)\<rparr>]"
    by (simp_all add: w' ex1 completed_def entries_def)
  have "ops w' (user_data EV_READ p) = ops w (user_data EV_READ p)"
    by (rule ops_completed(1) [OF sub ent cq]) (simp add: user_data_inject [OF p p])
  with s(2) ops_completed(2) [OF sub ent cq] one have sv': "served srv stream w' p"
    by (simp add: served_def w' ex1 completed_def)
  have "prefix (wire (kern (s_conn s))) (out p)"
    using conn_state_prefix [OF s(2) admissible_ptr(4) [OF adm pa]] by (metis option.inject)
  then have "length (wire (kern (s_conn s))) \<le> length (out p)" by (rule prefix_length_le)
  then have lw: "conn_work out w' p < conn_work out w p"
    using s(3,4) by (simp add: conn_work_def wire_of_def w' ex1 completed_def)
  show ?thesis
    by (rule kernel_step [OF inv adm sub px, where t = EV_WRITE and rest = "rs_peer w p", OF _ _ _ _ sv' lw]) (simp_all add: w' ex1 op_weight_def)
qed

lemma kernel_notify_step:
  assumes inv: "ring_inv_at srv mk stream dummy xs ys w" and adm: "admissible srv mk closes stream out dummy (xs @ ys @ rs_backlog w)"
    and sub: "submitted (u_ring (rs_ex w)) = es @ SqeWrite fd v ud # fs"
    and w': "w' = w\<lparr>rs_ex := completed (es @ fs) (rs_ex w), rs_cq := rs_cq w @ [\<lparr>cqe_user_data = ud, cqe_res = 8\<rparr>]\<rparr>"
  shows "ring_inv_at srv mk stream dummy xs ys w' \<and> less_work out (xs @ ys @ rs_backlog w) w' w"
proof
  let ?e = "SqeWrite fd v ud"
  have kn: "known_ops dummy (snd ` set xs) w" and ok: "executor_ok dummy (rs_ex w)" using inv by (simp_all add: ring_inv_at_def)
  have mem: "?e \<in> set (entries (u_ring (rs_ex w)))" using sub by (simp add: entries_def)
  have ud: "ud = user_data EV_WRITE dummy" using bspec [OF kn [unfolded known_ops_def, THEN conjunct1] mem] by auto
  have ent: "entries (u_ring (rs_ex w')) = es @ fs @ sq (u_ring (rs_ex w))" and cq: "rs_cq w' = rs_cq w @ [\<lparr>cqe_user_data = sqe_tag ?e, cqe_res = 8\<rparr>]"
    by (simp_all add: w' completed_def entries_def)
  have other: "ops w' (user_data u q) = ops w (user_data u q)" if "q \<in> snd ` set (xs @ ys @ rs_backlog w)" for u q
  proof (rule ops_completed(1) [OF sub ent cq])
    have "user_data u q \<noteq> user_data EV_WRITE dummy"
      using user_data_inject [OF admissible_ptr(2) [OF adm that] dummy_ptr(2) [OF adm]] admissible_ptr(3) [OF adm that] by simp
    then show "user_data u q \<noteq> sqe_tag ?e" by (simp add: ud)
  qed
  show "ring_inv_at srv mk stream dummy xs ys w'"
  proof (rule ring_inv_update [OF inv, where p = dummy])
    show "executor_ok dummy (rs_ex w')" using ok by (simp add: executor_ok_def w' completed_def)
    show "known_ops dummy (snd ` set xs) w'" by (rule known_ops_completed [OF kn sub ent cq])
  qed (use other dummy_ptr(3) [OF adm] in \<open>auto simp: untouched_def w' completed_def\<close>)
  have "(\<Sum>q \<in> snd ` set (xs @ ys @ rs_backlog w). conn_work out w' q) = (\<Sum>q \<in> snd ` set (xs @ ys @ rs_backlog w). conn_work out w q)"
    by (rule sum.cong) (simp_all add: conn_work_def wire_of_def w' completed_def)
  moreover have "sum_list (map op_weight (entries (u_ring (rs_ex w)))) = sum_list (map op_weight (entries (u_ring (rs_ex w')))) + 12"
    using sub ent by (simp add: entries_def op_weight_def)
  ultimately show "less_work out (xs @ ys @ rs_backlog w) w' w"
    unfolding less_work_def work_def by (simp add: w' completed_def cqe_weight_def)
qed


subsection \<open>The thread's steps\<close>

lemma thread_served_step:
  assumes inv: "ring_inv_at srv mk stream dummy xs ys w" and adm: "admissible srv mk closes stream out dummy (xs @ ys @ rs_backlog w)"
    and p: "p \<in> snd ` set xs" and cq: "rs_cq w = q # qs" and tag: "cqe_user_data q = user_data t p"
    and so: "served_on srv (stream p) p (rs_peer w p) (rs_ex w)
      (fst (ops w (user_data EV_READ p)), if t = EV_READ then tl (snd (ops w (user_data EV_READ p))) else snd (ops w (user_data EV_READ p)))
      (fst (ops w (user_data EV_WRITE p)), if t = EV_WRITE then tl (snd (ops w (user_data EV_WRITE p))) else snd (ops w (user_data EV_WRITE p))) new ex1"
    and w': "w' = w\<lparr>rs_ex := ex1, rs_cq := qs\<rparr>" and q0: "cqe_res q = 0 \<longrightarrow> new = []"
  shows "ring_inv_at srv mk stream dummy xs ys w' \<and> work out (xs @ ys @ rs_backlog w) w' + 3 \<le> work out (xs @ ys @ rs_backlog w) w"
proof
  note ptr = admissible_ptr [OF adm]
  have pa: "p \<in> snd ` set (xs @ ys @ rs_backlog w)" using p by auto
  from so obtain c' fr' s where ex1: "ex1 = uring_commit p c' fr' (rs_ex w)" and s: "sessions (rs_ex w) p = Some s" "wire (kern c') = wire (kern (s_conn s))"
    and ent: "entries (u_ring ex1) = entries (u_ring (rs_ex w)) @ new" and sqe: "sq_entries (u_ring ex1) = sq_entries (u_ring (rs_ex w))"
    and new: "length new \<le> 2" "\<forall>e \<in> set new. sqe_tag e \<in> {user_data EV_READ p, user_data EV_WRITE p} \<and> (\<forall>fd v ud. e \<noteq> SqeWrite fd v ud)"
    by (auto simp: served_on_def)
  have ent': "entries (u_ring (rs_ex w')) = entries (u_ring (rs_ex w)) @ new" and cq': "rs_cq w = q # rs_cq w'" using ent cq by (simp_all add: w')
  note ops = ops_thread [OF ent' cq', unfolded tag]
  note inj = user_data_inject [OF ptr(2) ptr(2)]
  have other: "ops w' (user_data u r) = ops w (user_data u r)" if "r \<in> snd ` set (xs @ ys @ rs_backlog w)" "r \<noteq> p" for u r
  proof -
    have "user_data u' p \<noteq> user_data u r" for u' using inj [OF pa that(1)] that(2) by simp
    then have "tagged (user_data u r) new = []" using new(2) by (auto simp: filter_empty_conv)
    then show ?thesis using \<open>\<And>u'. user_data u' p \<noteq> user_data u r\<close> by (simp add: ops)
  qed
  have kn: "known_ops dummy (snd ` set xs) w" and ok: "executor_ok dummy (rs_ex w)" using inv by (simp_all add: ring_inv_at_def)
  show "ring_inv_at srv mk stream dummy xs ys w'"
  proof (rule ring_inv_update [OF inv, where p = p])
    show "executor_ok dummy (rs_ex w')" using ok ptr(3) [OF pa] sqe by (simp add: executor_ok_def w' ex1 uring_commit_def)
    show "known_ops dummy (snd ` set xs) w'" by (rule known_ops_thread [OF kn ent']) (use cq' new(2) p in auto)
    show "p \<notin> snd ` set (ys @ rs_backlog w)" using adm p by (rule admissible_disjoint)
    have "rs_ex w' = ex1" "rs_peer w' = rs_peer w" by (simp_all add: w')
    then show "served srv stream w' p"
      using so by (auto simp: served_def served_on_def ops inj [OF pa pa])
  qed (use other in \<open>simp_all add: untouched_def w' ex1 uring_commit_def\<close>)
  have "conn_work out w' q = conn_work out w q" for q using s by (simp add: conn_work_def wire_of_def w' ex1 uring_commit_def)
  then have sum: "(\<Sum>q \<in> snd ` set (xs @ ys @ rs_backlog w). conn_work out w' q) = (\<Sum>q \<in> snd ` set (xs @ ys @ rs_backlog w). conn_work out w q)" by simp
  have "sum_list (map op_weight new) = 4 * length new" using new(2) by (intro op_weight_conn) blast
  with ent' have "sum_list (map op_weight (entries (u_ring (rs_ex w')))) + 3 \<le> sum_list (map op_weight (entries (u_ring (rs_ex w)))) + cqe_weight q"
    using new(1) q0 by (auto simp: cqe_weight_def)
  with sum cq' show "work out (xs @ ys @ rs_backlog w) w' + 3 \<le> work out (xs @ ys @ rs_backlog w) w"
    unfolding work_def by (simp add: w' ex1 uring_commit_def)
qed

lemma read_cqe_one:
  assumes "served srv stream w p" and "q \<in> set (rs_cq w)" and "cqe_user_data q = user_data EV_READ p"
  shows "ops w (user_data EV_READ p) = ([], [q])"
proof -
  have "q \<in> set (snd (ops w (user_data EV_READ p)))" using assms(2,3) by (simp add: ops_def)
  with assms(1) show ?thesis by (auto simp: served_def conn_state_defs read_state_def)
qed

lemma write_cqe_one:
  assumes "served srv stream w p" and "q \<in> set (rs_cq w)" and "cqe_user_data q = user_data EV_WRITE p"
  shows "ops w (user_data EV_WRITE p) = ([], [q])"
proof -
  have "q \<in> set (snd (ops w (user_data EV_WRITE p)))" using assms(2,3) by (simp add: ops_def)
  with assms(1) show ?thesis by (auto simp: served_def conn_state_defs write_state_def)
qed

text \<open>The next completion is always handled without a fault.\<close>

lemma thread_cqe_step:
  assumes inv: "ring_inv_at srv mk stream dummy xs ys w" and adm: "admissible srv mk closes stream out dummy (xs @ ys @ rs_backlog w)"
    and cq: "rs_cq w = q # qs"
  shows "\<exists>ex1. uring_handle (resume_read srv) q (rs_ex w) = Some (Inr ex1) \<and>
    ring_inv_at srv mk stream dummy xs ys (w\<lparr>rs_ex := ex1, rs_cq := qs\<rparr>) \<and>
    work out (xs @ ys @ rs_backlog w) (w\<lparr>rs_ex := ex1, rs_cq := qs\<rparr>) + 3 \<le> work out (xs @ ys @ rs_backlog w) w"
proof -
  have ok: "executor_ok dummy (rs_ex w)" and kn: "known_ops dummy (snd ` set xs) w" using inv by (simp_all add: ring_inv_at_def)
  have mem: "q \<in> set (rs_cq w)" using cq by simp
  show ?thesis
  proof (rule cqe_owner [OF inv adm mem])
    fix p t assume p: "p \<in> snd ` set xs" and t: "t = EV_READ \<or> t = EV_WRITE" and tag: "cqe_user_data q = user_data t p"
    have pa: "p \<in> snd ` set (xs @ ys @ rs_backlog w)" and sv: "served srv stream w p" using p inv by (auto simp: ring_inv_at_def)
    note ptr = admissible_ptr [OF adm pa]
    have r: "0 < sq_entries (u_ring (rs_ex w))" using ok by (simp add: executor_ok_def)
    from t have "\<exists>ex1 new. uring_handle (resume_read srv) q (rs_ex w) = Some (Inr ex1) \<and> served_on srv (stream p) p (rs_peer w p) (rs_ex w)
      (fst (ops w (user_data EV_READ p)), if t = EV_READ then tl (snd (ops w (user_data EV_READ p))) else snd (ops w (user_data EV_READ p)))
      (fst (ops w (user_data EV_WRITE p)), if t = EV_WRITE then tl (snd (ops w (user_data EV_WRITE p))) else snd (ops w (user_data EV_WRITE p))) new ex1 \<and> (cqe_res q = 0 \<longrightarrow> new = [])"
    proof
      assume t: "t = EV_READ"
      note one = read_cqe_one [OF sv mem tag [unfolded t]]
      show ?thesis
        using thread_read [of srv "stream p" p "rs_ex w" "rs_peer w p" q "ops w (user_data EV_WRITE p)", OF _ ptr(4,1,2) r] sv one t
        by (simp add: served_def)
    next
      assume t: "t = EV_WRITE"
      note one = write_cqe_one [OF sv mem tag [unfolded t]]
      show ?thesis
        using thread_write [of srv "stream p" p "rs_ex w" "rs_peer w p" "ops w (user_data EV_READ p)" q, OF _ ptr(4,1,2) r] sv one t
        by (auto simp: served_def)
    qed
    then show ?thesis using thread_served_step [OF inv adm p cq tag _ refl] by blast
  next
    assume tag: "cqe_user_data q = user_data EV_WRITE dummy"
    let ?w = "w\<lparr>rs_ex := (rs_ex w)\<lparr>should_notify := False\<rparr>, rs_cq := qs\<rparr>"
    obtain s where s: "sessions (rs_ex w) dummy = Some s" "is_dummy (s_conn s)" using ok by (auto simp: executor_ok_def)
    have h: "uring_handle (resume_read srv) q (rs_ex w) = Some (Inr ((rs_ex w)\<lparr>should_notify := False\<rparr>))"
      using s dummy_ptr(1,2) [OF adm] tag_parts(2) [OF dummy_ptr(2) [OF adm], of EV_WRITE] by (simp add: uring_handle_def Let_def tag)
    have ent: "entries (u_ring (rs_ex ?w)) = entries (u_ring (rs_ex w)) @ []" and cq': "rs_cq w = q # rs_cq ?w" using cq by simp_all
    have other: "ops ?w (user_data u r) = ops w (user_data u r)" if "r \<in> snd ` set (xs @ ys @ rs_backlog w)" for u r
      using user_data_inject [OF dummy_ptr(2) [OF adm] admissible_ptr(2) [OF adm that]] admissible_ptr(3) [OF adm that]
      by (auto simp: ops_thread [OF ent cq'] tag)
    have "ring_inv_at srv mk stream dummy xs ys ?w"
    proof (rule ring_inv_update [OF inv, where p = dummy])
      show "executor_ok dummy (rs_ex ?w)" using ok by (simp add: executor_ok_def)
      show "known_ops dummy (snd ` set xs) ?w" by (rule known_ops_thread [OF kn ent]) (use cq in auto)
    qed (use other dummy_ptr(3) [OF adm] in \<open>auto simp: untouched_def\<close>)
    moreover have "(\<Sum>q \<in> snd ` set (xs @ ys @ rs_backlog w). conn_work out ?w q) = (\<Sum>q \<in> snd ` set (xs @ ys @ rs_backlog w). conn_work out w q)"
      by (rule sum.cong) (simp_all add: conn_work_def wire_of_def)
    then have "work out (xs @ ys @ rs_backlog w) ?w + 3 \<le> work out (xs @ ys @ rs_backlog w) w" unfolding work_def using cq by (simp add: cqe_weight_def)
    ultimately show ?thesis using h by blast
  qed
qed


text \<open>The tasks: every accepted connection is started.\<close>

lemma ops_append:
  assumes "entries (u_ring (rs_ex w')) = entries (u_ring (rs_ex w)) @ new" and "rs_cq w' = rs_cq w"
  shows "ops w' ud = (fst (ops w ud) @ tagged ud new, snd (ops w ud))"
  using assms by (simp add: ops_def)

lemma start_step:
  assumes inv: "ring_inv_at srv mk stream dummy xs ((fd, p) # ys) w" and adm: "admissible srv mk closes stream out dummy (xs @ ((fd, p) # ys) @ rs_backlog w)"
  obtains ex1 where "drain (uring_run_task srv) (rs_ex w) = drain (uring_run_task srv) ex1"
    and "ring_inv_at srv mk stream dummy (xs @ [(fd, p)]) ys (w\<lparr>rs_ex := ex1\<rparr>)"
    and "work out (xs @ ((fd, p) # ys) @ rs_backlog w) (w\<lparr>rs_ex := ex1\<rparr>) < work out (xs @ ((fd, p) # ys) @ rs_backlog w) w"
proof -
  let ?as = "xs @ ((fd, p) # ys) @ rs_backlog w"
  have kn: "known_ops dummy (snd ` set xs) w" and ok: "executor_ok dummy (rs_ex w)" and us: "unserved stream w p"
    and sess: "sessions (rs_ex w) p = Some \<lparr>s_conn = mk fd p, s_frame = None\<rparr>"
    and tq: "task_queue (rs_ex w) = RunSend p # RunRecv p # start_tasks (map snd ys)"
    using inv by (simp_all add: ring_inv_at_def)
  have "(fd, p) \<in> set ?as" by simp
  note a = admissibleD [OF adm this]
  have r: "0 < sq_entries (u_ring (rs_ex w))" using ok by (simp add: executor_ok_def)
  from thread_starts [OF tq sess a(5,6,3) r] obtain ex1 new s where
    ex1: "drain (uring_run_task srv) (rs_ex w) = drain (uring_run_task srv) ex1" "task_queue ex1 = start_tasks (map snd ys)"
      "sessions ex1 = (sessions (rs_ex w))(p \<mapsto> s)" "stop_flag ex1 = stop_flag (rs_ex w)" "u_dummy ex1 = u_dummy (rs_ex w)"
      "entries (u_ring ex1) = entries (u_ring (rs_ex w)) @ new" "sq_entries (u_ring ex1) = sq_entries (u_ring (rs_ex w))"
    and new: "length new \<le> 2" "\<forall>e \<in> set new. sqe_tag e \<in> {user_data EV_READ p, user_data EV_WRITE p} \<and> (\<forall>fd v ud. e \<noteq> SqeWrite fd v ud)"
    and s: "wire (kern (s_conn s)) = []" "conn_state srv (stream p) p (Some s) (stream p) (tagged (user_data EV_READ p) new, []) (tagged (user_data EV_WRITE p) new, [])"
    by blast
  let ?w = "w\<lparr>rs_ex := ex1\<rparr>"
  have ent: "entries (u_ring (rs_ex ?w)) = entries (u_ring (rs_ex w)) @ new" and cq: "rs_cq ?w = rs_cq w" using ex1(6) by simp_all
  note ops = ops_append [OF ent cq]
  have pn: "p \<notin> snd ` set (ys @ rs_backlog w)" using adm by (auto simp: admissible_def)
  have "untouched w ?w q" if "q \<in> snd ` set (xs @ ((fd, p) # ys) @ rs_backlog w)" "q \<noteq> p" for q
  proof -
    have q: "q < 2 ^ 56" using that adm by (auto simp: admissible_def)
    have "tagged (user_data u q) new = []" for u using new(2) user_data_inject [OF a(3) q] that(2) by (auto simp: filter_empty_conv)
    with that(2) show ?thesis by (simp add: untouched_def ops ex1(3))
  qed
  then have "ring_inv_at srv mk stream dummy (xs @ [(fd, p)]) ys ?w"
  proof (rule ring_inv_change [OF inv])
    show "executor_ok dummy (rs_ex ?w)" using ok ex1 a(4) by (simp add: executor_ok_def)
    show "known_ops dummy (snd ` set (xs @ [(fd, p)])) ?w"
    proof (rule known_ops_thread [OF _ ent])
      show "known_ops dummy (snd ` set (xs @ [(fd, p)])) w" using kn unfolding known_ops_def by (simp add: bex_Un) blast
    qed (use new(2) in auto)
    show "served srv stream ?w p" using s(2) us by (simp add: served_def unserved_def ops ex1(3))
    show "fd' = fd \<and> sessions (rs_ex ?w) p = Some \<lparr>s_conn = mk fd p, s_frame = None\<rparr> \<and> unserved stream ?w p" if "(fd', p) \<in> set ys" for fd'
      using that pn by force
  qed (use ex1(2) pn in auto)
  moreover have "conn_work out ?w q = conn_work out w q" if "q \<in> snd ` set ?as" for q
  proof -
    have "wire (kern (mk fd p)) = []" using a(5) by (auto simp: fresh_ring_conn_def Connection_def)
    then show ?thesis using s(1) sess ex1(3) by (simp add: conn_work_def wire_of_def)
  qed
  then have "(\<Sum>q \<in> snd ` set ?as. conn_work out ?w q) = (\<Sum>q \<in> snd ` set ?as. conn_work out w q)" by (intro sum.cong refl)
  moreover have "sum_list (map op_weight new) = 4 * length new" using new(2) by (intro op_weight_conn) blast
  ultimately show thesis
    using that ex1(1,2,6) tq new(1) by (simp add: work_def)
qed

lemma drain_starts:
  assumes "ring_inv_at srv mk stream dummy xs ys w" and "admissible srv mk closes stream out dummy (xs @ ys @ rs_backlog w)"
  shows "\<exists>ex1. drain (uring_run_task srv) (rs_ex w) = Some (Inr ex1) \<and> ring_inv_at srv mk stream dummy (xs @ ys) [] (w\<lparr>rs_ex := ex1\<rparr>) \<and>
    work out (xs @ ys @ rs_backlog w) (w\<lparr>rs_ex := ex1\<rparr>) \<le> work out (xs @ ys @ rs_backlog w) w"
  using assms
proof (induction ys arbitrary: xs w)
  case Nil
  then show ?case by (intro exI [of _ "rs_ex w"]) (simp add: ring_inv_at_def drain_Nil)
next
  case (Cons a ys)
  obtain fd p where a: "a = (fd, p)" by fastforce
  from start_step [OF Cons.prems [unfolded a]] obtain ex1 where
    d: "drain (uring_run_task srv) (rs_ex w) = drain (uring_run_task srv) ex1"
    and i: "ring_inv_at srv mk stream dummy (xs @ [(fd, p)]) ys (w\<lparr>rs_ex := ex1\<rparr>)"
    and k: "work out (xs @ ((fd, p) # ys) @ rs_backlog w) (w\<lparr>rs_ex := ex1\<rparr>) < work out (xs @ ((fd, p) # ys) @ rs_backlog w) w" .
  have "admissible srv mk closes stream out dummy ((xs @ [(fd, p)]) @ ys @ rs_backlog (w\<lparr>rs_ex := ex1\<rparr>))" using Cons.prems(2) a by simp
  from Cons.IH [OF i this] d k show ?case by (auto simp: a)
qed

lemma thread_turn_step:
  assumes inv: "ring_inv_at srv mk stream dummy xs ys w" and adm: "admissible srv mk closes stream out dummy (xs @ ys @ rs_backlog w)"
  shows "\<exists>ex1. drain (uring_run_task srv) (rs_ex w) = Some (Inr ex1) \<and>
    (let w' = w\<lparr>rs_ex := ex1\<lparr>u_ring := io_uring_submit (u_ring ex1), should_notify := True\<rparr>\<rparr> in
     ring_inv_at srv mk stream dummy (xs @ ys) [] w' \<and> work out (xs @ ys @ rs_backlog w) w' \<le> work out (xs @ ys @ rs_backlog w) w)"
proof -
  from drain_starts [OF inv adm] obtain ex1 where d: "drain (uring_run_task srv) (rs_ex w) = Some (Inr ex1)"
    and i: "ring_inv_at srv mk stream dummy (xs @ ys) [] (w\<lparr>rs_ex := ex1\<rparr>)"
    and k: "work out (xs @ ys @ rs_backlog w) (w\<lparr>rs_ex := ex1\<rparr>) \<le> work out (xs @ ys @ rs_backlog w) w" by blast
  let ?w1 = "w\<lparr>rs_ex := ex1\<rparr>" and ?w' = "w\<lparr>rs_ex := ex1\<lparr>u_ring := io_uring_submit (u_ring ex1), should_notify := True\<rparr>\<rparr>"
  have same: "ops ?w' ud = ops ?w1 ud" for ud by (simp add: ops_def)
  have kn: "known_ops dummy (snd ` set (xs @ ys)) ?w1" and ok: "executor_ok dummy (rs_ex ?w1)" using i by (simp_all add: ring_inv_at_def)
  have "ring_inv_at srv mk stream dummy (xs @ ys) [] ?w'"
  proof (rule ring_inv_update [OF i, where p = dummy])
    show "executor_ok dummy (rs_ex ?w')" using ok by (simp add: executor_ok_def io_uring_submit_def)
    show "known_ops dummy (snd ` set (xs @ ys)) ?w'" using kn by (simp add: known_ops_def)
  qed (use dummy_ptr(3) [OF adm] same in \<open>auto simp: untouched_def\<close>)
  moreover have "work out (xs @ ys @ rs_backlog w) ?w' = work out (xs @ ys @ rs_backlog w) ?w1"
    by (simp add: work_def conn_work_def wire_of_def)
  ultimately show ?thesis using d k by (auto simp: Let_def)
qed

lemma handle_all_ok:
  assumes "ring_inv_at srv mk stream dummy xs ys w" and "admissible srv mk closes stream out dummy (xs @ ys @ rs_backlog w)"
  shows "\<exists>ex1. handle_all (uring_handle (resume_read srv)) (rs_cq w) (rs_ex w) = Some (Inr ex1)"
  using assms
proof (induction "rs_cq w" arbitrary: w)
  case (Cons q qs)
  from thread_cqe_step [OF Cons.prems Cons.hyps(2) [symmetric]] obtain ex1 where
    h: "uring_handle (resume_read srv) q (rs_ex w) = Some (Inr ex1)" "ring_inv_at srv mk stream dummy xs ys (w\<lparr>rs_ex := ex1, rs_cq := qs\<rparr>)" by blast
  from Cons.hyps(1) [OF _ h(2)] Cons.prems(2) h(1) show ?case by (simp flip: Cons.hyps(2))
qed simp

subsection \<open>Accepting\<close>

lemma uring_spawn_effect:
  assumes ok: "executor_ok dummy ex"
  shows "\<exists>ex1 new. uring_spawn t ex = Inr (True, ex1) \<and> task_queue ex1 = task_queue ex @ [t] \<and> sessions ex1 = sessions ex \<and>
    executor_ok dummy ex1 \<and> entries (u_ring ex1) = entries (u_ring ex) @ new \<and> length new \<le> 1 \<and>
    (\<forall>e \<in> set new. \<exists>fd v. e = SqeWrite fd v (user_data EV_WRITE dummy))"
proof (cases "should_notify ex")
  case True
  from ok obtain s where s: "sessions ex (u_dummy ex) = Some s" "0 < sq_entries (u_ring ex)" "u_dummy ex = dummy" by (auto simp: executor_ok_def)
  let ?e = "SqeWrite (sockfd (sock (s_conn s))) 1 (user_data EV_WRITE dummy)"
  from queue_sqe_ok [OF s(2)] obtain r where r: "queue_sqe (u_ring ex) ?e = Inr r" by blast
  let ?ex1 = "ex\<lparr>task_queue := task_queue ex @ [t], should_notify := False, u_ring := io_uring_submit r\<rparr>"
  have "uring_spawn t ex = Inr (True, ?ex1)" using True s r by (simp add: uring_spawn_def)
  with ok queue_sqe_entries [OF r] show ?thesis
    by (intro exI [of _ ?ex1] exI [of _ "[?e]"]) (simp add: executor_ok_def io_uring_submit_def entries_def)
next
  case False
  with ok show ?thesis
    by (intro exI [of _ "ex\<lparr>task_queue := task_queue ex @ [t]\<rparr>"] exI [of _ "[]"]) (simp add: uring_spawn_def executor_ok_def)
qed

lemma accept_effect:
  assumes ok: "executor_ok dummy ex" and fd: "fd \<noteq> -1" and p: "p \<noteq> dummy"
  shows "\<exists>ex1 new. uring_accept mk fd p ex = Inr ex1 \<and> task_queue ex1 = task_queue ex @ [RunSend p, RunRecv p] \<and>
    sessions ex1 = (sessions ex)(p \<mapsto> \<lparr>s_conn = mk fd p, s_frame = None\<rparr>) \<and> executor_ok dummy ex1 \<and>
    entries (u_ring ex1) = entries (u_ring ex) @ new \<and> length new \<le> 2 \<and>
    (\<forall>e \<in> set new. \<exists>fd v. e = SqeWrite fd v (user_data EV_WRITE dummy))"
proof -
  let ?ex0 = "ex\<lparr>sessions := (sessions ex)(p \<mapsto> \<lparr>s_conn = mk fd p, s_frame = None\<rparr>)\<rparr>"
  have "executor_ok dummy ?ex0" using ok p by (rule executor_ok_session)
  from uring_spawn_effect [OF this, of "RunSend p"] obtain ex1 n1 where
    1: "uring_spawn (RunSend p) ?ex0 = Inr (True, ex1)" "task_queue ex1 = task_queue ?ex0 @ [RunSend p]" "sessions ex1 = sessions ?ex0"
      "executor_ok dummy ex1" "entries (u_ring ex1) = entries (u_ring ?ex0) @ n1" "length n1 \<le> 1"
      "\<forall>e \<in> set n1. \<exists>fd v. e = SqeWrite fd v (user_data EV_WRITE dummy)" by blast
  from uring_spawn_effect [OF 1(4), of "RunRecv p"] obtain ex2 n2 where
    2: "uring_spawn (RunRecv p) ex1 = Inr (True, ex2)" "task_queue ex2 = task_queue ex1 @ [RunRecv p]" "sessions ex2 = sessions ex1"
      "executor_ok dummy ex2" "entries (u_ring ex2) = entries (u_ring ex1) @ n2" "length n2 \<le> 1"
      "\<forall>e \<in> set n2. \<exists>fd v. e = SqeWrite fd v (user_data EV_WRITE dummy)" by blast
  have "uring_accept mk fd p ex = Inr ex2" using 1(1) 2(1) fd by (simp add: uring_accept_def)
  moreover have "\<forall>e \<in> set (n1 @ n2). \<exists>fd v. e = SqeWrite fd v (user_data EV_WRITE dummy)"
    unfolding set_append ball_Un using 1(7) 2(7) by (rule conjI)
  ultimately show ?thesis
    using 1(2,3,5,6) 2(2-6) by (intro exI [of _ ex2] exI [of _ "n1 @ n2"]) simp
qed

lemma main_accept_step:
  assumes inv: "ring_inv_at srv mk stream dummy xs ys w" and adm: "admissible srv mk closes stream out dummy (xs @ ys @ rs_backlog w)"
    and bl: "rs_backlog w = (fd, p) # as"
  shows "\<exists>ex1. uring_accept mk fd p (rs_ex w) = Inr ex1 \<and>
    ring_inv_at srv mk stream dummy xs (ys @ [(fd, p)]) (w\<lparr>rs_ex := ex1, rs_backlog := as\<rparr>) \<and>
    less_work out (xs @ ys @ rs_backlog w) (w\<lparr>rs_ex := ex1, rs_backlog := as\<rparr>) w"
proof -
  have kn: "known_ops dummy (snd ` set xs) w" and ok: "executor_ok dummy (rs_ex w)" using inv by (simp_all add: ring_inv_at_def)
  have "(fd, p) \<in> set (xs @ ys @ rs_backlog w)" using bl by simp
  note a = admissibleD [OF adm this]
  from accept_effect [OF ok a(1,4)] obtain ex1 new where
    acc: "uring_accept mk fd p (rs_ex w) = Inr ex1" "task_queue ex1 = task_queue (rs_ex w) @ [RunSend p, RunRecv p]"
      "sessions ex1 = (sessions (rs_ex w))(p \<mapsto> \<lparr>s_conn = mk fd p, s_frame = None\<rparr>)" "executor_ok dummy ex1"
      "entries (u_ring ex1) = entries (u_ring (rs_ex w)) @ new"
    and new: "length new \<le> 2" "\<forall>e \<in> set new. \<exists>fd v. e = SqeWrite fd v (user_data EV_WRITE dummy)" by blast
  let ?w = "w\<lparr>rs_ex := ex1, rs_backlog := as\<rparr>"
  have ent: "entries (u_ring (rs_ex ?w)) = entries (u_ring (rs_ex w)) @ new" and cq: "rs_cq ?w = rs_cq w" using acc(5) by simp_all
  have same: "ops ?w (user_data u q) = ops w (user_data u q)" if "q \<in> snd ` set (xs @ ys @ rs_backlog w)" for u q
  proof -
    have "user_data u q \<noteq> user_data EV_WRITE dummy"
      using user_data_inject [OF admissible_ptr(2) [OF adm that] dummy_ptr(2) [OF adm]] admissible_ptr(3) [OF adm that] by simp
    then have "tagged (user_data u q) new = []" using new(2) by (fastforce simp: filter_empty_conv)
    then show ?thesis by (simp add: ops_append [OF ent cq])
  qed
  have un: "unserved stream w p" "sessions (rs_ex w) p = None" using inv bl by (simp_all add: ring_inv_at_def)
  have pb: "p \<notin> snd ` set (xs @ ys @ as)" using adm by (auto simp: admissible_def bl)
  have "untouched w ?w q" if "q \<in> snd ` set (xs @ ys @ rs_backlog w)" "q \<noteq> p" for q
    using same [OF that(1)] that(2) acc(3) by (simp add: untouched_def)
  then have "ring_inv_at srv mk stream dummy xs (ys @ [(fd, p)]) ?w"
  proof (rule ring_inv_change [OF inv])
    show "task_queue (rs_ex ?w) = start_tasks (map snd (ys @ [(fd, p)]))" using acc(2) inv by (simp add: ring_inv_at_def start_tasks_def)
    show "known_ops dummy (snd ` set xs) ?w" by (rule known_ops_thread [OF kn ent]) (use new(2) in auto)
    show "fd' = fd \<and> sessions (rs_ex ?w) p = Some \<lparr>s_conn = mk fd p, s_frame = None\<rparr> \<and> unserved stream ?w p"
      if "(fd', p) \<in> set (ys @ [(fd, p)])" for fd'
      using that pb un(1) acc(3) same [of p] bl by (force simp: unserved_def)
  qed (use acc(4) pb bl in auto)
  moreover have "conn_work out ?w q = conn_work out w q" for q
  proof -
    have "wire (kern (mk fd p)) = []" using a(5) by (auto simp: fresh_ring_conn_def Connection_def)
    then show ?thesis using un(2) acc(3) by (simp add: conn_work_def wire_of_def)
  qed
  then have "(\<Sum>q \<in> snd ` set (xs @ ys @ rs_backlog w). conn_work out ?w q) = (\<Sum>q \<in> snd ` set (xs @ ys @ rs_backlog w). conn_work out w q)" by simp
  moreover have "sum_list (map op_weight new) = 12 * length new" using new(2) by (rule op_weight_notify)
  ultimately show ?thesis
    using acc(1,2,5) bl new(1) by (intro exI [of _ ex1]) (simp add: less_work_def work_def)
qed


subsection \<open>The thread is woken\<close>

lemma wakes_completed:
  assumes "wakes w" and "rs_cq w' \<noteq> []" and "rs_thread w' = rs_thread w" and "sq (u_ring (rs_ex w')) = sq (u_ring (rs_ex w))"
    and "task_queue (rs_ex w') = task_queue (rs_ex w)" and "should_notify (rs_ex w') = should_notify (rs_ex w)"
  shows "wakes w'"
  using assms by (simp add: wakes_def)

lemma wakes_spawn:
  assumes w: "wakes w" and s: "uring_spawn t (rs_ex w) = Inr (b, ex1)"
  shows "wakes (w\<lparr>rs_ex := ex1\<rparr>)"
proof (cases "should_notify (rs_ex w)")
  case True
  with s obtain e r where r: "queue_sqe (u_ring (rs_ex w)) e = Inr r" "\<exists>fd v ud. e = SqeWrite fd v ud"
    and ex1: "ex1 = (rs_ex w)\<lparr>task_queue := task_queue (rs_ex w) @ [t], should_notify := False, u_ring := io_uring_submit r\<rparr>"
    by (auto simp: uring_spawn_def Let_def res_bind_eq_Inr split: option.splits)
  have "e \<in> set (entries r)" using queue_sqe_entries [OF r(1)] by simp
  then have "e \<in> set (submitted (u_ring ex1))" by (simp add: ex1 io_uring_submit_def entries_def)
  with r(2) show ?thesis by (auto simp: wakes_def ex1 io_uring_submit_def)
next
  case False
  with s have "ex1 = (rs_ex w)\<lparr>task_queue := task_queue (rs_ex w) @ [t]\<rparr>" by (auto simp: uring_spawn_def Let_def)
  with w False show ?thesis by (simp add: wakes_def)
qed

lemma wakes_accept:
  assumes w: "wakes w" and a: "uring_accept mk fd p (rs_ex w) = Inr ex1"
  shows "wakes (w\<lparr>rs_ex := ex1, rs_backlog := bl\<rparr>)"
proof (cases "fd = -1")
  case True
  with w a show ?thesis by (simp add: uring_accept_def wakes_def)
next
  case False
  let ?w = "w\<lparr>rs_ex := (rs_ex w)\<lparr>sessions := (sessions (rs_ex w))(p \<mapsto> \<lparr>s_conn = mk fd p, s_frame = None\<rparr>)\<rparr>\<rparr>"
  from a False obtain b b' ex2 where s: "uring_spawn (RunSend p) (rs_ex ?w) = Inr (b, ex2)" "uring_spawn (RunRecv p) ex2 = Inr (b', ex1)"
    by (auto simp: uring_accept_def res_bind_eq_Inr)
  have "wakes ?w" using w by (simp add: wakes_def)
  from wakes_spawn [OF this s(1)] have "wakes (w\<lparr>rs_ex := ex2\<rparr>)" by simp
  from wakes_spawn [OF this] s(2) show ?thesis by (simp add: wakes_def)
qed

text \<open>A step of the kernel leaves a completion, and of the executor only its connections are changed.\<close>

lemma kernel_memory:
  assumes "on_session p f ex = Inr ex1"
  shows "sq (u_ring (completed rest ex1)) = sq (u_ring ex)" "task_queue (completed rest ex1) = task_queue ex"
    "should_notify (completed rest ex1) = should_notify ex"
  using assms by (auto simp: on_session_def completed_def res_bind_eq_Inr split: option.splits)

end
