(* ===== verification/RingProperties.thy ===== *)
theory RingProperties
  imports RingSystem Progress
begin

section \<open>Properties of the server on a ring executor\<close>

text \<open>
  The steps of theory \<open>RingServer\<close> keep the invariant of theory \<open>RingSystem\<close> and use up work.
  From this follow the three properties: the executor never faults and sends nothing but the
  specified output, every run ends, and where it ends everything has been answered.
\<close>

lemma ring_step_inv:
  assumes adm: "admissible srv mk closes stream out dummy as" and inv: "ring_inv srv mk stream dummy as w" and step: "ring_step srv mk closes w w'"
  shows "ring_inv srv mk stream dummy as w' \<and> less_work out as w' w"
proof -
  from inv obtain xs ys where as: "as = xs @ ys @ rs_backlog w" and at: "ring_inv_at srv mk stream dummy xs ys w" by (auto simp: ring_inv_def)
  note adm' = adm [unfolded as]
  have keep: "ring_inv srv mk stream dummy as w' \<and> less_work out as w' w"
    if "ring_inv_at srv mk stream dummy xs ys w' \<and> less_work out (xs @ ys @ rs_backlog w) w' w" "rs_backlog w' = rs_backlog w" "wakes w'" for w'
    using that as unfolding ring_inv_def by metis
  note wk = inv [unfolded ring_inv_def, THEN conjunct1]
  from step show ?thesis
  proof cases
    case (kernel_read es fd d room p fs bs rest ex1)
    then have "wakes w'" using kernel_memory by (intro wakes_completed [OF wk]) (simp_all add: kernel_stores_def)
    then show ?thesis using kernel_read kernel_read_step [OF at adm' kernel_read(2-6,7) refl] by (intro keep) simp_all
  next
    case (kernel_eof es fd d room p fs)
    then have "wakes w'" by (intro wakes_completed [OF wk]) (simp_all add: completed_def)
    then show ?thesis using kernel_eof kernel_eof_step [OF at adm' kernel_eof(2-5) refl] by (intro keep) simp_all
  next
    case (kernel_write es fd iovs p fs ex1)
    then have "wakes w'" using kernel_memory by (intro wakes_completed [OF wk]) (simp_all add: kernel_sends_def)
    then show ?thesis using kernel_write kernel_write_step [OF at adm' kernel_write(2-4) refl] by (intro keep) simp_all
  next
    case (kernel_notify es fd v ud fs)
    then have "wakes w'" by (intro wakes_completed [OF wk]) (simp_all add: completed_def)
    then show ?thesis using kernel_notify kernel_notify_step [OF at adm' kernel_notify(2) refl] by (intro keep) simp_all
  next
    case (thread_cqe q qs ex1)
    with thread_cqe_step [OF at adm' thread_cqe(3)] have k: "ring_inv_at srv mk stream dummy xs ys (w\<lparr>rs_ex := ex1, rs_cq := qs\<rparr>)"
      "work out (xs @ ys @ rs_backlog w) (w\<lparr>rs_ex := ex1, rs_cq := qs\<rparr>) + 3 \<le> work out (xs @ ys @ rs_backlog w) w" by auto
    have w': "w' = w\<lparr>rs_ex := ex1, rs_cq := qs\<rparr>\<lparr>rs_thread := T_peek\<rparr>" using thread_cqe(1) by simp
    show ?thesis
    proof (intro keep conjI)
      show "ring_inv_at srv mk stream dummy xs ys w'" unfolding w' ring_inv_at_thread by (rule k(1))
      show "less_work out (xs @ ys @ rs_backlog w) w' w" unfolding less_work_def w' work_thread using k(2) by simp
    qed (simp_all add: w' wakes_def)
  next
    case (thread_turn ex1)
    let ?w = "w\<lparr>rs_ex := ex1\<lparr>u_ring := io_uring_submit (u_ring ex1), should_notify := True\<rparr>\<rparr>"
    have w': "w' = ?w\<lparr>rs_thread := T_wait\<rparr>" using thread_turn(1) by simp
    from thread_turn_step [OF at adm'] thread_turn(4) have k: "ring_inv_at srv mk stream dummy (xs @ ys) [] ?w" "work out as ?w \<le> work out as w"
      by (auto simp: Let_def as)
    have "task_queue ex1 = []" using k(1) by (simp add: ring_inv_at_def)
    then have "wakes w'" by (simp add: wakes_def w' io_uring_submit_def)
    moreover have "ring_inv_at srv mk stream dummy (xs @ ys) [] w'" unfolding w' ring_inv_at_thread by (rule k(1))
    moreover have "less_work out as w' w" unfolding less_work_def w' work_thread using k(2) thread_turn(2) by simp
    ultimately show ?thesis using as w' unfolding ring_inv_def by (intro conjI exI [of _ "xs @ ys"] exI [of _ "[]"]) simp_all
  next
    case thread_done
    then show ?thesis using at by (intro keep) (simp_all add: less_work_def wakes_def)
  next
    case (main_accept fd p bl ex1)
    with main_accept_step [OF at adm' main_accept(2)] have "ring_inv_at srv mk stream dummy xs (ys @ [(fd, p)]) w'" "less_work out as w' w"
      by (auto simp: as)
    moreover have "wakes w'" unfolding main_accept(1) by (rule wakes_accept [OF wk main_accept(3)])
    ultimately show ?thesis using as main_accept(1,2) unfolding ring_inv_def by (intro conjI exI [of _ xs] exI [of _ "ys @ [(fd, p)]"]) simp_all
  qed
qed

subsection \<open>Runs\<close>

text \<open>The system when the executor has been made and nothing has happened yet.\<close>

definition ring_start :: "connection \<Rightarrow> 64 word \<Rightarrow> (64 word \<Rightarrow> byte list) \<Rightarrow> (int \<times> 64 word) list \<Rightarrow> 'm ring_system" where
  "ring_start c dummy stream as = \<lparr>rs_ex = UringExecutor False dummy c, rs_thread = T_head, rs_cq = [], rs_peer = stream, rs_backlog = as\<rparr>"

lemma ring_start_inv:
  assumes "admissible srv mk closes stream out dummy as" and "is_dummy c"
  shows "ring_inv srv mk stream dummy as (ring_start c dummy stream as)"
proof -
  have "p \<noteq> dummy" if "p \<in> snd ` set as" for p using admissible_ptr(3) [OF assms(1) that] .
  then have "ring_inv_at srv mk stream dummy [] [] (ring_start c dummy stream as)"
    using assms(2) by (auto simp: ring_inv_at_def executor_ok_def ring_start_def UringExecutor_def MAX_RING_LEN_def unserved_def ops_def
        entries_def known_ops_def)
  then show ?thesis by (auto simp: ring_inv_def ring_start_def wakes_def)
qed

interpretation ring_run: ranked_system "ring_step srv mk closes"
    "\<lambda>w. admissible srv mk closes stream out dummy as \<and> ring_inv srv mk stream dummy as w" "\<lambda>w. work out as w + thread_weight (rs_thread w)"
  for srv mk closes stream out dummy as
  by unfold_locales (use ring_step_inv less_work_def in blast)+

lemma ring_reachable_inv:
  assumes "admissible srv mk closes stream out dummy as" and "is_dummy c"
    and "(ring_step srv mk closes)\<^sup>*\<^sup>* (ring_start c dummy stream as) w"
  shows "ring_inv srv mk stream dummy as w"
  using ring_run.steps_inv [OF assms(3), of stream out dummy as] assms(1) ring_start_inv [OF assms(1,2)] by blast

text \<open>A state in which nothing can happen: the thread waits, and has nothing to run, to submit or to handle.\<close>

lemma ring_idle:
  assumes adm: "admissible srv mk closes stream out dummy as" and inv: "ring_inv srv mk stream dummy as w" and stuck: "\<not> (\<exists>w'. ring_step srv mk closes w w')"
  shows "ring_inv_at srv mk stream dummy as [] w" and "rs_cq w = []" and "entries (u_ring (rs_ex w)) = submitted (u_ring (rs_ex w))"
proof -
  from inv obtain xs ys where as: "as = xs @ ys @ rs_backlog w" and at: "ring_inv_at srv mk stream dummy xs ys w" by (auto simp: ring_inv_def)
  note adm' = adm [unfolded as]
  have bl: "rs_backlog w = []"
  proof (rule ccontr)
    assume "rs_backlog w \<noteq> []"
    then obtain fd q bl where b: "rs_backlog w = (fd, q) # bl" by (cases "rs_backlog w") auto
    from main_accept_step [OF at adm' b] ring_step.main_accept [OF b, of mk _ srv closes] stuck show False by blast
  qed
  have ok: "\<not> stop_flag (rs_ex w)" using at by (simp add: ring_inv_at_def executor_ok_def)
  have nt: "rs_thread w \<noteq> T_head"
    using thread_turn_step [OF at adm'] ring_step.thread_turn [OF _ ok, of srv _ mk closes] stuck by blast
  show cq: "rs_cq w = []"
  proof (rule ccontr)
    assume "rs_cq w \<noteq> []"
    then obtain q qs where q: "rs_cq w = q # qs" by (cases "rs_cq w") auto
    from thread_cqe_step [OF at adm' q] ring_step.thread_cqe [OF nt q, of srv _ mk closes] stuck show False by blast
  qed
  then have "rs_thread w \<noteq> T_peek" using ring_step.thread_done [of w srv mk closes] stuck by blast
  with nt have "rs_thread w = T_wait" by (cases "rs_thread w") simp_all
  moreover have "SqeWrite fd v ud \<notin> set (submitted (u_ring (rs_ex w)))" for fd v ud
  proof
    assume "SqeWrite fd v ud \<in> set (submitted (u_ring (rs_ex w)))"
    then obtain es fs where "submitted (u_ring (rs_ex w)) = es @ SqeWrite fd v ud # fs" by (auto simp: in_set_conv_decomp)
    from ring_step.kernel_notify [OF this, of srv mk closes] stuck show False by blast
  qed
  ultimately have idle: "task_queue (rs_ex w) = [] \<and> sq (u_ring (rs_ex w)) = []"
    using inv cq by (auto simp: ring_inv_def wakes_def)
  then have "start_tasks (map snd ys) = []" using at by (simp add: ring_inv_at_def)
  then have "ys = []" by (cases ys) simp_all
  with at as bl show "ring_inv_at srv mk stream dummy as [] w" by simp
  show "entries (u_ring (rs_ex w)) = submitted (u_ring (rs_ex w))" using idle by (simp add: entries_def)
qed

lemma op_submitted:
  assumes "ops w ud = ([e], [])" and "entries (u_ring (rs_ex w)) = submitted (u_ring (rs_ex w))"
  obtains es fs where "submitted (u_ring (rs_ex w)) = es @ e # fs"
proof -
  have "e \<in> set (submitted (u_ring (rs_ex w)))" using assms by (auto simp: ops_def filter_eq_Cons_iff)
  with that show thesis by (auto simp: in_set_conv_decomp)
qed

text \<open>A connection that is still served then has been answered, and its peer has not closed it.\<close>

lemma live_end:
  assumes live: "live_state srv (stream p) p (sessions (rs_ex w) p) (rs_peer w p) (ops w (user_data EV_READ p)) (ops w (user_data EV_WRITE p))"
    and srv: "servable srv (stream p) (out p)" and p: "p < 2 ^ 56" and stuck: "\<not> (\<exists>w'. ring_step srv mk closes w w')"
    and idle: "rs_cq w = []" "entries (u_ring (rs_ex w)) = submitted (u_ring (rs_ex w))"
  shows "rs_peer w p = [] \<and> wire_of w p = out p \<and> \<not> closes p (out p)"
proof -
  from live obtain c pc fed stored sent where c: "sessions (rs_ex w) p = Some \<lparr>s_conn = c, s_frame = Some pc\<rparr>" "ring_serving c"
    and str: "stream p = fed @ stored @ rs_peer w p"
    and spec: "server_spec srv R_header_len 0 fed = (sent @ ob_pending (write_buf c), Waiting pc (ib_pos (read_buf c)) (ib_unread (read_buf c)))"
    and rd: "read_state p c stored (ops w (user_data EV_READ p))" and wr: "write_state p c sent (ops w (user_data EV_WRITE p))"
    unfolding live_state_def by blast
  have cs: "conn_state srv (stream p) p (sessions (rs_ex w) p) (rs_peer w p) (ops w (user_data EV_READ p)) (ops w (user_data EV_WRITE p))"
    using live by (simp add: conn_state_def)
  have none: "snd (ops w ud) = []" for ud using idle(1) by (simp add: ops_def)
  from rd none [of "user_data EV_READ p"] obtain d room where gb: "get_buffer (read_buf c) = Inr (d, room)" "stored = []"
    and one: "ops w (user_data EV_READ p) = ([SqeRead (sockfd (sock c)) d room (user_data EV_READ p)], [])"
    by (auto simp: read_state_def)
  obtain es fs where sub: "submitted (u_ring (rs_ex w)) = es @ SqeRead (sockfd (sock c)) d room (user_data EV_READ p) # fs"
    by (rule op_submitted [OF one idle(2)])
  have peer: "rs_peer w p = []"
  proof (rule ccontr)
    assume "rs_peer w p \<noteq> []"
    then obtain b rest where b: "rs_peer w p = [b] @ rest" by (cases "rs_peer w p") auto
    have "0 < room" using get_buffer_ok [of "read_buf c"] gb(1) ring_serving_facts(2) [OF c(2)]
      by (metis Inr_inject conn_inv_facts(1) prod.inject)
    then have room: "int (length [b]) \<le> room" by simp
    from conn_state_stores [OF _ srv, of p "rs_ex w" "[b]" rest _ d room] cs [unfolded one b] room
    obtain ex1 where "kernel_stores p d [b] (rs_ex w) = Inr ex1" by blast
    with ring_step.kernel_read [OF sub p b _ room, of ex1 srv mk closes] stuck show False by blast
  qed
  have bl0: "back_left c = 0"
  proof (rule ccontr)
    assume "back_left c \<noteq> 0"
    with wr none [of "user_data EV_WRITE p"] have o: "ops w (user_data EV_WRITE p) = ([SqeWritev (sockfd (sock c)) (ioves c) (user_data EV_WRITE p)], [])"
      by (auto simp: write_state_def)
    obtain es fs where sub: "submitted (u_ring (rs_ex w)) = es @ SqeWritev (sockfd (sock c)) (ioves c) (user_data EV_WRITE p) # fs"
      by (rule op_submitted [OF o idle(2)])
    from conn_state_sends [of srv "stream p" p "rs_ex w"] cs [unfolded o]
    obtain ex1 where "kernel_sends p (ioves c) (iov_bytes (ioves c)) (rs_ex w) = Inr ex1" by blast
    with ring_step.kernel_write [OF sub p, of ex1 srv mk closes] stuck show False by blast
  qed
  have "ob_bytes (write_buf c) = 0" using ring_serving_facts(5) [OF c(2)] bl0 by (simp add: drained_def)
  then have "ob_pending (write_buf c) = []"
    using conn_inv_facts(2) [OF ring_serving_facts(2) [OF c(2)]] by (simp add: ob_inv_def ob_bytes_def)
  moreover have "wire (kern c) = sent" using wr bl0 by (simp add: write_state_def)
  moreover have "fst (server_spec srv R_header_len 0 fed) = out p" using srv str gb(2) peer by (auto simp: servable_def)
  ultimately have wire: "wire_of w p = out p" using c(1) spec by (simp add: wire_of_def)
  have "\<not> closes p (out p)" using ring_step.kernel_eof [OF sub p peer, of closes srv mk] stuck wire by metis
  with peer wire show ?thesis by blast
qed

lemma ring_end:
  assumes adm: "admissible srv mk closes stream out dummy as" and inv: "ring_inv srv mk stream dummy as w" and stuck: "\<not> (\<exists>w'. ring_step srv mk closes w w')"
    and p: "p \<in> snd ` set as"
  shows "rs_peer w p = [] \<and> wire_of w p = out p \<and> (closes p (out p) \<longrightarrow>
    (\<exists>c. sessions (rs_ex w) p = Some \<lparr>s_conn = c, s_frame = None\<rparr> \<and> conn_closed c \<and> send_frame c = S_done))"
proof -
  note idle = ring_idle [OF adm inv stuck]
  note ptr = admissible_ptr [OF adm p]
  have "served srv stream w p" using idle(1) p by (auto simp: ring_inv_at_def)
  then consider "live_state srv (stream p) p (sessions (rs_ex w) p) (rs_peer w p) (ops w (user_data EV_READ p)) (ops w (user_data EV_WRITE p))"
    | "ended_state srv (stream p) p (sessions (rs_ex w) p) (rs_peer w p) (ops w (user_data EV_READ p)) (ops w (user_data EV_WRITE p))"
    unfolding served_def conn_state_def by blast
  then show ?thesis
  proof cases
    case 1
    from live_end [where stream = stream and out = out, OF 1 ptr(4,2) stuck idle(2,3)] show ?thesis by blast
  next
    case 2
    moreover have "snd (ops w (user_data EV_WRITE p)) = []" using idle(2) by (simp add: ops_def)
    ultimately show ?thesis using ptr(4) by (auto simp: ended_state_def wire_of_def servable_def)
  qed
qed

subsection \<open>Properties\<close>

text \<open>For the witnesses: two connections with one request each to the echo server.\<close>

definition ring_mk :: "int \<Rightarrow> 64 word \<Rightarrow> connection" where
  "ring_mk fd p = Connection UringConnection
     (Socket (\<lambda>_. (0, 0)) (\<lambda>_. (0, 0)) (\<lambda>_. []) \<lparr>rx = [], tx = [], wire = [], shut_wr = False\<rparr> fd)
     False p \<lparr>sq_entries = 16384, sq = [], submitted = []\<rparr> (\<lambda>_ _. 0)"

definition ring_requests :: "64 word \<Rightarrow> byte list" where
  "ring_requests p = [1, 0, 0, 0, 1, 1, 0, 0, 0, if p = 16 then 5 else 6]"

definition ring_answers :: "64 word \<Rightarrow> byte list" where
  "ring_answers p = frame [7] @ frame [0, if p = 16 then 5 else 6]"

definition ring_closes :: "64 word \<Rightarrow> byte list \<Rightarrow> bool" where
  "ring_closes p bs \<longleftrightarrow> p = 16 \<and> bs = ring_answers 16"

lemma ring_example_admissible:
  "admissible echo_server ring_mk ring_closes ring_requests ring_answers 8 [(5, 16), (6, 32)]"
proof -
  have "fresh_ring_conn p (ring_mk fd p)" for fd p
    unfolding fresh_ring_conn_def ring_mk_def
    by (rule exI, rule exI, rule exI, rule conjI, rule refl) (simp add: Socket_def Let_def)
  moreover have "servable echo_server (ring_requests p) (ring_answers p)" for p
    by (auto simp: servable_def ring_requests_def ring_answers_def example_spec frame_def)
  moreover have "snd (server_spec echo_server R_header_len 0 (ring_requests p)) = Waiting R_header_len 10 []" for p
    by (simp add: ring_requests_def example_spec)
  ultimately show ?thesis by (simp add: admissible_def ring_closes_def)
qed

lemma ring_dummy: "is_dummy ((ring_mk 3 8)\<lparr>is_dummy := True\<rparr>)"
  by simp

text \<open>
  C6. The server on a ring executor is safe: however the kernel orders and divides its
  completions and however the accepted connections, the tasks and the completions interleave, a
  turn of the executor's loop returns without a fault, and what each peer has received is a
  prefix of what the specification of the server says it must be sent. The kernel of \<open>ring_step\<close>
  completes writes in full and reports no errors, and draining the tasks, submitting and arming
  the notification are one step, as is the acceptance of a connection.
\<close>

theorem ring_server_safe:
  assumes "admissible srv mk closes stream out dummy as" and "is_dummy c"
    and "(ring_step srv mk closes)\<^sup>*\<^sup>* (ring_start c dummy stream as) w"
  shows "(\<exists>ex'. uring_turn (resume_read srv) (uring_run_task srv) (rs_cq w) (rs_ex w) = Some (Inr ex')) \<and>
    (\<forall>(fd, p) \<in> set as. prefix (wire_of w p) (out p))"
proof
  from ring_reachable_inv [OF assms] obtain xs ys where as: "as = xs @ ys @ rs_backlog w"
    and at: "ring_inv_at srv mk stream dummy xs ys w" by (auto simp: ring_inv_def)
  note adm = assms(1) [unfolded as]
  from thread_turn_step [OF at adm] obtain ex1 where d: "drain (uring_run_task srv) (rs_ex w) = Some (Inr ex1)"
    and i: "ring_inv_at srv mk stream dummy (xs @ ys) [] (w\<lparr>rs_ex := ex1\<lparr>u_ring := io_uring_submit (u_ring ex1), should_notify := True\<rparr>\<rparr>)"
    by (auto simp: Let_def)
  from handle_all_ok [OF i, of closes out] adm d
  show "\<exists>ex'. uring_turn (resume_read srv) (uring_run_task srv) (rs_cq w) (rs_ex w) = Some (Inr ex')"
    by (auto simp: uring_turn_def Let_def)
  show "\<forall>(fd, p) \<in> set as. prefix (wire_of w p) (out p)"
  proof (clarify)
    fix fd p assume p: "(fd, p) \<in> set as"
    note a = admissibleD [OF assms(1) p]
    consider "p \<in> snd ` set xs" | "(fd, p) \<in> set ys" | "(fd, p) \<in> set (rs_backlog w)" using p as by force
    then show "prefix (wire_of w p) (out p)"
    proof cases
      case 1
      then have "served srv stream w p" using at by (auto simp: ring_inv_at_def)
      then have cs: "conn_state srv (stream p) p (sessions (rs_ex w) p) (rs_peer w p) (ops w (user_data EV_READ p)) (ops w (user_data EV_WRITE p))"
        by (simp add: served_def)
      show ?thesis by (rule conn_state_prefix [OF cs a(6)]) (simp add: wire_of_def)
    next
      case 2
      then have "sessions (rs_ex w) p = Some \<lparr>s_conn = mk fd p, s_frame = None\<rparr>" using at by (auto simp: ring_inv_at_def)
      then show ?thesis using a(5) by (auto simp: wire_of_def fresh_ring_conn_def Connection_def)
    next
      case 3
      then have "sessions (rs_ex w) p = None" using at by (force simp: ring_inv_at_def)
      then show ?thesis by (simp add: wire_of_def)
    qed
  qed
qed

theorem ring_server_safe_witness:
  "\<exists>w ex'. w = ring_start ((ring_mk 3 8)\<lparr>is_dummy := True\<rparr>) 8 ring_requests [(5, 16), (6, 32)] \<and>
     uring_turn (resume_read echo_server) (uring_run_task echo_server) (rs_cq w) (rs_ex w) = Some (Inr ex')"
  using ring_server_safe [OF ring_example_admissible ring_dummy rtranclp.rtrancl_refl] by blast

text \<open>
  C9. Every run of the server on a ring executor with finitely many connections ends: the
  kernel, the thread and the main thread cannot go on for ever answering finite requests.
\<close>

theorem ring_server_terminates:
  assumes "admissible srv mk closes stream out dummy as" and "is_dummy c"
  shows "\<nexists>run. run 0 = ring_start c dummy stream as \<and> (\<forall>i. ring_step srv mk closes (run i) (run (Suc i)))"
  by (rule ring_run.no_infinite_run [of _ _ _ stream out dummy as]) (use assms ring_start_inv [OF assms] in blast)

theorem ring_server_terminates_witness:
  "\<nexists>run. run 0 = ring_start ((ring_mk 3 8)\<lparr>is_dummy := True\<rparr>) 8 ring_requests [(5, 16), (6, 32)] \<and>
     (\<forall>i. ring_step echo_server ring_mk ring_closes (run i) (run (Suc i)))"
  by (rule ring_server_terminates [OF ring_example_admissible ring_dummy])

text \<open>
  C5. The server on a ring executor answers everything: when nothing can happen any more, every
  byte of every peer has been read and every peer has received exactly the output the
  specification demands; and the connection of a peer that closed it after its last answer is
  closed, with both coroutines at their end. As above the kernel completes writes in full, and
  no wakeup is lost because a turn of the thread up to its wait is one step.
\<close>

theorem ring_server_answers_all:
  assumes "admissible srv mk closes stream out dummy as" and "is_dummy c"
    and "(ring_step srv mk closes)\<^sup>*\<^sup>* (ring_start c dummy stream as) w" and "\<not> (\<exists>w'. ring_step srv mk closes w w')"
  shows "\<forall>(fd, p) \<in> set as. rs_peer w p = [] \<and> wire_of w p = out p \<and> (closes p (out p) \<longrightarrow>
    (\<exists>c. sessions (rs_ex w) p = Some \<lparr>s_conn = c, s_frame = None\<rparr> \<and> conn_closed c \<and> send_frame c = S_done))"
proof -
  have "rs_peer w p = [] \<and> wire_of w p = out p \<and> (closes p (out p) \<longrightarrow>
      (\<exists>c. sessions (rs_ex w) p = Some \<lparr>s_conn = c, s_frame = None\<rparr> \<and> conn_closed c \<and> send_frame c = S_done))"
    if "p \<in> snd ` set as" for p
    using that by (rule ring_end [OF assms(1) ring_reachable_inv [OF assms(1-3)] assms(4)])
  then show ?thesis by force
qed

theorem ring_server_answers_all_witness:
  "\<exists>w. (ring_step echo_server ring_mk ring_closes)\<^sup>*\<^sup>* (ring_start ((ring_mk 3 8)\<lparr>is_dummy := True\<rparr>) 8 ring_requests [(5, 16), (6, 32)]) w \<and>
     wire_of w 16 = frame [7] @ frame [0, 5] \<and> wire_of w 32 = frame [7] @ frame [0, 6] \<and>
     (\<exists>c. sessions (rs_ex w) 16 = Some \<lparr>s_conn = c, s_frame = None\<rparr> \<and> conn_closed c)"
proof -
  from ring_run.reaches_end [OF conjI [OF ring_example_admissible ring_start_inv [OF ring_example_admissible ring_dummy]]] obtain w where
    w: "(ring_step echo_server ring_mk ring_closes)\<^sup>*\<^sup>* (ring_start ((ring_mk 3 8)\<lparr>is_dummy := True\<rparr>) 8 ring_requests [(5, 16), (6, 32)]) w"
      "\<not> (\<exists>w'. ring_step echo_server ring_mk ring_closes w w')" by blast
  from ring_server_answers_all [OF ring_example_admissible ring_dummy w] w(1) show ?thesis
    by (intro exI [of _ w]) (auto simp: ring_answers_def ring_closes_def)
qed

text \<open>
  The loop that reads a request body does not look at \<open>closed()\<close>, and \<open>ReadAwaiter\<close> does not suspend
  on a closed connection.
\<close>

lemma closed_body_loop:
  assumes "conn_closed c" and "kind c = UringConnection" and "0 < sq_entries (uring c)" and "ib_inv (read_buf c)"
    and "length (ib_unread (read_buf c)) < unat len"
  shows "recv_run srv (R_request h len service method) c = None"
proof (rule ccontr)
  let ?pc = "R_request h len service method"
  let ?P = "\<lambda>c. conn_closed c \<and> kind c = UringConnection \<and> 0 < sq_entries (uring c) \<and> ib_inv (read_buf c) \<and>
    length (ib_unread (read_buf c)) < unat len"
  have step: "\<exists>c'. recv_step srv ?pc c = Some (Inr (Goto ?pc, c')) \<and> ?P c'" if c: "?P c" for c
  proof -
    obtain d room where gb: "get_buffer (read_buf c) = Inr (d, room)" using get_buffer_ok [of "read_buf c"] c by metis
    from queue_sqe_ok [of "uring c" "SqeRead (sockfd (sock c)) d room (user_data EV_READ (this_ptr c))"] c obtain r where
      r: "queue_sqe (uring c) (SqeRead (sockfd (sock c)) d room (user_data EV_READ (this_ptr c))) = Inr r" "sq_entries r = sq_entries (uring c)" by metis
    let ?c' = "add_event EV_DELETE (c\<lparr>uring := r\<rparr>)"
    have "await_read c = Some (Inr (False, ?c'))"
      using c gb r(1) by (simp add: await_read_def async_read_def uring_async_read_def Read_suspend_def conn_closed_def)
    moreover have "conn_read_bytes c < ucast len"
      using c by (simp add: conn_read_bytes_def ib_bytes_def ib_inv_def word_less_nat_alt unat_ucast_len)
    ultimately have "recv_step srv ?pc c = Some (Inr (Goto ?pc, ?c'))" by (simp add: recv_step.simps read_more_def)
    moreover have "?P ?c'" using c r(2) by (simp add: add_event_def conn_closed_def)
    ultimately show ?thesis by blast
  qed
  assume "recv_run srv ?pc c \<noteq> None"
  then obtain y where ret: "run_coroutine (recv_step srv) recv_finish ?pc c = Some y" by (auto simp: recv_run_def)
  have "recv_step srv = recv_step srv \<longrightarrow> ?pc = ?pc \<longrightarrow> \<not> ?P c"
  proof (rule run_coroutine.raw_induct [where P = "\<lambda>st fin pc s r. st = recv_step srv \<longrightarrow> pc = ?pc \<longrightarrow> \<not> ?P s", OF _ ret],
      intro impI notI)
    fix f st fin pc s r
    assume IH: "\<And>st fin pc s r. f st fin pc s = Some r \<Longrightarrow> st = recv_step srv \<longrightarrow> pc = ?pc \<longrightarrow> \<not> ?P s"
      and body: "(case st pc s of None \<Rightarrow> None | Some (Inl e) \<Rightarrow> Some (Inl e)
        | Some (Inr (ctl, s')) \<Rightarrow> (case ctl of Goto pc' \<Rightarrow> f st fin pc' s' | Suspend pc' \<Rightarrow> Some (Inr (Some pc', s'))
          | Break \<Rightarrow> Some (Inr (None, fin s')))) = Some r" and st: "st = recv_step srv" "pc = ?pc" and P: "?P s"
    from step [OF P] obtain c' where c': "recv_step srv ?pc s = Some (Inr (Goto ?pc, c'))" "?P c'" by blast
    with body st have "f st fin ?pc c' = Some r" by simp
    from IH [OF this] st c'(2) show False by blast
  qed
  with assms show False by blast
qed

text \<open>
  C39. The end of the stream inside a request body hangs a ring executor: the reading coroutine
  queues reads on the closed connection without end, so that the handling of this completion
  does not return and no other connection is served any more.
\<close>

theorem eof_in_request_hangs_executor:
  assumes "sessions ex p = Some \<lparr>s_conn = c, s_frame = Some (R_request h len service method)\<rparr>" and "ring_serving c" and "\<not> is_dummy c"
    and "p \<noteq> 0" and "p < 2 ^ 56" and "0 < sq_entries (u_ring ex)" and "length (ib_unread (read_buf c)) < unat len"
  shows "uring_handle (resume_read srv) \<lparr>cqe_user_data = user_data EV_READ p, cqe_res = 0\<rparr> ex = None"
proof -
  let ?c = "c\<lparr>uring := u_ring ex\<rparr>"
  have rs: "ring_serving ?c" using assms(2,6) by (rule ring_serving_ring)
  note f = conn_inv_facts [OF ring_serving_facts(2) [OF rs]] and k = ring_serving_facts(4) [OF rs]
  have bl: "back_left (conn_close ?c) = back_left c" by (simp add: conn_close_def)
  have "\<exists>fr. uring_read_done 0 (with_ring ex \<lparr>s_conn = c, s_frame = Some (R_request h len service method)\<rparr>)
      = Some (Inr ((conn_close ?c)\<lparr>send_frame := fr\<rparr>))"
  proof (cases "back_left c = 0")
    case True
    with writer_ends [OF rs] have "resume_write (conn_close ?c) = Some (Inr ((conn_close ?c)\<lparr>send_frame := S_done\<rparr>))" by auto
    with True bl show ?thesis by (intro exI [of _ S_done]) (simp add: uring_read_done_def with_ring_def Let_def)
  next
    case False
    with bl show ?thesis by (intro exI [of _ "send_frame (conn_close ?c)"]) (simp add: uring_read_done_def with_ring_def Let_def)
  qed
  then obtain fr where d: "uring_read_done 0 (with_ring ex \<lparr>s_conn = c, s_frame = Some (R_request h len service method)\<rparr>)
      = Some (Inr ((conn_close ?c)\<lparr>send_frame := fr\<rparr>))" by blast
  let ?c' = "(conn_close ?c)\<lparr>send_frame := fr\<rparr>"
  have g: "conn_closed ?c'" "kind ?c' = UringConnection" "uring ?c' = u_ring ex" "read_buf ?c' = read_buf c" "read_handle ?c'"
    using f k by (simp_all add: conn_close_def conn_closed_def socket_close_def)
  have "recv_run srv (R_request h len service method) ?c' = None"
    by (rule closed_body_loop) (use assms(6,7) f(1) g in simp_all)
  then have "resume_read srv (Some (R_request h len service method)) ?c' = None"
    using g(5) by (simp add: resume_read_def resume_coroutine_def recv_run_def)
  then show ?thesis using handle_read [OF assms(4,5,1), of "resume_read srv" 0] assms(3) d by simp
qed

theorem eof_in_request_hangs_executor_witness:
  "\<exists>c. uring_handle (resume_read echo_server) \<lparr>cqe_user_data = user_data EV_READ 16, cqe_res = 0\<rparr>
     \<lparr>sessions = [16 \<mapsto> \<lparr>s_conn = c, s_frame = Some (R_request echo_header 3 (the (name2service echo_server ''EchoService'')) ''Echo'')\<rparr>],
      should_notify = False, task_queue = [] :: server_task list, stop_flag = False, u_ring = \<lparr>sq_entries = 8, sq = [], submitted = []\<rparr>, u_dummy = 8\<rparr> = None"
proof -
  let ?r = "\<lparr>sq_entries = 8, sq = [], submitted = []\<rparr> :: ring"
  have "fresh_ring_conn 16 (ring_mk 5 16)" using ring_example_admissible by (simp add: admissible_def)
  note start = fresh_ring_starts [OF this, of ?r]
  from start(1) obtain c1 where c1: "send_fn S_loop ((ring_mk 5 16)\<lparr>uring := ?r\<rparr>) = Some (Inr c1)" by auto
  let ?c = "RegisterRead_suspend (c1\<lparr>uring := ?r\<rparr>)"
  from start(2) [OF _ c1 refl] have c: "ring_serving ?c" "ib_unread (read_buf ?c) = []" "\<not> is_dummy ?c"
    by (simp_all add: RegisterRead_suspend_def add_event_def)
  have len: "length (ib_unread (read_buf ?c)) < unat (3 :: u32)" using c(2) by simp
  show ?thesis
    by (rule exI [of _ ?c], rule eof_in_request_hangs_executor [OF _ c(1,3) _ _ _ len]) simp_all
qed

end
