(* ===== verification/Notify.thy ===== *)
theory Notify
  imports Prelude
begin

section \<open>Waking an executor (src/scheduler/epoll_exector.cc, src/scheduler/uring_exector.cc)\<close>

text \<open>
  The thread of an executor runs the queued tasks, sets \<open>should_notify_\<close> and waits for events.
  \<open>spawn\<close>, called from any thread, queues a task and writes to the event descriptor only if it
  can reset \<open>should_notify_\<close>. This theory interleaves both, one step per access to what they
  share: the queue (a list here; theory \<open>MpmcSequential\<close> gives its interface), the flag and the
  counter of the event descriptor.
\<close>

datatype loop_pc = L_drain | L_arm | L_wait | L_read | L_clear

datatype 't spawn_pc = N_push 't | N_cas | N_write | N_done

record 't notify_sys =
  tasks :: "'t list"
  flag :: bool
  wake :: nat
  loop :: loop_pc
  spawners :: "nat \<Rightarrow> 't spawn_pc"
  executed :: "'t list"
  pushed :: "'t list"

text \<open>
  \<open>pushed\<close> and \<open>executed\<close> are histories: the tasks in the order they were queued and run.

  The steps of \<open>spawn\<close>: \<open>task_queue_.push\<close>, the compare-and-swap of \<open>should_notify_\<close>, the \<open>write\<close>.
\<close>

inductive spawn_step :: "'t notify_sys \<Rightarrow> 't notify_sys \<Rightarrow> bool" where
  push: "spawners s i = N_push t \<Longrightarrow>
    spawn_step s (s\<lparr>tasks := tasks s @ [t], pushed := pushed s @ [t], spawners := (spawners s)(i := N_cas)\<rparr>)"
| cas: "spawners s i = N_cas \<Longrightarrow> flag s \<Longrightarrow> spawn_step s (s\<lparr>flag := False, spawners := (spawners s)(i := N_write)\<rparr>)"
| cas_fails: "spawners s i = N_cas \<Longrightarrow> \<not> flag s \<Longrightarrow> spawn_step s (s\<lparr>spawners := (spawners s)(i := N_done)\<rparr>)"
| notify: "spawners s i = N_write \<Longrightarrow>
    spawn_step s (s\<lparr>wake := wake s + 1, spawners := (spawners s)(i := N_done)\<rparr>)"

text \<open>
  The steps of the executor's thread by itself: run a task, find the queue empty, set the flag,
  be woken by the event descriptor, read it, reset the flag.
\<close>

inductive loop_step :: "'t notify_sys \<Rightarrow> 't notify_sys \<Rightarrow> bool" where
  run: "loop s = L_drain \<Longrightarrow> tasks s = t # ts \<Longrightarrow> loop_step s (s\<lparr>tasks := ts, executed := executed s @ [t]\<rparr>)"
| drained: "loop s = L_drain \<Longrightarrow> tasks s = [] \<Longrightarrow> loop_step s (s\<lparr>loop := L_arm\<rparr>)"
| arm: "loop s = L_arm \<Longrightarrow> loop_step s (s\<lparr>flag := True, loop := L_wait\<rparr>)"
| woken: "loop s = L_wait \<Longrightarrow> 0 < wake s \<Longrightarrow> loop_step s (s\<lparr>loop := L_read\<rparr>)"
| read: "loop s = L_read \<Longrightarrow> loop_step s (s\<lparr>wake := 0, loop := L_clear\<rparr>)"
| clear: "loop s = L_clear \<Longrightarrow> loop_step s (s\<lparr>flag := False, loop := L_drain\<rparr>)"

text \<open>The end of the wait by the timeout or by an event of a connection, which the peers decide.\<close>

inductive env_step :: "'t notify_sys \<Rightarrow> 't notify_sys \<Rightarrow> bool" where
  event: "loop s = L_wait \<Longrightarrow> env_step s (s\<lparr>loop := L_drain\<rparr>)"

inductive notify_reachable :: "'t notify_sys \<Rightarrow> bool" where
  init: "\<forall>i. \<exists>t. spawners s i = N_push t \<Longrightarrow> tasks s = [] \<Longrightarrow> executed s = [] \<Longrightarrow> pushed s = [] \<Longrightarrow>
    \<not> flag s \<Longrightarrow> wake s = 0 \<Longrightarrow> loop s = L_drain \<Longrightarrow> notify_reachable s"
| spawning: "notify_reachable s \<Longrightarrow> spawn_step s t \<Longrightarrow> notify_reachable t"
| looping: "notify_reachable s \<Longrightarrow> loop_step s t \<Longrightarrow> notify_reachable t"
| waking: "notify_reachable s \<Longrightarrow> env_step s t \<Longrightarrow> notify_reachable t"

inductive_cases loop_stepE: "loop_step s t"

subsection \<open>Invariants\<close>

text \<open>While the thread waits with the flag reset, a notification is there or on its way.\<close>

definition notify_pending :: "'t notify_sys \<Rightarrow> bool" where
  "notify_pending s \<longleftrightarrow> 0 < wake s \<or> (\<exists>i. spawners s i = N_write)"

definition notify_inv :: "'t notify_sys \<Rightarrow> bool" where
  "notify_inv s \<longleftrightarrow> executed s @ tasks s = pushed s \<and> (loop s = L_wait \<and> \<not> flag s \<longrightarrow> notify_pending s)"

lemma spawn_step_inv: "spawn_step s t \<Longrightarrow> notify_inv s \<Longrightarrow> notify_inv t"
proof (induction rule: spawn_step.induct)
  case (push s i u)
  then have "notify_pending s \<Longrightarrow>
      notify_pending (s\<lparr>tasks := tasks s @ [u], pushed := pushed s @ [u], spawners := (spawners s)(i := N_cas)\<rparr>)"
    unfolding notify_pending_def by (auto, metis spawn_pc.distinct(3))
  with push show ?case by (auto simp: notify_inv_def)
next
  case (cas s i)
  then show ?case by (auto simp: notify_inv_def notify_pending_def)
next
  case (cas_fails s i)
  then have "notify_pending s \<Longrightarrow> notify_pending (s\<lparr>spawners := (spawners s)(i := N_done)\<rparr>)"
    unfolding notify_pending_def by (auto, metis spawn_pc.distinct(7))
  with cas_fails show ?case by (auto simp: notify_inv_def)
next
  case (notify s i)
  then show ?case by (auto simp: notify_inv_def notify_pending_def)
qed

lemma loop_step_inv: "loop_step s t \<Longrightarrow> notify_inv s \<Longrightarrow> notify_inv t"
  by (induction rule: loop_step.induct) (auto simp: notify_inv_def)

lemma notify_inv_reachable: "notify_reachable s \<Longrightarrow> notify_inv s"
proof (induction rule: notify_reachable.induct)
  case (init s)
  then show ?case by (simp add: notify_inv_def)
next
  case (waking s t)
  then show ?case by (auto simp: notify_inv_def elim!: env_step.cases)
qed (blast intro: spawn_step_inv loop_step_inv)+

lemma spawn_steps_reachable: "spawn_step\<^sup>*\<^sup>* s t \<Longrightarrow> notify_reachable s \<Longrightarrow> notify_reachable t"
  by (induction rule: rtranclp_induct) (auto intro: notify_reachable.spawning)

text \<open>
  While the thread waits, a \<open>spawn\<close> that has passed its compare-and-swap leaves the flag reset,
  and no other \<open>spawn\<close> sets it.
\<close>

lemma spawn_steps_flag:
  assumes "spawn_step\<^sup>*\<^sup>* s t" and "spawners s i = N_push u"
  shows "loop t = loop s \<and> (spawners t i \<in> {N_push u, N_cas} \<or> \<not> flag t)"
  using assms(1)
proof (induction rule: rtranclp_induct)
  case (step t t')
  from step(2,3) show ?case by (induction rule: spawn_step.induct) auto
qed (simp add: assms(2))

text \<open>Any interleaving of the three kinds of steps, with the number of steps of the thread in it.\<close>

inductive notify_run :: "'t notify_sys \<Rightarrow> nat \<Rightarrow> 't notify_sys \<Rightarrow> bool" where
  start: "notify_run s 0 s"
| spawning: "notify_run s n t \<Longrightarrow> spawn_step t u \<Longrightarrow> notify_run s n u"
| looping: "notify_run s n t \<Longrightarrow> loop_step t u \<Longrightarrow> notify_run s (Suc n) u"
| waking: "notify_run s n t \<Longrightarrow> env_step t u \<Longrightarrow> notify_run s n u"

text \<open>
  The thread on its way to the first \<open>m\<close> tasks: it waits with the flag reset, is being woken or
  runs tasks, and needs at most so many more steps of its own.
\<close>

fun steps_to_drain :: "loop_pc \<Rightarrow> nat" where
  "steps_to_drain L_wait = 3"
| "steps_to_drain L_read = 2"
| "steps_to_drain L_clear = 1"
| "steps_to_drain L_drain = 0"
| "steps_to_drain L_arm = 0"

definition heads_for :: "nat \<Rightarrow> nat \<Rightarrow> 't notify_sys \<Rightarrow> bool" where
  "heads_for m k s \<longleftrightarrow> m \<le> length (executed s) \<or>
     loop s \<noteq> L_arm \<and> (loop s = L_wait \<longrightarrow> \<not> flag s) \<and> steps_to_drain (loop s) + (m - length (executed s)) \<le> k"

lemma spawn_step_effect:
  "spawn_step s t \<Longrightarrow> loop t = loop s \<and> executed t = executed s \<and> (\<exists>ts. pushed t = pushed s @ ts) \<and> (flag t \<longrightarrow> flag s)"
  by (induction rule: spawn_step.induct) auto

lemma loop_step_heads_for:
  assumes "loop_step s t" and "heads_for m (Suc k) s" and "notify_inv s" and "m \<le> length (pushed s)"
  shows "heads_for m k t \<and> pushed t = pushed s"
  using assms
proof (induction rule: loop_step.induct)
  case (drained s)
  then have "m \<le> length (executed s)" by (auto simp: notify_inv_def)
  then show ?case by (simp add: heads_for_def)
qed (auto simp: heads_for_def)

lemma run_heads_for:
  assumes "notify_run s n u" and "notify_reachable s" and "heads_for (length (pushed s)) k s"
  shows "notify_reachable u \<and> (\<exists>ts. pushed u = pushed s @ ts) \<and>
    (heads_for (length (pushed s)) (k - n) u \<and> n \<le> k \<or> length (pushed s) \<le> length (executed u))"
  using assms
proof (induction rule: notify_run.induct)
  case (spawning s n t u)
  then show ?case using spawn_step_effect [of t u] by (auto simp: heads_for_def intro: notify_reachable.spawning)
next
  case (looping s n t u)
  let ?m = "length (pushed s)"
  from looping have t: "notify_reachable t" "\<exists>ts. pushed t = pushed s @ ts"
    "heads_for ?m (k - n) t \<and> n \<le> k \<or> ?m \<le> length (executed t)" by auto
  have "length (executed t) \<le> length (executed u)" "pushed u = pushed t" using looping(2) by (auto elim: loop_stepE)
  moreover have "heads_for ?m (k - Suc n) u \<and> Suc n \<le> k" if "heads_for ?m (k - n) t" "n \<le> k" "\<not> ?m \<le> length (executed u)"
  proof -
    have "\<not> ?m \<le> length (executed t)" using that(3) calculation(1) by simp
    then have "Suc n \<le> k" using that(1,2) by (auto simp: heads_for_def)
    then have "heads_for ?m (Suc (k - Suc n)) t" using that(1) by (simp add: Suc_diff_Suc)
    with loop_step_heads_for [OF looping(2) this notify_inv_reachable [OF t(1)]] t(2) \<open>Suc n \<le> k\<close> show ?thesis by auto
  qed
  ultimately show ?case using t looping(2) notify_reachable.looping by fastforce
next
  case (waking s n t u)
  then show ?case by (auto simp: heads_for_def elim!: env_step.cases intro: notify_reachable.waking env_step.intros)
qed (simp add: heads_for_def)

text \<open>On its way the thread is never stuck, unless a notification is still to be written.\<close>

lemma heads_for_enabled:
  assumes "heads_for m k s" and "length (executed s) < m" and "m \<le> length (pushed s)" and "notify_inv s"
  shows "(\<exists>s'. loop_step s s') \<or> (\<exists>j. spawners s j = N_write)"
proof (cases "loop s")
  case L_drain
  have "tasks s \<noteq> []" using assms(2-4) by (auto simp: notify_inv_def)
  then show ?thesis using L_drain by (cases "tasks s") (auto intro: loop_step.run)
next
  case L_arm
  with assms(1,2) show ?thesis by (simp add: heads_for_def)
next
  case L_wait
  then have "notify_pending s" using assms by (auto simp: heads_for_def notify_inv_def)
  then show ?thesis using L_wait by (auto simp: notify_pending_def intro: loop_step.woken)
qed (auto intro: loop_step.intros)

subsection \<open>Properties\<close>

text \<open>
  No task is lost, duplicated or reordered: in every interleaving of spawns and the
  executor's thread the tasks run so far, followed by those in the queue, are the tasks in the
  order they were queued; and while the thread waits with \<open>should_notify_\<close> reset, a notification
  has been written or is about to be.
\<close>

theorem tasks_run_in_order:
  assumes "notify_reachable s"
  shows "executed s @ tasks s = pushed s \<and> (loop s = L_wait \<and> \<not> flag s \<longrightarrow> 0 < wake s \<or> (\<exists>i. spawners s i = N_write))"
  using notify_inv_reachable [OF assms] by (simp add: notify_inv_def notify_pending_def)

text \<open>An executor that just started to wait, and nobody spawned yet.\<close>

definition idle_sys :: "nat notify_sys" where
  "idle_sys = \<lparr>tasks = [], flag = True, wake = 0, loop = L_wait, spawners = N_push, executed = [], pushed = []\<rparr>"

definition start_sys :: "nat notify_sys" where
  "start_sys = \<lparr>tasks = [], flag = False, wake = 0, loop = L_drain, spawners = N_push, executed = [], pushed = []\<rparr>"

lemma start_sys_reachable: "notify_reachable start_sys"
  by (rule notify_reachable.init) (simp_all add: start_sys_def)

lemma drained_sys_reachable: "notify_reachable (start_sys\<lparr>loop := L_arm\<rparr>)"
  using notify_reachable.looping [OF start_sys_reachable loop_step.drained] by (simp add: start_sys_def)

lemma idle_sys_reachable: "notify_reachable idle_sys"
  using notify_reachable.looping [OF drained_sys_reachable loop_step.arm] by (simp add: start_sys_def idle_sys_def)

text \<open>One spawn in the idle system.\<close>

definition spawned_sys :: "nat notify_sys" where
  "spawned_sys = idle_sys\<lparr>tasks := [5], pushed := [5], flag := False, wake := 1, spawners := N_push(5 := N_done)\<rparr>"

lemma spawned_sys_steps: "spawn_step\<^sup>*\<^sup>* idle_sys spawned_sys"
proof -
  let ?s1 = "idle_sys\<lparr>tasks := [5], pushed := [5], spawners := N_push(5 := N_cas)\<rparr>"
  let ?s2 = "?s1\<lparr>flag := False, spawners := N_push(5 := N_write)\<rparr>"
  have 1: "spawn_step idle_sys ?s1" using spawn_step.push [of idle_sys 5 5] by (simp add: idle_sys_def)
  have 2: "spawn_step ?s1 ?s2" using spawn_step.cas [of ?s1 5] by (simp add: idle_sys_def)
  have 3: "spawn_step ?s2 spawned_sys"
    using spawn_step.notify [of ?s2 5] by (simp add: idle_sys_def spawned_sys_def)
  show ?thesis
    by (rule converse_rtranclp_into_rtranclp, rule 1, rule converse_rtranclp_into_rtranclp, rule 2, rule r_into_rtranclp, rule 3)
qed

theorem tasks_run_in_order_witness:
  "notify_reachable spawned_sys \<and> executed spawned_sys @ tasks spawned_sys = [5] \<and> loop spawned_sys = L_wait \<and> 0 < wake spawned_sys"
proof -
  have "notify_reachable spawned_sys" by (rule spawn_steps_reachable [OF spawned_sys_steps idle_sys_reachable])
  with tasks_run_in_order [OF this] show ?thesis by (simp add: spawned_sys_def idle_sys_def)
qed

text \<open>
  C17. A task whose \<open>spawn\<close> begins while the executor's thread waits and returns before it goes on
  is executed after boundedly many steps of the thread. Whatever is interleaved afterwards (more
  spawns, events of connections), once the thread has made three steps and one for every task
  queued by then, all tasks queued by then have been executed, in order and first; and until
  they have, the thread can make a step, or a \<open>spawn\<close> is about to write the notification that
  lets it.
\<close>

theorem spawn_wakes_waiting_loop:
  assumes "notify_reachable s" and "loop s = L_wait" and "spawners s i = N_push t"
    and "spawn_step\<^sup>*\<^sup>* s s'" and "spawners s' i = N_done" and "notify_run s' n u"
  shows "t \<in> set (pushed s') \<and>
    (3 + length (tasks s') \<le> n \<longrightarrow> take (length (pushed s')) (executed u) = pushed s') \<and>
    (take (length (pushed s')) (executed u) \<noteq> pushed s' \<longrightarrow> (\<exists>u'. loop_step u u') \<or> (\<exists>j. spawners u j = N_write))"
proof -
  let ?m = "length (pushed s')" and ?k = "3 + length (tasks s')"
  have r: "notify_reachable s'" by (rule spawn_steps_reachable [OF assms(4,1)])
  have "loop s' = L_wait" "\<not> flag s'" using spawn_steps_flag [OF assms(4,3)] assms(2,5) by auto
  moreover have p: "executed s' @ tasks s' = pushed s'" using notify_inv_reachable [OF r] by (simp add: notify_inv_def)
  then have "?m - length (executed s') = length (tasks s')" by (metis add_diff_cancel_left' length_append)
  ultimately have h: "heads_for ?m ?k s'" by (simp add: heads_for_def)
  have "spawners s' i = N_push t \<or> t \<in> set (pushed s')"
    using assms(4)
  proof (induction rule: rtranclp_induct)
    case (step u v)
    from step(2,3) show ?case by (induction rule: spawn_step.induct) auto
  qed (simp add: assms(3))
  moreover from run_heads_for [OF assms(6) r h] obtain ts where u: "notify_reachable u" "pushed u = pushed s' @ ts"
    "heads_for ?m (?k - n) u \<and> n \<le> ?k \<or> ?m \<le> length (executed u)" by blast
  have inv: "notify_inv u" by (rule notify_inv_reachable [OF u(1)])
  then have "executed u @ tasks u = pushed s' @ ts" using u(2) by (simp add: notify_inv_def)
  then have all: "take ?m (executed u) = pushed s' \<longleftrightarrow> ?m \<le> length (executed u)"
    by (metis append_eq_append_conv_if append_take_drop_id length_take min.cobounded1 nat_le_linear take_all)
  have "?m \<le> length (executed u)" if "?k \<le> n" using u(3) that by (auto simp: heads_for_def)
  moreover have "(\<exists>u'. loop_step u u') \<or> (\<exists>j. spawners u j = N_write)" if "\<not> ?m \<le> length (executed u)"
    using heads_for_enabled [of ?m "?k - n" u] u(2,3) inv that by auto
  ultimately show ?thesis using assms(5) all by auto
qed

text \<open>The idle system after the spawn: four steps of the thread run the task.\<close>

definition served_sys :: "nat notify_sys" where
  "served_sys = spawned_sys\<lparr>wake := 0, loop := L_drain, tasks := [], executed := [5]\<rparr>"

lemma served_sys_run: "notify_run spawned_sys 4 served_sys"
proof -
  let ?s1 = "spawned_sys\<lparr>loop := L_read\<rparr>"
  let ?s2 = "?s1\<lparr>wake := 0, loop := L_clear\<rparr>"
  let ?s3 = "?s2\<lparr>flag := False, loop := L_drain\<rparr>"
  have "loop_step spawned_sys ?s1" by (rule loop_step.woken) (simp_all add: spawned_sys_def idle_sys_def)
  moreover have "loop_step ?s1 ?s2" by (rule loop_step.read) simp
  moreover have "loop_step ?s2 ?s3" by (rule loop_step.clear) simp
  moreover have "loop_step ?s3 served_sys"
    using loop_step.run [of ?s3 5 "[]"] by (simp add: served_sys_def spawned_sys_def idle_sys_def)
  ultimately have "notify_run spawned_sys (Suc (Suc (Suc (Suc 0)))) served_sys"
    by (intro notify_run.looping [OF notify_run.looping [OF notify_run.looping [OF notify_run.looping [OF notify_run.start]]]])
  then show ?thesis by (simp add: numeral_eq_Suc)
qed

theorem spawn_wakes_waiting_loop_witness:
  "notify_run spawned_sys 4 served_sys \<and> pushed spawned_sys = [5] \<and> take 1 (executed served_sys) = [5]"
  using spawn_wakes_waiting_loop [OF idle_sys_reachable _ _ spawned_sys_steps _ served_sys_run, of 5 5] served_sys_run
  by (simp add: idle_sys_def spawned_sys_def)

text \<open>
  C36. A wakeup can be lost: a \<open>spawn\<close> that comes between the last \<open>pop\<close> of the executor's thread
  and its store to \<open>should_notify_\<close> does not notify, and the thread waits with the task in the
  queue and nothing to wake it but an event of a connection or the timeout.
\<close>

theorem wakeup_can_be_lost:
  "\<exists>s :: nat notify_sys. notify_reachable s \<and> loop s = L_wait \<and> tasks s \<noteq> [] \<and> wake s = 0 \<and>
     (\<forall>i. spawners s i = N_done \<or> (\<exists>t. spawners s i = N_push t)) \<and> (\<nexists>s'. loop_step s s')"
proof -
  let ?s0 = "start_sys\<lparr>loop := L_arm\<rparr>"
  let ?s1 = "?s0\<lparr>tasks := [5], pushed := [5], spawners := N_push(5 := N_cas)\<rparr>"
  let ?s2 = "?s1\<lparr>spawners := N_push(5 := N_done)\<rparr>"
  let ?s3 = "?s2\<lparr>flag := True, loop := L_wait\<rparr>"
  have 1: "spawn_step ?s0 ?s1" using spawn_step.push [of ?s0 5 5] by (simp add: start_sys_def)
  have 2: "spawn_step ?s1 ?s2" using spawn_step.cas_fails [of ?s1 5] by (simp add: start_sys_def)
  have 3: "loop_step ?s2 ?s3" using loop_step.arm [of ?s2] by (simp add: start_sys_def)
  have "notify_reachable ?s3"
    by (rule notify_reachable.looping [OF notify_reachable.spawning [OF notify_reachable.spawning [OF drained_sys_reachable 1] 2] 3])
  moreover have "\<nexists>s'. loop_step ?s3 s'" by (auto simp: start_sys_def elim: loop_stepE)
  ultimately show ?thesis by (intro exI [of _ ?s3]) (simp add: start_sys_def)
qed

end
