(* ===== verification/Shutdown.thy ===== *)
theory Shutdown
  imports Notify Progress "HOL-Library.Sublist"
begin

section \<open>Stopping an executor (\<open>stop\<close> and the destructors of src/scheduler)\<close>

text \<open>
  The owner of an executor calls \<open>stop\<close> and destroys it; the destructor joins the thread. This
  theory interleaves the owner with the thread and with calls of \<open>spawn\<close> (theory \<open>Notify\<close>).
  \<open>EpollExecutor\<close> and \<open>UringExecutor\<close> only set \<open>stop_\<close>, which the thread looks at once per turn of
  its loop; \<open>KqueueExecutor\<close> also triggers its user event, so that a waiting thread wakes up.
\<close>

subsection \<open>The owner and the thread\<close>

datatype shutdown_kind = EpollKind | UringKind | KqueueKind

datatype owner_act = SetStop | Trigger | Join | QueueExit | CloseFd

text \<open>
  What \<open>stop\<close> and the destructors do; \<open>opened\<close> says that the descriptor member is not \<open>-1\<close>. For
  \<open>KqueueExecutor\<close> this is so if the constructor got its descriptor, without which it makes no
  thread; \<open>UringExecutor\<close> has a member \<open>epoll_fd_\<close> it never sets.
\<close>

definition epoll_stop_acts :: "owner_act list" where
  "epoll_stop_acts = [SetStop]"

definition epoll_destructor :: "bool \<Rightarrow> owner_act list" where
  "epoll_destructor opened = Join # (if opened then [CloseFd] else [])"

definition uring_stop_acts :: "owner_act list" where
  "uring_stop_acts = [SetStop]"

definition uring_destructor :: "bool \<Rightarrow> owner_act list" where
  "uring_destructor opened = Join # QueueExit # (if opened then [CloseFd] else [])"

definition kqueue_stop_acts :: "bool \<Rightarrow> owner_act list" where
  "kqueue_stop_acts opened = SetStop # (if opened then [Trigger] else [])"

definition kqueue_destructor :: "bool \<Rightarrow> owner_act list" where
  "kqueue_destructor opened = kqueue_stop_acts opened @ (if opened then [Join, CloseFd] else [])"

text \<open>\<open>Executor::stop\<close> and \<open>Executor::~Executor\<close> are virtual; \<open>Scheduler::stop\<close> calls the former.\<close>

definition stop_acts :: "shutdown_kind \<Rightarrow> bool \<Rightarrow> owner_act list" where
  "stop_acts k opened = (case k of EpollKind \<Rightarrow> epoll_stop_acts | UringKind \<Rightarrow> uring_stop_acts | KqueueKind \<Rightarrow> kqueue_stop_acts opened)"

definition destructor_acts :: "shutdown_kind \<Rightarrow> bool \<Rightarrow> owner_act list" where
  "destructor_acts k opened = (case k of EpollKind \<Rightarrow> epoll_destructor opened | UringKind \<Rightarrow> uring_destructor opened
     | KqueueKind \<Rightarrow> kqueue_destructor opened)"

lemmas acts_defs = stop_acts_def destructor_acts_def epoll_stop_acts_def epoll_destructor_def uring_stop_acts_def uring_destructor_def
  kqueue_stop_acts_def kqueue_destructor_def

record 't owned =
  base :: "'t notify_sys"
  stopping :: bool
  exited :: bool
  owner :: "owner_act list"

text \<open>
  The thread by itself: \<open>kevent\<close> returns the user event and resets it at once (\<open>EV_CLEAR\<close>), the
  other executors read their event descriptor after the wait.
\<close>

inductive thread_step :: "shutdown_kind \<Rightarrow> 't notify_sys \<Rightarrow> 't notify_sys \<Rightarrow> bool" for k where
  turn: "k \<noteq> KqueueKind \<or> loop s \<noteq> L_wait \<Longrightarrow> loop_step s t \<Longrightarrow> thread_step k s t"
| user_event: "k = KqueueKind \<Longrightarrow> loop s = L_wait \<Longrightarrow> 0 < wake s \<Longrightarrow> thread_step k s (s\<lparr>wake := 0, loop := L_clear\<rparr>)"

text \<open>
  The wait ends by itself after the time-out, which \<open>UringExecutor\<close> ignores and which is
  negative by default, or by an event of a connection or a signal, if \<open>peers\<close> allows one. Where
  the thread comes to the head of its loop it looks at \<open>stop_\<close>.
\<close>

definition times_out :: "shutdown_kind \<Rightarrow> int \<Rightarrow> bool" where
  "times_out k timeout \<longleftrightarrow> k \<noteq> UringKind \<and> 0 \<le> timeout"

inductive owned_step :: "shutdown_kind \<Rightarrow> int \<Rightarrow> bool \<Rightarrow> 't owned \<Rightarrow> 't owned \<Rightarrow> bool" for k timeout peers where
  thread: "\<not> exited e \<Longrightarrow> thread_step k (base e) t \<Longrightarrow>
    owned_step k timeout peers e (e\<lparr>base := t, exited := loop (base e) \<noteq> L_drain \<and> loop t = L_drain \<and> stopping e\<rparr>)"
| wait_ends: "\<not> exited e \<Longrightarrow> times_out k timeout \<or> peers \<Longrightarrow> env_step (base e) t \<Longrightarrow>
    owned_step k timeout peers e (e\<lparr>base := t, exited := stopping e\<rparr>)"
| spawn: "spawn_step (base e) t \<Longrightarrow> owned_step k timeout peers e (e\<lparr>base := t\<rparr>)"
| set_stop: "owner e = SetStop # as \<Longrightarrow> owned_step k timeout peers e (e\<lparr>stopping := True, owner := as\<rparr>)"
| trigger: "owner e = Trigger # as \<Longrightarrow> owned_step k timeout peers e (e\<lparr>base := (base e)\<lparr>wake := wake (base e) + 1\<rparr>, owner := as\<rparr>)"
| join: "owner e = Join # as \<Longrightarrow> exited e \<Longrightarrow> owned_step k timeout peers e (e\<lparr>owner := as\<rparr>)"
| queue_exit: "owner e = QueueExit # as \<Longrightarrow> owned_step k timeout peers e (e\<lparr>owner := as\<rparr>)"
| close_fd: "owner e = CloseFd # as \<Longrightarrow> owned_step k timeout peers e (e\<lparr>owner := as\<rparr>)"

text \<open>
  A new executor, whose owner will destroy it, with or without calling \<open>stop\<close> before; some calls
  of \<open>spawn\<close> are to come.
\<close>

definition owned_start :: "shutdown_kind \<Rightarrow> bool \<Rightarrow> 't owned \<Rightarrow> bool" where
  "owned_start k opened e \<longleftrightarrow> (k = KqueueKind \<longrightarrow> opened) \<and> tasks (base e) = [] \<and> wake (base e) = 0 \<and> loop (base e) = L_drain \<and>
     (\<forall>i. spawners (base e) i = N_done \<or> (\<exists>t. spawners (base e) i = N_push t)) \<and> \<not> stopping e \<and> \<not> exited e \<and>
     owner e \<in> {destructor_acts k opened, stop_acts k opened @ destructor_acts k opened}"

subsection \<open>Invariants\<close>

definition owner_at :: "shutdown_kind \<Rightarrow> owner_act list \<Rightarrow> bool" where
  "owner_at k as \<longleftrightarrow> (\<exists>opened. (k = KqueueKind \<longrightarrow> opened) \<and> suffix as (stop_acts k opened @ destructor_acts k opened))"

lemma owner_at_simps [simp]:
  "owner_at k (SetStop # as) \<Longrightarrow> k = KqueueKind \<Longrightarrow> Trigger \<in> set as"
  "owner_at k (Join # as) \<Longrightarrow> Trigger \<notin> set as"
  by (cases k; auto simp: owner_at_def acts_defs suffix_Cons split: if_splits)+

lemma owner_at_next: "owner_at k (a # as) \<Longrightarrow> owner_at k as"
  unfolding owner_at_def by (meson suffix_ConsD)

text \<open>A thread that is told to stop and has been triggered is about to wake up.\<close>

definition stop_inv :: "shutdown_kind \<Rightarrow> 't owned \<Rightarrow> bool" where
  "stop_inv k e \<longleftrightarrow> owner_at k (owner e) \<and> (Join \<notin> set (owner e) \<longrightarrow> exited e) \<and> (SetStop \<notin> set (owner e) \<and> k = KqueueKind \<longrightarrow> stopping e) \<and>
     (k = KqueueKind \<and> stopping e \<and> Trigger \<notin> set (owner e) \<and> \<not> exited e \<longrightarrow> 0 < wake (base e) \<or> loop (base e) = L_clear)"

lemma owned_start_inv:
  assumes "owned_start k opened e"
  shows "stop_inv k e"
proof -
  have o: "owner e = destructor_acts k opened \<or> owner e = stop_acts k opened @ destructor_acts k opened" "k = KqueueKind \<longrightarrow> opened"
    using assms by (auto simp: owned_start_def)
  have "suffix (owner e) (stop_acts k opened @ destructor_acts k opened)" using o(1) by (auto intro: suffixI)
  with o(2) have "owner_at k (owner e)" unfolding owner_at_def by blast
  with assms show ?thesis by (cases k) (auto simp: owned_start_def stop_inv_def acts_defs)
qed

lemma thread_step_wake:
  assumes "thread_step KqueueKind s t" and "0 < wake s \<or> loop s = L_clear"
  shows "0 < wake t \<or> loop t = L_clear \<or> loop s \<noteq> L_drain \<and> loop t = L_drain"
  using assms
proof cases
  case turn
  then show ?thesis using assms(2) by (auto elim: loop_stepE)
qed simp

lemma spawn_step_wake: "spawn_step s t \<Longrightarrow> wake s \<le> wake t \<and> loop t = loop s"
  by (induction rule: spawn_step.induct) simp_all


lemma stop_inv_step: "owned_step k timeout peers e e' \<Longrightarrow> stop_inv k e \<Longrightarrow> stop_inv k e'"
proof (induction rule: owned_step.induct)
  case (thread e t)
  then show ?case using thread_step_wake [of "base e" t] by (auto simp: stop_inv_def)
next
  case (wait_ends e t)
  then show ?case by (auto simp: stop_inv_def)
next
  case (spawn e t)
  then show ?case using spawn_step_wake [OF spawn(1)] by (auto simp: stop_inv_def)
next
  case (set_stop e as)
  then show ?case using owner_at_simps(1) [of k as] owner_at_next [of k SetStop as] by (auto simp: stop_inv_def)
next
  case (trigger e as)
  then show ?case using owner_at_next [of k Trigger as] by (auto simp: stop_inv_def)
next
  case (join e as)
  then show ?case using owner_at_next [of k Join as] by (auto simp: stop_inv_def)
next
  case (queue_exit e as)
  then show ?case using owner_at_next [of k QueueExit as] by (auto simp: stop_inv_def)
next
  case (close_fd e as)
  then show ?case using owner_at_next [of k CloseFd as] by (auto simp: stop_inv_def)
qed

lemma stop_inv_steps: "(owned_step k timeout peers)\<^sup>*\<^sup>* e e' \<Longrightarrow> stop_inv k e \<Longrightarrow> stop_inv k e'"
  by (induction rule: rtranclp_induct) (auto intro: stop_inv_step)

subsection \<open>The work left once the thread was told to stop\<close>

fun loop_weight :: "loop_pc \<Rightarrow> nat" where
  "loop_weight L_clear = 1"
| "loop_weight L_read = 2"
| "loop_weight L_wait = 3"
| "loop_weight L_arm = 4"
| "loop_weight L_drain = 5"

fun spawn_weight :: "'t spawn_pc \<Rightarrow> nat" where
  "spawn_weight (N_push t) = 4"
| "spawn_weight N_cas = 2"
| "spawn_weight N_write = 1"
| "spawn_weight N_done = 0"

text \<open>\<open>callers\<close> are the calls of \<open>spawn\<close> that have not returned.\<close>

definition callers :: "'t owned \<Rightarrow> nat set" where
  "callers e = {i. spawners (base e) i \<noteq> N_done}"

definition stop_work :: "nat set \<Rightarrow> 't owned \<Rightarrow> nat" where
  "stop_work I e = (if exited e then 0 else loop_weight (loop (base e))) + length (tasks (base e)) + length (owner e) +
     (\<Sum>i \<in> I. spawn_weight (spawners (base e) i))"

lemma spawn_step_callers:
  assumes "spawn_step s t"
  shows "\<exists>i pc. spawners s i \<noteq> N_done \<and> spawners t = (spawners s)(i := pc) \<and> loop t = loop s \<and>
    length (tasks t) + spawn_weight pc < length (tasks s) + spawn_weight (spawners s i)"
  using assms
proof (induction rule: spawn_step.induct)
  case (push s i t)
  then show ?case by (intro exI [of _ i] exI [of _ N_cas]) simp
next
  case (cas s i)
  then show ?case by (intro exI [of _ i] exI [of _ N_write]) simp
next
  case (cas_fails s i)
  then show ?case by (intro exI [of _ i] exI [of _ N_done]) simp
next
  case (notify s i)
  then show ?case by (intro exI [of _ i] exI [of _ N_done]) simp
qed

lemma spawn_step_work:
  assumes "spawn_step s t" and "finite I" and "{i. spawners s i \<noteq> N_done} \<subseteq> I"
  shows "length (tasks t) + (\<Sum>i \<in> I. spawn_weight (spawners t i)) < length (tasks s) + (\<Sum>i \<in> I. spawn_weight (spawners s i))"
    and "{i. spawners t i \<noteq> N_done} \<subseteq> I"
proof -
  from spawn_step_callers [OF assms(1)] obtain i pc where i: "spawners s i \<noteq> N_done" "spawners t = (spawners s)(i := pc)"
    "length (tasks t) + spawn_weight pc < length (tasks s) + spawn_weight (spawners s i)" by blast
  then have "i \<in> I" using assms(3) by auto
  moreover have "(\<Sum>j \<in> I - {i}. spawn_weight (spawners t j)) = (\<Sum>j \<in> I - {i}. spawn_weight (spawners s j))"
    by (intro sum.cong) (auto simp: i(2))
  ultimately show "length (tasks t) + (\<Sum>i \<in> I. spawn_weight (spawners t i)) < length (tasks s) + (\<Sum>i \<in> I. spawn_weight (spawners s i))"
    using i(2,3) assms(2) by (simp add: sum.remove)
  show "{i. spawners t i \<noteq> N_done} \<subseteq> I" using i(2) \<open>i \<in> I\<close> assms(3) by auto
qed

lemma thread_step_work:
  assumes "thread_step k s t"
  shows "spawners t = spawners s \<and> (loop s \<noteq> L_drain \<and> loop t = L_drain \<and> tasks t = tasks s \<or>
    loop_weight (loop t) + length (tasks t) < loop_weight (loop s) + length (tasks s))"
  using assms
proof cases
  case turn
  then show ?thesis by (auto elim: loop_stepE)
qed simp

lemma loop_weight_pos: "0 < loop_weight pc"
  by (cases pc) simp_all

lemma stop_work_step:
  assumes "owned_step k timeout peers e e'" and "stopping e" and "finite I" and "callers e \<subseteq> I"
  shows "stop_work I e' < stop_work I e \<and> stopping e' \<and> callers e' \<subseteq> I"
  using assms
proof (induction rule: owned_step.induct)
  case (thread e t)
  from thread_step_work [OF thread(2)] thread(1,3,5) loop_weight_pos [of "loop (base e)"]
  show ?case by (auto simp: stop_work_def callers_def)
next
  case (wait_ends e t)
  from wait_ends(3) show ?case using wait_ends(1,4,6) by cases (simp add: stop_work_def callers_def)
next
  case (spawn e t)
  have "callers (e\<lparr>base := t\<rparr>) = {i. spawners t i \<noteq> N_done}" "callers e = {i. spawners (base e) i \<noteq> N_done}" by (simp_all add: callers_def)
  with spawn_step_work [OF spawn(1,3)] spawn_step_wake [OF spawn(1)] spawn(2,4)
  show ?case by (simp add: stop_work_def)
qed (auto simp: stop_work_def callers_def)

interpretation stop_run: ranked_system "owned_step k timeout peers" "\<lambda>e. stopping e \<and> finite I \<and> callers e \<subseteq> I" "stop_work I"
  for k timeout peers I
  by unfold_locales (use stop_work_step in blast)+

text \<open>The thread can always go on, unless it waits.\<close>

lemma thread_goes_on:
  assumes "loop s \<noteq> L_wait"
  shows "\<exists>t. thread_step k s t"
proof -
  have "\<exists>t. loop_step s t"
  proof (cases "loop s")
    case L_drain
    then show ?thesis using loop_step.run [of s] loop_step.drained [of s] by (cases "tasks s") blast+
  qed (use assms loop_step.arm [of s] loop_step.read [of s] loop_step.clear [of s] in blast)+
  with assms thread_step.turn [of k s] show ?thesis by blast
qed

lemma stuck_owned:
  assumes inv: "stop_inv k e" and stuck: "\<not> (\<exists>e'. owned_step k timeout peers e e')" and st: "stopping e"
    and k: "k = KqueueKind \<or> times_out k timeout"
  shows "exited e \<and> owner e = []"
proof (cases "owner e")
  case (Cons a as)
  then have "a = Join" and "\<not> exited e"
    using stuck owned_step.set_stop [of e as] owned_step.trigger [of e as] owned_step.join [of e as]
      owned_step.queue_exit [of e as] owned_step.close_fd [of e as]
    by (cases a; auto)+
  have ne: "\<not> thread_step k (base e) t" for t using stuck owned_step.thread [OF \<open>\<not> exited e\<close>] by blast
  then have w: "loop (base e) = L_wait" using thread_goes_on by blast
  have nt: "\<not> times_out k timeout" using stuck owned_step.wait_ends [OF \<open>\<not> exited e\<close> _ env_step.event [OF w]] by blast
  with k have kq: "k = KqueueKind" by blast
  have "Trigger \<notin> set (owner e)"
    using inv Cons \<open>a = Join\<close> owner_at_simps(2) [of k as] by (auto simp: stop_inv_def)
  with inv kq st \<open>\<not> exited e\<close> w have "0 < wake (base e)" by (auto simp: stop_inv_def)
  with ne thread_step.user_event [OF kq w] show ?thesis by blast
qed (use inv in \<open>simp add: stop_inv_def\<close>)


subsection \<open>Properties\<close>

text \<open>
  C15. Shutting down works where the wait can end: once \<open>stop_\<close> is set in a \<open>KqueueExecutor\<close>, or in
  an \<open>EpollExecutor\<close> with a time-out, there is no infinite run of the owner, the thread and
  finitely many calls of \<open>spawn\<close>, and where a run ends the thread has left its loop and the
  destructor has joined it and returned.
\<close>

theorem executor_shuts_down:
  assumes "owned_start k opened e0" and "(owned_step k timeout peers)\<^sup>*\<^sup>* e0 e" and "stopping e" and "finite (callers e)"
    and "k = KqueueKind \<or> times_out k timeout"
  shows "(\<nexists>run. run 0 = e \<and> (\<forall>i. owned_step k timeout peers (run i) (run (Suc i)))) \<and>
    (\<forall>e'. (owned_step k timeout peers)\<^sup>*\<^sup>* e e' \<and> \<not> (\<exists>e''. owned_step k timeout peers e' e'') \<longrightarrow> exited e' \<and> owner e' = [])"
proof (intro conjI allI impI)
  have e: "stopping e \<and> finite (callers e) \<and> callers e \<subseteq> callers e" using assms(3,4) by simp
  show "\<nexists>run. run 0 = e \<and> (\<forall>i. owned_step k timeout peers (run i) (run (Suc i)))" by (rule stop_run.no_infinite_run [OF e])
  fix e' assume e': "(owned_step k timeout peers)\<^sup>*\<^sup>* e e' \<and> \<not> (\<exists>e''. owned_step k timeout peers e' e'')"
  have "stopping e' \<and> callers e' \<subseteq> callers e" using stop_run.steps_inv [OF conjunct1 [OF e'] e] by simp
  moreover have "stop_inv k e'" using owned_start_inv [OF assms(1)] assms(2) e' by (blast intro: stop_inv_steps)
  ultimately show "exited e'" "owner e' = []" using stuck_owned [OF _ conjunct2 [OF e'] _ assms(5)] by blast+
qed

text \<open>For the witnesses: an executor nobody spawns tasks on.\<close>

definition lone_executor :: "shutdown_kind \<Rightarrow> nat owned" where
  "lone_executor k = \<lparr>base = \<lparr>tasks = [], flag = False, wake = 0, loop = L_drain, spawners = \<lambda>_. N_done, executed = [], pushed = []\<rparr>,
     stopping = False, exited = False, owner = stop_acts k True @ destructor_acts k True\<rparr>"

lemma lone_executor_start: "owned_start k True (lone_executor k)"
  by (simp add: owned_start_def lone_executor_def)

theorem executor_shuts_down_witness:
  "\<nexists>run. run 0 = (lone_executor KqueueKind)\<lparr>stopping := True, owner := Trigger # destructor_acts KqueueKind True\<rparr> \<and>
     (\<forall>i. owned_step KqueueKind (-1) False (run i) (run (Suc i)))"
proof -
  let ?e = "(lone_executor KqueueKind)\<lparr>stopping := True, owner := Trigger # destructor_acts KqueueKind True\<rparr>"
  have "owned_step KqueueKind (-1) False (lone_executor KqueueKind) ?e"
    using owned_step.set_stop [of "lone_executor KqueueKind" "Trigger # destructor_acts KqueueKind True"]
    by (simp add: lone_executor_def acts_defs)
  then have "(owned_step KqueueKind (-1) False)\<^sup>*\<^sup>* (lone_executor KqueueKind) ?e" by (rule r_into_rtranclp)
  from executor_shuts_down [OF lone_executor_start this] show ?thesis by (simp add: callers_def lone_executor_def)
qed

text \<open>
  C40. \<open>stop\<close> does not stop a waiting \<open>EpollExecutor\<close> with the default time-out, nor a waiting
  \<open>UringExecutor\<close>: there is a run in which the owner has called \<open>stop\<close> and is in the destructor,
  waiting for the thread, which waits for an event that only a peer or a signal could cause.
\<close>

theorem stop_does_not_wake:
  assumes "k = EpollKind \<and> timeout < 0 \<or> k = UringKind"
  shows "\<exists>e0 e :: nat owned. owned_start k True e0 \<and> owner e0 = stop_acts k True @ destructor_acts k True \<and>
    (owned_step k timeout False)\<^sup>*\<^sup>* e0 e \<and> stopping e \<and> owner e = destructor_acts k True \<and> hd (owner e) = Join \<and> \<not> exited e \<and>
    \<not> (\<exists>e'. owned_step k timeout False e e')"
proof (intro exI conjI)
  let ?e0 = "lone_executor k"
  let ?e1 = "?e0\<lparr>base := (base ?e0)\<lparr>loop := L_arm\<rparr>\<rparr>"
  let ?e2 = "?e1\<lparr>base := (base ?e1)\<lparr>flag := True, loop := L_wait\<rparr>\<rparr>"
  let ?e3 = "?e2\<lparr>stopping := True, owner := destructor_acts k True\<rparr>"
  show "owned_start k True ?e0" by (rule lone_executor_start)
  have k: "k \<noteq> KqueueKind" and acts: "stop_acts k True = [SetStop]" "hd (destructor_acts k True) = Join" "destructor_acts k True \<noteq> []" and nt: "\<not> times_out k timeout"
    using assms by (auto simp: acts_defs times_out_def)
  have 1: "owned_step k timeout False ?e0 ?e1"
    using owned_step.thread [OF _ thread_step.turn [OF _ loop_step.drained], of ?e0 k timeout False] k by (simp add: lone_executor_def)
  have 2: "owned_step k timeout False ?e1 ?e2"
    using owned_step.thread [OF _ thread_step.turn [OF _ loop_step.arm], of ?e1 k timeout False] k by (simp add: lone_executor_def)
  have 3: "owned_step k timeout False ?e2 ?e3"
    using owned_step.set_stop [of ?e2 "destructor_acts k True"] by (simp add: lone_executor_def acts)
  show "(owned_step k timeout False)\<^sup>*\<^sup>* ?e0 ?e3"
    by (rule converse_rtranclp_into_rtranclp, rule 1, rule converse_rtranclp_into_rtranclp, rule 2, rule r_into_rtranclp, rule 3)
  have "\<not> thread_step k (base ?e3) t" for t using k by (auto simp: lone_executor_def elim!: thread_step.cases loop_stepE)
  moreover have "\<not> spawn_step (base ?e3) t" for t by (auto simp: lone_executor_def elim!: spawn_step.cases)
  ultimately show "\<not> (\<exists>e'. owned_step k timeout False ?e3 e')"
    using nt acts(2) by (auto elim!: owned_step.cases) (auto simp: lone_executor_def)
qed (use assms in \<open>auto simp: lone_executor_def acts_defs\<close>)

theorem stop_does_not_wake_witness:
  "\<exists>e0 e :: nat owned. owned_start UringKind True e0 \<and> owner e0 = stop_acts UringKind True @ destructor_acts UringKind True \<and>
    (owned_step UringKind 1000 False)\<^sup>*\<^sup>* e0 e \<and> stopping e \<and> owner e = destructor_acts UringKind True \<and> hd (owner e) = Join \<and> \<not> exited e \<and>
    \<not> (\<exists>e'. owned_step UringKind 1000 False e e')"
  by (rule stop_does_not_wake) simp

end
