(* ===== verification/Endpoint.thy ===== *)
theory Endpoint
  imports Connection
begin

section \<open>Setting up a server and a client\<close>

text \<open>
  The code that runs before a connection exists: the wrappers of the socket calls
  (src/net/socket_utils.cc), the listening socket (src/net/accepter.cc), the choice of an
  executor (src/scheduler/scheduler.cc) and the constructors of the server and the client
  (src/server/rpc_server.cc, src/client/client_channel.cc).

  A system call is a value; the kernel answers the \<open>n\<close>-th call with \<open>sys_answer n\<close>, where a negative
  number is a failure, and the model keeps the calls made so far. Theorems quantify over the
  answers. \<open>exit(EXIT_FAILURE)\<close> ends the process: \<open>Exited\<close>.
\<close>

subsection \<open>System calls\<close>

datatype sockopt = SO_REUSEADDR | SO_SNDBUF | SO_RCVBUF | SO_KEEPALIVE | TCP_NODELAY | SO_LINGER

datatype syscall =
    Sys_socket
  | Sys_setsockopt int sockopt int
  | Sys_bind int "16 word"
  | Sys_listen int int
  | Sys_accept int
  | Sys_inet_pton string
  | Sys_connect int string "16 word"
  | Sys_send int "byte list"
  | Sys_fcntl_nonblock int
  | Sys_close int

record kernel =
  sys_answer :: "nat \<Rightarrow> int"
  trace :: "syscall list"

datatype 'a proc = Ret 'a kernel | Exited kernel

definition sys_call :: "syscall \<Rightarrow> kernel \<Rightarrow> int \<times> kernel" where
  "sys_call c k = (sys_answer k (length (trace k)), k\<lparr>trace := trace k @ [c]\<rparr>)"

fun proc_bind :: "'a proc \<Rightarrow> ('a \<Rightarrow> kernel \<Rightarrow> 'b proc) \<Rightarrow> 'b proc" where
  "proc_bind (Ret x k) f = f x k"
| "proc_bind (Exited k) f = Exited k"

subsection \<open>SocketUtils\<close>

definition su_close :: "int \<Rightarrow> kernel \<Rightarrow> kernel" where
  "su_close fd k = snd (sys_call (Sys_close fd) k)"

definition su_socket :: "kernel \<Rightarrow> int proc" where
  "su_socket k = (case sys_call Sys_socket k of (r, k') \<Rightarrow> if r < 0 then Exited k' else Ret r k')"

definition su_bind :: "int \<Rightarrow> 16 word \<Rightarrow> kernel \<Rightarrow> unit proc" where
  "su_bind fd port k = (case sys_call (Sys_bind fd port) k of (r, k') \<Rightarrow>
     if r < 0 then Exited (su_close fd k') else Ret () k')"

definition su_listen :: "int \<Rightarrow> int \<Rightarrow> kernel \<Rightarrow> unit proc" where
  "su_listen fd backlog k = (case sys_call (Sys_listen fd backlog) k of (r, k') \<Rightarrow>
     if r < 0 then Exited (su_close fd k') else Ret () k')"

definition su_accept :: "int \<Rightarrow> kernel \<Rightarrow> int proc" where
  "su_accept fd k = (case sys_call (Sys_accept fd) k of (r, k') \<Rightarrow> Ret r k')"

definition su_inet_pton :: "string \<Rightarrow> kernel \<Rightarrow> unit proc" where
  "su_inet_pton ip k = (case sys_call (Sys_inet_pton ip) k of (r, k') \<Rightarrow> if r \<le> 0 then Exited k' else Ret () k')"

definition su_connect :: "int \<Rightarrow> string \<Rightarrow> 16 word \<Rightarrow> kernel \<Rightarrow> int proc" where
  "su_connect fd ip port k = (case sys_call (Sys_connect fd ip port) k of (r, k') \<Rightarrow>
     if r < 0 then Exited (su_close fd k') else Ret r k')"

definition su_send :: "int \<Rightarrow> byte list \<Rightarrow> kernel \<Rightarrow> int proc" where
  "su_send fd bs k = (case sys_call (Sys_send fd bs) k of (r, k') \<Rightarrow> Ret r k')"

text \<open>A failed \<open>setsockopt\<close> closes the descriptor and returns to the caller.\<close>

definition su_setsockopt :: "int \<Rightarrow> sockopt \<Rightarrow> int \<Rightarrow> kernel \<Rightarrow> kernel" where
  "su_setsockopt fd opt v k = (case sys_call (Sys_setsockopt fd opt v) k of (r, k') \<Rightarrow>
     if r < 0 then su_close fd k' else k')"

subsection \<open>Accepter\<close>

record accepter =
  acc_sockfd :: int
  acc_port :: int
  acc_backlog :: int
  acc_nodelay :: int

definition htons :: "int \<Rightarrow> 16 word" where
  "htons port = ntohs (word_of_int port)"

definition Accepter :: "int \<Rightarrow> int \<Rightarrow> int \<Rightarrow> kernel \<Rightarrow> accepter proc" where
  "Accepter port backlog nodelay k =
     proc_bind (su_socket k) (\<lambda>fd k.
       let k = su_setsockopt fd SO_REUSEADDR 1 k in
       proc_bind (su_bind fd (htons port) k) (\<lambda>_ k.
       proc_bind (su_listen fd backlog k) (\<lambda>_ k.
         Ret \<lparr>acc_sockfd = fd, acc_port = port, acc_backlog = backlog, acc_nodelay = nodelay\<rparr> k)))"

definition Accepter_destructor :: "accepter \<Rightarrow> kernel \<Rightarrow> kernel" where
  "Accepter_destructor a k = (if acc_sockfd a \<noteq> -1 then su_close (acc_sockfd a) k else k)"

definition set_fd_param :: "accepter \<Rightarrow> int \<Rightarrow> kernel \<Rightarrow> kernel" where
  "set_fd_param a fd k =
     (case sys_call (Sys_fcntl_nonblock fd) k of (r, k1) \<Rightarrow>
      let k2 = (if r = -1 then su_close fd k1 else k1) in
      su_setsockopt fd TCP_NODELAY (acc_nodelay a)
        (su_setsockopt fd SO_KEEPALIVE 1
          (su_setsockopt fd SO_RCVBUF (512 * 1024)
            (su_setsockopt fd SO_SNDBUF (512 * 1024) k2))))"

definition accepter_accept :: "accepter \<Rightarrow> kernel \<Rightarrow> int proc" where
  "accepter_accept a k = proc_bind (su_accept (acc_sockfd a) k) (\<lambda>fd k.
     Ret fd (if fd \<noteq> -1 then set_fd_param a fd k else k))"

subsection \<open>Scheduler, RpcServer and ClientChannel\<close>

datatype platform = Apple | Linux

datatype sched_policy = POLL_POLICY | URING_POLICY

datatype executor_class = EpollExecutorClass | UringExecutorClass | KqueueExecutorClass

definition Scheduler :: "platform \<Rightarrow> sched_policy \<Rightarrow> executor_class" where
  "Scheduler plat policy = (case plat of Apple \<Rightarrow> KqueueExecutorClass
     | Linux \<Rightarrow> (case policy of POLL_POLICY \<Rightarrow> EpollExecutorClass | URING_POLICY \<Rightarrow> UringExecutorClass))"

record server_options =
  opt_port :: int
  opt_backlog :: int
  opt_nodelay :: int
  opt_poll_timeout :: int
  opt_policy :: sched_policy

definition RpcServerOptions :: "int \<Rightarrow> server_options" where
  "RpcServerOptions port = \<lparr>opt_port = port, opt_backlog = 256, opt_nodelay = 1, opt_poll_timeout = -1, opt_policy = URING_POLICY\<rparr>"

definition RpcServer_constructor :: "platform \<Rightarrow> server_options \<Rightarrow> kernel \<Rightarrow> (accepter \<times> executor_class) proc" where
  "RpcServer_constructor plat opts k = proc_bind (Accepter (opt_port opts) (opt_backlog opts) (opt_nodelay opts) k) (\<lambda>a k.
     Ret (a, Scheduler plat (opt_policy opts)) k)"

text \<open>The kind of connection \<open>RpcServer::start\<close> makes for an accepted descriptor.\<close>

definition server_conn_kind :: "platform \<Rightarrow> sched_policy \<Rightarrow> conn_kind" where
  "server_conn_kind plat policy = (case plat of Apple \<Rightarrow> PollConnection
     | Linux \<Rightarrow> (if policy = POLL_POLICY then PollConnection else UringConnection))"

text \<open>
  One turn of \<open>RpcServer::start\<close> up to the executor: the descriptor and the kind of the
  connection made for it, or \<open>None\<close> when \<open>accept\<close> failed.
\<close>

definition server_start_turn :: "platform \<Rightarrow> server_options \<Rightarrow> accepter \<Rightarrow> kernel \<Rightarrow> (int \<times> conn_kind) option proc" where
  "server_start_turn plat opts a k = proc_bind (accepter_accept a k) (\<lambda>connfd k.
     Ret (if connfd = -1 then None else Some (connfd, server_conn_kind plat (opt_policy opts))) k)"

text \<open>The loop of \<open>RpcServer::start\<close>, which never ends: the connections its first \<open>n\<close> turns make.\<close>

primrec server_start :: "platform \<Rightarrow> server_options \<Rightarrow> accepter \<Rightarrow> nat \<Rightarrow> kernel \<Rightarrow> (int \<times> conn_kind) list proc" where
  "server_start plat opts a 0 k = Ret [] k"
| "server_start plat opts a (Suc n) k = proc_bind (server_start_turn plat opts a k) (\<lambda>conn k.
     proc_bind (server_start plat opts a n k) (\<lambda>conns k.
       Ret (case conn of None \<Rightarrow> conns | Some c \<Rightarrow> c # conns) k))"

text \<open>
  The constructor of the client up to the two \<open>spawn\<close> calls: the descriptor, and the kind of
  its connection, \<open>None\<close> for the null pointer it has under the ring policy. The result of
  \<open>fcntl\<close> is not looked at.
\<close>

definition client_connect :: "string \<Rightarrow> int \<Rightarrow> sched_policy \<Rightarrow> kernel \<Rightarrow> (int \<times> conn_kind option) proc" where
  "client_connect ip port policy k =
     proc_bind (su_socket k) (\<lambda>fd k.
     proc_bind (su_inet_pton ip k) (\<lambda>_ k.
     proc_bind (su_connect fd ip (htons port) k) (\<lambda>_ k.
       let k = snd (sys_call (Sys_fcntl_nonblock fd) k);
           conn = (if policy = POLL_POLICY then Some PollConnection else None);
           k = su_setsockopt fd SO_SNDBUF (512 * 1024) k;
           k = su_setsockopt fd SO_RCVBUF (512 * 1024) k;
           k = su_setsockopt fd TCP_NODELAY 1 k;
           k = su_setsockopt fd SO_LINGER 0 k in
       Ret (fd, conn) k)))"

subsection \<open>Lemmas\<close>

lemma su_setsockopt_ok: "0 \<le> sys_answer k (length (trace k)) \<Longrightarrow>
    su_setsockopt fd opt v k = k\<lparr>trace := trace k @ [Sys_setsockopt fd opt v]\<rparr>"
  by (simp add: su_setsockopt_def sys_call_def)

lemma su_setsockopt_trace:
  obtains cs where "trace (su_setsockopt fd opt v k) = trace k @ [Sys_setsockopt fd opt v] @ cs"
    and "sys_answer (su_setsockopt fd opt v k) = sys_answer k"
  by (cases "0 \<le> sys_answer k (length (trace k))") (auto simp: su_setsockopt_def sys_call_def su_close_def)

text \<open>The answers the kernel gave to \<open>accept\<close> on a descriptor, between two states.\<close>

definition accept_answers :: "int \<Rightarrow> kernel \<Rightarrow> kernel \<Rightarrow> int list" where
  "accept_answers fd k k' = map (sys_answer k) (filter (\<lambda>i. trace k' ! i = Sys_accept fd) [length (trace k)..<length (trace k')])"

text \<open>The calls on an accepted descriptor accept nothing.\<close>

definition sets_up :: "kernel \<Rightarrow> kernel \<Rightarrow> bool" where
  "sets_up k k' \<longleftrightarrow> (\<exists>cs. trace k' = trace k @ cs \<and> (\<forall>fd. Sys_accept fd \<notin> set cs) \<and> sys_answer k' = sys_answer k)"

lemma sets_up_trans [trans]: "sets_up k k1 \<Longrightarrow> sets_up k1 k2 \<Longrightarrow> sets_up k k2"
  by (auto simp: sets_up_def)

lemma sets_up_setsockopt: "sets_up k (su_setsockopt fd opt v k)"
  by (simp add: sets_up_def su_setsockopt_def sys_call_def su_close_def)

lemma set_fd_param_sets_up: "sets_up k (set_fd_param a fd k)"
proof -
  let ?k1 = "snd (sys_call (Sys_fcntl_nonblock fd) k)"
  let ?k2 = "if fst (sys_call (Sys_fcntl_nonblock fd) k) = -1 then su_close fd ?k1 else ?k1"
  have "sets_up k ?k2" by (simp add: sets_up_def sys_call_def su_close_def)
  also have "sets_up ?k2 (su_setsockopt fd SO_SNDBUF (512 * 1024) ?k2)" (is "sets_up _ ?k3") by (rule sets_up_setsockopt)
  also have "sets_up ?k3 (su_setsockopt fd SO_RCVBUF (512 * 1024) ?k3)" (is "sets_up _ ?k4") by (rule sets_up_setsockopt)
  also have "sets_up ?k4 (su_setsockopt fd SO_KEEPALIVE 1 ?k4)" (is "sets_up _ ?k5") by (rule sets_up_setsockopt)
  also have "sets_up ?k5 (su_setsockopt fd TCP_NODELAY (acc_nodelay a) ?k5)" by (rule sets_up_setsockopt)
  finally show ?thesis by (simp only: set_fd_param_def Let_def split_beta)
qed

lemma sets_up_answers:
  assumes "trace k1 = trace k @ [Sys_accept fd]" and "sys_answer k1 = sys_answer k" and "sets_up k1 k2" and "trace k3 = trace k2 @ cs" and "sys_answer k3 = sys_answer k2"
  shows "accept_answers fd k k3 = sys_answer k (length (trace k)) # accept_answers fd k2 k3"
proof -
  from assms(3) obtain ds where ds: "trace k2 = trace k @ Sys_accept fd # ds" "Sys_accept fd \<notin> set ds" "sys_answer k2 = sys_answer k"
    using assms(1,2) by (auto simp: sets_up_def)
  have t: "trace k3 = trace k @ Sys_accept fd # ds @ cs" using ds(1) assms(4) by simp
  have "filter (\<lambda>i. trace k3 ! i = Sys_accept fd) [Suc (length (trace k))..<length (trace k2)] = []"
    unfolding filter_empty_conv using ds(1,2) by (auto simp: t nth_append nth_Cons in_set_conv_nth split: nat.splits)
  moreover have "length (trace k) < length (trace k2)" "length (trace k3) = length (trace k2) + length cs" using ds(1) assms(4) by simp_all
  then have "[length (trace k)..<length (trace k3)] = length (trace k) # [Suc (length (trace k))..<length (trace k2)] @ [length (trace k2)..<length (trace k3)]"
    using upt_add_eq_append [of "length (trace k)" "length (trace k2)" "length cs"] upt_conv_Cons [of "length (trace k)" "length (trace k2)"] by (simp del: upt_Suc)
  ultimately show ?thesis by (simp add: accept_answers_def ds(3) t)
qed

lemma accept_turn:
  obtains k1 k2 where "trace k1 = trace k @ [Sys_accept (acc_sockfd a)]" and "sys_answer k1 = sys_answer k" and "sets_up k1 k2"
    and "server_start_turn plat opts a k = Ret (if sys_answer k (length (trace k)) = -1 then None
      else Some (sys_answer k (length (trace k)), server_conn_kind plat (opt_policy opts))) k2"
proof -
  let ?k1 = "k\<lparr>trace := trace k @ [Sys_accept (acc_sockfd a)]\<rparr>" and ?fd = "sys_answer k (length (trace k))"
  let ?k2 = "if ?fd \<noteq> -1 then set_fd_param a ?fd ?k1 else ?k1"
  have "sets_up ?k1 ?k1" by (simp add: sets_up_def)
  then have "sets_up ?k1 ?k2" using set_fd_param_sets_up [of ?k1 a ?fd] by simp
  then show thesis by (intro that [of ?k1 ?k2]) (simp_all add: server_start_turn_def accepter_accept_def su_accept_def sys_call_def)
qed

lemma server_start_connections:
  "\<exists>conns k' cs. server_start plat opts a n k = Ret conns k' \<and> trace k' = trace k @ cs \<and> sys_answer k' = sys_answer k \<and>
     length (accept_answers (acc_sockfd a) k k') = n \<and>
     conns = map (\<lambda>fd. (fd, server_conn_kind plat (opt_policy opts))) (filter (\<lambda>fd. fd \<noteq> -1) (accept_answers (acc_sockfd a) k k'))"
proof (induction n arbitrary: k)
  case 0
  then show ?case by (simp add: accept_answers_def)
next
  case (Suc n)
  let ?fd = "sys_answer k (length (trace k))"
  obtain k1 k2 where k: "trace k1 = trace k @ [Sys_accept (acc_sockfd a)]" "sys_answer k1 = sys_answer k" "sets_up k1 k2"
    and t: "server_start_turn plat opts a k = Ret (if ?fd = -1 then None else Some (?fd, server_conn_kind plat (opt_policy opts))) k2"
    by (rule accept_turn)
  from Suc.IH [of k2] obtain conns k3 cs where s: "server_start plat opts a n k2 = Ret conns k3" "trace k3 = trace k2 @ cs" "sys_answer k3 = sys_answer k2"
    "length (accept_answers (acc_sockfd a) k2 k3) = n"
    "conns = map (\<lambda>fd. (fd, server_conn_kind plat (opt_policy opts))) (filter (\<lambda>fd. fd \<noteq> -1) (accept_answers (acc_sockfd a) k2 k3))" by blast
  note an = sets_up_answers [OF k s(2,3)]
  from k obtain ds where "trace k2 = trace k @ ds" "sys_answer k2 = sys_answer k" by (auto simp: sets_up_def)
  with t s an show ?case by (cases "?fd = -1") auto
qed

subsection \<open>Properties\<close>

lemmas setup_defs = su_socket_def su_bind_def su_listen_def su_accept_def su_inet_pton_def su_connect_def su_close_def
  sys_call_def

text \<open>
  The listening socket: the constructor of \<open>Accepter\<close> returns exactly if \<open>socket\<close>, \<open>bind\<close>
  and \<open>listen\<close> succeed, and then its last two calls bound the port in network byte order and
  started listening with the given backlog, on the descriptor it keeps. In every other case
  the process exits, and a descriptor it got was closed first.
\<close>

theorem accepter_listens_or_exits:
  "case Accepter port backlog nodelay k of
     Ret a k' \<Rightarrow> acc_sockfd a = sys_answer k (length (trace k)) \<and> 0 \<le> acc_sockfd a \<and> acc_nodelay a = nodelay \<and>
       (\<exists>cs. trace k' = trace k @ [Sys_socket] @ cs @ [Sys_bind (acc_sockfd a) (htons port), Sys_listen (acc_sockfd a) backlog] \<and>
         0 \<le> sys_answer k (length (trace k') - 1) \<and> 0 \<le> sys_answer k (length (trace k') - 2))
   | Exited k' \<Rightarrow> (if sys_answer k (length (trace k)) < 0 then trace k' = trace k @ [Sys_socket]
       else last (trace k') = Sys_close (sys_answer k (length (trace k))))"
proof -
  let ?fd = "sys_answer k (length (trace k))" and ?k = "k\<lparr>trace := trace k @ [Sys_socket]\<rparr>"
  obtain cs where cs: "trace (su_setsockopt ?fd SO_REUSEADDR 1 ?k) = trace k @ [Sys_socket] @ Sys_setsockopt ?fd SO_REUSEADDR 1 # cs"
    "sys_answer (su_setsockopt ?fd SO_REUSEADDR 1 ?k) = sys_answer k"
    by (rule su_setsockopt_trace [of ?fd SO_REUSEADDR 1 ?k]) simp
  show ?thesis by (auto simp: Accepter_def setup_defs Let_def cs)
qed

text \<open>
  C29. Accepting a connection sets it up: when \<open>accept\<close> and the five calls on the new descriptor
  succeed, the descriptor is returned non-blocking, with both buffers of 512 KiB, keep-alive and
  the configured \<open>TCP_NODELAY\<close>, and was not closed. When \<open>fcntl\<close> fails the descriptor is closed,
  but the four options are set on it all the same and it is returned to the server, which then
  builds a connection on a closed descriptor.
\<close>

theorem accept_sets_up_or_returns_closed:
  assumes "fd = sys_answer k (length (trace k))" and "0 \<le> fd"
  shows "((\<forall>n \<ge> length (trace k). 0 \<le> sys_answer k n) \<longrightarrow> accepter_accept a k = Ret fd (k\<lparr>trace := trace k @
      [Sys_accept (acc_sockfd a), Sys_fcntl_nonblock fd, Sys_setsockopt fd SO_SNDBUF 524288, Sys_setsockopt fd SO_RCVBUF 524288,
       Sys_setsockopt fd SO_KEEPALIVE 1, Sys_setsockopt fd TCP_NODELAY (acc_nodelay a)]\<rparr>)) \<and>
    (sys_answer k (length (trace k) + 1) = -1 \<longrightarrow> (\<exists>k' cs. accepter_accept a k = Ret fd k' \<and>
      trace k' = trace k @ [Sys_accept (acc_sockfd a), Sys_fcntl_nonblock fd, Sys_close fd, Sys_setsockopt fd SO_SNDBUF 524288] @ cs))"
proof (intro conjI impI)
  assume all: "\<forall>n \<ge> length (trace k). 0 \<le> sys_answer k n"
  then have "0 \<le> sys_answer k (Suc (length (trace k)))" by simp
  then have "sys_answer k (Suc (length (trace k))) \<noteq> -1" "fd \<noteq> -1" using assms by linarith+
  with all assms show "accepter_accept a k = Ret fd (k\<lparr>trace := trace k @
      [Sys_accept (acc_sockfd a), Sys_fcntl_nonblock fd, Sys_setsockopt fd SO_SNDBUF 524288, Sys_setsockopt fd SO_RCVBUF 524288,
       Sys_setsockopt fd SO_KEEPALIVE 1, Sys_setsockopt fd TCP_NODELAY (acc_nodelay a)]\<rparr>)"
    by (simp add: accepter_accept_def set_fd_param_def setup_defs su_setsockopt_ok Let_def)
next
  assume f: "sys_answer k (length (trace k) + 1) = -1"
  let ?k = "k\<lparr>trace := trace k @ [Sys_accept (acc_sockfd a), Sys_fcntl_nonblock fd, Sys_close fd]\<rparr>"
  let ?k1 = "su_setsockopt fd SO_SNDBUF 524288 ?k" let ?k2 = "su_setsockopt fd SO_RCVBUF 524288 ?k1"
  let ?k3 = "su_setsockopt fd SO_KEEPALIVE 1 ?k2" let ?k4 = "su_setsockopt fd TCP_NODELAY (acc_nodelay a) ?k3"
  obtain cs1 cs2 cs3 cs4 where "trace ?k1 = trace ?k @ [Sys_setsockopt fd SO_SNDBUF 524288] @ cs1"
    "trace ?k2 = trace ?k1 @ cs2" "trace ?k3 = trace ?k2 @ cs3" "trace ?k4 = trace ?k3 @ cs4"
    by (meson su_setsockopt_trace)
  moreover have "accepter_accept a k = Ret fd ?k4"
    using assms f by (simp add: accepter_accept_def set_fd_param_def setup_defs)
  ultimately show "\<exists>k' cs. accepter_accept a k = Ret fd k' \<and>
      trace k' = trace k @ [Sys_accept (acc_sockfd a), Sys_fcntl_nonblock fd, Sys_close fd, Sys_setsockopt fd SO_SNDBUF 524288] @ cs"
    by simp
qed

theorem accept_sets_up_or_returns_closed_witness:
  "\<exists>k' cs. accepter_accept \<lparr>acc_sockfd = 3, acc_port = 8888, acc_backlog = 256, acc_nodelay = 1\<rparr>
       \<lparr>sys_answer = (\<lambda>n. if n = 1 then -1 else 7), trace = []\<rparr> = Ret 7 k' \<and>
     trace k' = [Sys_accept 3, Sys_fcntl_nonblock 7, Sys_close 7, Sys_setsockopt 7 SO_SNDBUF 524288] @ cs"
  using accept_sets_up_or_returns_closed [of 7 "\<lparr>sys_answer = (\<lambda>n. if n = 1 then -1 else 7), trace = []\<rparr>"
      "\<lparr>acc_sockfd = 3, acc_port = 8888, acc_backlog = 256, acc_nodelay = 1\<rparr>"] by simp



text \<open>
  A client has a connection exactly under the poll policy: when its constructor gets past
  \<open>connect\<close>, its connection is the null pointer under the ring policy, which the two coroutines
  it spawns next and \<open>close\<close> dereference. When a call before fails, the process exits.
\<close>

theorem client_has_connection_iff_poll:
  "case client_connect ip port policy k of
     Ret (fd, conn) k' \<Rightarrow> 0 \<le> fd \<and> (conn = None \<longleftrightarrow> policy = URING_POLICY) \<and>
       (\<exists>cs. trace k' = trace k @ [Sys_socket, Sys_inet_pton ip, Sys_connect fd ip (htons port), Sys_fcntl_nonblock fd] @ cs)
   | Exited k' \<Rightarrow> \<not> (\<forall>n. 0 < sys_answer k n)"
proof -
  let ?fd = "sys_answer k (length (trace k))"
  let ?k = "k\<lparr>trace := trace k @ [Sys_socket, Sys_inet_pton ip, Sys_connect ?fd ip (htons port), Sys_fcntl_nonblock ?fd]\<rparr>"
  let ?k1 = "su_setsockopt ?fd SO_SNDBUF 524288 ?k" let ?k2 = "su_setsockopt ?fd SO_RCVBUF 524288 ?k1"
  let ?k3 = "su_setsockopt ?fd TCP_NODELAY 1 ?k2" let ?k4 = "su_setsockopt ?fd SO_LINGER 0 ?k3"
  obtain cs1 cs2 cs3 cs4 where "trace ?k1 = trace ?k @ cs1"
    "trace ?k2 = trace ?k1 @ cs2" "trace ?k3 = trace ?k2 @ cs3" "trace ?k4 = trace ?k3 @ cs4"
    by (meson su_setsockopt_trace)
  then have t: "\<exists>cs. trace ?k4 = trace ?k @ cs" by simp
  have ok: "client_connect ip port policy k = Ret (?fd, if policy = POLL_POLICY then Some PollConnection else None) ?k4"
    if "0 \<le> ?fd" "0 < sys_answer k (Suc (length (trace k)))" "0 \<le> sys_answer k (Suc (Suc (length (trace k))))"
    using that by (simp add: client_connect_def setup_defs Let_def)
  have "\<exists>k'. client_connect ip port policy k = Exited k'"
    if "\<not> (0 \<le> ?fd \<and> 0 < sys_answer k (Suc (length (trace k))) \<and> 0 \<le> sys_answer k (Suc (Suc (length (trace k)))))"
    using that by (auto simp: client_connect_def setup_defs Let_def)
  with ok t show ?thesis
    by (cases "0 \<le> ?fd \<and> 0 < sys_answer k (Suc (length (trace k))) \<and> 0 \<le> sys_answer k (Suc (Suc (length (trace k))))")
      (cases policy, auto simp: not_le not_less, (metis order_less_le not_less)+)
qed

end
