(* ===== verification/Service.thy ===== *)
theory Service
  imports RpcServer
begin

section \<open>Controllers and services\<close>

text \<open>
  The controller a call is given (src/util/service.h, src/util/service.cc) and the service of
  the example (src/example/echo_service.cc), as the server of theory \<open>RpcServer\<close> sees it.
  \<open>SetTimeout\<close> is declared and defined nowhere, so \<open>timeout_ms_\<close> keeps its initial value.
\<close>

subsection \<open>RpcController\<close>

record controller =
  failed :: bool
  canceled :: bool
  error_text :: string
  timeout_ms :: int

definition RpcController :: controller where
  "RpcController = \<lparr>failed = False, canceled = False, error_text = '''', timeout_ms = -1\<rparr>"

definition ctl_Reset :: "controller \<Rightarrow> controller" where
  "ctl_Reset c = c\<lparr>failed := False, canceled := False, error_text := '''', timeout_ms := -1\<rparr>"

definition ctl_StartCancel :: "controller \<Rightarrow> controller" where
  "ctl_StartCancel c = c\<lparr>canceled := True\<rparr>"

text \<open>The callback is dropped.\<close>

definition ctl_NotifyOnCancel :: "'cb \<Rightarrow> controller \<Rightarrow> controller" where
  "ctl_NotifyOnCancel callback c = c"

definition ctl_SetFailed :: "string \<Rightarrow> controller \<Rightarrow> controller" where
  "ctl_SetFailed reason c = c\<lparr>failed := True, error_text := reason\<rparr>"

text \<open>The operations as data, to speak of a history of a controller.\<close>

datatype ctl_call = Reset | StartCancel | NotifyOnCancel nat | SetFailed string

fun ctl_apply :: "ctl_call \<Rightarrow> controller \<Rightarrow> controller" where
  "ctl_apply Reset c = ctl_Reset c"
| "ctl_apply StartCancel c = ctl_StartCancel c"
| "ctl_apply (NotifyOnCancel cb) c = ctl_NotifyOnCancel cb c"
| "ctl_apply (SetFailed reason) c = ctl_SetFailed reason c"

text \<open>What a history says: only the calls since the last \<open>Reset\<close> count, the newest first.\<close>

definition since_reset :: "ctl_call list \<Rightarrow> ctl_call list" where
  "since_reset cs = takeWhile (\<lambda>c. c \<noteq> Reset) (rev cs)"

fun reasons :: "ctl_call list \<Rightarrow> string list" where
  "reasons [] = []"
| "reasons (SetFailed r # cs) = r # reasons cs"
| "reasons (c # cs) = reasons cs"

definition controller_of :: "ctl_call list \<Rightarrow> controller" where
  "controller_of cs = (let h = since_reset cs in
     \<lparr>failed = (reasons h \<noteq> []), canceled = (StartCancel \<in> set h),
      error_text = (case reasons h of [] \<Rightarrow> '''' | r # _ \<Rightarrow> r), timeout_ms = -1\<rparr>)"

lemma since_reset_snoc: "since_reset (cs @ [c]) = (if c = Reset then [] else c # since_reset cs)"
  by (simp add: since_reset_def)

text \<open>
  A controller reports its history: after any sequence of calls it has failed exactly if
  \<open>SetFailed\<close> was called since the last \<open>Reset\<close>, with the reason given last, and is cancelled
  exactly if \<open>StartCancel\<close> was; registering a callback changes nothing, and the timeout is never
  set.
\<close>

theorem controller_reports_history: "fold ctl_apply cs RpcController = controller_of cs"
proof (induction cs rule: rev_induct)
  case Nil
  show ?case by (simp add: RpcController_def controller_of_def since_reset_def Let_def)
next
  case (snoc c cs)
  then show ?case
    by (cases c) (simp_all add: controller_of_def since_reset_snoc Let_def ctl_Reset_def ctl_StartCancel_def
        ctl_NotifyOnCancel_def ctl_SetFailed_def)
qed

subsection \<open>EchoService\<close>

text \<open>
  The messages have one string field. How protobuf parses and serializes them is a parameter;
  \<open>has_method\<close> is the descriptor of the service in src/example/echo.proto.
\<close>

definition Echo :: "string \<Rightarrow> string" where
  "Echo message = ''[Echo] '' @ message"

definition Echo1 :: "string \<Rightarrow> string" where
  "Echo1 message = ''[Echo1] '' @ message"

definition EchoService :: "(byte list \<Rightarrow> string option) \<Rightarrow> (string \<Rightarrow> byte list) \<Rightarrow> string service" where
  "EchoService parse serialize =
     \<lparr>has_method = (\<lambda>m. m = ''Echo'' \<or> m = ''Echo1''), parse_request = (\<lambda>_. parse),
      call_method = (\<lambda>m. if m = ''Echo'' then Echo else Echo1), serialize_response = serialize\<rparr>"

text \<open>
  A server with the registered echo service answers every echo request it can parse with
  the request's message behind the prefix of the called method, under the number of the
  request, and refuses every other method of the service.
\<close>

theorem echo_service_answers:
  assumes "parse_header srv hb = Some h" and "magic h = MAGIC_NUM" and "version h = VERSION"
    and "service_name h = Some ''EchoService''" and "method_name h = Some m" and "parse qb = Some message"
  shows "answer (register_service ''EchoService'' (EchoService parse serialize) srv) hb qb =
    (if m = ''Echo'' then Some (frame (serialize_header srv (response_header h)) @ frame (serialize (''[Echo] '' @ message)))
     else if m = ''Echo1'' then Some (frame (serialize_header srv (response_header h)) @ frame (serialize (''[Echo1] '' @ message)))
     else None)"
  using assms by (auto simp: answer_def register_service_def EchoService_def Echo_def Echo1_def get_string_def)

definition echo_example :: "string rpc_server" where
  "echo_example = \<lparr>parse_header = (\<lambda>_. Some \<lparr>magic = MAGIC_NUM, version = VERSION, message_type = REQUEST, request_id = 7,
       service_name = Some ''EchoService'', method_name = Some ''Echo1''\<rparr>),
     serialize_header = (\<lambda>h. [word_of_int (request_id h)]), name2service = (\<lambda>_. None)\<rparr>"

theorem echo_service_answers_witness:
  "answer (register_service ''EchoService'' (EchoService (\<lambda>bs. Some (replicate (length bs) CHR ''x'')) (map (\<lambda>_. 1))) echo_example) [1] [5]
    = Some (frame [7] @ frame (replicate 9 1))"
  using echo_service_answers [of echo_example "[1]" "the (parse_header echo_example [1])" "''Echo1''"
      "\<lambda>bs. Some (replicate (length bs) CHR ''x'')" "[5]" "''x''" "map (\<lambda>_. 1)"]
  by (simp add: echo_example_def response_header_def numeral_eq_Suc)

end
