(* ===== verification/Press.thy ===== *)
theory Press
  imports Prelude Progress "HOL-Library.Multiset"
begin

section \<open>The benchmark (src/press/rpc_press.cc)\<close>

text \<open>
  The benchmark starts \<open>kConcurrency\<close> threads that share one counter: each takes the next request
  number with \<open>fetch_add\<close> and calls the echo service with it until \<open>kTotalRequests\<close> numbers were
  given out. The closure of a call counts its completion; the main thread waits until all are
  complete or its time is over, stops the scheduler and joins the threads. What a call does is
  in theory \<open>ClientChannel\<close>; here it is one that is made and whose closure runs later. The
  counters are 32-bit words, as \<open>std::atomic<int>\<close> is.
\<close>

definition kConcurrency :: nat where
  "kConcurrency = 32"

definition kTotalRequests :: nat where
  "kTotalRequests = 100000"

subsection \<open>The message of a request\<close>

text \<open>\<open>std::to_string\<close> of a number that is not negative, and the message made with it.\<close>

definition digit :: "nat \<Rightarrow> char" where
  "digit d = char_of (48 + d)"

fun to_string :: "nat \<Rightarrow> string" where
  "to_string n = (if n < 10 then [digit n] else to_string (n div 10) @ [digit (n mod 10)])"

declare to_string.simps [simp del]

definition press_message :: "nat \<Rightarrow> string" where
  "press_message idx = ''echo_req_'' @ to_string idx"

definition read_digits :: "string \<Rightarrow> nat" where
  "read_digits = foldl (\<lambda>n c. 10 * n + (of_char c - 48)) 0"

lemma digit_value: "d < 10 \<Longrightarrow> of_char (digit d) - 48 = d"
  by (simp add: digit_def)

lemma read_to_string: "read_digits (to_string n) = n"
proof (induction n rule: to_string.induct)
  case (1 n)
  show ?case
  proof (cases "n < 10")
    case True
    then show ?thesis by (simp add: to_string.simps [of n] read_digits_def digit_value)
  next
    case False
    with 1 have "read_digits (to_string (n div 10)) = n div 10" by blast
    with False show ?thesis by (simp add: to_string.simps [of n] read_digits_def digit_value)
  qed
qed

lemma press_message_inject: "press_message m = press_message n \<longleftrightarrow> m = n"
proof
  assume "press_message m = press_message n"
  then have "read_digits (to_string m) = read_digits (to_string n)" by (simp add: press_message_def)
  then show "m = n" by (simp add: read_to_string)
qed simp

subsection \<open>The threads\<close>

datatype worker_pc = W_none | W_fetch | W_call nat | W_exit

datatype main_pc = M_start nat | M_poll | M_stop | M_join nat | M_report

text \<open>\<open>made\<close> is the history of the calls, by worker and request number; \<open>open_calls\<close> are those whose closure has not run.\<close>

record press =
  g_sent :: "32 word"
  g_completed :: "32 word"
  workers :: "nat \<Rightarrow> worker_pc"
  main :: main_pc
  made :: "(nat \<times> nat) list"
  open_calls :: "(nat \<times> nat) list"

definition press_init :: press where
  "press_init = \<lparr>g_sent = 0, g_completed = 0, workers = \<lambda>_. W_none, main = M_start 0, made = [], open_calls = []\<rparr>"

text \<open>\<open>worker_thread\<close>: take a number, and make the call or end.\<close>

inductive worker_step :: "press \<Rightarrow> press \<Rightarrow> bool" where
  fetch: "workers s i = W_fetch \<Longrightarrow> idx = sint (g_sent s) \<Longrightarrow>
    worker_step s (s\<lparr>g_sent := g_sent s + 1, workers := (workers s)(i := if int kTotalRequests \<le> idx then W_exit else W_call (nat idx))\<rparr>)"
| call: "workers s i = W_call idx \<Longrightarrow>
    worker_step s (s\<lparr>workers := (workers s)(i := W_fetch), made := made s @ [(i, idx)], open_calls := open_calls s @ [(i, idx)]\<rparr>)"

text \<open>\<open>handle_response\<close>, the closure of a call.\<close>

inductive response_step :: "press \<Rightarrow> press \<Rightarrow> bool" where
  response: "open_calls s = xs @ c # ys \<Longrightarrow> response_step s (s\<lparr>open_calls := xs @ ys, g_completed := g_completed s + 1\<rparr>)"

text \<open>\<open>main\<close>: start the threads, wait, stop the scheduler, join. Sleeping is no step.\<close>

inductive main_step :: "press \<Rightarrow> press \<Rightarrow> bool" where
  start: "main s = M_start i \<Longrightarrow> i < kConcurrency \<Longrightarrow> main_step s (s\<lparr>workers := (workers s)(i := W_fetch), main := M_start (i + 1)\<rparr>)"
| started: "main s = M_start i \<Longrightarrow> kConcurrency \<le> i \<Longrightarrow> main_step s (s\<lparr>main := M_poll\<rparr>)"
| complete: "main s = M_poll \<Longrightarrow> int kTotalRequests \<le> sint (g_completed s) \<Longrightarrow> main_step s (s\<lparr>main := M_stop\<rparr>)"
| timeout: "main s = M_poll \<Longrightarrow> sint (g_completed s) < int kTotalRequests \<Longrightarrow> main_step s (s\<lparr>main := M_stop\<rparr>)"
| stop: "main s = M_stop \<Longrightarrow> main_step s (s\<lparr>main := M_join 0\<rparr>)"
| join: "main s = M_join i \<Longrightarrow> i < kConcurrency \<Longrightarrow> workers s i = W_exit \<Longrightarrow> main_step s (s\<lparr>main := M_join (i + 1)\<rparr>)"
| joined: "main s = M_join i \<Longrightarrow> kConcurrency \<le> i \<Longrightarrow> main_step s (s\<lparr>main := M_report\<rparr>)"

inductive press_step :: "press \<Rightarrow> press \<Rightarrow> bool" where
  worker: "worker_step s t \<Longrightarrow> press_step s t"
| closure: "response_step s t \<Longrightarrow> press_step s t"
| by_main: "main_step s t \<Longrightarrow> press_step s t"

subsection \<open>Invariants\<close>

definition taken :: "worker_pc \<Rightarrow> nat multiset" where
  "taken pc = (case pc of W_call idx \<Rightarrow> {#idx#} | _ \<Rightarrow> {#})"

definition exits :: "press \<Rightarrow> nat" where
  "exits s = card {i \<in> {..<kConcurrency}. workers s i = W_exit}"

text \<open>Where the main thread is, and what the workers do then.\<close>

fun main_ok :: "(nat \<Rightarrow> worker_pc) \<Rightarrow> main_pc \<Rightarrow> bool" where
  "main_ok w (M_start j) \<longleftrightarrow> j \<le> kConcurrency \<and> (\<forall>i. (i < j) = (w i \<noteq> W_none))"
| "main_ok w M_poll \<longleftrightarrow> (\<forall>i < kConcurrency. w i \<noteq> W_none)"
| "main_ok w M_stop \<longleftrightarrow> (\<forall>i < kConcurrency. w i \<noteq> W_none)"
| "main_ok w (M_join j) \<longleftrightarrow> (\<forall>i < kConcurrency. w i \<noteq> W_none) \<and> (\<forall>i < min j kConcurrency. w i = W_exit)"
| "main_ok w M_report \<longleftrightarrow> (\<forall>i < kConcurrency. w i = W_exit)"

text \<open>\<open>n\<close> numbers have been given out: the smaller ones are calls, and the others ended their workers.\<close>

definition press_inv :: "nat \<Rightarrow> press \<Rightarrow> bool" where
  "press_inv n s \<longleftrightarrow> g_sent s = of_nat n \<and> exits s = n - kTotalRequests \<and>
     mset (map snd (made s)) + (\<Sum>i < kConcurrency. taken (workers s i)) = mset [0..<min n kTotalRequests] \<and>
     (\<exists>m. g_completed s = of_nat m \<and> m + length (open_calls s) = length (made s)) \<and>
     set (open_calls s) \<subseteq> set (made s) \<and>
     (\<forall>i \<ge> kConcurrency. workers s i = W_none) \<and> main_ok (workers s) (main s)"

lemma sint_of_nat_small: "n < 2 ^ 31 \<Longrightarrow> sint (of_nat n :: 32 word) = int n"
  by (simp add: signed_of_nat signed_take_bit_int_eq_self)

lemma press_inv_init: "press_inv 0 press_init"
  by (simp add: press_inv_def press_init_def exits_def taken_def)


lemma press_inv_bound:
  assumes "press_inv n s"
  shows "n \<le> kTotalRequests + kConcurrency" and "n < 2 ^ 31" and "sint (g_sent s) = int n"
    and "i < kConcurrency \<Longrightarrow> workers s i \<noteq> W_exit \<Longrightarrow> n < kTotalRequests + kConcurrency"
proof -
  have "exits s \<le> kConcurrency"
    unfolding exits_def by (rule order_trans [OF card_mono [of "{..<kConcurrency}"]]) auto
  then show n: "n \<le> kTotalRequests + kConcurrency" using assms by (simp add: press_inv_def)
  then show "n < 2 ^ 31" by (simp add: kTotalRequests_def kConcurrency_def)
  then show "sint (g_sent s) = int n" using assms sint_of_nat_small [of n] by (simp add: press_inv_def)
  assume i: "i < kConcurrency" "workers s i \<noteq> W_exit"
  then have "{i \<in> {..<kConcurrency}. workers s i = W_exit} \<subset> {..<kConcurrency}" by auto
  from psubset_card_mono [OF finite_lessThan this] have "exits s < kConcurrency" by (simp add: exits_def)
  then show "n < kTotalRequests + kConcurrency" using assms by (simp add: press_inv_def)
qed

lemma press_inv_started:
  assumes "press_inv n s" and "workers s i \<noteq> W_none"
  shows "i < kConcurrency"
  using assms unfolding press_inv_def by (meson not_le)

lemma sum_taken_upd:
  assumes "i < kConcurrency"
  shows "(\<Sum>j < kConcurrency. taken ((w(i := pc)) j)) + taken (w i) = (\<Sum>j < kConcurrency. taken (w j)) + taken pc"
proof -
  have i: "i \<in> {..<kConcurrency}" using assms by simp
  have "(\<Sum>j \<in> {..<kConcurrency} - {i}. taken ((w(i := pc)) j)) = (\<Sum>j \<in> {..<kConcurrency} - {i}. taken (w j))"
    by (intro sum.cong) auto
  then show ?thesis by (simp only: sum.remove [OF finite_lessThan i]) (simp add: ac_simps)
qed

lemma exits_upd:
  assumes "i < kConcurrency" and "workers s i \<noteq> W_exit"
  shows "exits (s\<lparr>workers := (workers s)(i := pc)\<rparr>) = (if pc = W_exit then Suc (exits s) else exits s)"
proof -
  have "{j \<in> {..<kConcurrency}. ((workers s)(i := pc)) j = W_exit} =
      (if pc = W_exit then insert i {j \<in> {..<kConcurrency}. workers s j = W_exit} else {j \<in> {..<kConcurrency}. workers s j = W_exit})"
    using assms by auto
  with assms show ?thesis by (simp add: exits_def)
qed

text \<open>Where the main thread is allows a worker to go on, as it waits only for those that have ended.\<close>

lemma main_ok_upd:
  assumes "w i \<noteq> W_none" and "w i \<noteq> W_exit" and "pc \<noteq> W_none" and "i < kConcurrency" and "main_ok w m"
  shows "main_ok (w(i := pc)) m"
proof (cases m)
  case (M_join j)
  with assms have "\<not> i < min j kConcurrency" by auto
  with assms M_join show ?thesis by auto
qed (use assms in auto)

lemma fetch_inv:
  assumes inv: "press_inv n s" and w: "workers s i = W_fetch"
  shows "press_inv (n + 1) (s\<lparr>g_sent := g_sent s + 1,
    workers := (workers s)(i := if int kTotalRequests \<le> sint (g_sent s) then W_exit else W_call (nat (sint (g_sent s))))\<rparr>)"
proof -
  have i: "i < kConcurrency" using press_inv_started [OF inv] w by simp
  note b = press_inv_bound(3) [OF inv]
  define pc where "pc = (if kTotalRequests \<le> n then W_exit else W_call n)"
  have pc: "(if int kTotalRequests \<le> sint (g_sent s) then W_exit else W_call (nat (sint (g_sent s)))) = pc" by (simp add: pc_def b)
  have "(\<Sum>j < kConcurrency. taken (((workers s)(i := pc)) j)) = (\<Sum>j < kConcurrency. taken (workers s j)) + taken pc"
    using sum_taken_upd [OF i, of "workers s" pc] w by (simp add: taken_def)
  moreover have "mset [0..<min n kTotalRequests] + taken pc = mset [0..<min (n + 1) kTotalRequests]"
  proof (cases "kTotalRequests \<le> n")
    case False
    then have "min n kTotalRequests = n" "min (n + 1) kTotalRequests = Suc n" by simp_all
    with False show ?thesis by (simp add: pc_def taken_def del: mset_upt)
  qed (simp add: pc_def taken_def min_def)
  ultimately have "mset (map snd (made s)) + (\<Sum>j < kConcurrency. taken (((workers s)(i := pc)) j)) = mset [0..<min (n + 1) kTotalRequests]"
    using inv by (simp add: press_inv_def ac_simps)
  moreover have "exits (s\<lparr>workers := (workers s)(i := pc)\<rparr>) = n + 1 - kTotalRequests"
    using exits_upd [OF i, of s pc] w inv by (cases "kTotalRequests \<le> n") (simp_all add: press_inv_def pc_def Suc_diff_le)
  then have "exits (s\<lparr>g_sent := g_sent s + 1, workers := (workers s)(i := pc)\<rparr>) = n + 1 - kTotalRequests" by (simp add: exits_def)
  moreover have "main_ok ((workers s)(i := pc)) (main s)"
    by (rule main_ok_upd) (use inv w i in \<open>simp_all add: pc_def press_inv_def\<close>)
  ultimately show ?thesis using inv i unfolding pc press_inv_def by simp
qed

lemma call_inv:
  assumes inv: "press_inv n s" and w: "workers s i = W_call idx"
  shows "press_inv n (s\<lparr>workers := (workers s)(i := W_fetch), made := made s @ [(i, idx)], open_calls := open_calls s @ [(i, idx)]\<rparr>)"
    and "idx < kTotalRequests"
proof -
  have i: "i < kConcurrency" using press_inv_started [OF inv] w by simp
  have sum: "(\<Sum>j < kConcurrency. taken (((workers s)(i := W_fetch)) j)) + {#idx#} = (\<Sum>j < kConcurrency. taken (workers s j))"
    using sum_taken_upd [OF i, of "workers s" W_fetch] w by (simp add: taken_def)
  moreover have m: "mset (map snd (made s)) + (\<Sum>j < kConcurrency. taken (workers s j)) = mset [0..<min n kTotalRequests]"
    using inv by (simp add: press_inv_def)
  ultimately have "mset (map snd (made s @ [(i, idx)])) + (\<Sum>j < kConcurrency. taken (((workers s)(i := W_fetch)) j)) = mset [0..<min n kTotalRequests]"
    by (simp add: ac_simps flip: m sum)
  moreover have "exits (s\<lparr>workers := (workers s)(i := W_fetch), made := made s @ [(i, idx)], open_calls := open_calls s @ [(i, idx)]\<rparr>) = exits s"
    using exits_upd [OF i, of s W_fetch] w by (simp add: exits_def)
  moreover have "main_ok ((workers s)(i := W_fetch)) (main s)"
    by (rule main_ok_upd) (use inv w i in \<open>simp_all add: press_inv_def\<close>)
  ultimately show "press_inv n (s\<lparr>workers := (workers s)(i := W_fetch), made := made s @ [(i, idx)], open_calls := open_calls s @ [(i, idx)]\<rparr>)"
    using inv i unfolding press_inv_def by auto
  have "idx \<in># mset [0..<min n kTotalRequests]" using m [symmetric] sum [symmetric] by simp
  then show "idx < kTotalRequests" by simp
qed


lemma response_inv:
  assumes inv: "press_inv n s" and "open_calls s = xs @ c # ys"
  shows "press_inv n (s\<lparr>open_calls := xs @ ys, g_completed := g_completed s + 1\<rparr>)"
proof -
  obtain m where "g_completed s = of_nat m" "m + length (open_calls s) = length (made s)" using inv by (auto simp: press_inv_def)
  then have "\<exists>m. g_completed s + 1 = of_nat m \<and> m + length (xs @ ys) = length (made s)"
    using assms(2) by (intro exI [of _ "m + 1"]) simp
  moreover have "set (xs @ ys) \<subseteq> set (made s)" using inv assms(2) by (auto simp: press_inv_def)
  ultimately show ?thesis using inv unfolding press_inv_def by (simp add: exits_def)
qed

lemma main_inv:
  assumes "main_step s t" and "press_inv n s"
  shows "press_inv n t"
  using assms
proof (induction rule: main_step.induct)
  case (start s i)
  then have w: "workers s i = W_none" "\<forall>j. (j < i) = (workers s j \<noteq> W_none)" by (auto simp: press_inv_def)
  have "(\<Sum>j < kConcurrency. taken (((workers s)(i := W_fetch)) j)) = (\<Sum>j < kConcurrency. taken (workers s j))"
    using sum_taken_upd [OF start(2), of "workers s" W_fetch] w by (simp add: taken_def)
  moreover have "exits (s\<lparr>workers := (workers s)(i := W_fetch), main := M_start (i + 1)\<rparr>) = exits s"
    using exits_upd [OF start(2), of s W_fetch] w by (simp add: exits_def)
  moreover have "main_ok ((workers s)(i := W_fetch)) (M_start (i + 1))" using start(2) w(2) by (auto simp: less_Suc_eq)
  ultimately show ?case using start unfolding press_inv_def by auto
qed (auto simp: press_inv_def exits_def less_Suc_eq)

text \<open>A step of a worker may give out a number.\<close>

lemma press_step_inv: "press_step s t \<Longrightarrow> press_inv n s \<Longrightarrow> press_inv n t \<or> press_inv (n + 1) t"
proof (induction rule: press_step.induct)
  case (worker s t)
  then show ?case using fetch_inv call_inv(1) by (cases rule: worker_step.cases) blast+
next
  case (closure s t)
  then show ?case using response_inv by (cases rule: response_step.cases) blast
qed (use main_inv in blast)

lemma press_reachable_inv: "press_step\<^sup>*\<^sup>* press_init s \<Longrightarrow> \<exists>n. press_inv n s"
  by (induction rule: rtranclp_induct) (use press_inv_init press_step_inv in blast)+

subsection \<open>The work left\<close>

fun worker_weight :: "worker_pc \<Rightarrow> nat" where
  "worker_weight W_none = 2"
| "worker_weight W_fetch = 1"
| "worker_weight (W_call idx) = 4"
| "worker_weight W_exit = 0"

fun main_weight :: "main_pc \<Rightarrow> nat" where
  "main_weight (M_start i) = 2 * kConcurrency + 6 - i"
| "main_weight M_poll = kConcurrency + 5"
| "main_weight M_stop = kConcurrency + 4"
| "main_weight (M_join i) = kConcurrency + 3 - min i kConcurrency"
| "main_weight M_report = 0"

definition press_work :: "press \<Rightarrow> nat" where
  "press_work s = 5 * (kTotalRequests + kConcurrency - unat (g_sent s)) + (\<Sum>i < kConcurrency. worker_weight (workers s i)) +
     length (open_calls s) + main_weight (main s)"

lemma sum_weight_upd:
  assumes "i < kConcurrency"
  shows "(\<Sum>j < kConcurrency. worker_weight ((w(i := pc)) j)) + worker_weight (w i) = (\<Sum>j < kConcurrency. worker_weight (w j)) + worker_weight pc"
proof -
  have i: "i \<in> {..<kConcurrency}" using assms by simp
  have "(\<Sum>j \<in> {..<kConcurrency} - {i}. worker_weight ((w(i := pc)) j)) = (\<Sum>j \<in> {..<kConcurrency} - {i}. worker_weight (w j))"
    by (intro sum.cong) auto
  then show ?thesis by (simp only: sum.remove [OF finite_lessThan i]) simp
qed

lemma unat_sent: "press_inv n s \<Longrightarrow> unat (g_sent s) = n"
  using press_inv_bound(2) [of n s] by (simp add: press_inv_def unat_of_nat)

lemma press_step_work:
  assumes "press_step s t" and inv: "press_inv n s"
  shows "press_work t < press_work s"
  using assms(1)
proof cases
  case worker
  then show ?thesis
  proof cases
    case (fetch i idx)
    have i: "i < kConcurrency" using press_inv_started [OF inv] fetch(2) by simp
    have n: "n < kTotalRequests + kConcurrency" using press_inv_bound(4) [OF inv i] fetch(2) by simp
    have "unat (g_sent t) = n + 1" using unat_sent [OF fetch_inv [OF inv fetch(2)]] fetch(1,3) by simp
    moreover define pc where "pc = (if int kTotalRequests \<le> idx then W_exit else W_call (nat idx))"
    then have "worker_weight pc \<le> 4" by simp
    moreover have "workers t = (workers s)(i := pc)" "open_calls t = open_calls s" "main t = main s" using fetch(1) by (simp_all add: pc_def)
    moreover note sum_weight_upd [OF i, of "workers s" pc]
    ultimately show ?thesis unfolding press_work_def using n unat_sent [OF inv] fetch(2) by simp
  next
    case (call i idx)
    have i: "i < kConcurrency" using press_inv_started [OF inv] call(2) by simp
    with sum_weight_upd [OF i, of "workers s" W_fetch] call show ?thesis by (simp add: press_work_def)
  qed
next
  case closure
  then show ?thesis by cases (simp add: press_work_def)
next
  case by_main
  then show ?thesis
  proof cases
    case (start i)
    have "workers s i = W_none" using inv start by (auto simp: press_inv_def)
    with sum_weight_upd [OF start(3), of "workers s" W_fetch] start show ?thesis by (simp add: press_work_def)
  next
    case (started i)
    then have "i = kConcurrency" using inv by (simp add: press_inv_def)
    with started show ?thesis by (simp add: press_work_def)
  qed (simp_all add: press_work_def)
qed


interpretation press_run: ranked_system press_step "\<lambda>s. \<exists>n. press_inv n s" press_work
  by unfold_locales (use press_step_inv press_step_work in blast)+

text \<open>At the end every worker has ended, so all numbers were given out and called.\<close>

lemma press_end:
  assumes inv: "press_inv n s" and stuck: "\<not> (\<exists>t. press_step s t)"
  shows "main s = M_report" and "\<forall>i < kConcurrency. workers s i = W_exit"
proof -
  have nw: "workers s i = W_none \<or> workers s i = W_exit" for i
    using worker_step.fetch [of s i] worker_step.call [of s i] stuck press_step.worker by (cases "workers s i") blast+
  have nm: "\<not> main_step s t" for t using stuck press_step.by_main by blast
  show r: "main s = M_report"
  proof (cases "main s")
    case (M_start i)
    then show ?thesis using nm main_step.start [of s i] main_step.started [of s i] by (cases "i < kConcurrency") auto
  next
    case M_poll
    then show ?thesis using nm main_step.complete [of s] main_step.timeout [of s] by (meson not_le)
  next
    case M_stop
    then show ?thesis using nm main_step.stop [of s] by blast
  next
    case (M_join i)
    then have "i < kConcurrency \<Longrightarrow> workers s i = W_exit" using nw [of i] inv by (auto simp: press_inv_def)
    with M_join show ?thesis using nm main_step.join [of s i] main_step.joined [of s i] by (cases "i < kConcurrency") auto
  qed
  show "\<forall>i < kConcurrency. workers s i = W_exit" using inv r by (simp add: press_inv_def)
qed

lemma press_inv_made:
  assumes "press_inv n s"
  shows "distinct (map snd (made s))" and "set (map snd (made s)) \<subseteq> {..<kTotalRequests}" and "length (made s) \<le> kTotalRequests"
    and "\<forall>i < kConcurrency. workers s i = W_exit \<Longrightarrow> mset (map snd (made s)) = mset [0..<kTotalRequests]"
proof -
  have m: "mset (map snd (made s)) + (\<Sum>i < kConcurrency. taken (workers s i)) = mset [0..<min n kTotalRequests]"
    using assms by (simp add: press_inv_def)
  then have sub: "mset (map snd (made s)) \<subseteq># mset [0..<min n kTotalRequests]" by (metis mset_subset_eq_add_left)
  then show "distinct (map snd (made s))"
    by (metis distinct_upt mset_subset_eq_exists_conv mset_eq_imp_distinct_iff distinct_append mset_append ex_mset)
  show "set (map snd (made s)) \<subseteq> {..<kTotalRequests}" using set_mset_mono [OF sub] unfolding set_mset_mset by auto
  show "length (made s) \<le> kTotalRequests" using size_mset_mono [OF sub] by simp
  assume ex: "\<forall>i < kConcurrency. workers s i = W_exit"
  then have "exits s = kConcurrency" unfolding exits_def by (subst Collect_cong [of _ "\<lambda>i. i < kConcurrency"]) auto
  then have "kTotalRequests \<le> n" using assms by (auto simp: press_inv_def kConcurrency_def)
  moreover have "(\<Sum>i < kConcurrency. taken (workers s i)) = {#}" using ex by (simp add: taken_def)
  ultimately show "mset (map snd (made s)) = mset [0..<kTotalRequests]" using m by (simp add: min_absorb2)
qed


subsection \<open>Properties\<close>

text \<open>
  C22. The benchmark's threads share the requests correctly in every interleaving: no request
  number is used twice, all are below \<open>kTotalRequests\<close>, the messages of different requests
  differ, the shared counter does not overflow, and if the completions counted reach
  \<open>kTotalRequests\<close> then every request was made and no closure is left to run.
\<close>

theorem press_requests_once:
  assumes "press_step\<^sup>*\<^sup>* press_init s"
  shows "distinct (map (\<lambda>(i, idx). press_message idx) (made s)) \<and> set (map snd (made s)) \<subseteq> {..<kTotalRequests} \<and>
    0 \<le> sint (g_sent s) \<and> sint (g_sent s) \<le> int (kTotalRequests + kConcurrency) \<and>
    (int kTotalRequests \<le> sint (g_completed s) \<longrightarrow> set (map snd (made s)) = {..<kTotalRequests} \<and> open_calls s = [])"
proof (intro conjI impI)
  obtain n where inv: "press_inv n s" using press_reachable_inv [OF assms] by blast
  note made = press_inv_made [OF inv]
  have "map (\<lambda>(i, idx). press_message idx) (made s) = map press_message (map snd (made s))" by (simp add: split_beta)
  then show "distinct (map (\<lambda>(i, idx). press_message idx) (made s))"
    using made(1) by (metis distinct_map inj_on_def press_message_inject)
  show "set (map snd (made s)) \<subseteq> {..<kTotalRequests}" by (rule made(2))
  show "0 \<le> sint (g_sent s)" "sint (g_sent s) \<le> int (kTotalRequests + kConcurrency)"
    using press_inv_bound(1,3) [OF inv] by simp_all
  assume c: "int kTotalRequests \<le> sint (g_completed s)"
  obtain m where m: "g_completed s = of_nat m" "m + length (open_calls s) = length (made s)" using inv by (auto simp: press_inv_def)
  then have "m < 2 ^ 31" using made(3) by (simp add: kTotalRequests_def)
  then have "kTotalRequests \<le> m" using c sint_of_nat_small [of m] m(1) by simp
  then have "length (open_calls s) = 0" "length (made s) = kTotalRequests" using m(2) made(3) by linarith+
  then have l: "open_calls s = []" "length (made s) = kTotalRequests" by simp_all
  then have "card (set (map snd (made s))) = card {..<kTotalRequests}" using distinct_card [OF made(1)] by simp
  then show "set (map snd (made s)) = {..<kTotalRequests}" by (rule card_subset_eq [OF finite_lessThan made(2)])
  show "open_calls s = []" by (rule l(1))
qed

definition first_call :: press where
  "first_call = press_init\<lparr>g_sent := 1, workers := (\<lambda>_. W_none)(0 := W_fetch), main := M_start 1, made := [(0, 0)], open_calls := [(0, 0)]\<rparr>"

lemma first_call_reachable: "press_step\<^sup>*\<^sup>* press_init first_call"
proof -
  let ?s1 = "press_init\<lparr>workers := (\<lambda>_. W_none)(0 := W_fetch), main := M_start 1\<rparr>"
  let ?s2 = "?s1\<lparr>g_sent := 1, workers := (\<lambda>_. W_none)(0 := W_call 0)\<rparr>"
  have 1: "press_step press_init ?s1"
    using press_step.by_main [OF main_step.start [of press_init 0]] by (simp add: press_init_def kConcurrency_def)
  have 2: "press_step ?s1 ?s2"
    using press_step.worker [OF worker_step.fetch [of ?s1 0 0]] by (simp add: press_init_def kTotalRequests_def)
  have 3: "press_step ?s2 first_call"
    using press_step.worker [OF worker_step.call [of ?s2 0 0]] by (simp add: press_init_def first_call_def)
  show ?thesis
    by (rule converse_rtranclp_into_rtranclp, rule 1, rule converse_rtranclp_into_rtranclp, rule 2, rule r_into_rtranclp, rule 3)
qed

theorem press_requests_once_witness:
  "distinct (map (\<lambda>(i, idx). press_message idx) (made first_call)) \<and> set (map snd (made first_call)) = {0} \<and> 0 \<le> sint (g_sent first_call)"
  using press_requests_once [OF first_call_reachable] by (simp add: first_call_def)

text \<open>
  C21. The benchmark ends, also if its time runs out: there is no infinite run, and where a run
  ends the main thread has joined all workers and each of the \<open>kTotalRequests\<close> requests was made
  exactly once.
\<close>

theorem press_ends:
  "(\<nexists>run. run 0 = press_init \<and> (\<forall>i. press_step (run i) (run (Suc i)))) \<and>
   (\<forall>s. press_step\<^sup>*\<^sup>* press_init s \<and> \<not> (\<exists>t. press_step s t) \<longrightarrow>
      main s = M_report \<and> (\<forall>i < kConcurrency. workers s i = W_exit) \<and> mset (map snd (made s)) = mset [0..<kTotalRequests])"
proof (intro conjI allI impI)
  show "\<nexists>run. run 0 = press_init \<and> (\<forall>i. press_step (run i) (run (Suc i)))"
    by (rule press_run.no_infinite_run) (use press_inv_init in blast)
next
  fix s assume s: "press_step\<^sup>*\<^sup>* press_init s \<and> \<not> (\<exists>t. press_step s t)"
  then obtain n where inv: "press_inv n s" using press_reachable_inv by blast
  note e = press_end [OF inv conjunct2 [OF s]]
  show "main s = M_report" by (rule e(1))
  show "mset (map snd (made s)) = mset [0..<kTotalRequests]" by (rule press_inv_made(4) [OF inv e(2)])
  fix i assume "i < kConcurrency"
  with e(2) show "workers s i = W_exit" by blast
qed

theorem press_ends_witness:
  "\<exists>s. press_step\<^sup>*\<^sup>* press_init s \<and> main s = M_report \<and> mset (map snd (made s)) = mset [0..<kTotalRequests]"
  using press_run.reaches_end [of press_init] press_inv_init press_ends by blast

end
