(* ===== verification/EchoExample.thy ===== *)
theory EchoExample
  imports EndToEnd Service Press Endpoint
begin

section \<open>The example programs (src/example/echo_client.cc, src/example/echo_server.cc)\<close>

text \<open>
  The example server listens on port 8888 with the echo service registered; the example client
  connects to it and makes 1001 calls of \<open>Echo1\<close> without waiting for the answers. What the two
  exchange is determined by the sizes of the messages, which protobuf documents: numbers take
  one byte for seven bits, and fields that are zero are left out. With these sizes no length in
  the client's requests straddles two blocks of the server's input buffer, but one in the
  server's responses straddles two blocks of the client's.
\<close>

subsection \<open>The programs\<close>

definition echo_services :: "(byte list \<Rightarrow> header option) \<Rightarrow> (header \<Rightarrow> byte list) \<Rightarrow> (byte list \<Rightarrow> string option) \<Rightarrow> (string \<Rightarrow> byte list) \<Rightarrow>
    string rpc_server" where
  "echo_services parse_hd ser_hd parse_msg ser_msg = register_service ''EchoService'' (EchoService parse_msg ser_msg)
     \<lparr>parse_header = parse_hd, serialize_header = ser_hd, name2service = (\<lambda>_. None)\<rparr>"

text \<open>The server up to its accept loop, which is \<open>server_start_turn\<close> of theory \<open>Endpoint\<close>.\<close>

definition echo_server_main :: "(byte list \<Rightarrow> header option) \<Rightarrow> (header \<Rightarrow> byte list) \<Rightarrow> (byte list \<Rightarrow> string option) \<Rightarrow> (string \<Rightarrow> byte list) \<Rightarrow>
    platform \<Rightarrow> kernel \<Rightarrow> (accepter \<times> executor_class \<times> string rpc_server) proc" where
  "echo_server_main parse_hd ser_hd parse_msg ser_msg plat k =
     proc_bind (RpcServer_constructor plat (RpcServerOptions 8888) k) (\<lambda>(a, ex) k.
       Ret (a, ex, echo_services parse_hd ser_hd parse_msg ser_msg) k)"

text \<open>The client: its scheduler and its connection, the messages, and the loop that makes the calls.\<close>

definition echo_client_connect :: "platform \<Rightarrow> kernel \<Rightarrow> (executor_class \<times> int \<times> conn_kind option) proc" where
  "echo_client_connect plat k =
     (let executor = Scheduler plat POLL_POLICY in
      proc_bind (client_connect ''127.0.0.1'' 8888 POLL_POLICY k) (\<lambda>conn k. Ret (executor, conn) k))"

definition echo_message :: "nat \<Rightarrow> string" where
  "echo_message i = ''echo request'' @ to_string i"

text \<open>
  One turn of the loop. The objects made with \<open>new\<close> are numbered; the closure runs
  \<open>handle_response\<close>, which deletes the response. The stub calls \<open>CallMethod\<close> of the channel with
  the descriptor of the method in src/example/echo.proto, which has no package.
\<close>

definition echo_call :: "(string \<Rightarrow> byte list) \<Rightarrow> (byte list \<Rightarrow> string option) \<Rightarrow> nat \<Rightarrow> string call" where
  "echo_call ser_msg parse_msg i =
     \<lparr>controller_obj = 3 * i + 2, request_obj = 3 * i, request_bytes = ser_msg (echo_message i),
      call_service = ''EchoService'', call_method_name = ''Echo1'', response_obj = 3 * i + 1,
      parse_response = parse_msg, done_closure = Some i\<rparr>"

definition echo_client_calls :: "(string \<Rightarrow> byte list) \<Rightarrow> (byte list \<Rightarrow> string option) \<Rightarrow> string call list" where
  "echo_client_calls ser_msg parse_msg = fold (\<lambda>i. CallMethod (echo_call ser_msg parse_msg i)) [0..<1001] []"

lemma echo_client_calls_eq: "echo_client_calls ser_msg parse_msg = map (echo_call ser_msg parse_msg) [0..<1001]"
proof -
  have "fold (\<lambda>i. CallMethod (f i)) is cs = cs @ map f is" for f :: "nat \<Rightarrow> string call" and "is" cs
    by (induction "is" arbitrary: cs) (simp_all add: CallMethod_def)
  then show ?thesis by (simp add: echo_client_calls_def)
qed

text \<open>
  The two programs fit together: when all system calls succeed, the server listens on the port
  the client connects to, and the client, which uses the poll policy, has a connection.
\<close>

lemma echo_programs_meet:
  assumes "\<forall>n. 0 < sys_answer k n" and "\<forall>n. 0 < sys_answer k' n"
  shows "\<exists>a ex srv k1 conn k2. echo_server_main parse_hd ser_hd parse_msg ser_msg plat k = Ret (a, ex, srv) k1 \<and>
    Sys_bind (acc_sockfd a) (htons 8888) \<in> set (trace k1) \<and> Sys_listen (acc_sockfd a) 256 \<in> set (trace k1) \<and>
    echo_client_connect plat k' = Ret conn k2 \<and> snd (snd conn) = Some PollConnection \<and>
    Sys_connect (fst (snd conn)) ''127.0.0.1'' (htons 8888) \<in> set (trace k2)"
proof -
  have pos: "0 < sys_answer k n" "0 < sys_answer k' n" for n using assms by simp_all
  then have "0 \<le> sys_answer k n" "\<not> sys_answer k n < 0" "\<not> sys_answer k' n < 0" "\<not> sys_answer k' n \<le> 0" "0 \<le> sys_answer k' n" for n
    by (simp_all add: less_imp_le not_less not_le)
  then show ?thesis
    by (simp add: echo_server_main_def echo_client_connect_def RpcServer_constructor_def RpcServerOptions_def Accepter_def
        client_connect_def setup_defs su_setsockopt_ok Let_def)
qed

subsection \<open>The sizes protobuf documents\<close>

text \<open>The encoding of numbers, of strings and of the fields of the two messages (src/proto/message.proto, src/example/echo.proto).\<close>

fun varint_size :: "nat \<Rightarrow> nat" where
  "varint_size n = (if n < 128 then 1 else 1 + varint_size (n div 128))"

declare varint_size.simps [simp del]

fun message_type_number :: "message_type \<Rightarrow> nat" where
  "message_type_number MESSAGE_TYPE_UNSPECIFIED = 0"
| "message_type_number REQUEST = 1"
| "message_type_number RESPONSE = 2"

definition number_size :: "nat \<Rightarrow> nat" where
  "number_size n = (if n = 0 then 0 else 1 + varint_size n)"

definition string_size :: "string \<Rightarrow> nat" where
  "string_size s = 1 + varint_size (length s) + length s"

definition header_size :: "header \<Rightarrow> nat" where
  "header_size h = number_size (unat (magic h)) + number_size (nat (version h)) + number_size (message_type_number (message_type h))
     + number_size (nat (request_id h)) + (case service_name h of None \<Rightarrow> 0 | Some s \<Rightarrow> string_size s)
     + (case method_name h of None \<Rightarrow> 0 | Some s \<Rightarrow> string_size s)"

definition echo_size :: "string \<Rightarrow> nat" where
  "echo_size m = (if m = [] then 0 else string_size m)"

definition echo_header_of :: "nat \<Rightarrow> header" where
  "echo_header_of i = \<lparr>magic = MAGIC_NUM, version = VERSION, message_type = REQUEST, request_id = int i,
     service_name = Some ''EchoService'', method_name = Some ''Echo1''\<rparr>"

text \<open>What is relied on of the codecs: they round trip and have the documented sizes, on the messages of the two programs.\<close>

definition echo_codec :: "(byte list \<Rightarrow> header option) \<Rightarrow> (header \<Rightarrow> byte list) \<Rightarrow> (byte list \<Rightarrow> string option) \<Rightarrow> (string \<Rightarrow> byte list) \<Rightarrow> bool" where
  "echo_codec parse_hd ser_hd parse_msg ser_msg \<longleftrightarrow>
     (\<forall>i < 1001. \<forall>h \<in> {echo_header_of i, response_header (echo_header_of i)}. parse_hd (ser_hd h) = Some h \<and> length (ser_hd h) = header_size h) \<and>
     (\<forall>i < 1001. \<forall>m \<in> {echo_message i, Echo1 (echo_message i)}. parse_msg (ser_msg m) = Some m \<and> length (ser_msg m) = echo_size m)"

definition digits :: "nat \<Rightarrow> nat" where
  "digits n = (if n < 10 then 1 else if n < 100 then 2 else if n < 1000 then 3 else 4)"

definition id_size :: "nat \<Rightarrow> nat" where
  "id_size n = (if n = 0 then 0 else if n < 128 then 2 else 3)"

lemma to_string_length: "n < 10000 \<Longrightarrow> length (to_string n) = digits n"
  by (simp add: to_string.simps digits_def div_less_iff_less_mult)

lemma number_size_id: "n < 16384 \<Longrightarrow> number_size n = id_size n"
  by (simp add: number_size_def id_size_def varint_size.simps div_less_iff_less_mult)

lemma echo_sizes:
  assumes "i < 1001"
  shows "header_size (echo_header_of i) = 30 + id_size i" and "header_size (response_header (echo_header_of i)) = 10 + id_size i"
    and "echo_size (echo_message i) = 14 + digits i" and "echo_size (Echo1 (echo_message i)) = 22 + digits i"
proof -
  have m: "number_size (unat MAGIC_NUM) = 6" "number_size (nat VERSION) = 2" "number_size 1 = 2" "number_size 2 = 2" "number_size (Suc 0) = 2"
    by (simp_all add: number_size_def varint_size.simps MAGIC_NUM_def VERSION_def)
  have d: "digits i < 5" by (simp add: digits_def)
  show "header_size (echo_header_of i) = 30 + id_size i" "header_size (response_header (echo_header_of i)) = 10 + id_size i"
    using assms m by (simp_all add: header_size_def echo_header_of_def response_header_def number_size_id string_size_def varint_size.simps)
  show "echo_size (echo_message i) = 14 + digits i" "echo_size (Echo1 (echo_message i)) = 22 + digits i"
    using assms d by (simp_all add: echo_size_def echo_message_def Echo1_def string_size_def to_string_length varint_size.simps)
qed

subsection \<open>Where lengths lie\<close>

fun sizes_aligned :: "int \<Rightarrow> (nat \<times> nat) list \<Rightarrow> bool" where
  "sizes_aligned pos [] \<longleftrightarrow> True"
| "sizes_aligned pos ((a, b) # ms) \<longleftrightarrow> aligned pos \<and> aligned (pos + 4 + int a) \<and> sizes_aligned (pos + 8 + int a + int b) ms"

definition message_sizes :: "(byte list \<times> byte list) list \<Rightarrow> (nat \<times> nat) list" where
  "message_sizes ms = map (\<lambda>(hb, qb). (length hb, length qb)) ms"

lemma message_sizes_simps [simp]: "message_sizes [] = []" "message_sizes ((hb, qb) # ms) = (length hb, length qb) # message_sizes ms"
  by (simp_all add: message_sizes_def)

lemma lengths_aligned_sizes: "lengths_aligned pos ms = sizes_aligned pos (message_sizes ms)"
  by (induction pos ms rule: lengths_aligned.induct) simp_all

lemma pairs_bytes_sizes: "length (pairs_bytes ms) = sum_list (map (\<lambda>(a, b). 8 + a + b) (message_sizes ms))"
  by (induction ms rule: pairs_bytes.induct) (simp_all add: frame_split(3))

text \<open>
  Messages of equal size: the lengths at \<open>c\<close>, \<open>c + s\<close>, \<open>c + 2s\<close>, ... straddle no boundary if none of
  the three positions before a boundary is one of them.
\<close>

definition clear_of :: "int \<Rightarrow> int \<Rightarrow> int \<Rightarrow> int \<Rightarrow> bool" where
  "clear_of c s n q \<longleftrightarrow> (\<forall>x \<in> {8192 * q + 8189, 8192 * q + 8190, 8192 * q + 8191}. x < c \<or> c + s * n \<le> x \<or> (x - c) mod s \<noteq> 0)"

lemma aligned_run:
  assumes "list_all (clear_of c s n) [0..Q]" and "0 \<le> c" and "0 < s" and "c + s * n \<le> 8192 * (Q + 1)"
    and "0 \<le> k" and "k < n"
  shows "aligned (c + s * k)"
proof (rule ccontr)
  assume un: "\<not> aligned (c + s * k)"
  let ?x = "c + s * k"
  have lt: "s * k < s * n" "0 \<le> s * k" using assms(3,5,6) by simp_all
  define q where "q = ?x div 8192"
  have "0 \<le> q" using assms(2) lt by (simp add: q_def)
  moreover have "q \<le> (8192 * Q + 8191) div 8192" unfolding q_def by (rule zdiv_mono1) (use assms(4) lt in simp_all)
  then have "q \<le> Q" by simp
  ultimately have "clear_of c s n q" using assms(1) by (simp add: list_all_iff)
  moreover have "?x = 8192 * q + ?x mod 8192" unfolding q_def by simp
  then have "?x \<in> {8192 * q + 8189, 8192 * q + 8190, 8192 * q + 8191}"
    using un pos_mod_bound [of 8192 ?x] by (auto simp: aligned_def kBlockSize_def)
  ultimately have "?x < c \<or> c + s * n \<le> ?x \<or> (?x - c) mod s \<noteq> 0" unfolding clear_of_def by (rule bspec)
  then show False using lt by simp
qed

lemma sizes_aligned_run:
  assumes "\<And>k. 0 \<le> k \<Longrightarrow> k < int n \<Longrightarrow> aligned (pos + (8 + int a + int b) * k) \<and> aligned (pos + 4 + int a + (8 + int a + int b) * k)"
    and "sizes_aligned (pos + (8 + int a + int b) * int n) ms"
  shows "sizes_aligned pos (replicate n (a, b) @ ms)"
  using assms
proof (induction n arbitrary: pos)
  case (Suc n)
  have "sizes_aligned (pos + 8 + int a + int b) (replicate n (a, b) @ ms)"
  proof (rule Suc.IH)
    fix k :: int assume "0 \<le> k" "k < int n"
    then show "aligned (pos + 8 + int a + int b + (8 + int a + int b) * k) \<and>
        aligned (pos + 8 + int a + int b + 4 + int a + (8 + int a + int b) * k)"
      using Suc.prems(1) [of "k + 1"] by (simp add: algebra_simps)
  qed (use Suc.prems(2) in \<open>simp add: algebra_simps\<close>)
  with Suc.prems(1) [of 0] show ?case by simp
qed simp

lemma sizes_aligned_clear:
  assumes "list_all (clear_of pos s (int n)) [0..Q]" and "list_all (clear_of (pos + 4 + int a) s (int n)) [0..Q]"
    and "s = 8 + int a + int b" and "0 \<le> pos" and "pos + 4 + int a + s * int n \<le> 8192 * (Q + 1)"
    and "sizes_aligned (pos + s * int n) ms"
  shows "sizes_aligned pos (replicate n (a, b) @ ms)"
proof (rule sizes_aligned_run)
  fix k :: int assume k: "0 \<le> k" "k < int n"
  have "aligned (pos + s * k)" by (rule aligned_run [OF assms(1)]) (use assms(3-5) k in auto)
  moreover have "aligned (pos + 4 + int a + s * k)" by (rule aligned_run [OF assms(2)]) (use assms(3-5) k in auto)
  ultimately show "aligned (pos + (8 + int a + int b) * k) \<and> aligned (pos + 4 + int a + (8 + int a + int b) * k)"
    by (simp add: assms(3))
qed (use assms(3,6) in simp)

text \<open>Consecutive messages of one size.\<close>

lemma map_upt_const: "(\<And>i. a \<le> i \<Longrightarrow> i < b \<Longrightarrow> f i = v) \<Longrightarrow> map f [a..<b] = replicate (b - a) v"
  by (rule nth_equalityI) simp_all

lemma map_upt_run:
  assumes "\<And>i. a \<le> i \<Longrightarrow> i < a + n \<Longrightarrow> f i = v" and "a + n \<le> c" and "map f [a + n..<c] = vs"
  shows "map f [a..<c] = replicate n v @ vs"
proof -
  have "[a..<c] = [a..<a + n] @ [a + n..<c]" using upt_add_eq_append [of a "a + n" "c - (a + n)"] assms(2) by simp
  then show ?thesis using map_upt_const [of a "a + n" f v, OF assms(1)] assms(3) by simp
qed

subsection \<open>The messages of the run\<close>

lemma request_messages_upt:
  assumes "\<And>i. call_service (f i) = ''EchoService'' \<and> call_method_name (f i) = ''Echo1''" and "a \<le> b"
  shows "request_messages ser (call_headers (int a) (map f [a..<b])) (map f [a..<b])
      = map (\<lambda>i. (ser (echo_header_of i), request_bytes (f i))) [a..<b]"
    and "response_messages srv (call_headers (int a) (map f [a..<b])) (map f [a..<b])
      = map (\<lambda>i. (serialize_header srv (response_header (echo_header_of i)), the (reply_bytes srv (f i)))) [a..<b]"
    and "set (call_headers (int a) (map f [a..<b])) = echo_header_of ` {a..<b}"
  using assms(2)
proof (induction "b - a" arbitrary: a)
  case 0
  {
    case 1
    with 0 show ?case by simp
  next
    case 2
    with 0 show ?case by simp
  next
    case 3
    with 0 show ?case by simp
  }
next
  case (Suc n)
  then have ab: "n = b - Suc a" "Suc a \<le> b" "a < b" by simp_all
  have h: "\<lparr>magic = MAGIC_NUM, version = VERSION, message_type = REQUEST, request_id = int a,
      service_name = Some (call_service (f a)), method_name = Some (call_method_name (f a))\<rparr> = echo_header_of a"
    using assms(1) [of a] by (simp add: echo_header_of_def)
  have n: "int a + 1 = int (Suc a)" by simp
  note ih = Suc.hyps(1-3) [OF ab(1,2)]
  {
    case 1
    show ?case unfolding upt_conv_Cons [OF ab(3)] using ih(1) by (simp add: h n del: of_nat_Suc)
  next
    case 2
    show ?case unfolding upt_conv_Cons [OF ab(3)] using ih(2) by (simp add: h n del: of_nat_Suc)
  next
    case 3
    have "{a..<b} = insert a {Suc a..<b}" using ab(3) by auto
    then show ?case unfolding upt_conv_Cons [OF ab(3)] using ih(3) by (simp add: h n del: of_nat_Suc)
  }
qed

lemma completions_prefix:
  "completions ph calls (xs @ ys) = Some effs \<Longrightarrow> completions ph calls xs = Some (take (length xs) effs)"
proof (induction xs arbitrary: calls effs)
  case (Cons x xs)
  then show ?case by (cases x) (auto split: option.splits)
qed simp

lemma echo_outcomes:
  assumes "echo_codec parse_hd ser_hd parse_msg ser_msg" and "i < 1001"
  shows "reply_bytes (echo_services parse_hd ser_hd parse_msg ser_msg) (echo_call ser_msg parse_msg i) = Some (ser_msg (Echo1 (echo_message i)))"
    and "call_outcome (echo_services parse_hd ser_hd parse_msg ser_msg) (echo_call ser_msg parse_msg i) = Some (Echo1 (echo_message i))"
proof -
  have "parse_msg (ser_msg (echo_message i)) = Some (echo_message i)" "parse_msg (ser_msg (Echo1 (echo_message i))) = Some (Echo1 (echo_message i))"
    using assms by (auto simp: echo_codec_def)
  then show "reply_bytes (echo_services parse_hd ser_hd parse_msg ser_msg) (echo_call ser_msg parse_msg i) = Some (ser_msg (Echo1 (echo_message i)))"
    "call_outcome (echo_services parse_hd ser_hd parse_msg ser_msg) (echo_call ser_msg parse_msg i) = Some (Echo1 (echo_message i))"
    by (simp_all add: call_outcome_def reply_bytes_def echo_services_def register_service_def EchoService_def echo_call_def)
qed

lemma echo_messages:
  assumes "echo_codec parse_hd ser_hd parse_msg ser_msg"
  shows "request_messages ser_hd (call_headers 0 (echo_client_calls ser_msg parse_msg)) (echo_client_calls ser_msg parse_msg)
      = map (\<lambda>i. (ser_hd (echo_header_of i), ser_msg (echo_message i))) [0..<1001]"
    and "response_messages (echo_services parse_hd ser_hd parse_msg ser_msg) (call_headers 0 (echo_client_calls ser_msg parse_msg)) (echo_client_calls ser_msg parse_msg)
      = map (\<lambda>i. (ser_hd (response_header (echo_header_of i)), ser_msg (Echo1 (echo_message i)))) [0..<1001]"
    and "set (call_headers 0 (echo_client_calls ser_msg parse_msg)) = echo_header_of ` {0..<1001}"
proof -
  have c: "call_service (echo_call ser_msg parse_msg i) = ''EchoService'' \<and> call_method_name (echo_call ser_msg parse_msg i) = ''Echo1''" for i
    by (simp add: echo_call_def)
  note m = request_messages_upt [of "echo_call ser_msg parse_msg" 0 1001, OF c, simplified, folded One_nat_def, folded echo_client_calls_eq]
  show "request_messages ser_hd (call_headers 0 (echo_client_calls ser_msg parse_msg)) (echo_client_calls ser_msg parse_msg)
      = map (\<lambda>i. (ser_hd (echo_header_of i), ser_msg (echo_message i))) [0..<1001]"
    using m(1) [of ser_hd] by (simp add: echo_call_def)
  show "response_messages (echo_services parse_hd ser_hd parse_msg ser_msg) (call_headers 0 (echo_client_calls ser_msg parse_msg)) (echo_client_calls ser_msg parse_msg)
      = map (\<lambda>i. (ser_hd (response_header (echo_header_of i)), ser_msg (Echo1 (echo_message i)))) [0..<1001]"
    unfolding m(2) using echo_outcomes(1) [OF assms] by (auto simp: echo_services_def register_service_def)
  show "set (call_headers 0 (echo_client_calls ser_msg parse_msg)) = echo_header_of ` {0..<1001}" by (rule m(3))
qed

abbreviation echo_requests :: "(header \<Rightarrow> byte list) \<Rightarrow> (string \<Rightarrow> byte list) \<Rightarrow> nat \<Rightarrow> nat \<Rightarrow> (byte list \<times> byte list) list" where
  "echo_requests ser_hd ser_msg a b \<equiv> map (\<lambda>i. (ser_hd (echo_header_of i), ser_msg (echo_message i))) [a..<b]"

abbreviation echo_responses :: "(header \<Rightarrow> byte list) \<Rightarrow> (string \<Rightarrow> byte list) \<Rightarrow> nat \<Rightarrow> nat \<Rightarrow> (byte list \<times> byte list) list" where
  "echo_responses ser_hd ser_msg a b \<equiv> map (\<lambda>i. (ser_hd (response_header (echo_header_of i)), ser_msg (Echo1 (echo_message i)))) [a..<b]"

lemma echo_message_sizes:
  assumes "echo_codec parse_hd ser_hd parse_msg ser_msg"
  shows "message_sizes (echo_requests ser_hd ser_msg 0 1001) = replicate 1 (30, 15) @ replicate 9 (32, 15) @ replicate 90 (32, 16) @
      replicate 28 (32, 17) @ replicate 872 (33, 17) @ replicate 1 (33, 18) @ []"
    and "message_sizes (echo_responses ser_hd ser_msg 0 361) = replicate 1 (10, 23) @ replicate 9 (12, 23) @ replicate 90 (12, 24) @
      replicate 28 (12, 25) @ replicate 233 (13, 25) @ []"
    and "length (ser_hd (response_header (echo_header_of 361))) = 13"
    and "i < 1001 \<Longrightarrow> length (ser_hd (response_header (echo_header_of i))) \<le> 13 \<and> length (ser_msg (Echo1 (echo_message i))) \<le> 26"
proof -
  have l: "length (ser_hd (echo_header_of i)) = 30 + id_size i" "length (ser_hd (response_header (echo_header_of i))) = 10 + id_size i"
    "length (ser_msg (echo_message i)) = 14 + digits i" "length (ser_msg (Echo1 (echo_message i))) = 22 + digits i" if "i < 1001" for i
    using assms that echo_sizes [OF that] by (simp_all add: echo_codec_def)
  show "message_sizes (echo_requests ser_hd ser_msg 0 1001) = replicate 1 (30, 15) @ replicate 9 (32, 15) @ replicate 90 (32, 16) @
      replicate 28 (32, 17) @ replicate 872 (33, 17) @ replicate 1 (33, 18) @ []"
    unfolding message_sizes_def list.map_comp by (intro map_upt_run) (simp_all add: l id_size_def digits_def)
  show "message_sizes (echo_responses ser_hd ser_msg 0 361) = replicate 1 (10, 23) @ replicate 9 (12, 23) @ replicate 90 (12, 24) @
      replicate 28 (12, 25) @ replicate 233 (13, 25) @ []"
    unfolding message_sizes_def list.map_comp by (intro map_upt_run) (simp_all add: l id_size_def digits_def)
  show "length (ser_hd (response_header (echo_header_of 361))) = 13" by (simp add: l id_size_def)
  show "i < 1001 \<Longrightarrow> length (ser_hd (response_header (echo_header_of i))) \<le> 13 \<and> length (ser_msg (Echo1 (echo_message i))) \<le> 26"
    by (simp add: l id_size_def digits_def)
qed

declare upt_rec_numeral [simp del]

lemma echo_alignment:
  assumes "echo_codec parse_hd ser_hd parse_msg ser_msg"
  shows "lengths_aligned 0 (echo_requests ser_hd ser_msg 0 1001)" and "length (pairs_bytes (echo_requests ser_hd ser_msg 0 1001)) = 57819"
    and "lengths_aligned 0 (echo_responses ser_hd ser_msg 0 361)" and "length (pairs_bytes (echo_responses ser_hd ser_msg 0 361)) = 16366"
    and "length (pairs_bytes (echo_responses ser_hd ser_msg 0 1001)) \<le> 1001 * 47"
proof -
  note sz = echo_message_sizes [OF assms]
  show "lengths_aligned 0 (echo_requests ser_hd ser_msg 0 1001)" unfolding lengths_aligned_sizes sz(1)
    by (intro sizes_aligned_clear [where Q = 7]; (rule refl)?) (simp_all add: clear_of_def upto_rec1)
  show "lengths_aligned 0 (echo_responses ser_hd ser_msg 0 361)" unfolding lengths_aligned_sizes sz(2)
    by (intro sizes_aligned_clear [where Q = 7]; (rule refl)?) (simp_all add: clear_of_def upto_rec1)
  show "length (pairs_bytes (echo_requests ser_hd ser_msg 0 1001)) = 57819" "length (pairs_bytes (echo_responses ser_hd ser_msg 0 361)) = 16366"
    unfolding pairs_bytes_sizes sz(1,2) by (simp_all only: map_append map_replicate sum_list_append sum_list_replicate) simp_all
  have "sum_list (map f xs) \<le> length xs * 47" if "\<forall>x \<in> set xs. f x \<le> 47" for f :: "nat \<times> nat \<Rightarrow> nat" and xs
    using that by (induction xs) auto
  from this [of "message_sizes (echo_responses ser_hd ser_msg 0 1001)" "\<lambda>(a, b). 8 + a + b"] sz(4)
  show "length (pairs_bytes (echo_responses ser_hd ser_msg 0 1001)) \<le> 1001 * 47"
    unfolding pairs_bytes_sizes by (auto simp: message_sizes_def) fastforce
qed

text \<open>The server answers every request.\<close>

lemma echo_server_answers:
  assumes "echo_codec parse_hd ser_hd parse_msg ser_msg"
  shows "server_spec (echo_services parse_hd ser_hd parse_msg ser_msg) R_header_len 0 (pairs_bytes (echo_requests ser_hd ser_msg 0 1001))
    = (pairs_bytes (echo_responses ser_hd ser_msg 0 1001), Waiting R_header_len 475 [])"
proof -
  let ?srv = "echo_services parse_hd ser_hd parse_msg ser_msg" and ?calls = "echo_client_calls ser_msg parse_msg"
  note m = echo_messages [OF assms] and al = echo_alignment [OF assms]
  have hd: "\<forall>h \<in> set (call_headers 0 ?calls). parse_header ?srv (ser_hd h) = Some h"
    using assms unfolding m(3) by (auto simp: echo_services_def register_service_def echo_codec_def)
  have rp: "\<forall>call \<in> set ?calls. reply_bytes ?srv call \<noteq> None"
    using echo_outcomes(1) [OF assms] by (auto simp: echo_client_calls_eq)
  note ans = answers_are_responses [OF rp hd, unfolded m(1,2)]
  have small: "length (pairs_bytes (echo_requests ser_hd ser_msg 0 1001)) < 1023 * 8192" by (simp add: al(2))
  have "\<forall>(hb, qb) \<in> set (echo_requests ser_hd ser_msg 0 1001). answer ?srv hb qb \<noteq> None \<and> length hb < 2 ^ 32 \<and> length qb < 2 ^ 32"
    using conjunct1 [OF ans] pairs_bytes_small [OF small] by fast
  from server_spec_requests [OF this al(1)] show ?thesis
    unfolding conjunct2 [OF ans] al(2) by (simp add: kBlockSize_def)
qed

subsection \<open>Responses that have arrived in part\<close>

text \<open>How many messages of a sequence have arrived in full with its first \<open>n\<close> bytes.\<close>

fun whole :: "nat \<Rightarrow> (byte list \<times> byte list) list \<Rightarrow> nat" where
  "whole n [] = 0"
| "whole n ((hb, rb) # ms) = (let k = 8 + length hb + length rb in if n < k then 0 else Suc (whole (n - k) ms))"

lemma whole_exact: "whole (length (pairs_bytes ms) + n) (ms @ ms') = length ms + whole n ms'"
  by (induction ms rule: pairs_bytes.induct) (simp_all add: frame_split(3) Let_def)

lemma whole_mono: "n \<le> n' \<Longrightarrow> whole n ms \<le> whole n' ms"
proof (induction n' ms arbitrary: n rule: whole.induct)
  case (2 n' hb rb ms)
  then show ?case using "2.IH" [OF refl _ diff_le_mono [OF "2.prems"]] by (simp add: Let_def)
qed simp

lemma take_frame: "4 \<le> n \<Longrightarrow> take n (frame bs @ xs) = u32_bytes (of_nat (length bs)) @ take (n - 4) (bs @ xs)"
  "take 4 (u32_bytes w @ xs) = u32_bytes w"
  by (simp_all add: frame_def)

lemma client_spec_partial:
  assumes hb: "ph hb = Some h" "length hb < 2 ^ 32" and rb: "length rb < 2 ^ 32" and n: "n < 8 + length hb + length rb"
    and al: "aligned pos" "8 + length hb \<le> n \<Longrightarrow> aligned (pos + 4 + int (length hb))"
  shows "\<exists>pc p rest. client_spec ph C_header_len calls pos (take n (frame hb @ frame rb @ later)) = ([], Waiting pc p rest)"
proof -
  let ?p1 = "(pos + 4) mod kBlockSize"
  let ?p2 = "(?p1 + int (length hb)) mod kBlockSize"
  have body: "\<exists>pc p rest. client_spec ph (C_response h (of_nat (length rb))) calls q (take (n - 8 - length hb) (rb @ later)) = ([], Waiting pc p rest)"
    if "8 + length hb \<le> n" for q
    using that n rb by (subst client_spec.simps(4)) (auto simp: unat_of_nat_u32)
  have blen: "\<exists>pc p rest. client_spec ph (C_response_len h) calls ?p2 (take (n - 4 - length hb) (frame rb @ later)) = ([], Waiting pc p rest)"
  proof (cases "n - 4 - length hb < 4")
    case True
    then show ?thesis by (subst client_spec.simps(3)) (auto simp: frame_split(3))
  next
    case False
    then have "aligned ?p2" using al(2) by (simp add: aligned_def mod_simps algebra_simps)
    moreover have "take (n - 4 - length hb) (frame rb @ later) = u32_bytes (of_nat (length rb)) @ take (n - 8 - length hb) (rb @ later)"
      using take_frame(1) [of "n - 4 - length hb" rb later] False by (simp del: take_append)
    moreover have "8 + length hb \<le> n" using False by simp
    ultimately show ?thesis
      using body [of "(?p2 + 4) mod kBlockSize"] by (subst client_spec.simps(3)) (simp add: take_frame(2) del: take_append)
  qed
  have head: "\<exists>pc p rest. client_spec ph (C_header (of_nat (length hb))) calls ?p1 (take (n - 4) (hb @ frame rb @ later)) = ([], Waiting pc p rest)"
    using blen hb by (subst client_spec.simps(2)) (auto simp: unat_of_nat_u32)
  show ?thesis
  proof (cases "n < 4")
    case True
    then show ?thesis by (subst client_spec.simps(1)) auto
  next
    case False
    then show ?thesis using al(1) head by (subst client_spec.simps(1)) (simp add: take_frame not_less del: take_append)
  qed
qed

text \<open>
  The client on the first bytes of a sequence of responses, up to the length of a body behind
  \<open>rs\<close>: it completes the calls whose responses are there in full, and waits.
\<close>

lemma client_spec_arrived:
  assumes "completions ph calls rs = Some effs" and "\<forall>(hb, rb) \<in> set rs. length hb < 2 ^ 32 \<and> length rb < 2 ^ 32"
    and "lengths_aligned pos rs" and "0 \<le> pos" and "pos < kBlockSize" and "aligned (pos + int (length (pairs_bytes rs)))"
    and "ph hb = Some h" and "length hb < 2 ^ 32" and "length rb < 2 ^ 32" and "n < length (pairs_bytes rs) + 8 + length hb"
  shows "\<exists>pc p rest. client_spec ph C_header_len calls pos (take n (pairs_bytes (rs @ (hb, rb) # later)))
    = (take (whole n (rs @ (hb, rb) # later)) effs, Waiting pc p rest)"
  using assms
proof (induction rs arbitrary: pos calls effs n)
  case Nil
  then show ?case using client_spec_partial [of ph hb h rb n pos calls "pairs_bytes later"] by simp
next
  case (Cons x rs)
  obtain hb' rb' where x: "x = (hb', rb')" by fastforce
  from Cons.prems(1) x obtain h' call m effs' where
    h: "ph hb' = Some h'" "calls (request_id h') = Some call" "parse_response call rb' = Some m"
    and rest: "completions ph (calls(request_id h' := None)) rs = Some effs'"
    and effs: "effs = handle_response call m # effs'"
    by (auto split: option.splits)
  have len: "length hb' < 2 ^ 32" "length rb' < 2 ^ 32" using Cons.prems(2) x by auto
  let ?k = "8 + length hb' + length rb'" and ?p = "(pos + 8 + int (length hb') + int (length rb')) mod kBlockSize"
  have al: "aligned pos" "aligned (pos + 4 + int (length hb'))" "lengths_aligned ?p rs"
    using Cons.prems(3) x by (simp_all add: lengths_aligned_mod)
  show ?case
  proof (cases "n < ?k")
    case True
    then show ?thesis using client_spec_partial [of ph hb' h' rb' n pos calls] h(1) len al(1,2) by (simp add: x)
  next
    case False
    have p: "aligned (?p + int (length (pairs_bytes rs)))"
      using Cons.prems(6) by (simp add: x frame_split(3) aligned_def mod_simps algebra_simps)
    have n: "n - ?k < length (pairs_bytes rs) + 8 + length hb"
      using Cons.prems(10) False by (simp add: x frame_split(3))
    have small: "\<forall>(hb, rb) \<in> set rs. length hb < 2 ^ 32 \<and> length rb < 2 ^ 32" and pos: "0 \<le> ?p" "?p < kBlockSize"
      using Cons.prems(2) by (simp_all add: kBlockSize_def)
    obtain pc q lft where ih: "client_spec ph C_header_len (calls(request_id h' := None)) ?p (take (n - ?k) (pairs_bytes (rs @ (hb, rb) # later)))
        = (take (whole (n - ?k) (rs @ (hb, rb) # later)) effs', Waiting pc q lft)"
      using Cons.IH [OF rest _ al(3) _ _ p Cons.prems(7-9) n] small pos by blast
    have "take n (pairs_bytes ((x # rs) @ (hb, rb) # later)) = frame hb' @ frame rb' @ take (n - ?k) (pairs_bytes (rs @ (hb, rb) # later))"
      using False by (simp add: x frame_split(3) algebra_simps)
    then show ?thesis
      using client_spec_response [of ph hb' h' calls call rb' m pos, OF h len al(1,2)] ih False by (simp add: x effs Let_def)
  qed
qed

text \<open>The client on the responses: the calls the first 361 of them complete, and what stands behind these.\<close>

definition echo_done :: "nat \<Rightarrow> string effect" where
  "echo_done i = RunDone i (3 * i + 1) (''[Echo1] echo request'' @ to_string i)"

lemma echo_responses_split:
  "echo_responses ser_hd ser_msg 0 1001 = echo_responses ser_hd ser_msg 0 361 @
     (ser_hd (response_header (echo_header_of 361)), ser_msg (Echo1 (echo_message 361))) # echo_responses ser_hd ser_msg 362 1001"
proof -
  have "[0..<1001] = [0..<361] @ 361 # [362..<1001]"
    using upt_add_eq_append [of 0 361 640] upt_conv_Cons [of 361 1001] by simp
  then show ?thesis by simp
qed

lemma echo_completions:
  assumes codec: "echo_codec parse_hd ser_hd parse_msg ser_msg"
  shows "completions parse_hd (waiting_calls s 0 (echo_client_calls ser_msg parse_msg)) (echo_responses ser_hd ser_msg 0 361)
    = Some (map echo_done [0..<361])"
proof -
  let ?calls = "echo_client_calls ser_msg parse_msg" and ?srv = "echo_services parse_hd ser_hd parse_msg ser_msg"
  note m = echo_messages [OF codec]
  have "completions parse_hd (waiting_calls s 0 ?calls) (echo_responses ser_hd ser_msg 0 1001) = Some (map (call_effect ?srv) ?calls)"
    using responses_complete [of ?calls ?srv 0 parse_hd s] echo_outcomes(2) [OF codec] codec unfolding m
    by (auto simp: echo_client_calls_eq echo_services_def register_service_def echo_codec_def)
  from completions_prefix [OF this [unfolded echo_responses_split]]
  have "completions parse_hd (waiting_calls s 0 ?calls) (echo_responses ser_hd ser_msg 0 361) = Some (take 361 (map (call_effect ?srv) ?calls))"
    by simp
  moreover have "take 361 (map (call_effect ?srv) ?calls) = map echo_done [0..<361]"
    unfolding echo_client_calls_eq list.map_comp take_map using echo_outcomes(2) [OF codec]
    by (auto simp: take_upt call_effect_def handle_response_def echo_call_def Echo1_def echo_message_def echo_done_def)
  ultimately show ?thesis by simp
qed

lemma echo_response_facts:
  assumes codec: "echo_codec parse_hd ser_hd parse_msg ser_msg"
  shows "\<forall>(hb, rb) \<in> set (echo_responses ser_hd ser_msg 0 361). length hb < 2 ^ 32 \<and> length rb < 2 ^ 32"
    and "parse_hd (ser_hd (response_header (echo_header_of 361))) = Some (response_header (echo_header_of 361))"
    and "length (ser_hd (response_header (echo_header_of 361))) = 13" and "length (ser_msg (Echo1 (echo_message 361))) < 2 ^ 32"
  using pairs_bytes_small [of "echo_responses ser_hd ser_msg 0 361"] echo_alignment(4) [OF codec] codec
    echo_message_sizes(3) [OF codec] echo_message_sizes(4) [OF codec, of 361]
  by (simp_all add: echo_codec_def)

lemma echo_whole:
  assumes codec: "echo_codec parse_hd ser_hd parse_msg ser_msg" and "16366 \<le> n" and "n < 16387"
  shows "whole n (echo_responses ser_hd ser_msg 0 1001) = 361"
  using whole_exact [of "echo_responses ser_hd ser_msg 0 361" "n - 16366"] echo_alignment(4) [OF codec] echo_response_facts(3) [OF codec] assms(2,3)
  by (simp add: echo_responses_split Let_def)

lemma echo_client_waits:
  assumes codec: "echo_codec parse_hd ser_hd parse_msg ser_msg" and n: "n < 16387"
  shows "\<exists>pc p rest. client_spec parse_hd C_header_len (waiting_calls s 0 (echo_client_calls ser_msg parse_msg)) 0
      (take n (pairs_bytes (echo_responses ser_hd ser_msg 0 1001)))
    = (map echo_done [0..<whole n (echo_responses ser_hd ser_msg 0 1001)], Waiting pc p rest)"
proof -
  note al = echo_alignment [OF codec] and f = echo_response_facts [OF codec]
  let ?rs = "echo_responses ser_hd ser_msg 0 1001"
  have "whole n ?rs \<le> 361"
    using whole_mono [of n 16386 ?rs] echo_whole [OF codec, of 16386] n by simp
  then have "take (whole n ?rs) (map echo_done [0..<361]) = map echo_done [0..<whole n ?rs]" by (simp add: take_map take_upt)
  moreover have "\<exists>pc p rest. client_spec parse_hd C_header_len (waiting_calls s 0 (echo_client_calls ser_msg parse_msg)) 0 (take n (pairs_bytes ?rs))
      = (take (whole n ?rs) (map echo_done [0..<361]), Waiting pc p rest)"
    unfolding echo_responses_split
    by (rule client_spec_arrived [OF echo_completions [OF codec] f(1) al(3) _ _ _ f(2) _ f(4)])
      (use n al(4) f(3) in \<open>simp_all add: aligned_def kBlockSize_def\<close>)
  ultimately show ?thesis by simp
qed

lemma echo_client_straddles:
  assumes codec: "echo_codec parse_hd ser_hd parse_msg ser_msg"
    and n: "16387 \<le> n"
  shows "client_spec parse_hd C_header_len (waiting_calls s 0 (echo_client_calls ser_msg parse_msg)) 0
      (take n (pairs_bytes (echo_responses ser_hd ser_msg 0 1001))) = (map echo_done [0..<361], Crashed OutOfBounds)"
proof -
  let ?hb = "ser_hd (response_header (echo_header_of 361))" and ?rb = "ser_msg (Echo1 (echo_message 361))"
  note al = echo_alignment [OF codec] and f = echo_response_facts [OF codec]
  have bytes: "pairs_bytes (xs @ (hb, rb) # ys) = pairs_bytes xs @ frame hb @ frame rb @ pairs_bytes ys" for xs ys hb rb
    by (induction xs rule: pairs_bytes.induct) simp_all
  define X where "X = take (n - 16383) (frame ?rb @ pairs_bytes (echo_responses ser_hd ser_msg 362 1001))"
  have X: "4 \<le> length X" using n by (simp add: X_def frame_split(3))
  have tk: "take n (pairs_bytes (echo_responses ser_hd ser_msg 0 1001)) = pairs_bytes (echo_responses ser_hd ser_msg 0 361) @ frame ?hb @ X"
    unfolding echo_responses_split bytes using n al(4) f(3) by (simp add: X_def frame_split(3))
  have cr: "client_spec parse_hd C_header_len calls' 8174 (frame ?hb @ X) = ([], Crashed OutOfBounds)" for calls' :: "int \<Rightarrow> string call option"
  proof -
    have "client_spec parse_hd C_header_len calls' 8174 (frame ?hb @ X) = client_spec parse_hd (C_header 13) calls' 8178 (?hb @ X)"
      using f(3) by (subst client_spec.simps(1)) (simp add: frame_split aligned_def kBlockSize_def)
    also have "\<dots> = client_spec parse_hd (C_response_len (response_header (echo_header_of 361))) calls' 8191 X"
      using f(2,3) by (subst client_spec.simps(2)) (simp add: kBlockSize_def)
    also have "\<dots> = ([], Crashed OutOfBounds)"
      using X by (subst client_spec.simps(3)) (simp add: aligned_def kBlockSize_def)
    finally show ?thesis .
  qed
  have "client_spec parse_hd C_header_len (waiting_calls s 0 (echo_client_calls ser_msg parse_msg)) 0
      (pairs_bytes (echo_responses ser_hd ser_msg 0 361) @ frame ?hb @ X) = (map echo_done [0..<361] @ [], Crashed OutOfBounds)"
    by (rule client_spec_responses_then [OF echo_completions [OF codec] f(1) al(3)]) (use cr al(4) in \<open>simp_all add: kBlockSize_def\<close>)
  then show ?thesis unfolding tk by simp
qed

subsection \<open>A codec\<close>

text \<open>A codec with the documented sizes, for the witness.\<close>

definition sized_header :: "header \<Rightarrow> byte list" where
  "sized_header h = [of_nat (nat (request_id h)), of_nat (nat (request_id h) div 256), of_nat (message_type_number (message_type h))]
     @ replicate (header_size h - 3) 0"

definition parse_sized_header :: "byte list \<Rightarrow> header option" where
  "parse_sized_header bs = (case bs of a # b # t # _ \<Rightarrow>
     (let h = echo_header_of (unat a + 256 * unat b) in Some (if t = 1 then h else response_header h)) | _ \<Rightarrow> None)"

definition echo_bytes :: "string \<Rightarrow> byte list" where
  "echo_bytes m = (if m = [] then [] else [10, of_nat (length m)] @ map (\<lambda>c. of_nat (of_char c)) m)"

definition parse_echo :: "byte list \<Rightarrow> string option" where
  "parse_echo bs = Some (map (\<lambda>b. char_of (unat b)) (drop 2 bs))"

lemma sized_codec: "echo_codec parse_sized_header sized_header parse_echo echo_bytes"
proof -
  have hd: "parse_sized_header (sized_header h) = Some h \<and> length (sized_header h) = header_size h"
    if "i < 1001" "h = echo_header_of i \<or> h = response_header (echo_header_of i)" for i h
  proof -
    have "i mod 256 + 256 * (i div 256 mod 256) = i" using that(1) by simp
    then have "unat (of_nat i :: byte) + 256 * unat (of_nat (i div 256) :: byte) = i"
      unfolding unat_of_nat by (simp add: take_bit_eq_mod)
    moreover have "3 \<le> header_size h" using that echo_sizes [OF that(1)] by auto
    moreover have "request_id h = int i" "message_type (echo_header_of i) = REQUEST" "message_type (response_header (echo_header_of i)) = RESPONSE"
      using that(2) by (auto simp: echo_header_of_def response_header_def)
    ultimately show ?thesis
      using that(2) by (auto simp: parse_sized_header_def sized_header_def Let_def)
  qed
  have msg: "parse_echo (echo_bytes m) = Some m \<and> length (echo_bytes m) = echo_size m"
    if "i < 1001" "m = echo_message i \<or> m = Echo1 (echo_message i)" for i m
  proof -
    have "length m < 128" "m \<noteq> []"
      using that by (auto simp: echo_message_def Echo1_def to_string_length digits_def)
    moreover have "char_of (unat (of_nat (of_char c) :: byte)) = c" for c
      using nat_of_char_less_256 [of c] by (simp add: unat_of_nat take_bit_nat_eq_self)
    ultimately show ?thesis
      by (simp add: parse_echo_def echo_bytes_def echo_size_def string_size_def varint_size.simps comp_def)
  qed
  from hd msg show ?thesis by (simp add: echo_codec_def)
qed


definition sized_services :: "string rpc_server" where
  "sized_services = echo_services parse_sized_header sized_header parse_echo echo_bytes"

definition sized_input :: "nat \<Rightarrow> byte list" where
  "sized_input n = take n (pairs_bytes (response_messages sized_services (call_headers 0 (echo_client_calls echo_bytes parse_echo)) (echo_client_calls echo_bytes parse_echo)))"

subsection \<open>Properties\<close>

text \<open>
  C13. The example client completes 361 calls and then runs into undefined behaviour. With the
  sizes protobuf documents, the tasks of its 1001 calls send their requests and the example
  server answers all of them. However many bytes \<open>n\<close> of these answers have arrived, and in
  whatever pieces: as long as they are less than 16387, the receiving coroutine waits and has run
  the closures of exactly the calls whose responses are there in full, in order, each with its
  own message, and these are 361 calls from 16366 bytes on; with 16387 bytes or more it takes the
  length of response 361 out of a buffer in which it straddles two blocks, and writes outside the
  variable the length is read into.
\<close>

theorem echo_example_overflows:
  assumes codec: "echo_codec parse_hd ser_hd parse_msg ser_msg"
    and ch: "channel_ok ch" "output_of (chan_conn ch) = []" "ib_unread (read_buf (chan_conn ch)) = []"
      "ib_pos (read_buf (chan_conn ch)) = 0" "next_request_id ch = 0"
    and srv: "srv = echo_services parse_hd ser_hd parse_msg ser_msg" and calls: "calls = echo_client_calls ser_msg parse_msg"
    and arrived: "rx_stream (rx (kern (chan_conn ch))) = take n (pairs_bytes (responses_of srv ch calls))"
  shows "\<exists>ch1. send_requests ser_hd calls ch = Some (Inr ch1) \<and>
    server_spec srv R_header_len 0 (output_of (chan_conn ch1)) = (pairs_bytes (responses_of srv ch calls), Waiting R_header_len 475 []) \<and>
    (if n < 16387
     then \<exists>pc ch2. client_session parse_hd (rx_pauses (rx (kern (chan_conn ch)))) C_header_len ch1 = Some (Inr (Some pc, ch2)) \<and>
       effects ch2 = effects ch1 @ map (\<lambda>i. RunDone i (3 * i + 1) (''[Echo1] echo request'' @ to_string i)) [0..<whole n (responses_of srv ch calls)] \<and>
       (16366 \<le> n \<longrightarrow> whole n (responses_of srv ch calls) = 361)
     else client_session parse_hd (rx_pauses (rx (kern (chan_conn ch)))) C_header_len ch1 = Some (Inl OutOfBounds))"
proof -
  note m = echo_messages [OF codec] and al = echo_alignment [OF codec]
  have rs: "responses_of srv ch calls = echo_responses ser_hd ser_msg 0 1001" using m(2) by (simp add: srv calls ch(5))
  have "length (ob_pending (write_buf (chan_conn ch))) + length (pairs_bytes (requests_of ser_hd ch calls)) < 1023 * 8192"
    using ch(2) unfolding ch(5) calls m(1) al(2) by (simp add: output_of_def)
  from send_requests_ok [OF ch(1) this, unfolded ch(2,5) calls m(1)] obtain ch1 where
    ch1: "send_requests ser_hd calls ch = Some (Inr ch1)" "channel_ok ch1" "id2session ch1 = waiting_calls (id2session ch) 0 calls"
      "output_of (chan_conn ch1) = pairs_bytes (echo_requests ser_hd ser_msg 0 1001)"
      "read_buf (chan_conn ch1) = read_buf (chan_conn ch)" "rx (kern (chan_conn ch1)) = rx (kern (chan_conn ch))" by (auto simp: calls)
  have sv: "serving (chan_conn ch1)" using ch1(2) by (simp add: channel_ok_def)
  have left: "input_left (chan_conn ch1) = take n (pairs_bytes (echo_responses ser_hd ser_msg 0 1001))"
    using arrived ch(3) ch1(5,6) rs by simp
  have ids: "id2session ch1 = waiting_calls (id2session ch) 0 (echo_client_calls ser_msg parse_msg)" "ib_pos (read_buf (chan_conn ch1)) = 0"
    using ch1(3,5) ch(4) calls by simp_all
  note run = client_session_refines [OF sv _ order_refl, unfolded ids left, unfolded ch1(6)]
  have "server_spec srv R_header_len 0 (output_of (chan_conn ch1)) = (pairs_bytes (responses_of srv ch calls), Waiting R_header_len 475 [])"
    unfolding rs ch1(4) unfolding srv by (rule echo_server_answers [OF codec])
  moreover have "client_session parse_hd (rx_pauses (rx (kern (chan_conn ch)))) C_header_len ch1 = Some (Inl OutOfBounds)" if "\<not> n < 16387"
    using run [OF echo_client_straddles [OF codec]] that by (simp add: client_session_ok_def)
  moreover have "\<exists>pc ch2. client_session parse_hd (rx_pauses (rx (kern (chan_conn ch)))) C_header_len ch1 = Some (Inr (Some pc, ch2)) \<and>
      effects ch2 = effects ch1 @ map echo_done [0..<whole n (responses_of srv ch calls)]" if "n < 16387"
    using echo_client_waits [OF codec that, of "id2session ch"] run by (fastforce simp: client_session_ok_def rs)
  moreover have "16366 \<le> n \<longrightarrow> whole n (responses_of srv ch calls) = 361" if "n < 16387"
    using echo_whole [OF codec _ that] by (simp add: rs)
  ultimately show ?thesis
    using ch1(1) unfolding echo_done_def by (intro exI [of _ ch1]) simp
qed

theorem echo_example_overflows_witness:
  "(\<exists>ch1 pc ch2. send_requests sized_header (echo_client_calls echo_bytes parse_echo) (ClientChannel (live_conn [RxData (sized_input 16386)] [] [])) = Some (Inr ch1) \<and>
     client_session parse_sized_header 0 C_header_len ch1 = Some (Inr (Some pc, ch2)) \<and>
     effects ch2 = effects ch1 @ map (\<lambda>i. RunDone i (3 * i + 1) (''[Echo1] echo request'' @ to_string i)) [0..<361]) \<and>
   (\<exists>ch1. send_requests sized_header (echo_client_calls echo_bytes parse_echo) (ClientChannel (live_conn [RxData (sized_input 16387)] [] [])) = Some (Inr ch1) \<and>
     client_session parse_sized_header 0 C_header_len ch1 = Some (Inl OutOfBounds))"
proof -
  let ?ch = "\<lambda>k. ClientChannel (live_conn [RxData (sized_input k)] [] []) :: string client_channel"
  note f = example_client_facts
  have ok: "channel_ok (?ch k)" if "k < 2 ^ 30" for k
    using that by (intro f(1)) (simp_all add: sized_input_def)
  have rs: "rx_stream (rx (kern (chan_conn (?ch k)))) = take k (pairs_bytes (responses_of sized_services (?ch k) (echo_client_calls echo_bytes parse_echo)))" for k
    by (simp add: f(5,6) sized_input_def)
  note run = echo_example_overflows [OF sized_codec ok f(2-4,6) sized_services_def refl rs, unfolded f(5)]
  show ?thesis using run [of 16386] run [of 16387] by (intro conjI) (fastforce, auto)
qed

end
