(* ===== verification/Spec2Isabelle.thy ===== *)
theory Spec2Isabelle
  imports CallStart ClientClose MpmcProperties Kqueue ExecutorQueue RingProperties Shutdown Endpoint Service Press EchoExample
begin

text \<open>
  \<^bold>\<open>Xuanqiong, an RPC library on coroutines.\<close> A client calls methods of a service on a server. Both
  sides run coroutines on an executor, which is one thread with a queue of tasks; messages travel
  over TCP connections as length-prefixed protobuf messages. The parts, from below, and the
  theories that model them:

  \<^item> \<^bold>\<open>Buffers\<close> (src/util/buffer_block.h, input_stream, output_stream): linked lists of 8192-byte
    blocks. \<open>BufferBlock\<close> has the block and the heap it lives in, where every load of a freed or
    null block is a fault; \<open>InputStream\<close> and \<open>OutputStream\<close> have every operation of the two
    buffers, \<open>ZeroCopyStream\<close> the interface through which protobuf reads and writes them. Each
    buffer has an invariant (\<open>ib_inv\<close>, \<open>ob_inv\<close>) and an abstraction (\<open>ib_unread\<close>, \<open>ob_pending\<close>: a
    list of bytes); the lemmas say what each operation does to that list. \<open>StableQueue\<close> shows that
    queueing more bytes does not touch the regions given to the kernel before.
  \<^item> \<^bold>\<open>Sockets and connections\<close> (src/net/socket, connection, poll_connection, uring_connection;
    src/scheduler/awaitable): \<open>Socket\<close> has the class and a kernel that follows a script of what
    reads find and writes take; \<open>Connection\<close> has the connections of both kinds, their system call
    loops or ring entries, the awaiters and the writing coroutine \<open>send_fn\<close>. Its properties say
    exactly how much is read and written: a resumption reads what there is to read now (\<open>rx_now\<close>), as
    far as the block has room, and writes what the kernel takes now (\<open>tx_room\<close>). \<open>Evolution\<close> shows what
    no coroutine can change in a connection, and \<open>RingEntries\<close> which ring entries it leaves: one
    read all the time, and one write exactly if bytes are in flight.
  \<^item> \<^bold>\<open>Protocol\<close> (src/proto/message.proto, src/util/common.h): \<open>Rpc\<close> has the header and the
    framing. \<open>RecvMachine\<close> has the machine both receiving coroutines are instances of, and the
    interface \<open>recv_machine\<close> in which it is proved once that a coroutine whose every step
    matches its specification matches it for every way the bytes arrive.
  \<^item> \<^bold>\<open>Server\<close> (src/server/rpc_server): \<open>RpcServer\<close> has \<open>recv_fn\<close> and the specification
    \<open>server_spec\<close>, a function of the received bytes. A session has produced the specified bytes
    in the sense of \<open>has_sent\<close>: they are on the wire, up to bytes that are queued while the writer has
    asked for a write event, and none are queued if the kernel takes whatever it is given
    (\<open>tx_open\<close>). \<open>Service\<close> has the controller
    (src/util/service) and the echo service (src/example/echo_service).
  \<^item> \<^bold>\<open>Client\<close> (src/client/client_channel): \<open>ClientChannel\<close> has \<open>CallMethod\<close>, \<open>recv_fn\<close> and the
    specification \<open>client_spec\<close>. \<open>EndToEnd\<close> has what the messages of client and server are and
    that the answers to the requests are the responses; \<open>ClientClose\<close> what becomes of a channel
    when its server closes the connection. A response to a call nobody made desynchronizes the
    stream (\<open>client_spec_unknown\<close>).
  \<^item> \<^bold>\<open>Task queue\<close> (src/util/mpmc_queue): \<open>MpmcQueue\<close> has \<open>push\<close> and \<open>pop\<close> as steps between
    their atomic accesses and the relation \<open>sys_step\<close> in which any number of calls interleave;
    \<open>MpmcInvariant\<close> the invariant of all reachable states; \<open>MpmcSequential\<close> calls that are not
    disturbed, and the interface \<open>fifo_queue\<close> they provide; \<open>MpmcProperties\<close> the properties.
  \<^item> \<^bold>\<open>Executors\<close> (src/scheduler): \<open>Notify\<close> has the interleaving of \<open>spawn\<close> with the thread as a
    step relation, how many steps the thread needs to execute the tasks it was woken for
    (\<open>notify_run\<close>, \<open>heads_for\<close>), and the wakeup that can be lost. \<open>Executor\<close> has the loop of the
    thread, the tasks of the server and the interface \<open>poll_executor\<close>: how tasks are spawned,
    suspended coroutines registered and reported events handled. In it the invariant \<open>tended\<close> (every
    connection is on its way to the specified output, \<open>on_track\<close>, and watched for what it waits for)
    is kept by read and write events in any order, and so it is proved once that an executor serves
    all its connections; \<open>Epoll\<close> and \<open>Kqueue\<close> provide it. \<open>ExecutorQueue\<close> puts the task queue in the place
    of the list of tasks, by a simulation over the interface \<open>fifo_queue\<close>. \<open>Uring\<close> has the
    executor that waits for completions. \<open>Shutdown\<close> has \<open>stop\<close> and the destructors, interleaved
    with the thread.
  \<^item> \<^bold>\<open>The server on a ring\<close>, its default policy: \<open>RingSession\<close> has what one resumption of a ring
    connection's coroutines does, \<open>RingServer\<close> the whole as a step relation (\<open>ring_step\<close>: kernel,
    thread, accepting main thread), \<open>RingSystem\<close> its invariant and the work left, and
    \<open>RingProperties\<close> that it is safe, ends, and answers everything.
  \<^item> \<^bold>\<open>Clients and server as one system\<close>: \<open>CallSystem\<close> has a client's executor and the step
    relation \<open>call_step\<close>, in which any number of clients and a server on an epoll executor run:
    calls, tasks, events and bytes in both directions, in any order. \<open>CallSide\<close> and \<open>CallEnds\<close> have
    the invariants of the two ends of a connection, \<open>CallClient\<close> and \<open>CallServer\<close> that their
    steps keep them, \<open>CallPair\<close> a client together with its session and the work left there,
    \<open>CallInvariant\<close> all of them, and \<open>CallStart\<close> the start from new connections. The properties
    are below. \<open>ServerInput\<close> has how the specification of the server takes input in pieces, and
    \<open>Progress\<close> what an invariant and a measure give for a step relation, as a locale that the
    benchmark, the shutdown, the server on a ring and this system interpret.
  \<^item> \<^bold>\<open>Benchmark\<close> (src/press/rpc_press): \<open>Press\<close> has its threads, counters and main thread.
  \<^item> \<^bold>\<open>Examples\<close> (src/example/echo_server, echo_client): \<open>EchoExample\<close> has both programs, and with the
    sizes of their messages where each length lies in the buffers.
  \<^item> \<^bold>\<open>Set-up\<close> (src/net/socket_utils, src/net/accepter, src/scheduler/scheduler, the constructors
    of server and client): \<open>Endpoint\<close>, over arbitrary answers of the kernel; \<open>server_start\<close> is the
    first \<open>n\<close> turns of the accept loop, which has no end.

  \<^bold>\<open>Conventions.\<close> A result is \<open>Inl\<close> of a fault where the code has undefined behaviour and \<open>Inr\<close>
  otherwise (\<open>res\<close>, theory \<open>Prelude\<close>); where a loop may run for ever it is a partial function into
  \<open>option\<close>, and \<open>None\<close> means that it does not return. Theorems on correct behaviour state that
  the result is \<open>Some (Inr _)\<close>. A coroutine is its resume point; running it is a function from
  its resume point to the next one.

  \<^bold>\<open>Bounds.\<close> Queues below 1023 blocks of 8192 bytes fit into one \<open>writev\<close> (\<open>IOV_MAX\<close> is 1024).
  The inputs of a session are below \<open>2 ^ 31 - 1\<close> bytes, the read limit of the buffer. The number
  of resumptions in the theorems on sessions is \<open>rx_pauses\<close>, the number of times the script of the
  socket makes a read find nothing. An answer takes eight bytes at least, so a kernel whose next
  \<open>length out div 8\<close> writes take whatever they are given takes all of the output \<open>out\<close>. A length field that straddles two blocks makes the code write
  outside its object, so the theorems either exclude it (\<open>lengths_aligned\<close>) or name it as an
  outcome. Byte counters, lengths and ring tags are machine words; the indices of the task queue
  and the request numbers of the client are unbounded numbers, as \<open>2 ^ 63\<close> of them are not reached.

  \<^bold>\<open>What is assumed.\<close> The protobuf codec and the services are parameters; what is used of the codec
  (that parsing a serialized header gives it back) is a hypothesis of the theorems that need it.
  The kernel is the script of theory \<open>Socket\<close>, the interest list of \<open>Epoll\<close>, the filters of \<open>Kqueue\<close>
  and the ring of \<open>Uring\<close>; \<open>tx_steady\<close> says that it makes a short write only when its buffer is
  full, and a theorem of \<open>Connection\<close> shows what happens otherwise. The registration calls a
  coroutine makes are applied when it suspends and fail only for the reasons the interest list
  and the filters give: \<open>kevent\<close> does not refuse to add a filter, and the trigger in
  \<open>KqueueExecutor::stop\<close> succeeds. Calls of the task queue that run alone (\<open>run_to_end\<close>) have no
  spurious failure of a compare-and-swap; the interleaved ones (\<open>sys_step\<close>) may. The polling loop
  at the end of the benchmark is one step that may see completion or the time limit. A time-out
  of \<open>epoll_wait\<close> is a wait that reports nothing, so \<open>Scheduler\<close> has no time-out argument; \<open>Shutdown\<close>
  distinguishes negative ones. In the theorems on the server over a ring the kernel completes every write
  in full (theory \<open>Uring\<close> shows what a short one does), a peer closes its connection, if at all,
  after its last answer and between requests (\<open>RingProperties\<close> shows what happens in a request),
  \<open>stop_\<close> starts as false, and a call of \<open>spawn\<close> and a turn of the thread up to its wait are one
  step each (theory \<open>Notify\<close> has their finer interleaving, with the wakeup that can be lost).

  In the system of clients and server, every client is a process with one channel; the processes
  have all connected before the first call; an executor runs the tasks it has (theory \<open>Notify\<close>
  again has the wakeup that can be lost); a kernel reports readable what has bytes that were not
  reported, for each arrival once, together with others, or late, and writable what is
  registered for it and has room; no peer closes its connection; and a client's calls satisfy
  \<open>calls_ok\<close>: the server can serve them, the codecs round trip on their headers, no length
  straddles two blocks, and requests and responses stay below 1023 blocks. \<open>EchoExample\<close> shows
  that the example programs do not satisfy it.

  \<^bold>\<open>Not modelled.\<close> The order of memory accesses weaker than sequential consistency, in the task
  queue and in \<open>spawn\<close>; when a connection object is destroyed; logging, the measuring of time and
  the report of the benchmark, which have no effect on the rest; the tests and the vendored
  libraries, which are not part of the program. Peers that close their connection to a ring
  executor before their last answer, and clients over a ring, which the code does not support
  (theory \<open>Endpoint\<close>), are left out of the theorems on whole systems.
\<close>

section \<open>Properties of the whole\<close>

text \<open>
  C1. Every call completes. Any number of clients call methods of one server that runs an epoll
  executor. The applications make their calls, the executors run tasks and handle the events
  the kernels report, and bytes travel in both directions, all in any order and in pieces of
  any size. The start succeeds; from every state that can be reached one is reached in which
  nothing can happen any more; and in each such state every client has completed all its calls,
  each exactly once, in the order in which they were made, with the message the service
  returned for its request, and none of its calls waits any more.
\<close>

theorem calls_complete:
  assumes su: "call_setup ser ph srv mk link calls as ex"
  shows "(\<exists>w0. call_start ph srv mk link calls as ex w0) \<and>
    (\<forall>w0 w. call_start ph srv mk link calls as ex w0 \<and> (call_step (snd ` set as) ser ph srv)\<^sup>*\<^sup>* w0 w \<longrightarrow>
      (\<exists>w'. (call_step (snd ` set as) ser ph srv)\<^sup>*\<^sup>* w w' \<and> \<not> (\<exists>w''. call_step (snd ` set as) ser ph srv w' w'')) \<and>
      (\<not> (\<exists>w'. call_step (snd ` set as) ser ph srv w w') \<longrightarrow> (\<forall>p \<in> snd ` set as.
         filter completes (effects (channel (clients w p))) = map (call_effect srv) (calls p) \<and> id2session (channel (clients w p)) = Map.empty)))"
proof (intro conjI allI impI ballI)
  show "\<exists>w0. call_start ph srv mk link calls as ex w0" by (rule call_start_exists [OF su])
  fix w0 w assume w: "call_start ph srv mk link calls as ex w0 \<and> (call_step (snd ` set as) ser ph srv)\<^sup>*\<^sup>* w0 w"
  then have inv: "finite (snd ` set as) \<and> call_inv (snd ` set as) ser ph srv calls w"
    using call_run.steps_inv call_start_inv [OF su] by blast
  then show "\<exists>w'. (call_step (snd ` set as) ser ph srv)\<^sup>*\<^sup>* w w' \<and> \<not> (\<exists>w''. call_step (snd ` set as) ser ph srv w' w'')"
    by (rule call_run.reaches_end)
  fix p assume p: "p \<in> snd ` set as" and stuck: "\<not> (\<exists>w'. call_step (snd ` set as) ser ph srv w w')"
  show "filter completes (effects (channel (clients w p))) = map (call_effect srv) (calls p)" "id2session (channel (clients w p)) = Map.empty"
    using call_stuck [OF conjunct2 [OF inv] p] stuck by blast+
qed

theorem calls_complete_witness:
  "\<exists>w0 w. call_start (parse_id_header RESPONSE) id_server call_link (call_link 9) (\<lambda>_. two_calls) [(5, 4), (6, 8)] call_executor w0 \<and>
     (call_step {4, 8} id_header (parse_id_header RESPONSE) id_server)\<^sup>*\<^sup>* w0 w \<and>
     (\<forall>p \<in> {4, 8}. filter completes (effects (channel (clients w p))) = [RunDone 9 3 [0, 5], DeleteResponse 4])"
proof -
  let ?P = "snd ` set [(5 :: int, 4 :: 64 word), (6, 8)]"
  note all = calls_complete [OF two_clients_setup]
  from all obtain w0 :: "(byte list, byte list) call_world" where
    w0: "call_start (parse_id_header RESPONSE) id_server call_link (call_link 9) (\<lambda>_. two_calls) [(5, 4), (6, 8)] call_executor w0" by blast
  with all obtain w where w: "(call_step ?P id_header (parse_id_header RESPONSE) id_server)\<^sup>*\<^sup>* w0 w"
    "\<not> (\<exists>w'. call_step ?P id_header (parse_id_header RESPONSE) id_server w w')" by blast
  with all w0 have "\<forall>p \<in> ?P. filter completes (effects (channel (clients w p))) = map (call_effect id_server) two_calls" by blast
  with w w0 show ?thesis by (auto simp: two_calls_effects)
qed

text \<open>
  C2. Nothing goes wrong on the way: in every state that can be reached, no task and no event
  that is due faults or hangs; each client has put a prefix of its requests on the wire and
  the server a prefix of the answers to them; and the calls that have completed are the first
  ones of the client, each once and with its own answer.
\<close>

theorem calls_stay_safe:
  assumes su: "call_setup ser ph srv mk link calls as ex"
    and w0: "call_start ph srv mk link calls as ex w0" and w: "(call_step (snd ` set as) ser ph srv)\<^sup>*\<^sup>* w0 w"
  shows "\<not> call_faults (snd ` set as) ser ph srv w \<and> (\<forall>p \<in> snd ` set as. \<exists>k s.
    filter completes (effects (channel (clients w p))) = map (call_effect srv) (take k (calls p)) \<and>
    prefix (wire (kern (client_sock w p))) (pairs_bytes (requests ser (calls p))) \<and>
    sessions (server_ex w) p = Some s \<and> prefix (wire (kern (s_conn s))) (pairs_bytes (responses srv (calls p))))"
proof -
  have "call_inv (snd ` set as) ser ph srv calls w" using call_run.steps_inv [OF w] call_start_inv [OF su w0] by simp
  from call_no_fault [OF this] call_progress [OF this] show ?thesis by blast
qed

theorem calls_stay_safe_witness:
  "\<exists>w0. call_start (parse_id_header RESPONSE) id_server call_link (call_link 9) (\<lambda>_. two_calls) [(5, 4), (6, 8)] call_executor w0 \<and>
     \<not> call_faults {4, 8} id_header (parse_id_header RESPONSE) id_server w0"
proof -
  from call_start_exists [OF two_clients_setup] obtain w0 where
    w0: "call_start (parse_id_header RESPONSE) id_server call_link (call_link 9) (\<lambda>_. two_calls) [(5, 4), (6, 8)] call_executor w0" by blast
  from calls_stay_safe [OF two_clients_setup w0 rtranclp.rtrancl_refl] w0 show ?thesis by auto
qed

text \<open>
  C3. No run goes on for ever: the clients, the server and the network cannot take infinitely
  many steps for finitely many calls.
\<close>

theorem call_runs_end:
  assumes "call_setup ser ph srv mk link calls as ex" and "call_start ph srv mk link calls as ex w0"
  shows "\<nexists>run. run 0 = w0 \<and> (\<forall>i. call_step (snd ` set as) ser ph srv (run i) (run (Suc i)))"
  by (rule call_run.no_infinite_run) (use call_start_inv [OF assms] in simp)

theorem call_runs_end_witness:
  "\<exists>w0. call_start (parse_id_header RESPONSE) id_server call_link (call_link 9) (\<lambda>_. two_calls) [(5, 4), (6, 8)] call_executor w0 \<and>
     (\<nexists>run. run 0 = w0 \<and> (\<forall>i. call_step {4, 8} id_header (parse_id_header RESPONSE) id_server (run i) (run (Suc i))))"
proof -
  from call_start_exists [OF two_clients_setup] obtain w0 where
    w0: "call_start (parse_id_header RESPONSE) id_server call_link (call_link 9) (\<lambda>_. two_calls) [(5, 4), (6, 8)] call_executor w0" by blast
  from call_runs_end [OF two_clients_setup w0] w0 show ?thesis by auto
qed

text \<open>
  Remote calls complete: a client channel sends any sequence of calls the server can serve;
  if the network delivers to the server the bytes the client sent (cut into any pieces), the
  server's session waits for more, and if it delivers to the client the bytes the server sent,
  then each call's closure runs exactly once, in the order of the calls, on the message the
  service returned for that call's request (a call without closure has its response deleted),
  and the client waits for more. The codecs round trip on the headers of these calls, no length
  field straddles two blocks of a receive buffer, and the queues stay below 1023 blocks.
\<close>

theorem remote_calls_complete:
  assumes ch: "channel_ok ch" "output_of (chan_conn ch) = []" "ib_unread (read_buf (chan_conn ch)) = []"
    and servable: "\<forall>call \<in> set calls. call_outcome srv call \<noteq> None"
    and codec: "\<forall>h \<in> set (call_headers (next_request_id ch) calls). parse_header srv (ser h) = Some h"
      "\<forall>h \<in> set (call_headers (next_request_id ch) calls).
        ph (serialize_header srv (response_header h)) = Some (response_header h)"
    and reqs: "lengths_aligned 0 (requests_of ser ch calls)" "length (pairs_bytes (requests_of ser ch calls)) < 1023 * 8192"
    and resps: "lengths_aligned (ib_pos (read_buf (chan_conn ch))) (responses_of srv ch calls)"
      "length (pairs_bytes (responses_of srv ch calls)) < 1023 * 8192"
  shows "\<exists>ch1. send_requests ser calls ch = Some (Inr ch1) \<and>
    output_of (chan_conn ch1) = pairs_bytes (requests_of ser ch calls) \<and>
    (\<forall>c. fresh_conn c \<and> rx_live (rx (kern c)) \<and> tx_steady (tx (kern c)) \<and>
        rx_stream (rx (kern c)) = output_of (chan_conn ch1) \<longrightarrow>
      (\<exists>c'. session srv (rx_pauses (rx (kern c))) c = Some (Inr (Some R_header_len, c')) \<and>
        output_of c' = pairs_bytes (responses_of srv ch calls) \<and>
        (rx_stream (rx (kern (chan_conn ch))) = output_of c' \<longrightarrow>
          (\<exists>ch2. client_session ph (rx_pauses (rx (kern (chan_conn ch)))) C_header_len ch1
                = Some (Inr (Some C_header_len, ch2)) \<and>
            effects ch2 = effects ch1 @ map (call_effect srv) calls))))"
proof -
  have "length (ob_pending (write_buf (chan_conn ch))) + length (pairs_bytes (requests_of ser ch calls)) < 1023 * 8192"
    using ch(2) reqs(2) by (simp add: output_of_def)
  from send_requests_ok [OF ch(1) this, unfolded ch(2) append_Nil] obtain ch1 where
    ch1: "send_requests ser calls ch = Some (Inr ch1)" "channel_ok ch1"
      "id2session ch1 = waiting_calls (id2session ch) (next_request_id ch) calls"
      "output_of (chan_conn ch1) = pairs_bytes (requests_of ser ch calls)"
      "read_buf (chan_conn ch1) = read_buf (chan_conn ch)" "rx (kern (chan_conn ch1)) = rx (kern (chan_conn ch))"
    by blast
  have reply: "\<forall>call \<in> set calls. reply_bytes srv call \<noteq> None" 
    by (intro ballI call_outcome_reply) (rule bspec [OF servable])
  show ?thesis
  proof (intro exI [of _ ch1] conjI allI impI ch1(1,4))
    fix c assume "fresh_conn c \<and> rx_live (rx (kern c)) \<and> tx_steady (tx (kern c)) \<and>
        rx_stream (rx (kern c)) = output_of (chan_conn ch1)"
    then have c: "fresh_conn c" "rx_live (rx (kern c))" "tx_steady (tx (kern c))"
      "rx_stream (rx (kern c)) = pairs_bytes (requests_of ser ch calls)" using ch1(4) by simp_all
    from server_answers_requests [OF c reply codec(1) reqs resps(2)] obtain c' where
      c': "session srv (rx_pauses (rx (kern c))) c = Some (Inr (Some R_header_len, c'))"
        "output_of c' = pairs_bytes (responses_of srv ch calls)" by blast
    have "rx_stream (rx (kern (chan_conn ch))) = output_of c' \<Longrightarrow>
      \<exists>ch2. client_session ph (rx_pauses (rx (kern (chan_conn ch)))) C_header_len ch1
          = Some (Inr (Some C_header_len, ch2)) \<and> effects ch2 = effects ch1 @ map (call_effect srv) calls"
      by (rule client_completes_calls [OF ch1(2,3) _ _ servable codec(2), unfolded ch1(5,6)])
        (use ch ch1 c' resps in simp_all)
    with c' show "\<exists>c'. session srv (rx_pauses (rx (kern c))) c = Some (Inr (Some R_header_len, c')) \<and>
        output_of c' = pairs_bytes (responses_of srv ch calls) \<and>
        (rx_stream (rx (kern (chan_conn ch))) = output_of c' \<longrightarrow>
          (\<exists>ch2. client_session ph (rx_pauses (rx (kern (chan_conn ch)))) C_header_len ch1
                = Some (Inr (Some C_header_len, ch2)) \<and>
            effects ch2 = effects ch1 @ map (call_effect srv) calls))" by blast
  qed
qed

theorem remote_calls_complete_witness:
  "\<exists>ch1 c' ch2.
     send_requests id_header two_calls (ClientChannel (live_conn [RxData (pairs_bytes two_responses)] [] [])) = Some (Inr ch1) \<and>
     session id_server 1 (fresh_example [RxData (pairs_bytes two_requests), RxErrno EAGAIN] [TxTake 9])
       = Some (Inr (Some R_header_len, c')) \<and>
     client_session (parse_id_header RESPONSE) 0 C_header_len ch1 = Some (Inr (Some C_header_len, ch2)) \<and>
     effects ch2 = effects ch1 @ [RunDone 9 3 [0, 5], DeleteResponse 4]"
proof -
  let ?c = "fresh_example [RxData (pairs_bytes two_requests), RxErrno EAGAIN] [TxTake 9]"
  let ?ch = "ClientChannel (live_conn [RxData (pairs_bytes two_responses)] [] []) :: byte list client_channel"
  note ch = example_client_facts [of "[RxData (pairs_bytes two_responses)]"]
  have "channel_ok ?ch" by (rule ch(1)) simp_all
  from remote_calls_complete [of ?ch two_calls id_server id_header "parse_id_header RESPONSE",
      unfolded ch two_calls_effects two_calls_messages, OF this] two_calls_outcome two_calls_headers
  obtain ch1 where "send_requests id_header two_calls ?ch = Some (Inr ch1)"
    "output_of (chan_conn ch1) = pairs_bytes two_requests" and
    run: "\<And>c. fresh_conn c \<Longrightarrow> rx_live (rx (kern c)) \<Longrightarrow> tx_steady (tx (kern c)) \<Longrightarrow>
        rx_stream (rx (kern c)) = output_of (chan_conn ch1) \<Longrightarrow>
      \<exists>c'. session id_server (rx_pauses (rx (kern c))) c = Some (Inr (Some R_header_len, c')) \<and>
        output_of c' = pairs_bytes two_responses \<and>
        (pairs_bytes two_responses = output_of c' \<longrightarrow>
          (\<exists>ch2. client_session (parse_id_header RESPONSE) 0 C_header_len ch1 = Some (Inr (Some C_header_len, ch2)) \<and>
            effects ch2 = effects ch1 @ [RunDone 9 3 [0, 5], DeleteResponse 4]))"
    by auto
  then show ?thesis
    using run [of ?c] by (auto simp: fresh_example_facts)
qed

end
